(* ===== verification/Es_Prelude.thy ===== *)
theory Es_Prelude
  imports Main "HOL-Library.Word"
begin

text \<open>
  Shared vocabulary of the development: the machine types the Go code uses, the error values,
  the fixed-width big-endian byte codecs of \<^verbatim>\<open>encoding/binary\<close>, the two string helpers of
  \<^verbatim>\<open>strings\<close> that the dispatcher calls, and the generic list lemmas the components share.
  The collection \<open>store_simps\<close> holds the unfolding rules of the record-of-functions interfaces.
\<close>

named_theorems store_simps \<open>field selectors of the interface records\<close>

section \<open>Machine types\<close>

text \<open>
  \<^verbatim>\<open>uint64\<close> and \<^verbatim>\<open>byte\<close> keep their width, so that counters and subtractions wrap as they do
  in Go. \<^verbatim>\<open>uuid.UUID\<close> is a \<^verbatim>\<open>[16]byte\<close>, kept as one 128-bit word whose zero value is
  \<^verbatim>\<open>uuid.Nil\<close>. A \<^verbatim>\<open>time.Time\<close> is the instant it denotes, in nanoseconds since the Unix epoch
  (the location is presentation only). A slice that may be \<^verbatim>\<open>nil\<close> is an option.
\<close>

type_synonym u64 = "64 word"
type_synonym byte = "8 word"
type_synonym uuid = "128 word"
type_synonym time = int
type_synonym bytes = "byte list"
type_synonym slice = "bytes option"

abbreviation uuid_nil :: uuid where "uuid_nil \<equiv> 0"

section \<open>Errors\<close>

text \<open>
  One constructor per sentinel error variable of package \<^verbatim>\<open>es\<close>, and of \<^verbatim>\<open>database/sql\<close> where the code asks for it. \<open>ErrText\<close> is an error made by
  \<^verbatim>\<open>errors.New\<close> or by \<^verbatim>\<open>fmt.Errorf\<close> without \<^verbatim>\<open>%w\<close>, \<open>ErrWrap\<close> one made with \<^verbatim>\<open>%w\<close>; the text is the
  constant part of the message. \<open>Panic\<close> is a run-time panic.
\<close>

datatype error =
    ErrConcurrencyConflict
  | ErrAggregateNotFound
  | ErrSubjectNotFound
  | ErrPiiLookupUnsupported
  | ErrPiiUnrecoverable
  | ErrNoErasureRecord
  | ErrNoKeyLister
  | ErrTxDone
  | ErrNoRows
  | ErrJson
  | ErrText string
  | ErrWrap string error
  | Panic string

text \<open>\<^verbatim>\<open>errors.Is\<close> walks the chain of wrapped errors.\<close>

fun errors_is :: "error \<Rightarrow> error \<Rightarrow> bool" where
  "errors_is (ErrWrap m e) t = (ErrWrap m e = t \<or> errors_is e t)"
| "errors_is e t = (e = t)"

lemma errors_is_refl [simp]: "errors_is e e"
  by (cases e) auto

section \<open>Big-endian byte codecs\<close>

text \<open>
  \<open>be_bytes n w\<close> is the \<open>n\<close>-byte big-endian representation of \<open>w\<close>: \<^verbatim>\<open>binary.BigEndian.PutUint64\<close>
  for \<open>n = 8\<close>, \<^verbatim>\<open>PutUint16\<close> for \<open>n = 2\<close>, and the bytes of a UUID for \<open>n = 16\<close>.
\<close>

definition be_bytes :: "nat \<Rightarrow> 'a::len word \<Rightarrow> bytes" where
  "be_bytes n w = map (\<lambda>i. ucast (drop_bit (8 * (n - Suc i)) w)) [0..<n]"

lemma length_be_bytes [simp]: "length (be_bytes n w) = n"
  by (simp add: be_bytes_def)

lemma be_bytes_inj:
  fixes v w :: "'a::len word"
  assumes eq: "be_bytes n v = be_bytes n w" and wide: "LENGTH('a) \<le> 8 * n"
  shows "v = w"
proof (rule bit_word_eqI)
  fix k assume k: "k < LENGTH('a)"
  define i where "i = n - Suc (k div 8)"
  have kn: "k div 8 < n" using k wide by (simp add: div_less_iff_less_mult)
  then have i: "i < n" and bk: "n - Suc i = k div 8" by (auto simp: i_def)
  have "be_bytes n v ! i = be_bytes n w ! i" by (simp only: eq)
  then have "(ucast (drop_bit (8 * (k div 8)) v) :: byte) = ucast (drop_bit (8 * (k div 8)) w)"
    using i by (simp add: be_bytes_def bk)
  then have "bit (ucast (drop_bit (8 * (k div 8)) v) :: byte) (k mod 8)
    = bit (ucast (drop_bit (8 * (k div 8)) w) :: byte) (k mod 8)" by simp
  moreover have "k mod 8 < 8" by simp
  ultimately show "bit v k = bit w k"
    by (simp add: bit_ucast_iff bit_drop_bit_eq algebra_simps)
qed

text \<open>\<^verbatim>\<open>binary.BigEndian.Uint16\<close> of a two-byte slice.\<close>

definition be_uint16 :: "byte \<Rightarrow> byte \<Rightarrow> nat" where
  "be_uint16 hi lo = 256 * unat hi + unat lo"

lemma be_uint16_be_bytes:
  fixes w :: "16 word"
  shows "be_bytes 2 w = [hi, lo] \<Longrightarrow> be_uint16 hi lo = unat w"
proof -
  assume a: "be_bytes 2 w = [hi, lo]"
  have "hi = ucast (drop_bit 8 w)" and "lo = ucast w"
    using a by (auto simp: be_bytes_def upt_rec)
  moreover have small: "unat w < 65536" using unsigned_less [of w] by simp
  moreover have "unat w div 256 < 256" using small by (simp add: div_less_iff_less_mult)
  ultimately show ?thesis
    by (simp add: be_uint16_def unsigned_ucast_eq unat_drop_bit_eq take_bit_eq_mod drop_bit_eq_div
        unat_div)
qed

section \<open>Go strings\<close>

text \<open>\<^verbatim>\<open>strings.HasPrefix(s, p)\<close> and \<^verbatim>\<open>strings.CutSuffix(s, suf)\<close> (the cut string and whether it was there).\<close>

definition has_prefix :: "string \<Rightarrow> string \<Rightarrow> bool" where
  "has_prefix s p \<longleftrightarrow> take (length p) s = p"

definition cut_suffix :: "string \<Rightarrow> string \<Rightarrow> string \<times> bool" where
  "cut_suffix s suf =
     (if length suf \<le> length s \<and> drop (length s - length suf) s = suf
      then (take (length s - length suf) s, True) else (s, False))"

lemma has_prefix_iff: "has_prefix s p \<longleftrightarrow> (\<exists>r. s = p @ r)"
  unfolding has_prefix_def by (metis append_eq_conv_conj append_take_drop_id)

lemma cut_suffix_append [simp]: "cut_suffix (p @ suf) suf = (p, True)"
  by (simp add: cut_suffix_def)

lemma cut_suffix_True: "cut_suffix s suf = (p, True) \<Longrightarrow> s = p @ suf"
  unfolding cut_suffix_def by (auto split: if_splits) (metis append_take_drop_id)

section \<open>Lists and words\<close>

lemma strict_sorted_map_of_nat:
  assumes "n < 2 ^ 64"
  shows "sorted_wrt (<) (map (of_nat :: nat \<Rightarrow> u64) [1..<Suc n])"
proof -
  have "(of_nat i :: u64) < of_nat j" if "i < j" "j \<le> n" for i j
    using that assms by (simp add: word_less_nat_alt unat_of_nat)
  then show ?thesis
    by (auto simp: sorted_wrt_map sorted_wrt_iff_nth_less simp del: upt_Suc of_nat_Suc)
qed

lemma upt_split: "[0..<n + m] = [0..<n] @ map (\<lambda>i. n + i) [0..<m]"
  by (rule nth_equalityI) (auto simp: nth_append)

lemma unat_of_nat_u64: "n < 2 ^ 64 \<Longrightarrow> unat (of_nat n :: u64) = n"
  by (simp add: unat_of_nat)

lemma of_nat_u64_inj:
  "(of_nat m :: u64) = of_nat n \<Longrightarrow> m < 2 ^ 64 \<Longrightarrow> n < 2 ^ 64 \<Longrightarrow> m = n"
  by (metis unat_of_nat_u64)

lemma filter_append_snoc: "filter P (xs @ [x]) = filter P xs @ (if P x then [x] else [])"
  by simp

section \<open>Runs\<close>

text \<open>A step relation that keeps an invariant and goes down a well-founded order stops, and cannot but stop.\<close>

lemma runs_stop:
  assumes "wf m" "\<And>c d. I c \<Longrightarrow> R c d \<Longrightarrow> I d" "\<And>c d. I c \<Longrightarrow> R c d \<Longrightarrow> (d, c) \<in> m" "I c"
  shows "\<exists>d. R\<^sup>*\<^sup>* c d \<and> (\<nexists>e. R d e)"
  using assms(1,4)
proof (induction c rule: wf_induct_rule)
  case (less c)
  show ?case
  proof (cases "\<exists>e. R c e")
    case True
    then obtain e where e: "R c e" by blast
    from less.IH [OF assms(3) [OF less.prems e] assms(2) [OF less.prems e]] e
    show ?thesis by (meson converse_rtranclp_into_rtranclp)
  qed blast
qed

lemma no_infinite_run:
  assumes "wf m" "\<And>c d. I c \<Longrightarrow> R c d \<Longrightarrow> I d" "\<And>c d. I c \<Longrightarrow> R c d \<Longrightarrow> (d, c) \<in> m" "I (run 0)"
    and "\<forall>k. R (run k) (run (Suc k))"
  shows False
proof -
  have "I (run k)" for k using assms(2,4,5) by (induction k) blast+
  then have "(run (Suc k), run k) \<in> m" for k using assms(3,5) by blast
  with assms(1) show False by (metis wf_iff_no_infinite_down_chain)
qed

end
