(* ===== verification/Es_Json.thy ===== *)
theory Es_Json
  imports Es_Prelude
begin

text \<open>
  What the code uses of \<^verbatim>\<open>encoding/json\<close>. A JSON document is kept as a value, not as text: an
  object is the finite map from its keys to its members, so two documents that differ in
  white space or in the order of keys are equal. \<open>JNum\<close> is a number literal with an integral
  value, \<open>JDec\<close> any other number literal (kept as text). A \<^verbatim>\<open>json.RawMessage\<close> is empty
  (\<^verbatim>\<open>nil\<close> or no bytes), well-formed, or bytes that do not parse.
\<close>

datatype json =
    JNull
  | JBool bool
  | JNum int
  | JDec string
  | JStr string
  | JArr "json list"
  | JObj "string \<Rightarrow> json option"

datatype raw = RawNil | RawOk json | RawBad

text \<open>\<^verbatim>\<open>len(m) > 0\<close>\<close>

definition raw_present :: "raw \<Rightarrow> bool" where
  "raw_present r \<longleftrightarrow> r \<noteq> RawNil"

lemma raw_present_simps [simp]:
  "\<not> raw_present RawNil" "raw_present (RawOk j)" "raw_present RawBad"
  by (simp_all add: raw_present_def)

section \<open>Decoding\<close>

text \<open>
  \<^verbatim>\<open>json.Unmarshal\<close> into a \<^verbatim>\<open>map[string]json.RawMessage\<close>: JSON \<^verbatim>\<open>null\<close> sets the map to nil
  (\<open>None\<close>), an object gives its members, anything else is an error. \<open>marshal_map\<close> is
  \<^verbatim>\<open>json.Marshal\<close> of such a map.
\<close>

fun unmarshal_map :: "raw \<Rightarrow> error + (string \<Rightarrow> json option) option" where
  "unmarshal_map (RawOk (JObj m)) = Inr (Some m)"
| "unmarshal_map (RawOk JNull) = Inr None"
| "unmarshal_map _ = Inl ErrJson"

fun marshal_map :: "(string \<Rightarrow> json option) option \<Rightarrow> json" where
  "marshal_map None = JNull"
| "marshal_map (Some m) = JObj m"

fun map_get :: "(string \<Rightarrow> json option) option \<Rightarrow> string \<Rightarrow> json option" where
  "map_get None k = None"
| "map_get (Some m) k = m k"

text \<open>Decoding into a Go \<^verbatim>\<open>string\<close> that holds \<open>s0\<close>: \<^verbatim>\<open>null\<close> leaves it as it is.\<close>

fun unmarshal_string :: "json \<Rightarrow> string \<Rightarrow> error + string" where
  "unmarshal_string (JStr s) s0 = Inr s"
| "unmarshal_string JNull s0 = Inr s0"
| "unmarshal_string _ s0 = Inl ErrJson"

text \<open>Decoding into an \<^verbatim>\<open>int64\<close> that holds \<open>n0\<close>: a literal out of range is an error.\<close>

fun unmarshal_int64 :: "json \<Rightarrow> int \<Rightarrow> error + int" where
  "unmarshal_int64 (JNum i) n0 =
     (if - (2 ^ 63) \<le> i \<and> i < 2 ^ 63 then Inr i else Inl ErrJson)"
| "unmarshal_int64 JNull n0 = Inr n0"
| "unmarshal_int64 _ n0 = Inl ErrJson"

text \<open>
  Decoding a struct field: the member of that name when it is there, the old value otherwise.
  A mismatch is reported after the other fields are decoded, and leaves this field alone.
\<close>

definition struct_field :: "(json \<Rightarrow> 'v \<Rightarrow> error + 'v) \<Rightarrow> (string \<Rightarrow> json option) \<Rightarrow>
    string \<Rightarrow> 'v \<Rightarrow> error option \<times> 'v" where
  "struct_field dec m k old =
     (case m k of
        None \<Rightarrow> (None, old)
      | Some j \<Rightarrow> (case dec j old of Inl err \<Rightarrow> (Some err, old) | Inr v \<Rightarrow> (None, v)))"

fun first_error :: "error option list \<Rightarrow> error option" where
  "first_error [] = None"
| "first_error (None # es) = first_error es"
| "first_error (Some e # es) = Some e"

lemma struct_field_string [simp]:
  "m k = Some (JStr s) \<Longrightarrow> struct_field unmarshal_string m k old = (None, s)"
  by (simp add: struct_field_def)

lemma struct_field_int64 [simp]:
  "m k = Some (JNum i) \<Longrightarrow> - (2 ^ 63) \<le> i \<Longrightarrow> i < 2 ^ 63 \<Longrightarrow>
   struct_field unmarshal_int64 m k old = (None, i)"
  by (simp add: struct_field_def)

section \<open>Decoding into \<^verbatim>\<open>any\<close>\<close>

text \<open>
  Into \<^verbatim>\<open>any\<close> a number becomes a \<^verbatim>\<open>float64\<close>: an integer is rounded to 53 significant bits, ties
  to even; a literal that overflows is reported and leaves nil. \<open>json_any j\<close> is the document
  that \<^verbatim>\<open>json.Marshal\<close> writes for the value \<open>j\<close> decoded into \<^verbatim>\<open>any\<close>.
\<close>

fun nat_bits :: "nat \<Rightarrow> nat" where
  "nat_bits n = (if n = 0 then 0 else Suc (nat_bits (n div 2)))"

declare nat_bits.simps [simp del]

definition f64_round :: "nat \<Rightarrow> nat" where
  "f64_round n =
     (if nat_bits n \<le> 53 then n
      else let k = nat_bits n - 53; q = n div 2 ^ k; r = n mod 2 ^ k; h = 2 ^ (k - 1)
           in (if h < r \<or> r = h \<and> odd q then q + 1 else q) * 2 ^ k)"

primrec json_any :: "json \<Rightarrow> json" where
  "json_any JNull = JNull"
| "json_any (JBool b) = JBool b"
| "json_any (JNum i) =
     (let n = f64_round (nat \<bar>i\<bar>)
      in if 2 ^ 1024 \<le> n then JNull else JNum (sgn i * int n))"
| "json_any (JDec s) = JDec s"
| "json_any (JStr s) = JStr s"
| "json_any (JArr js) = JArr (map json_any js)"
| "json_any (JObj m) = JObj (map_option json_any \<circ> m)"

lemma nat_bits_le: "n < 2 ^ k \<Longrightarrow> nat_bits n \<le> k"
proof (induction k arbitrary: n)
  case 0
  then show ?case by (simp add: nat_bits.simps)
next
  case (Suc k)
  have "n div 2 < 2 ^ k" using Suc.prems by (simp add: div_less_iff_less_mult mult.commute)
  with Suc.IH have "nat_bits (n div 2) \<le> k" by blast
  then show ?case by (simp add: nat_bits.simps [of n])
qed

lemma json_any_small_int:
  assumes "\<bar>i\<bar> < 2 ^ 53"
  shows "json_any (JNum i) = JNum i"
proof -
  have n: "nat \<bar>i\<bar> < 2 ^ 53" using assms by (simp add: nat_less_iff)
  then have "f64_round (nat \<bar>i\<bar>) = nat \<bar>i\<bar>"
    using nat_bits_le [OF n] by (simp add: f64_round_def)
  moreover have "nat \<bar>i\<bar> < 2 ^ 1024"
    using n by (rule order.strict_trans2) (rule power_increasing; simp)
  ultimately show ?thesis by (simp add: Let_def sgn_mult_abs)
qed

end
