(* ===== verification/Es_Event.thy ===== *)
theory Es_Event
  imports Es_Json
begin

text \<open>
  \<^verbatim>\<open>es/event.go\<close> and the configuration part of \<^verbatim>\<open>es/store.go\<close>: the event envelope and the store
  options. Go passes events as \<^verbatim>\<open>*DomainEvent\<close>; an operation that writes through the pointer
  returns the written events beside its result, so the caller's view of its own events after
  the call is part of the model.
\<close>

record domain_event =
  ev_global_id :: u64
  ev_id :: uuid
  ev_tenant_id :: uuid
  ev_aggregate_id :: uuid
  ev_aggregate_version :: u64
  ev_version :: int
  ev_name :: string
  ev_payload :: raw
  ev_metadata :: raw
  ev_actor_id :: "uuid option"
  ev_actor_type :: "string option"
  ev_pii_id :: "uuid option"
  ev_pii_fields :: raw
  ev_pii_unrecoverable :: bool
  ev_occurred_at :: time

text \<open>The zero value \<^verbatim>\<open>DomainEvent{}\<close>.\<close>

definition zero_event :: domain_event where
  "zero_event = \<lparr> ev_global_id = 0, ev_id = 0, ev_tenant_id = 0, ev_aggregate_id = 0,
     ev_aggregate_version = 0, ev_version = 0, ev_name = [], ev_payload = RawNil,
     ev_metadata = RawNil, ev_actor_id = None, ev_actor_type = None, ev_pii_id = None,
     ev_pii_fields = RawNil, ev_pii_unrecoverable = False, ev_occurred_at = 0 \<rparr>"

definition check_pii_open :: "domain_event \<Rightarrow> error option" where
  "check_pii_open e = (if ev_pii_unrecoverable e then Some ErrPiiUnrecoverable else None)"

section \<open>Store options\<close>

definition global_tenant_id :: uuid where
  "global_tenant_id = uuid_nil"

record store_config =
  cfg_tenant_id :: "uuid option"
  cfg_all_tenants :: bool

datatype store_option = WithTenant uuid | WithAllTenants

fun apply_store_option :: "store_option \<Rightarrow> store_config \<Rightarrow> store_config" where
  "apply_store_option (WithTenant t) c = c\<lparr>cfg_tenant_id := Some t\<rparr>"
| "apply_store_option WithAllTenants c = c\<lparr>cfg_all_tenants := True\<rparr>"

definition resolve_store_config :: "store_option list \<Rightarrow> store_config" where
  "resolve_store_config opts =
     fold apply_store_option opts \<lparr>cfg_tenant_id = None, cfg_all_tenants = False\<rparr>"

text \<open>The tenant a call is scoped to: the last \<^verbatim>\<open>WithTenant\<close> among the options.\<close>

abbreviation scope_of :: "store_option list \<Rightarrow> uuid option" where
  "scope_of opts \<equiv> cfg_tenant_id (resolve_store_config opts)"

lemma resolve_nil [simp]:
  "resolve_store_config [] = \<lparr>cfg_tenant_id = None, cfg_all_tenants = False\<rparr>"
  by (simp add: resolve_store_config_def)

lemma resolve_snoc [simp]:
  "resolve_store_config (opts @ [opt]) = apply_store_option opt (resolve_store_config opts)"
  by (simp add: resolve_store_config_def)

lemma resolve_singleton [simp]:
  "resolve_store_config [opt]
     = apply_store_option opt \<lparr>cfg_tenant_id = None, cfg_all_tenants = False\<rparr>"
  using resolve_snoc [of "[]" opt] by simp

lemma resolve_all_tenants:
  "cfg_all_tenants (resolve_store_config opts) \<longleftrightarrow> WithAllTenants \<in> set opts"
proof (induction opts rule: rev_induct)
  case (snoc opt opts)
  then show ?case by (cases opt) auto
qed simp

lemma scope_of_None_iff: "scope_of opts = None \<longleftrightarrow> (\<forall>t. WithTenant t \<notin> set opts)"
proof (induction opts rule: rev_induct)
  case (snoc opt opts)
  then show ?case by (cases opt) auto
qed simp

text \<open>
  The visibility test every read applies to an event, and the stamp \<^verbatim>\<open>Commit\<close> puts on events
  that carry no tenant yet.
\<close>

definition visible :: "store_config \<Rightarrow> domain_event \<Rightarrow> bool" where
  "visible cfg e =
     (case cfg_tenant_id cfg of
        None \<Rightarrow> True
      | Some t \<Rightarrow> \<not> (ev_tenant_id e \<noteq> t \<and> ev_tenant_id e \<noteq> global_tenant_id))"

definition stamp_tenant :: "store_config \<Rightarrow> domain_event \<Rightarrow> domain_event" where
  "stamp_tenant cfg e =
     (case cfg_tenant_id cfg of
        None \<Rightarrow> e
      | Some t \<Rightarrow> if ev_tenant_id e = uuid_nil then e\<lparr>ev_tenant_id := t\<rparr> else e)"

lemma visible_stamp_untenanted:
  "ev_tenant_id e = uuid_nil \<Longrightarrow> visible cfg (stamp_tenant cfg e)"
  by (auto simp: visible_def stamp_tenant_def global_tenant_id_def split: option.splits)

lemma stamp_tenant_frame [simp]:
  "ev_global_id (stamp_tenant cfg e) = ev_global_id e"
  "ev_aggregate_id (stamp_tenant cfg e) = ev_aggregate_id e"
  "ev_aggregate_version (stamp_tenant cfg e) = ev_aggregate_version e"
  "ev_name (stamp_tenant cfg e) = ev_name e"
  "ev_payload (stamp_tenant cfg e) = ev_payload e"
  "ev_metadata (stamp_tenant cfg e) = ev_metadata e"
  "ev_pii_id (stamp_tenant cfg e) = ev_pii_id e"
  "ev_pii_fields (stamp_tenant cfg e) = ev_pii_fields e"
  "ev_pii_unrecoverable (stamp_tenant cfg e) = ev_pii_unrecoverable e"
  "ev_actor_id (stamp_tenant cfg e) = ev_actor_id e"
  "ev_actor_type (stamp_tenant cfg e) = ev_actor_type e"
  "ev_occurred_at (stamp_tenant cfg e) = ev_occurred_at e"
  "ev_version (stamp_tenant cfg e) = ev_version e"
  "ev_id (stamp_tenant cfg e) = ev_id e"
  by (auto simp: stamp_tenant_def split: option.splits)

section \<open>Consecutive versions\<close>

text \<open>Consecutive aggregate versions, starting after \<open>v\<close>.\<close>

fun versions_from :: "u64 \<Rightarrow> domain_event list \<Rightarrow> bool" where
  "versions_from v [] = True"
| "versions_from v (e # es) = (ev_aggregate_version e = v + 1 \<and> versions_from (v + 1) es)"

lemma versions_from_append:
  "versions_from v (xs @ ys) \<longleftrightarrow> versions_from v xs \<and> versions_from (v + of_nat (length xs)) ys"
  by (induction xs arbitrary: v) (auto simp: algebra_simps)

lemma versions_from_last:
  "versions_from v es \<Longrightarrow> es \<noteq> [] \<Longrightarrow> ev_aggregate_version (last es) = v + of_nat (length es)"
  by (induction es arbitrary: v) (auto simp: algebra_simps)

lemma versions_from_map:
  "(\<And>e. e \<in> set es \<Longrightarrow> ev_aggregate_version (f e) = ev_aggregate_version e) \<Longrightarrow>
   versions_from v (map f es) = versions_from v es"
  by (induction es arbitrary: v) auto

section \<open>Concrete events\<close>

text \<open>The events on which the theorems of the development are instantiated.\<close>

definition sample_event :: "uuid \<Rightarrow> uuid \<Rightarrow> u64 \<Rightarrow> domain_event" where
  "sample_event t i v =
     zero_event\<lparr>ev_tenant_id := t, ev_aggregate_id := i, ev_aggregate_version := v, ev_name := ''sample''\<rparr>"

lemma sample_event_sel [simp]:
  "ev_tenant_id (sample_event t i v) = t"
  "ev_aggregate_id (sample_event t i v) = i"
  "ev_aggregate_version (sample_event t i v) = v"
  "ev_global_id (sample_event t i v) = 0"
  "ev_name (sample_event t i v) = ''sample''"
  "ev_payload (sample_event t i v) = RawNil"
  "ev_pii_id (sample_event t i v) = None"
  "ev_pii_fields (sample_event t i v) = RawNil"
  by (simp_all add: sample_event_def zero_event_def)

end
