(* ===== verification/Mem_Store.thy ===== *)
theory Mem_Store
  imports Es_Event
begin

text \<open>
  \<^verbatim>\<open>es/memstore/eventstore.go\<close>: the in-memory \<^verbatim>\<open>Store\<close>. Every method runs under one mutex, so each
  is one state transformer. A Go map with a zero default is a total function. The channels of
  live subscribers are kept with the events buffered in them; here a send always finds room,
  and the theory \<open>Mem_Stream\<close> treats the bounded channel and the blocking send.
\<close>

section \<open>State and operations\<close>

record mem_store =
  ms_all :: "domain_event list"
  ms_by_aggregate :: "uuid \<times> uuid \<Rightarrow> domain_event list"
  ms_by_pii :: "uuid \<Rightarrow> domain_event list"
  ms_next_global_id :: u64
  ms_checkpoints :: "string \<Rightarrow> u64"
  ms_subscribers :: "nat \<Rightarrow> domain_event list option"

definition mem_new :: mem_store where
  "mem_new = \<lparr> ms_all = [], ms_by_aggregate = (\<lambda>_. []), ms_by_pii = (\<lambda>_. []),
     ms_next_global_id = 0, ms_checkpoints = (\<lambda>_. 0), ms_subscribers = (\<lambda>_. None) \<rparr>"

text \<open>The \<^verbatim>\<open>aggregateKey\<close> of an event: (tenant, aggregate).\<close>

definition aggregate_key :: "domain_event \<Rightarrow> uuid \<times> uuid" where
  "aggregate_key e = (ev_tenant_id e, ev_aggregate_id e)"

definition current_version :: "domain_event list \<Rightarrow> u64" where
  "current_version es = (if es = [] then 0 else ev_aggregate_version (last es))"

text \<open>The body of \<^verbatim>\<open>Commit\<close>'s append loop for one event.\<close>

definition mem_append1 :: "uuid \<times> uuid \<Rightarrow> domain_event \<Rightarrow> mem_store \<Rightarrow> domain_event \<times> mem_store" where
  "mem_append1 key e s =
     (let g = ms_next_global_id s + 1;
          e' = e\<lparr>ev_global_id := g\<rparr>
      in (e', s\<lparr> ms_next_global_id := g,
                 ms_all := ms_all s @ [e'],
                 ms_by_aggregate := (ms_by_aggregate s)(key := ms_by_aggregate s key @ [e']),
                 ms_by_pii := (case ev_pii_id e' of
                     None \<Rightarrow> ms_by_pii s
                   | Some p \<Rightarrow> (ms_by_pii s)(p := ms_by_pii s p @ [e'])),
                 ms_subscribers := (\<lambda>c. map_option (\<lambda>q. q @ [e']) (ms_subscribers s c)) \<rparr>))"

fun mem_append :: "uuid \<times> uuid \<Rightarrow> domain_event list \<Rightarrow> mem_store \<Rightarrow> domain_event list \<times> mem_store" where
  "mem_append key [] s = ([], s)"
| "mem_append key (e # es) s =
     (let (e', s1) = mem_append1 key e s; (es', s2) = mem_append key es s1 in (e' # es', s2))"

text \<open>
  \<^verbatim>\<open>Commit\<close> returns its error, the caller's events as the call leaves them, and the store. The
  tenant stamp is written before the version check, so it stays on the caller's events also
  when the commit is refused.
\<close>

definition mem_commit :: "domain_event list \<Rightarrow> u64 \<Rightarrow> store_option list \<Rightarrow> mem_store \<Rightarrow>
    error option \<times> domain_event list \<times> mem_store" where
  "mem_commit es expected opts s =
     (if es = [] then (None, es, s)
      else
        let cfg = resolve_store_config opts;
            es1 = map (stamp_tenant cfg) es;
            key = aggregate_key (hd es1)
        in if current_version (ms_by_aggregate s key) \<noteq> expected
           then (Some ErrConcurrencyConflict, es1, s)
           else let (es2, s') = mem_append key es1 s in (None, es2, s'))"

definition mem_load :: "uuid \<Rightarrow> store_option list \<Rightarrow> mem_store \<Rightarrow> error + domain_event list" where
  "mem_load i opts s =
     (let cfg = resolve_store_config opts;
          tenant = (case cfg_tenant_id cfg of None \<Rightarrow> uuid_nil | Some t \<Rightarrow> t);
          own = ms_by_aggregate s (tenant, i);
          es = (if own = [] \<and> cfg_tenant_id cfg \<noteq> None
                then ms_by_aggregate s (global_tenant_id, i) else own)
      in if es = [] then Inl ErrAggregateNotFound else Inr es)"

fun mem_fetch_loop :: "store_config \<Rightarrow> u64 \<Rightarrow> int \<Rightarrow> domain_event list \<Rightarrow> domain_event list \<Rightarrow>
    domain_event list" where
  "mem_fetch_loop cfg last_id limit [] out = out"
| "mem_fetch_loop cfg last_id limit (e # es) out =
     (if ev_global_id e \<le> last_id then mem_fetch_loop cfg last_id limit es out
      else if \<not> visible cfg e then mem_fetch_loop cfg last_id limit es out
      else if 0 < limit \<and> limit \<le> int (length (out @ [e])) then out @ [e]
      else mem_fetch_loop cfg last_id limit es (out @ [e]))"

definition mem_fetch_after :: "u64 \<Rightarrow> int \<Rightarrow> store_option list \<Rightarrow> mem_store \<Rightarrow>
    error + domain_event list" where
  "mem_fetch_after last_id limit opts s =
     Inr (mem_fetch_loop (resolve_store_config opts) last_id limit (ms_all s) [])"

definition mem_fetch_by_pii_id :: "uuid \<Rightarrow> store_option list \<Rightarrow> mem_store \<Rightarrow>
    error + domain_event list" where
  "mem_fetch_by_pii_id p opts s =
     (let out = filter (visible (resolve_store_config opts)) (ms_by_pii s p)
      in if out = [] then Inl ErrSubjectNotFound else Inr out)"

definition mem_get_checkpoint :: "string \<Rightarrow> mem_store \<Rightarrow> u64" where
  "mem_get_checkpoint name s = ms_checkpoints s name"

definition mem_save_checkpoint :: "string \<Rightarrow> u64 \<Rightarrow> mem_store \<Rightarrow> mem_store" where
  "mem_save_checkpoint name last_id s = s\<lparr>ms_checkpoints := (ms_checkpoints s)(name := last_id)\<rparr>"

text \<open>
  The part of \<^verbatim>\<open>StreamAll\<close> that runs under the mutex: take the visible backlog and register a
  fresh live channel.
\<close>

definition mem_open_stream :: "nat \<Rightarrow> store_option list \<Rightarrow> mem_store \<Rightarrow> domain_event list \<times> mem_store" where
  "mem_open_stream chan opts s =
     (filter (visible (resolve_store_config opts)) (ms_all s),
      s\<lparr>ms_subscribers := (ms_subscribers s)(chan \<mapsto> [])\<rparr>)"

section \<open>The append loop in closed form\<close>

text \<open>Global ids are handed out consecutively after \<open>g\<close>.\<close>

fun number_from :: "u64 \<Rightarrow> domain_event list \<Rightarrow> domain_event list" where
  "number_from g [] = []"
| "number_from g (e # es) = e\<lparr>ev_global_id := g + 1\<rparr> # number_from (g + 1) es"

lemma length_number_from [simp]: "length (number_from g es) = length es"
  by (induction g es rule: number_from.induct) auto

lemma number_from_Nil_iff [simp]: "number_from g es = [] \<longleftrightarrow> es = []"
  by (cases es) auto

lemma map_number_from:
  "(\<And>e n. f (e\<lparr>ev_global_id := n\<rparr>) = f e) \<Longrightarrow> map f (number_from g es) = map f es"
  by (induction g es rule: number_from.induct) auto

lemma set_number_from:
  "e \<in> set (number_from g es) \<Longrightarrow> \<exists>e0 \<in> set es. \<exists>n. e = e0\<lparr>ev_global_id := n\<rparr>"
  by (induction g es rule: number_from.induct) auto

lemma global_ids_number_from:
  "map ev_global_id (number_from g es) = map (\<lambda>i. g + of_nat (Suc i)) [0..<length es]"
proof (induction g es rule: number_from.induct)
  case (2 g e es)
  have "[0..<length (e # es)] = 0 # map Suc [0..<length es]"
    by (simp add: upt_conv_Cons map_Suc_upt del: upt_Suc)
  then show ?case using 2 by (simp add: add.assoc del: upt_Suc)
qed simp

lemma hd_number_from:
  "es \<noteq> [] \<Longrightarrow> hd (number_from g es) = (hd es)\<lparr>ev_global_id := g + 1\<rparr>"
  by (cases es) auto

text \<open>What appending the numbered events \<open>es'\<close> under \<open>key\<close> does to the store.\<close>

definition mem_extend :: "uuid \<times> uuid \<Rightarrow> domain_event list \<Rightarrow> mem_store \<Rightarrow> mem_store" where
  "mem_extend key es' s =
     s\<lparr> ms_next_global_id := ms_next_global_id s + of_nat (length es'),
        ms_all := ms_all s @ es',
        ms_by_aggregate := (ms_by_aggregate s)(key := ms_by_aggregate s key @ es'),
        ms_by_pii := (\<lambda>p. ms_by_pii s p @ filter (\<lambda>e. ev_pii_id e = Some p) es'),
        ms_subscribers := (\<lambda>c. map_option (\<lambda>q. q @ es') (ms_subscribers s c)) \<rparr>"

lemma mem_extend_sel [simp]:
  "ms_next_global_id (mem_extend key es' s) = ms_next_global_id s + of_nat (length es')"
  "ms_all (mem_extend key es' s) = ms_all s @ es'"
  "ms_by_aggregate (mem_extend key es' s) k
     = (if k = key then ms_by_aggregate s key @ es' else ms_by_aggregate s k)"
  "ms_by_pii (mem_extend key es' s) p = ms_by_pii s p @ filter (\<lambda>e. ev_pii_id e = Some p) es'"
  "ms_checkpoints (mem_extend key es' s) = ms_checkpoints s"
  "ms_subscribers (mem_extend key es' s) c = map_option (\<lambda>q. q @ es') (ms_subscribers s c)"
  by (simp_all add: mem_extend_def)

lemma mem_append_eq:
  "mem_append key es s =
     (let es' = number_from (ms_next_global_id s) es in (es', mem_extend key es' s))"
proof (induction es arbitrary: s)
  case Nil
  show ?case by (cases s) (auto simp: mem_extend_def option.map_ident fun_eq_iff)
next
  case (Cons e es)
  have pii: "(case ev_pii_id e of None \<Rightarrow> ms_by_pii s | Some p \<Rightarrow> (ms_by_pii s)(p := ms_by_pii s p @ [e']))
     = (\<lambda>p. ms_by_pii s p @ (if ev_pii_id e = Some p then [e'] else []))" for e'
    by (auto simp: fun_eq_iff split: option.splits)
  show ?case
    by (simp add: Cons.IH mem_append1_def mem_extend_def Let_def pii option.map_comp comp_def
        algebra_simps) (auto simp: fun_eq_iff)
qed

section \<open>Commit\<close>

text \<open>The stream a commit goes to: the key of its first event, after the tenant stamp.\<close>

definition commit_key :: "store_option list \<Rightarrow> domain_event list \<Rightarrow> uuid \<times> uuid" where
  "commit_key opts es = aggregate_key (stamp_tenant (resolve_store_config opts) (hd es))"

abbreviation stamped :: "store_option list \<Rightarrow> domain_event list \<Rightarrow> domain_event list" where
  "stamped opts es \<equiv> map (stamp_tenant (resolve_store_config opts)) es"

lemma mem_commit_Nil [simp]: "mem_commit [] v opts s = (None, [], s)"
  by (simp add: mem_commit_def)

lemma mem_commit_eq:
  assumes "es \<noteq> []"
  shows "mem_commit es v opts s =
    (if current_version (ms_by_aggregate s (commit_key opts es)) = v
     then let es' = number_from (ms_next_global_id s) (stamped opts es)
          in (None, es', mem_extend (commit_key opts es) es' s)
     else (Some ErrConcurrencyConflict, stamped opts es, s))"
  using assms
  by (simp add: mem_commit_def commit_key_def Let_def mem_append_eq hd_map)

lemma current_version_append:
  "current_version (xs @ ys) = (if ys = [] then current_version xs else current_version ys)"
  by (simp add: current_version_def)

lemma current_version_from:
  "versions_from v es \<Longrightarrow> es \<noteq> [] \<Longrightarrow> current_version es = v + of_nat (length es)"
  by (simp add: current_version_def versions_from_last)

lemma current_version_cong:
  "map ev_aggregate_version xs = map ev_aggregate_version ys \<Longrightarrow> current_version xs = current_version ys"
  by (metis current_version_def last_map map_is_Nil_conv)

lemma versions_number_from [simp]:
  "map ev_aggregate_version (number_from g es) = map ev_aggregate_version es"
  by (rule map_number_from) simp

lemma versions_stamped [simp]:
  "map ev_aggregate_version (stamped opts es) = map ev_aggregate_version es"
  by simp

lemma current_version_committed [simp]:
  "current_version (number_from g (stamped opts es)) = current_version es"
  by (rule current_version_cong) simp

text \<open>Atomicity: a refused commit reports the conflict and leaves the store as it was.\<close>

lemma mem_commit_error:
  "mem_commit es v opts s = (Some err, es', s') \<Longrightarrow>
     err = ErrConcurrencyConflict \<and> s' = s \<and> es' = stamped opts es \<and> es \<noteq> []
     \<and> current_version (ms_by_aggregate s (commit_key opts es)) \<noteq> v"
  by (cases "es = []") (auto simp: mem_commit_eq Let_def split: if_splits)

lemma mem_commit_ok:
  "mem_commit es v opts s = (None, es', s') \<Longrightarrow> es \<noteq> [] \<Longrightarrow>
     current_version (ms_by_aggregate s (commit_key opts es)) = v
     \<and> es' = number_from (ms_next_global_id s) (stamped opts es)
     \<and> s' = mem_extend (commit_key opts es) es' s"
  by (auto simp: mem_commit_eq Let_def split: if_splits)

section \<open>The log invariant\<close>

text \<open>
  The log numbers its events 1, 2, 3, ... in commit order, and the subject index is the log
  filtered by subject, in log order.
\<close>

definition mem_log_inv :: "mem_store \<Rightarrow> bool" where
  "mem_log_inv s \<longleftrightarrow>
     ms_next_global_id s = of_nat (length (ms_all s))
     \<and> map ev_global_id (ms_all s) = map (\<lambda>i. of_nat (Suc i)) [0..<length (ms_all s)]
     \<and> (\<forall>p. ms_by_pii s p = filter (\<lambda>e. ev_pii_id e = Some p) (ms_all s))"

text \<open>Each stream is the log filtered by its key. This needs batches of one stream each.\<close>

definition mem_keyed :: "mem_store \<Rightarrow> bool" where
  "mem_keyed s \<longleftrightarrow> (\<forall>k. ms_by_aggregate s k = filter (\<lambda>e. aggregate_key e = k) (ms_all s))"

definition uniform_batch :: "store_option list \<Rightarrow> domain_event list \<Rightarrow> bool" where
  "uniform_batch opts es \<longleftrightarrow>
     list_all (\<lambda>e. aggregate_key (stamp_tenant (resolve_store_config opts) e) = commit_key opts es) es"

lemma mem_log_inv_new: "mem_log_inv mem_new"
  by (simp add: mem_log_inv_def mem_new_def)

lemma mem_keyed_new: "mem_keyed mem_new"
  by (simp add: mem_keyed_def mem_new_def)

lemma mem_log_inv_extend:
  assumes inv: "mem_log_inv s"
  shows "mem_log_inv (mem_extend key (number_from (ms_next_global_id s) es) s)"
proof -
  let ?n = "length (ms_all s)" and ?m = "length es"
  have next_id: "ms_next_global_id s = of_nat ?n" using inv by (simp add: mem_log_inv_def)
  have "map (\<lambda>i. of_nat (Suc i) :: u64) [0..<?n + ?m]
     = map (\<lambda>i. of_nat (Suc i)) [0..<?n] @ map (\<lambda>i. of_nat ?n + of_nat (Suc i)) [0..<?m]"
    by (simp add: upt_split del: upt_Suc)
  then show ?thesis
    using inv by (simp add: mem_log_inv_def global_ids_number_from next_id)
qed

lemma mem_keyed_extend:
  assumes "mem_keyed s" "\<And>e. e \<in> set es' \<Longrightarrow> aggregate_key e = key"
  shows "mem_keyed (mem_extend key es' s)"
proof -
  have same: "filter (\<lambda>e. aggregate_key e = key) es' = es'"
    using assms(2) by (simp add: filter_id_conv)
  have other: "filter (\<lambda>e. aggregate_key e = k) es' = []" if "k \<noteq> key" for k
    using assms(2) that by (auto simp: filter_empty_conv)
  show ?thesis
    unfolding mem_keyed_def
  proof
    fix k
    have "ms_by_aggregate s k = filter (\<lambda>e. aggregate_key e = k) (ms_all s)"
      using assms(1) unfolding mem_keyed_def by blast
    then show "ms_by_aggregate (mem_extend key es' s) k
        = filter (\<lambda>e. aggregate_key e = k) (ms_all (mem_extend key es' s))"
      using same other [of k] by (cases "k = key") simp_all
  qed
qed

lemma mem_log_inv_commit:
  assumes "mem_log_inv s" "mem_commit es v opts s = (r, es', s')"
  shows "mem_log_inv s'"
  using assms by (cases "es = []") (auto simp: mem_commit_eq Let_def mem_log_inv_extend split: if_splits)

lemma aggregate_key_numbered [simp]: "aggregate_key (e\<lparr>ev_global_id := n\<rparr>) = aggregate_key e"
  by (simp add: aggregate_key_def)

lemma uniform_committed:
  "uniform_batch opts es \<Longrightarrow> e \<in> set (number_from g (stamped opts es)) \<Longrightarrow>
    aggregate_key e = commit_key opts es"
  by (drule set_number_from) (auto simp: uniform_batch_def list_all_iff)

lemma mem_keyed_commit:
  assumes "mem_keyed s" "uniform_batch opts es" "mem_commit es v opts s = (r, es', s')"
  shows "mem_keyed s'"
  using assms uniform_committed [of opts es]
  by (cases "es = []") (auto simp: mem_commit_eq Let_def mem_keyed_extend split: if_splits)

text \<open>The stores a program can reach with batches that each belong to one stream.\<close>

inductive mem_reach :: "mem_store \<Rightarrow> bool" where
  new: "mem_reach mem_new"
| commit: "mem_reach s \<Longrightarrow> uniform_batch opts es \<Longrightarrow> mem_commit es v opts s = (r, es', s') \<Longrightarrow>
    mem_reach s'"
| checkpoint: "mem_reach s \<Longrightarrow> mem_reach (mem_save_checkpoint name last_id s)"
| stream: "mem_reach s \<Longrightarrow> mem_reach (snd (mem_open_stream chan opts s))"

lemma mem_reach_inv: "mem_reach s \<Longrightarrow> mem_log_inv s \<and> mem_keyed s"
proof (induction rule: mem_reach.induct)
  case new
  show ?case by (simp add: mem_log_inv_new mem_keyed_new)
next
  case (commit s opts es v r es' s')
  then show ?case by (blast intro: mem_log_inv_commit mem_keyed_commit)
next
  case (checkpoint s name last_id)
  then show ?case by (simp add: mem_log_inv_def mem_keyed_def mem_save_checkpoint_def)
next
  case (stream s chan opts)
  then show ?case by (simp add: mem_log_inv_def mem_keyed_def mem_open_stream_def)
qed

end
