(* ===== verification/Event_Feed.thy ===== *)
theory Event_Feed
  imports Es_Event
begin

text \<open>
  Reading a log by cursor. \<open>drain\<close> is the catch-up loop of \<^verbatim>\<open>StreamAll\<close> in
  \<^verbatim>\<open>es/pgstore/eventstore.go\<close>: fetch a page after the last delivered global id, send its events
  one by one, repeat until a page is empty. The locale \<open>event_feed\<close> is the contract of
  \<^verbatim>\<open>FetchAfter\<close> in \<^verbatim>\<open>es/store.go\<close> that such a client relies on; the lemma \<open>drain_correct\<close> says the
  client delivers the log without gap, repetition or reordering.
\<close>

datatype drain_result = Drained | Cancelled | Failed error | OutOfFuel

text \<open>
  \<open>budget\<close> is the number of sends the receiver accepts before the context is cancelled; \<open>fuel\<close>
  bounds the number of pages. The result is how the loop ended, \<^verbatim>\<open>lastID\<close>, and what was sent.
\<close>

fun drain :: "(u64 \<Rightarrow> error + domain_event list) \<Rightarrow> nat \<Rightarrow> nat \<Rightarrow> u64 \<Rightarrow> domain_event list \<Rightarrow>
    drain_result \<times> u64 \<times> domain_event list" where
  "drain fetch 0 budget last_id out = (OutOfFuel, last_id, out)"
| "drain fetch (Suc fuel) budget last_id out =
     (case fetch last_id of
        Inl err \<Rightarrow> (Failed err, last_id, out)
      | Inr page \<Rightarrow>
          if page = [] then (Drained, last_id, out)
          else
            if length page \<le> budget
            then drain fetch fuel (budget - length page) (ev_global_id (last page)) (out @ page)
            else (Cancelled,
                  if budget = 0 then last_id else ev_global_id (last (take budget page)),
                  out @ take budget page))"

section \<open>Logs ordered by global id\<close>

definition by_global_id :: "domain_event list \<Rightarrow> bool" where
  "by_global_id es \<longleftrightarrow> sorted_wrt (\<lambda>a b. ev_global_id a < ev_global_id b) es"

definition after :: "u64 \<Rightarrow> domain_event list \<Rightarrow> domain_event list" where
  "after g es = filter (\<lambda>e. g < ev_global_id e) es"

definition upto_id :: "u64 \<Rightarrow> domain_event list \<Rightarrow> domain_event list" where
  "upto_id g es = filter (\<lambda>e. ev_global_id e \<le> g) es"

lemma by_global_id_filter: "by_global_id es \<Longrightarrow> by_global_id (filter P es)"
  by (simp add: by_global_id_def sorted_wrt_filter)

lemma by_global_id_split:
  assumes "by_global_id es"
  shows "upto_id g es @ after g es = es"
  using assms unfolding by_global_id_def upto_id_def after_def
proof (induction es)
  case (Cons e es)
  show ?case
  proof (cases "ev_global_id e \<le> g")
    case False
    with Cons.prems have "\<forall>x \<in> set (e # es). g < ev_global_id x" by auto
    then have "filter (\<lambda>x. g < ev_global_id x) (e # es) = e # es"
      and "filter (\<lambda>x. ev_global_id x \<le> g) (e # es) = []"
      by (auto simp only: filter_id_conv filter_empty_conv not_le)
    then show ?thesis by (simp only: append_Nil)
  qed (use Cons in auto)
qed simp

text \<open>Delivering a non-empty prefix of what lies after \<open>g\<close> moves the cursor to its last event.\<close>

lemma upto_id_advance:
  assumes log: "by_global_id log" and page: "after g log = page @ rest" and "page \<noteq> []"
  shows "upto_id (ev_global_id (last page)) log = upto_id g log @ page"
proof -
  let ?c = "ev_global_id (last page)"
  have split: "log = upto_id g log @ page @ rest"
    using by_global_id_split [OF log, of g] page by simp
  then have "by_global_id (upto_id g log @ page @ rest)" using log by simp
  moreover obtain ys y where ys: "page = ys @ [y]" using \<open>page \<noteq> []\<close> by (metis rev_exhaust)
  ultimately have "\<forall>e \<in> set page. ev_global_id e \<le> ?c" and "\<forall>e \<in> set rest. ?c < ev_global_id e"
    and low: "\<forall>e \<in> set (upto_id g log). ev_global_id e \<le> ?c"
    by (auto simp: by_global_id_def sorted_wrt_append intro: order.strict_implies_order)
  then have "upto_id ?c page = page" and "upto_id ?c rest = []"
    and "upto_id ?c (upto_id g log) = upto_id g log"
    using \<open>\<forall>e \<in> set rest. ?c < ev_global_id e\<close> low
    unfolding upto_id_def filter_id_conv filter_empty_conv by (auto simp: not_le)
  then have "upto_id ?c (upto_id g log @ page @ rest) = upto_id g log @ page"
    unfolding upto_id_def by (simp only: filter_append append_Nil2)
  then show ?thesis using split by simp
qed

section \<open>The contract of FetchAfter\<close>

locale event_feed =
  fixes inv :: "'s \<Rightarrow> bool"
    and fetch :: "'s \<Rightarrow> u64 \<Rightarrow> int \<Rightarrow> error + domain_event list"
    and log :: "'s \<Rightarrow> domain_event list"
  assumes fetch_page: "inv s \<Longrightarrow> 0 < limit \<Longrightarrow>
      fetch s g limit = Inr (take (nat limit) (after g (log s)))"
    and log_ordered: "inv s \<Longrightarrow> by_global_id (log s)"
    and log_positive: "inv s \<Longrightarrow> e \<in> set (log s) \<Longrightarrow> 0 < ev_global_id e"
begin

lemma upto_id_0: "inv s \<Longrightarrow> upto_id 0 (log s) = []"
  using log_positive by (force simp: upto_id_def filter_empty_conv)

text \<open>One page: empty exactly at the end, otherwise any non-empty part of it advances the cursor.\<close>

lemma page_cases:
  assumes "inv s" "0 < limit"
  obtains (at_end) "fetch s g limit = Inr []" "after g (log s) = []" "upto_id g (log s) = (log s)"
    | (more) page rest where "fetch s g limit = Inr page" "page \<noteq> []" "after g (log s) = page @ rest"
proof (cases "after g (log s) = []")
  case True
  then have "upto_id g (log s) = (log s)" using by_global_id_split [OF log_ordered [OF \<open>inv s\<close>], of g] by simp
  with True at_end show thesis by (simp add: fetch_page [OF assms])
next
  case False
  then have "take (nat limit) (after g (log s)) \<noteq> []" using assms by simp
  moreover have "after g (log s) = take (nat limit) (after g (log s)) @ drop (nat limit) (after g (log s))"
    by simp
  ultimately show thesis using more fetch_page [OF assms] by blast
qed

lemma advance:
  assumes "inv s" "after g (log s) = page @ rest" "page \<noteq> []" "0 < k"
  shows "upto_id (ev_global_id (last (take k page))) (log s) = upto_id g (log s) @ take k page"
proof (rule upto_id_advance [OF log_ordered [OF \<open>inv s\<close>]])
  show "after g (log s) = take k page @ drop k page @ rest" using assms(2) by simp
  show "take k page \<noteq> []" using assms by simp
qed

text \<open>Whatever happens, what was sent is exactly the log up to the cursor.\<close>

lemma drain_invariant:
  assumes "inv s" "0 < limit" "out = upto_id g (log s)"
    and "drain (\<lambda>c. fetch s c limit) fuel budget g out = (r, g', out')"
  shows "out' = upto_id g' (log s) \<and> (r = Drained \<longrightarrow> out' = (log s))"
  using assms(3,4)
proof (induction fuel arbitrary: budget g out)
  case (Suc fuel)
  show ?case
  proof (cases rule: page_cases [OF \<open>inv s\<close> \<open>0 < limit\<close>, of g, case_names at_end more])
    case at_end
    then show ?thesis using Suc.prems by simp
  next
    case (more page rest)
    note adv = advance [OF \<open>inv s\<close> more(3,2)]
    show ?thesis
    proof (cases "length page \<le> budget")
      case True
      then have "drain (\<lambda>c. fetch s c limit) fuel (budget - length page) (ev_global_id (last page))
          (out @ page) = (r, g', out')"
        using Suc.prems(2) more by simp
      moreover have "out @ page = upto_id (ev_global_id (last page)) (log s)"
        using adv [of "length page"] more(2) Suc.prems(1) by simp
      ultimately show ?thesis by (rule Suc.IH [rotated])
    next
      case False
      then show ?thesis using Suc.prems more adv [of budget] by (cases "budget = 0") auto
    qed
  qed
qed simp

text \<open>One page per event and one empty page are enough fuel when nobody cancels.\<close>

lemma drain_completes:
  assumes "inv s" "0 < limit" "length (after g (log s)) < fuel" "length (after g (log s)) \<le> budget"
  shows "fst (drain (\<lambda>c. fetch s c limit) fuel budget g out) = Drained"
  using assms(3,4)
proof (induction fuel arbitrary: budget g out)
  case (Suc fuel)
  show ?case
  proof (cases rule: page_cases [OF \<open>inv s\<close> \<open>0 < limit\<close>, of g, case_names at_end more])
    case at_end
    then show ?thesis by simp
  next
    case (more page rest)
    let ?g = "ev_global_id (last page)"
    have "upto_id ?g (log s) = upto_id g (log s) @ page"
      using advance [OF \<open>inv s\<close> more(3,2), of "length page"] more(2) by simp
    then have "after ?g (log s) = rest"
      using by_global_id_split [OF log_ordered [OF \<open>inv s\<close>], of ?g] by_global_id_split [OF log_ordered [OF \<open>inv s\<close>], of g]
        more(3) by (metis append.assoc same_append_eq)
    moreover have "0 < length page" using more(2) by simp
    ultimately have "length (after ?g (log s)) < fuel" "length (after ?g (log s)) \<le> budget - length page"
      using Suc.prems unfolding more(3) by (cases page; auto)+
    from Suc.IH [OF this] show ?thesis
      using more Suc.prems by simp
  qed
qed simp

lemma drain_correct:
  assumes "inv s" "0 < limit" "length (log s) < fuel" "length (log s) \<le> budget"
  shows "\<exists>g. drain (\<lambda>c. fetch s c limit) fuel budget 0 [] = (Drained, g, (log s))"
proof -
  have after: "length (after 0 (log s)) \<le> length (log s)" by (simp add: after_def)
  obtain r g out where d: "drain (\<lambda>c. fetch s c limit) fuel budget 0 [] = (r, g, out)"
    by (metis prod_cases3)
  moreover have "r = Drained"
    using drain_completes [of s limit 0 fuel budget "[]"] assms after d by simp
  moreover have "out = (log s)"
    using drain_invariant [OF \<open>inv s\<close> \<open>0 < limit\<close> _ d] upto_id_0 [OF \<open>inv s\<close>] \<open>r = Drained\<close> by metis
  ultimately show ?thesis by blast
qed

end

end
