(* ===== verification/Mem_Reads.thy ===== *)
theory Mem_Reads
  imports Mem_Store Event_Feed
begin

text \<open>
  What the reads of \<^verbatim>\<open>memstore.Store\<close> return: the cursor read (the store interprets the contract
  \<open>event_feed\<close>), the aggregate read and the subject read, their tenant scoping, and the
  behaviour of commits against them.
\<close>

section \<open>The cursor read\<close>

abbreviation visible_log :: "store_option list \<Rightarrow> mem_store \<Rightarrow> domain_event list" where
  "visible_log opts s \<equiv> filter (visible (resolve_store_config opts)) (ms_all s)"

lemma mem_fetch_loop_eq:
  "limit \<le> 0 \<or> int (length out) < limit \<Longrightarrow>
   mem_fetch_loop cfg g limit es out =
     out @ (if 0 < limit then take (nat limit - length out) else id)
       (filter (\<lambda>e. g < ev_global_id e \<and> visible cfg e) es)"
proof (induction cfg g limit es out rule: mem_fetch_loop.induct)
  case (2 cfg g limit e es out)
  consider "ev_global_id e \<le> g" | "\<not> ev_global_id e \<le> g" "\<not> visible cfg e"
    | (stop) "\<not> ev_global_id e \<le> g" "visible cfg e" "0 < limit" "limit \<le> int (length (out @ [e]))"
    | (go) "\<not> ev_global_id e \<le> g" "visible cfg e" "\<not> (0 < limit \<and> limit \<le> int (length (out @ [e])))"
    by blast
  then show ?case
  proof cases
    case stop
    then have "nat limit - length out = 1" using 2(4) by simp
    with stop show ?thesis by (auto simp: not_le dest: leD)
  next
    case go
    then have "limit \<le> 0 \<or> int (length (out @ [e])) < limit" by auto
    then have ih: "mem_fetch_loop cfg g limit es (out @ [e]) =
        (out @ [e]) @ (if 0 < limit then take (nat limit - length (out @ [e])) else id)
          (filter (\<lambda>e. g < ev_global_id e \<and> visible cfg e) es)"
      using 2(3) go by blast
    have "nat limit - length out = Suc (nat limit - length (out @ [e]))" if "0 < limit"
      using that go by simp
    moreover have "mem_fetch_loop cfg g limit (e # es) out = mem_fetch_loop cfg g limit es (out @ [e])"
      using go by (simp only: mem_fetch_loop.simps if_False simp_thms)
    moreover have "filter (\<lambda>e. g < ev_global_id e \<and> visible cfg e) (e # es)
        = e # filter (\<lambda>e. g < ev_global_id e \<and> visible cfg e) es"
      using go by (simp add: not_le)
    ultimately show ?thesis
      by (cases "0 < limit") (simp_all only: ih if_True if_False take_Suc_Cons append_assoc
          append_Cons append_Nil id_apply)
  qed (use 2 in \<open>auto simp: not_le\<close>)
qed auto

lemma mem_fetch_after_eq:
  "mem_fetch_after g limit opts s =
     Inr ((if 0 < limit then take (nat limit) else id) (after g (visible_log opts s)))"
  unfolding mem_fetch_after_def after_def
  by (subst mem_fetch_loop_eq) (auto simp: conj_commute)

text \<open>The log is numbered in order as long as the 64-bit counter has not wrapped.\<close>

definition mem_feed_inv :: "mem_store \<Rightarrow> bool" where
  "mem_feed_inv s \<longleftrightarrow> mem_log_inv s \<and> length (ms_all s) < 2 ^ 64"

lemma mem_log_global_id:
  assumes "mem_log_inv s" "i < length (ms_all s)"
  shows "ev_global_id (ms_all s ! i) = of_nat (Suc i)"
proof -
  have "map ev_global_id (ms_all s) ! i = map (\<lambda>i. of_nat (Suc i)) [0..<length (ms_all s)] ! i"
    using assms(1) by (simp add: mem_log_inv_def)
  then show ?thesis using assms(2) by simp
qed

lemma mem_feed_ordered: "mem_feed_inv s \<Longrightarrow> by_global_id (ms_all s)"
  unfolding by_global_id_def sorted_wrt_iff_nth_less mem_feed_inv_def
  by (auto simp: mem_log_global_id word_less_nat_alt unat_of_nat_u64 simp del: of_nat_Suc)

lemma mem_feed_positive:
  assumes "mem_feed_inv s" "e \<in> set (ms_all s)"
  shows "0 < ev_global_id e"
proof -
  obtain i where i: "i < length (ms_all s)" "e = ms_all s ! i"
    using assms(2) by (auto simp: in_set_conv_nth)
  then show ?thesis
    using assms(1) by (simp add: mem_feed_inv_def mem_log_global_id word_less_nat_alt unat_of_nat_u64
        del: of_nat_Suc)
qed

interpretation mem_feed: event_feed mem_feed_inv
  "\<lambda>s g limit. mem_fetch_after g limit opts s" "visible_log opts" for opts
proof unfold_locales
  fix s g and limit :: int
  assume "0 < limit"
  then show "mem_fetch_after g limit opts s = Inr (take (nat limit) (after g (visible_log opts s)))"
    by (simp add: mem_fetch_after_eq)
next
  fix s assume "mem_feed_inv s"
  then show "by_global_id (visible_log opts s)"
    by (intro by_global_id_filter mem_feed_ordered)
next
  fix s e assume "mem_feed_inv s" "e \<in> set (visible_log opts s)"
  then show "0 < ev_global_id e" by (auto intro: mem_feed_positive)
qed

lemma mem_reach_feed: "mem_reach s \<Longrightarrow> length (ms_all s) < 2 ^ 64 \<Longrightarrow> mem_feed_inv s"
  by (simp add: mem_feed_inv_def mem_reach_inv)

section \<open>The aggregate read and the subject read\<close>

lemma mem_load_unscoped:
  "scope_of opts = None \<Longrightarrow>
   mem_load i opts s = (let es = ms_by_aggregate s (uuid_nil, i)
                        in if es = [] then Inl ErrAggregateNotFound else Inr es)"
  by (simp add: mem_load_def)

lemma mem_load_scoped:
  "scope_of opts = Some t \<Longrightarrow>
   mem_load i opts s =
     (let own = ms_by_aggregate s (t, i);
          es = (if own = [] then ms_by_aggregate s (global_tenant_id, i) else own)
      in if es = [] then Inl ErrAggregateNotFound else Inr es)"
  by (simp add: mem_load_def)

lemma mem_load_mem_stream:
  "mem_load i opts s = Inr es \<Longrightarrow> \<exists>t. es = ms_by_aggregate s (t, i) \<and> es \<noteq> []
     \<and> (case scope_of opts of None \<Rightarrow> t = uuid_nil | Some u \<Rightarrow> t = u \<or> t = global_tenant_id)"
  by (cases "scope_of opts") (auto simp: mem_load_unscoped mem_load_scoped Let_def split: if_splits)

text \<open>The stream that a scoped read of a stream the scope owns returns.\<close>

lemma mem_load_own:
  "ms_by_aggregate s (case scope_of opts of None \<Rightarrow> uuid_nil | Some t \<Rightarrow> t, i) \<noteq> [] \<Longrightarrow>
   mem_load i opts s = Inr (ms_by_aggregate s (case scope_of opts of None \<Rightarrow> uuid_nil | Some t \<Rightarrow> t, i))"
  by (cases "scope_of opts") (auto simp: mem_load_unscoped mem_load_scoped)

lemma mem_keyed_stream:
  assumes "mem_keyed s" "e \<in> set (ms_by_aggregate s k)"
  shows "aggregate_key e = k \<and> e \<in> set (ms_all s)"
proof -
  have "ms_by_aggregate s k = filter (\<lambda>e. aggregate_key e = k) (ms_all s)"
    using assms(1) unfolding mem_keyed_def by blast
  with assms(2) show ?thesis by simp
qed

lemma mem_load_visible:
  assumes "mem_keyed s" "mem_load i opts s = Inr es" "e \<in> set es"
  shows "ev_aggregate_id e = i \<and> visible (resolve_store_config opts) e"
proof -
  obtain t where t: "es = ms_by_aggregate s (t, i)"
    "case scope_of opts of None \<Rightarrow> t = uuid_nil | Some u \<Rightarrow> t = u \<or> t = global_tenant_id"
    using mem_load_mem_stream [OF assms(2)] by blast
  with mem_keyed_stream [OF assms(1), of e "(t, i)"] assms(3)
  show ?thesis by (auto simp: aggregate_key_def visible_def split: option.splits)
qed

lemma mem_fetch_by_pii_id_eq:
  assumes "mem_log_inv s"
  shows "mem_fetch_by_pii_id p opts s =
    (let es = filter (\<lambda>e. ev_pii_id e = Some p) (visible_log opts s)
     in if es = [] then Inl ErrSubjectNotFound else Inr es)"
  using assms by (simp add: mem_fetch_by_pii_id_def mem_log_inv_def conj_commute)

section \<open>Commits against reads\<close>

text \<open>The stream a scope owns for an aggregate: the one its commits of untenanted events go to.\<close>

definition scope_key :: "store_option list \<Rightarrow> uuid \<Rightarrow> uuid \<times> uuid" where
  "scope_key opts i = (case scope_of opts of None \<Rightarrow> uuid_nil | Some t \<Rightarrow> t, i)"

text \<open>What a tenant-scoped reader of the log sees of an aggregate is its stream.\<close>

lemma visible_stream:
  assumes "mem_keyed s" "ms_by_aggregate s (global_tenant_id, i) = []"
  shows "filter (\<lambda>e. ev_aggregate_id e = i) (visible_log [WithTenant t] s) = ms_by_aggregate s (t, i)"
proof -
  have "ev_tenant_id e \<noteq> global_tenant_id" if "e \<in> set (ms_all s)" "ev_aggregate_id e = i" for e
  proof
    assume "ev_tenant_id e = global_tenant_id"
    with that have "e \<in> set (filter (\<lambda>e. aggregate_key e = (global_tenant_id, i)) (ms_all s))"
      by (simp add: aggregate_key_def)
    with assms show False unfolding mem_keyed_def by (metis empty_iff list.set(1))
  qed
  then have "filter (\<lambda>e. ev_aggregate_id e = i) (visible_log [WithTenant t] s)
      = filter (\<lambda>e. aggregate_key e = (t, i)) (ms_all s)"
    unfolding filter_filter by (intro filter_cong) (auto simp: visible_def aggregate_key_def)
  with assms(1) show ?thesis unfolding mem_keyed_def by simp
qed

lemma commit_key_untenanted:
  "ev_tenant_id (hd es) = uuid_nil \<Longrightarrow> commit_key opts es = scope_key opts (ev_aggregate_id (hd es))"
  by (auto simp: commit_key_def scope_key_def aggregate_key_def stamp_tenant_def split: option.splits)

lemma mem_load_scope_key:
  "ms_by_aggregate s (scope_key opts i) \<noteq> [] \<Longrightarrow>
   mem_load i opts s = Inr (ms_by_aggregate s (scope_key opts i))"
  unfolding scope_key_def by (rule mem_load_own)

lemma versions_from_committed:
  "versions_from v (number_from g (stamped opts es)) = versions_from v es"
proof (induction es arbitrary: v g)
  case (Cons e es)
  then show ?case by simp
qed simp

text \<open>
  C1. Optimistic concurrency of \<^verbatim>\<open>Store.Commit\<close>: a non-empty commit is refused exactly when the version
  of the stream it targets is not the expected one, with \<^verbatim>\<open>ErrConcurrencyConflict\<close>, and then the store
  is untouched (no event, index entry, global id or subscriber message).
\<close>

theorem commit_conflict_atomic:
  assumes "es \<noteq> []" "mem_commit es v opts s = (r, es', s')"
  shows "(r \<noteq> None \<longleftrightarrow> current_version (ms_by_aggregate s (commit_key opts es)) \<noteq> v)
    \<and> (r \<noteq> None \<longrightarrow> r = Some ErrConcurrencyConflict \<and> s' = s)"
  using assms by (auto simp: mem_commit_eq Let_def split: if_splits)

theorem commit_conflict_atomic_witness:
  "\<exists>r es' s'. mem_commit [sample_event 0 7 1] 4 [] mem_new = (r, es', s')
    \<and> r = Some ErrConcurrencyConflict \<and> s' = mem_new
    \<and> current_version (ms_by_aggregate mem_new (commit_key [] [sample_event 0 7 1])) \<noteq> 4"
proof -
  obtain r es' s' where c: "mem_commit [sample_event 0 7 1] 4 [] mem_new = (r, es', s')"
    by (metis prod_cases3)
  have "current_version (ms_by_aggregate mem_new (commit_key [] [sample_event 0 7 1])) \<noteq> 4"
    by (simp add: mem_new_def current_version_def)
  with commit_conflict_atomic [OF _ c] c show ?thesis by auto
qed

text \<open>
  C2. A successful commit of fresh events is what the next \<^verbatim>\<open>Load\<close> under the same options returns,
  after the events that were there before; every other stream is left as it was.
\<close>

theorem load_after_commit:
  assumes "es \<noteq> []" "ev_tenant_id (hd es) = uuid_nil" "ev_aggregate_id (hd es) = i"
    and "mem_commit es v opts s = (None, es', s')"
  shows "mem_load i opts s' = Inr (ms_by_aggregate s (scope_key opts i) @ es')
    \<and> (\<forall>k. k \<noteq> scope_key opts i \<longrightarrow> ms_by_aggregate s' k = ms_by_aggregate s k)"
proof -
  have key: "commit_key opts es = scope_key opts i"
    using assms(2,3) by (simp add: commit_key_untenanted)
  from mem_commit_ok [OF assms(4) \<open>es \<noteq> []\<close>]
  have s': "s' = mem_extend (scope_key opts i) es' s" and "es' \<noteq> []"
    using \<open>es \<noteq> []\<close> by (auto simp: key)
  then show ?thesis using mem_load_scope_key [of s' opts i] by simp
qed

theorem load_after_commit_witness:
  "\<exists>es' s'. mem_commit [sample_event 0 7 1] 0 [WithTenant 5] mem_new = (None, es', s')
    \<and> mem_load 7 [WithTenant 5] s' = Inr (ms_by_aggregate mem_new (scope_key [WithTenant 5] 7) @ es')"
proof -
  obtain es' s' where c: "mem_commit [sample_event 0 7 1] 0 [WithTenant 5] mem_new = (None, es', s')"
    by (simp add: mem_commit_eq mem_new_def current_version_def Let_def)
  with load_after_commit [of "[sample_event 0 7 1]" 7, OF _ _ _ c] show ?thesis by auto
qed

text \<open>
  No lost update: of two writers that read the same version of a stream, the second to commit is
  refused and changes nothing, whatever events it brings.
\<close>

lemma no_lost_update:
  assumes "es \<noteq> []" "versions_from v es" "length es < 2 ^ 64"
    and "mem_commit es v opts s = (None, es', s')"
    and "fs \<noteq> []" "commit_key opts' fs = commit_key opts es"
  shows "\<exists>fs'. mem_commit fs v opts' s' = (Some ErrConcurrencyConflict, fs', s')"
proof -
  from mem_commit_ok [OF assms(4,1)]
  have es': "es' = number_from (ms_next_global_id s) (stamped opts es)"
    and s': "s' = mem_extend (commit_key opts es) es' s" by auto
  have "current_version (ms_by_aggregate s' (commit_key opts es)) = current_version es'"
    using assms(1) by (simp add: s' es' current_version_append)
  also have "\<dots> = v + of_nat (length es)"
    using assms(1,2) by (simp add: es' current_version_from versions_from_committed)
  also have "\<dots> \<noteq> v"
  proof
    assume "v + of_nat (length es) = v"
    then have "(of_nat (length es) :: u64) = of_nat 0" by simp
    from of_nat_u64_inj [OF this assms(3)] show False using assms(1) by simp
  qed
  finally show ?thesis using assms(5,6) by (simp add: mem_commit_eq)
qed

theorem no_lost_update_witness:
  "\<exists>fs' s'. mem_commit [sample_event 0 7 1] 0 [] s' = (Some ErrConcurrencyConflict, fs', s')"
proof -
  obtain es' s' where c: "mem_commit [sample_event 0 7 1] 0 [] mem_new = (None, es', s')"
    by (simp add: mem_commit_eq mem_new_def current_version_def Let_def)
  from no_lost_update [OF _ _ _ this, of "[sample_event 0 7 1]" "[]"] show ?thesis by auto
qed

section \<open>Reads of a reachable store\<close>

text \<open>
  C13. A poller that pages through \<^verbatim>\<open>FetchAfter\<close> from cursor 0, with any positive page size, delivers
  exactly the committed events its scope may see, each once, in commit order, and stops at the end.
\<close>

theorem polling_delivers_visible_log:
  assumes "mem_reach s" "length (ms_all s) < 2 ^ 64" "0 < limit"
    and "length (visible_log opts s) < fuel" "length (visible_log opts s) \<le> budget"
  shows "\<exists>g. drain (\<lambda>c. mem_fetch_after c limit opts s) fuel budget 0 [] = (Drained, g, visible_log opts s)"
  using assms by (intro mem_feed.drain_correct mem_reach_feed)

theorem polling_delivers_visible_log_witness:
  "\<exists>s g. length (ms_all s) = 1
    \<and> drain (\<lambda>c. mem_fetch_after c 1 [WithTenant 5] s) 3 2 0 [] = (Drained, g, visible_log [WithTenant 5] s)"
proof -
  obtain es' s' where c: "mem_commit [sample_event 0 7 1] 0 [WithTenant 5] mem_new = (None, es', s')"
    by (simp add: mem_commit_eq mem_new_def current_version_def Let_def)
  then have reach: "mem_reach s'"
    by (rule mem_reach.commit [OF mem_reach.new, rotated]) (simp add: uniform_batch_def commit_key_def)
  have len: "length (ms_all s') = 1"
    using mem_commit_ok [OF c] by (simp add: mem_new_def)
  then have "length (visible_log [WithTenant 5] s') \<le> 1"
    by (metis length_filter_le)
  with polling_delivers_visible_log [OF reach, of 1 "[WithTenant 5]" 3 2] len show ?thesis by auto
qed

text \<open>
  C34. Tenant isolation of the reads: whatever \<^verbatim>\<open>Load\<close>, \<^verbatim>\<open>FetchAfter\<close> or \<^verbatim>\<open>FetchByPiiID\<close> returns under a scope
  bound to tenant \<open>t\<close> is an event of \<open>t\<close> or of the global tenant, and \<^verbatim>\<open>Load\<close> returns only events of the
  aggregate it was asked for.
\<close>

theorem reads_isolated:
  assumes "mem_reach s" "scope_of opts = Some t"
    and "mem_load i opts s = Inr es \<or> mem_fetch_after g limit opts s = Inr es
       \<or> mem_fetch_by_pii_id p opts s = Inr es"
    and "e \<in> set es"
  shows "(ev_tenant_id e = t \<or> ev_tenant_id e = global_tenant_id)
    \<and> (mem_load i opts s = Inr es \<longrightarrow> ev_aggregate_id e = i)"
proof -
  have inv: "mem_log_inv s" "mem_keyed s" using mem_reach_inv [OF assms(1)] by auto
  have "visible (resolve_store_config opts) e"
    using assms(3)
  proof (elim disjE)
    assume "mem_load i opts s = Inr es"
    then show ?thesis using mem_load_visible [OF inv(2) _ assms(4)] by blast
  next
    assume "mem_fetch_after g limit opts s = Inr es"
    then have "e \<in> set (visible_log opts s)"
      using assms(4) by (auto simp: mem_fetch_after_eq after_def dest: in_set_takeD split: if_splits)
    then show ?thesis by simp
  next
    assume "mem_fetch_by_pii_id p opts s = Inr es"
    then show ?thesis
      using assms(4) by (auto simp: mem_fetch_by_pii_id_eq [OF inv(1)] Let_def split: if_splits)
  qed
  moreover have "mem_load i opts s = Inr es \<longrightarrow> ev_aggregate_id e = i"
    using mem_load_visible [OF inv(2) _ assms(4)] by blast
  ultimately show ?thesis using assms(2) by (auto simp: visible_def)
qed

theorem reads_isolated_witness:
  "\<exists>s e. mem_load 7 [WithTenant 5] s = Inr [e]
    \<and> (ev_tenant_id e = 5 \<or> ev_tenant_id e = global_tenant_id) \<and> ev_aggregate_id e = 7"
proof -
  let ?e = "(sample_event 5 7 1)\<lparr>ev_global_id := 1\<rparr>"
  obtain s' where c: "mem_commit [sample_event 5 7 1] 0 [WithTenant 5] mem_new = (None, [?e], s')"
    and s': "s' = mem_extend (5, 7) [?e] mem_new"
    by (simp add: mem_commit_eq mem_new_def current_version_def Let_def stamp_tenant_def
        commit_key_def aggregate_key_def)
  have reach: "mem_reach s'"
    using c by (rule mem_reach.commit [OF mem_reach.new, rotated])
      (simp add: uniform_batch_def commit_key_def)
  have ld: "mem_load 7 [WithTenant 5] s' = Inr [?e]"
    by (simp add: s' mem_load_def mem_new_def)
  have "(ev_tenant_id ?e = 5 \<or> ev_tenant_id ?e = global_tenant_id)
      \<and> (mem_load 7 [WithTenant 5] s' = Inr [?e] \<longrightarrow> ev_aggregate_id ?e = 7)"
    by (rule reads_isolated [OF reach, of "[WithTenant 5]" 5 7 "[?e]"]) (simp_all add: ld)
  with ld show ?thesis by blast
qed

text \<open>
  \<^verbatim>\<open>FetchByPiiID\<close> is exact: on a reachable store it returns the events that carry the subject's id
  and that the scope may see, in commit order, and \<^verbatim>\<open>ErrSubjectNotFound\<close> exactly when there is none.
\<close>

lemma pii_lookup_exact:
  assumes "mem_reach s"
  shows "mem_fetch_by_pii_id p opts s =
    (let es = filter (\<lambda>e. ev_pii_id e = Some p \<and> visible (resolve_store_config opts) e) (ms_all s)
     in if es = [] then Inl ErrSubjectNotFound else Inr es)"
  using mem_reach_inv [OF assms] by (simp add: mem_fetch_by_pii_id_eq conj_commute)

theorem pii_lookup_exact_witness:
  "mem_fetch_by_pii_id 3 [] mem_new =
    (let es = filter (\<lambda>e. ev_pii_id e = Some 3 \<and> visible (resolve_store_config []) e) (ms_all mem_new)
     in if es = [] then Inl ErrSubjectNotFound else Inr es)"
  by (rule pii_lookup_exact) (rule mem_reach.new)

end
