(* ===== verification/Es_Store.thy ===== *)
theory Es_Store
  imports Mem_Reads
begin

text \<open>
  The interface \<^verbatim>\<open>EventStore\<close> of \<^verbatim>\<open>es/store.go\<close> (with the optional capability \<^verbatim>\<open>PiiLookup\<close> of
  \<^verbatim>\<open>es/pii_lookup.go\<close>) as a record of operations over a store state, its in-memory implementation,
  and the decorator \<^verbatim>\<open>TenantScopedStore\<close> of \<^verbatim>\<open>es/tenant_store.go\<close>. The locale \<open>event_store\<close> is the
  contract a \<^verbatim>\<open>Repository\<close> relies on; both stores interpret it here, the PII decorator and the
  Postgres store do in their own theories. \<^verbatim>\<open>StreamAll\<close> is treated in \<open>Mem_Stream\<close> and \<open>Event_Feed\<close>.
\<close>

section \<open>The interface\<close>

text \<open>\<open>st_fetch_by_pii\<close> is \<open>None\<close> when the type assertion to \<^verbatim>\<open>PiiLookup\<close> fails.\<close>

record 's event_store_ops =
  st_commit :: "domain_event list \<Rightarrow> u64 \<Rightarrow> store_option list \<Rightarrow> 's \<Rightarrow>
    error option \<times> domain_event list \<times> 's"
  st_load :: "uuid \<Rightarrow> store_option list \<Rightarrow> 's \<Rightarrow> error + domain_event list"
  st_fetch_after :: "u64 \<Rightarrow> int \<Rightarrow> store_option list \<Rightarrow> 's \<Rightarrow> error + domain_event list"
  st_fetch_by_pii :: "(uuid \<Rightarrow> store_option list \<Rightarrow> 's \<Rightarrow> error + domain_event list) option"

definition mem_ops :: "mem_store event_store_ops" where
  "mem_ops = \<lparr> st_commit = mem_commit, st_load = mem_load, st_fetch_after = mem_fetch_after,
     st_fetch_by_pii = Some mem_fetch_by_pii_id \<rparr>"

lemma mem_ops_sel [simp, store_simps]:
  "st_commit mem_ops = mem_commit"
  "st_load mem_ops = mem_load"
  "st_fetch_after mem_ops = mem_fetch_after"
  "st_fetch_by_pii mem_ops = Some mem_fetch_by_pii_id"
  by (simp_all add: mem_ops_def)

section \<open>TenantScopedStore\<close>

definition with_tenant :: "uuid \<Rightarrow> store_option list \<Rightarrow> store_option list" where
  "with_tenant t opts = opts @ [WithTenant t]"

definition ts_commit :: "'s event_store_ops \<Rightarrow> uuid \<Rightarrow> domain_event list \<Rightarrow> u64 \<Rightarrow> store_option list \<Rightarrow>
    's \<Rightarrow> error option \<times> domain_event list \<times> 's" where
  "ts_commit st t es v opts s = st_commit st es v (with_tenant t opts) s"

definition ts_load :: "'s event_store_ops \<Rightarrow> uuid \<Rightarrow> uuid \<Rightarrow> store_option list \<Rightarrow> 's \<Rightarrow>
    error + domain_event list" where
  "ts_load st t i opts s = st_load st i (with_tenant t opts) s"

definition ts_fetch_after :: "'s event_store_ops \<Rightarrow> uuid \<Rightarrow> u64 \<Rightarrow> int \<Rightarrow> store_option list \<Rightarrow> 's \<Rightarrow>
    error + domain_event list" where
  "ts_fetch_after st t g limit opts s = st_fetch_after st g limit (with_tenant t opts) s"

definition ts_fetch_by_pii_id :: "'s event_store_ops \<Rightarrow> uuid \<Rightarrow> uuid \<Rightarrow> store_option list \<Rightarrow> 's \<Rightarrow>
    error + domain_event list" where
  "ts_fetch_by_pii_id st t p opts s =
     (case st_fetch_by_pii st of
        None \<Rightarrow> Inl ErrPiiLookupUnsupported
      | Some lookup \<Rightarrow> lookup p (with_tenant t opts) s)"

definition tenant_scoped :: "uuid \<Rightarrow> 's event_store_ops \<Rightarrow> 's event_store_ops" where
  "tenant_scoped t st = \<lparr> st_commit = ts_commit st t, st_load = ts_load st t,
     st_fetch_after = ts_fetch_after st t, st_fetch_by_pii = Some (ts_fetch_by_pii_id st t) \<rparr>"

lemma tenant_scoped_sel [simp, store_simps]:
  "st_commit (tenant_scoped t st) = ts_commit st t"
  "st_load (tenant_scoped t st) = ts_load st t"
  "st_fetch_after (tenant_scoped t st) = ts_fetch_after st t"
  "st_fetch_by_pii (tenant_scoped t st) = Some (ts_fetch_by_pii_id st t)"
  by (simp_all add: tenant_scoped_def)

lemma scope_of_with_tenant [simp]: "scope_of (with_tenant t opts) = Some t"
  by (simp add: with_tenant_def)

section \<open>The contract\<close>

text \<open>What replay reads of an event.\<close>

definition replay_view :: "domain_event \<Rightarrow> string \<times> raw \<times> u64" where
  "replay_view e = (ev_name e, ev_payload e, ev_aggregate_version e)"

lemma replay_view_frame [simp]:
  "replay_view (stamp_tenant cfg e) = replay_view e"
  "replay_view (e\<lparr>ev_global_id := n\<rparr>) = replay_view e"
  by (simp_all add: replay_view_def)

lemma current_version_replay_view:
  "map replay_view es = map replay_view fs \<Longrightarrow> current_version es = current_version fs"
proof (cases "es = []")
  case False
  assume eq: "map replay_view es = map replay_view fs"
  with False have "fs \<noteq> []" by auto
  with False eq have "replay_view (last es) = replay_view (last fs)"
    by (metis last_map)
  with False \<open>fs \<noteq> []\<close> show ?thesis by (simp add: current_version_def replay_view_def)
qed simp

text \<open>
  \<open>stream s i\<close> is what a read of aggregate \<open>i\<close> under \<open>opts\<close> shows of the stream that commits under
  \<open>opts\<close> go to; \<open>batch s i es\<close> says that \<open>es\<close> may be committed to it.
\<close>

locale event_store =
  fixes st :: "'s event_store_ops"
    and opts :: "store_option list"
    and inv :: "'s \<Rightarrow> bool"
    and stream :: "'s \<Rightarrow> uuid \<Rightarrow> domain_event list"
    and batch :: "'s \<Rightarrow> uuid \<Rightarrow> domain_event list \<Rightarrow> bool"
  assumes load_stream: "inv s \<Longrightarrow> stream s i \<noteq> [] \<Longrightarrow> st_load st i opts s = Inr (stream s i)"
    and commit_conflict: "inv s \<Longrightarrow> batch s i es \<Longrightarrow> es \<noteq> [] \<Longrightarrow>
      st_commit st es v opts s = (r, es', s') \<Longrightarrow> current_version (stream s i) \<noteq> v \<Longrightarrow>
      r \<noteq> None \<and> inv s' \<and> stream s' = stream s"
    and commit_appends: "inv s \<Longrightarrow> batch s i es \<Longrightarrow> es \<noteq> [] \<Longrightarrow>
      st_commit st es v opts s = (None, es', s') \<Longrightarrow>
      inv s' \<and> current_version (stream s i) = v
      \<and> (\<exists>fs. stream s' i = stream s i @ fs \<and> map replay_view fs = map replay_view es)"
    and commit_frame: "inv s \<Longrightarrow> batch s i es \<Longrightarrow> es \<noteq> [] \<Longrightarrow>
      st_commit st es v opts s = (None, es', s') \<Longrightarrow> j \<noteq> i \<Longrightarrow> stream s' j = stream s j"
begin

lemma load_after_append:
  assumes "inv s" "batch s i es" "es \<noteq> []" "st_commit st es v opts s = (None, es', s')"
  obtains fs where "st_load st i opts s' = Inr (stream s i @ fs)"
    "map replay_view fs = map replay_view es" "stream s' i = stream s i @ fs"
proof -
  from commit_appends [OF assms] obtain fs where "inv s'" and st: "stream s' i = stream s i @ fs"
    and v: "map replay_view fs = map replay_view es" by blast
  from v assms(3) have "fs \<noteq> []" by (metis list.map_disc_iff)
  then have "stream s' i \<noteq> []" by (simp add: st)
  from load_stream [OF \<open>inv s'\<close> this] have "st_load st i opts s' = Inr (stream s i @ fs)"
    unfolding st .
  from this v st show thesis by (rule that)
qed

text \<open>A writer that lost the race cannot succeed with the version it had read.\<close>

lemma second_commit_fails:
  assumes "inv s" "batch s i es" "es \<noteq> []" "st_commit st es v opts s = (None, es', s')"
    and "versions_from v es" "length es < 2 ^ 64"
    and "batch s' i gs" "gs \<noteq> []" "st_commit st gs v opts s' = (r, gs', s'')"
  shows "r \<noteq> None"
proof -
  from commit_appends [OF assms(1-4)] obtain fs where fs: "stream s' i = stream s i @ fs"
    "map replay_view fs = map replay_view es" and "inv s'" by blast
  with assms(3) have "fs \<noteq> []" by (metis list.map_disc_iff)
  then have "current_version (stream s' i) = current_version es"
    unfolding current_version_replay_view [OF fs(2), symmetric] fs(1)
    by (simp add: current_version_append)
  also have "\<dots> = v + of_nat (length es)"
    using assms(3,5) by (simp add: current_version_from)
  also have "\<dots> \<noteq> v"
    using of_nat_u64_inj [of "length es" 0] assms(3,6) by auto
  finally show ?thesis
    using commit_conflict [OF \<open>inv s'\<close> assms(7,8,9)] by blast
qed

end

text \<open>
  A store that keeps everything of an event but the tenant and the global id it assigns itself, and
  whose acceptance of a batch does not look at the payloads: what the PII decorator needs of the
  store it wraps.
\<close>

definition stored_view :: "domain_event \<Rightarrow> domain_event" where
  "stored_view e = e\<lparr>ev_global_id := 0, ev_tenant_id := 0\<rparr>"

definition batch_view :: "domain_event \<Rightarrow> uuid \<times> uuid \<times> u64" where
  "batch_view e = (ev_tenant_id e, ev_aggregate_id e, ev_aggregate_version e)"

lemma stored_viewD:
  assumes "stored_view x = stored_view y"
  shows "ev_name x = ev_name y" "ev_payload x = ev_payload y"
    "ev_aggregate_version x = ev_aggregate_version y" "ev_aggregate_id x = ev_aggregate_id y"
    "ev_pii_id x = ev_pii_id y" "ev_pii_fields x = ev_pii_fields y"
    "ev_pii_unrecoverable x = ev_pii_unrecoverable y" "ev_metadata x = ev_metadata y"
    "ev_occurred_at x = ev_occurred_at y"
  using assms by (cases x; cases y; simp add: stored_view_def)+

lemma stored_view_frame [simp]:
  "stored_view (stamp_tenant cfg e) = stored_view e"
  "stored_view (e\<lparr>ev_global_id := n\<rparr>) = stored_view e"
  by (auto simp: stored_view_def stamp_tenant_def split: option.split)

text \<open>What is then read back of it: Postgres rounds the time, and keeps no mark of ciphertext.\<close>

definition kept_view :: "domain_event \<Rightarrow> domain_event" where
  "kept_view e = (stored_view e)\<lparr>ev_occurred_at := ev_occurred_at zero_event, ev_pii_unrecoverable := False\<rparr>"

lemma kept_viewD:
  assumes "kept_view x = kept_view y"
  shows "ev_name x = ev_name y" "ev_payload x = ev_payload y"
    "ev_aggregate_version x = ev_aggregate_version y" "ev_aggregate_id x = ev_aggregate_id y"
    "ev_pii_id x = ev_pii_id y" "ev_pii_fields x = ev_pii_fields y" "ev_metadata x = ev_metadata y"
  using assms by (cases x; cases y; simp add: kept_view_def stored_view_def)+

lemma stored_kept: "stored_view x = stored_view y \<Longrightarrow> kept_view x = kept_view y"
  by (simp add: kept_view_def)

lemma stored_kept_all:
  assumes "map stored_view xs = map stored_view ys"
  shows "map kept_view xs = map kept_view ys"
  using arg_cong [OF assms, of "map (\<lambda>e. e\<lparr>ev_occurred_at := ev_occurred_at zero_event, ev_pii_unrecoverable := False\<rparr>)"]
  by (simp add: comp_def kept_view_def [abs_def])

locale faithful_store = event_store +
  assumes commit_stores: "inv s \<Longrightarrow> batch s i es \<Longrightarrow> es \<noteq> [] \<Longrightarrow>
      st_commit st es v opts s = (None, es', s') \<Longrightarrow>
      map stored_view es' = map stored_view es
      \<and> (\<exists>fs. stream s' i = stream s i @ fs \<and> map kept_view fs = map kept_view es)"
    and batch_cong: "map batch_view es = map batch_view fs \<Longrightarrow> batch s i es = batch s i fs"

text \<open>
  A store that takes every batch on the current version, and refuses the others with the error that a
  caller who reloads and retries looks for.
\<close>

locale live_store = event_store +
  assumes commit_current: "inv s \<Longrightarrow> batch s i es \<Longrightarrow> es \<noteq> [] \<Longrightarrow>
      st_commit st es v opts s = (r, es', s') \<Longrightarrow> current_version (stream s i) = v \<Longrightarrow> r = None"
    and commit_stale: "inv s \<Longrightarrow> batch s i es \<Longrightarrow> es \<noteq> [] \<Longrightarrow>
      st_commit st es v opts s = (r, es', s') \<Longrightarrow> current_version (stream s i) \<noteq> v \<Longrightarrow>
      r = Some ErrConcurrencyConflict"

section \<open>The two stores satisfy it\<close>

text \<open>Fresh events of one aggregate, as \<^verbatim>\<open>RecordThat\<close> buffers them.\<close>

definition fresh_batch :: "uuid \<Rightarrow> domain_event list \<Rightarrow> bool" where
  "fresh_batch i es \<longleftrightarrow> list_all (\<lambda>e. ev_aggregate_id e = i \<and> ev_tenant_id e = uuid_nil) es"

lemma fresh_batch_key: "fresh_batch i es \<Longrightarrow> es \<noteq> [] \<Longrightarrow> commit_key opts es = scope_key opts i"
  by (cases es) (auto simp: fresh_batch_def commit_key_untenanted)

lemma fresh_batch_uniform:
  assumes "fresh_batch i es"
  shows "uniform_batch opts es"
proof (cases "es = []")
  case False
  have "commit_key opts [e] = scope_key opts i" if "e \<in> set es" for e
    using assms that by (intro fresh_batch_key) (auto simp: fresh_batch_def list_all_iff)
  then show ?thesis
    using fresh_batch_key [OF assms False, of opts]
    by (auto simp: uniform_batch_def list_all_iff commit_key_def)
qed (simp add: uniform_batch_def)

definition mem_inv :: "mem_store \<Rightarrow> bool" where
  "mem_inv s \<longleftrightarrow> mem_log_inv s \<and> mem_keyed s"

lemma mem_inv_new: "mem_inv mem_new"
  by (simp add: mem_inv_def mem_log_inv_new mem_keyed_new)

lemma mem_inv_commit:
  "mem_inv s \<Longrightarrow> fresh_batch i es \<Longrightarrow> mem_commit es v opts s = (r, es', s') \<Longrightarrow> mem_inv s'"
  by (auto simp: mem_inv_def intro: mem_log_inv_commit mem_keyed_commit fresh_batch_uniform)

lemma mem_commit_fresh_ok:
  assumes "fresh_batch i es" "es \<noteq> []" "mem_commit es v opts s = (None, es', s')"
  shows "current_version (ms_by_aggregate s (scope_key opts i)) = v
    \<and> map replay_view es' = map replay_view es
    \<and> s' = mem_extend (scope_key opts i) es' s"
proof -
  have "map replay_view (number_from g (stamped opts es)) = map replay_view es" for g
    by (simp add: map_number_from)
  with mem_commit_ok [OF assms(3,2)] fresh_batch_key [OF assms(1,2)] show ?thesis by simp
qed

abbreviation mem_stream :: "store_option list \<Rightarrow> mem_store \<Rightarrow> uuid \<Rightarrow> domain_event list" where
  "mem_stream opts s i \<equiv> ms_by_aggregate s (scope_key opts i)"

lemma scope_key_inj: "scope_key opts i = scope_key opts j \<longleftrightarrow> i = j"
  by (simp add: scope_key_def)

interpretation mem: event_store mem_ops opts mem_inv "mem_stream opts" "\<lambda>_. fresh_batch" for opts
proof unfold_locales
  fix s i assume "mem_stream opts s i \<noteq> []"
  then show "st_load mem_ops i opts s = Inr (mem_stream opts s i)" by (simp add: mem_load_scope_key)
next
  fix s i es v r es' s'
  assume a: "mem_inv s" "fresh_batch i es" "es \<noteq> []" "st_commit mem_ops es v opts s = (r, es', s')"
    "current_version (mem_stream opts s i) \<noteq> v"
  then show "r \<noteq> None \<and> mem_inv s' \<and> mem_stream opts s' = mem_stream opts s"
    using fresh_batch_key [OF a(2,3), of opts] by (auto simp: mem_commit_eq)
next
  fix s i es v es' s'
  assume a: "mem_inv s" "fresh_batch i es" "es \<noteq> []" "st_commit mem_ops es v opts s = (None, es', s')"
  then have c: "mem_commit es v opts s = (None, es', s')" by simp
  show "mem_inv s' \<and> current_version (mem_stream opts s i) = v
      \<and> (\<exists>fs. mem_stream opts s' i = mem_stream opts s i @ fs \<and> map replay_view fs = map replay_view es)"
    using mem_inv_commit [OF a(1,2) c] mem_commit_fresh_ok [OF a(2,3) c] by auto
next
  fix s i es v es' s' j
  assume a: "mem_inv s" "fresh_batch i es" "es \<noteq> []" "st_commit mem_ops es v opts s = (None, es', s')"
    and "j \<noteq> i"
  then show "mem_stream opts s' j = mem_stream opts s j"
    using mem_commit_fresh_ok [OF a(2,3), of v opts s es' s'] by (auto simp: scope_key_inj)
qed

lemma fresh_batch_cong: "map batch_view es = map batch_view fs \<Longrightarrow> fresh_batch i es = fresh_batch i fs"
proof (induction es arbitrary: fs)
  case (Cons e es)
  then obtain f gs where fs: "fs = f # gs" "batch_view e = batch_view f"
    "map batch_view es = map batch_view gs" by (cases fs) auto
  from Cons.IH [OF fs(3)] fs(1,2) show ?case by (simp add: fresh_batch_def batch_view_def)
qed simp

lemma mem_commit_stores:
  assumes a: "fresh_batch i es" "es \<noteq> []" and c: "mem_commit es v opts s = (None, es', s')"
  shows "map stored_view es' = map stored_view es \<and> mem_stream opts s' i = mem_stream opts s i @ es'"
proof -
  have "map stored_view (number_from g (stamped opts es)) = map stored_view es" for g
    by (simp add: map_number_from)
  with mem_commit_ok [OF c a(2)] mem_commit_fresh_ok [OF a c] show ?thesis by simp
qed

interpretation mem_faithful: faithful_store mem_ops opts mem_inv "mem_stream opts" "\<lambda>_. fresh_batch" for opts
proof unfold_locales
  fix s i es v es' s'
  assume "fresh_batch i es" "es \<noteq> []" "st_commit mem_ops es v opts s = (None, es', s')"
  with mem_commit_stores [of i es v opts s es' s'] stored_kept_all [of es' es]
  show "map stored_view es' = map stored_view es
      \<and> (\<exists>fs. mem_stream opts s' i = mem_stream opts s i @ fs \<and> map kept_view fs = map kept_view es)" by auto
qed (rule fresh_batch_cong)

interpretation mem_live: live_store mem_ops opts mem_inv "mem_stream opts" "\<lambda>_. fresh_batch" for opts
proof unfold_locales
  fix s i es v r es' s'
  assume a: "mem_inv s" "fresh_batch i es" "es \<noteq> []" "st_commit mem_ops es v opts s = (r, es', s')"
  note key = fresh_batch_key [OF a(2,3), of opts]
  show "current_version (mem_stream opts s i) = v \<Longrightarrow> r = None"
    using a(3,4) key by (auto simp: mem_commit_eq Let_def)
  show "current_version (mem_stream opts s i) \<noteq> v \<Longrightarrow> r = Some ErrConcurrencyConflict"
    using a(3,4) key by (auto simp: mem_commit_eq Let_def)
qed

text \<open>
  A tenant-scoped store, over any store, is that store under the bound tenant, whatever options it is
  given: it keeps every contract that the store below keeps under the options with the tenant last.
\<close>

locale scoped_store = base: faithful_store st "with_tenant t opts" inv stream batch
  for st :: "'s event_store_ops" and t :: uuid and opts :: "store_option list" and inv :: "'s \<Rightarrow> bool"
    and stream :: "'s \<Rightarrow> uuid \<Rightarrow> domain_event list" and batch :: "'s \<Rightarrow> uuid \<Rightarrow> domain_event list \<Rightarrow> bool"

sublocale scoped_store \<subseteq> scoped: faithful_store "tenant_scoped t st" opts inv stream batch
  by (unfold_locales, unfold tenant_scoped_sel ts_load_def ts_commit_def)
    (fact base.load_stream base.commit_conflict base.commit_appends base.commit_frame base.commit_stores base.batch_cong)+

locale scoped_live_store = scoped_store st t opts inv stream batch + base_live: live_store st "with_tenant t opts" inv stream batch
  for st :: "'s event_store_ops" and t :: uuid and opts :: "store_option list" and inv :: "'s \<Rightarrow> bool"
    and stream :: "'s \<Rightarrow> uuid \<Rightarrow> domain_event list" and batch :: "'s \<Rightarrow> uuid \<Rightarrow> domain_event list \<Rightarrow> bool"

sublocale scoped_live_store \<subseteq> scoped_live: live_store "tenant_scoped t st" opts inv stream batch
  by (unfold_locales, unfold tenant_scoped_sel ts_commit_def) (fact base_live.commit_current base_live.commit_stale)+

lemma scope_key_with_tenant: "scope_key (with_tenant t opts) i = (t, i)"
  by (simp add: scope_key_def)

interpretation tenant: scoped_live_store mem_ops t opts mem_inv "\<lambda>s i. ms_by_aggregate s (t, i)" "\<lambda>_. fresh_batch"
  for t opts
proof -
  note mem = mem_faithful.faithful_store_axioms [of "with_tenant t opts"] mem_live.live_store_axioms [of "with_tenant t opts"]
  show "scoped_live_store mem_ops t opts mem_inv (\<lambda>s i. ms_by_aggregate s (t, i)) (\<lambda>_. fresh_batch)"
    using mem unfolding scope_key_with_tenant by (intro scoped_live_store.intro scoped_store.intro)
qed

section \<open>What the bound tenant guarantees\<close>

text \<open>
  A \<^verbatim>\<open>TenantScopedStore\<close> over the in-memory store never returns another tenant's event from a read,
  also when the caller passes \<^verbatim>\<open>WithTenant\<close> of another tenant or \<^verbatim>\<open>WithAllTenants\<close>: the bound tenant,
  appended last, wins.
\<close>

lemma tenant_scoped_reads_isolated:
  assumes "mem_reach s"
    and "st_load (tenant_scoped t mem_ops) i opts s = Inr es
       \<or> st_fetch_after (tenant_scoped t mem_ops) g limit opts s = Inr es
       \<or> ts_fetch_by_pii_id mem_ops t p opts s = Inr es"
    and "e \<in> set es"
  shows "ev_tenant_id e = t \<or> ev_tenant_id e = global_tenant_id"
proof -
  have inv: "mem_log_inv s" "mem_keyed s" using mem_reach_inv [OF assms(1)] by auto
  have "visible (resolve_store_config (with_tenant t opts)) e"
    using assms(2,3) mem_load_visible [OF inv(2), of i "with_tenant t opts" es e]
    by (auto simp: ts_load_def ts_fetch_after_def ts_fetch_by_pii_id_def mem_fetch_after_eq after_def
        mem_fetch_by_pii_id_eq [OF inv(1)] Let_def dest!: in_set_takeD split: if_splits)
  then show ?thesis by (auto simp: visible_def)
qed

theorem tenant_scoped_reads_isolated_witness:
  "\<exists>s e. st_load (tenant_scoped 5 mem_ops) 7 [WithTenant 6, WithAllTenants] s = Inr [e]
    \<and> (ev_tenant_id e = 5 \<or> ev_tenant_id e = global_tenant_id)"
proof -
  let ?e = "(sample_event 5 7 1)\<lparr>ev_global_id := 1\<rparr>"
  obtain s' where c: "mem_commit [sample_event 5 7 1] 0 [WithTenant 5] mem_new = (None, [?e], s')"
    and s': "s' = mem_extend (5, 7) [?e] mem_new"
    by (simp add: mem_commit_eq mem_new_def current_version_def Let_def stamp_tenant_def
        commit_key_def aggregate_key_def)
  have reach: "mem_reach s'"
    using c by (rule mem_reach.commit [OF mem_reach.new, rotated])
      (simp add: uniform_batch_def commit_key_def)
  have ld: "st_load (tenant_scoped 5 mem_ops) 7 [WithTenant 6, WithAllTenants] s' = Inr [?e]"
    by (simp add: s' ts_load_def with_tenant_def resolve_store_config_def mem_load_def mem_new_def)
  have "ev_tenant_id ?e = 5 \<or> ev_tenant_id ?e = global_tenant_id"
    by (rule tenant_scoped_reads_isolated [OF reach, of 5 7 "[WithTenant 6, WithAllTenants]" "[?e]"])
      (simp_all only: ld simp_thms list.set insert_iff)
  with ld show ?thesis by blast
qed

text \<open>
  The bound tenant does not win on \<^verbatim>\<open>Commit\<close>: an event that already carries another tenant's id
  is written, through the scoped store, to that other tenant's stream, and the scoped store itself
  cannot read it back.
\<close>

lemma prestamped_event_escapes_scope:
  assumes "ev_tenant_id e = u" "u \<noteq> uuid_nil" "u \<noteq> t" "ev_aggregate_id e = i"
    and "current_version (ms_by_aggregate s (u, i)) = v"
  shows "\<exists>e' s'. st_commit (tenant_scoped t mem_ops) [e] v opts s = (None, [e'], s')
    \<and> ev_tenant_id e' = u
    \<and> ms_by_aggregate s' (u, i) = ms_by_aggregate s (u, i) @ [e']
    \<and> st_load (tenant_scoped t mem_ops) i opts s' = st_load (tenant_scoped t mem_ops) i opts s"
proof -
  have "stamp_tenant (resolve_store_config (with_tenant t opts)) e = e"
    using assms(1,2) by (simp add: stamp_tenant_def)
  then have "commit_key (with_tenant t opts) [e] = (u, i)"
    "stamped (with_tenant t opts) [e] = [e]"
    using assms(1,4) by (simp_all add: commit_key_def aggregate_key_def)
  then show ?thesis
    using assms by (simp add: ts_commit_def ts_load_def mem_commit_eq Let_def mem_load_scoped
        global_tenant_id_def)
qed

theorem prestamped_event_escapes_scope_witness:
  "\<exists>e' s'. st_commit (tenant_scoped 5 mem_ops) [sample_event 6 7 1] 0 [] mem_new = (None, [e'], s')
    \<and> ev_tenant_id e' = 6
    \<and> ms_by_aggregate s' (6, 7) = ms_by_aggregate mem_new (6, 7) @ [e']
    \<and> st_load (tenant_scoped 5 mem_ops) 7 [] s' = st_load (tenant_scoped 5 mem_ops) 7 [] mem_new"
  by (rule prestamped_event_escapes_scope) (simp_all add: mem_new_def current_version_def)

end
