(* ===== verification/Mem_Stream.thy ===== *)
theory Mem_Stream
  imports Es_Store "HOL-Library.Sublist"
begin

text \<open>
  The concurrent part of \<^verbatim>\<open>es/memstore/eventstore.go\<close>: \<^verbatim>\<open>Commit\<close> runs under the mutex and sends each
  event to every subscriber's channel, which holds 64; the goroutine of \<^verbatim>\<open>StreamAll\<close> forwards its
  backlog and then its channel, and takes the mutex once more to unsubscribe. One step of the
  relation \<open>stream_step\<close> is one channel operation or one section that nobody else can see into.
\<close>

section \<open>State and steps\<close>

definition live_capacity :: nat where
  "live_capacity = 64"

text \<open>\<open>Offering e\<close> is the inner \<^verbatim>\<open>select\<close>: the goroutine holds \<open>e\<close> and waits for the receiver.\<close>

datatype reader_phase =
    Backlog "domain_event list"
  | Live
  | Offering domain_event
  | Leaving
  | Gone

record reader =
  rd_cfg :: store_config
  rd_phase :: reader_phase
  rd_out :: "domain_event list"

text \<open>\<open>Sending e C key es\<close>: \<open>e\<close> is in the log and still to be sent to the channels \<open>C\<close>.\<close>

datatype commit_phase =
    Idle
  | Appending "uuid \<times> uuid" "domain_event list"
  | Sending domain_event "nat set" "uuid \<times> uuid" "domain_event list"

record stream_state =
  ss_store :: mem_store
  ss_commit :: commit_phase
  ss_reader :: "nat \<Rightarrow> reader option"

definition stream_init :: stream_state where
  "stream_init = \<lparr>ss_store = mem_new, ss_commit = Idle, ss_reader = Map.empty\<rparr>"

text \<open>The append of one event without the sends, which are steps of their own.\<close>

definition append_log :: "uuid \<times> uuid \<Rightarrow> domain_event \<Rightarrow> mem_store \<Rightarrow> domain_event \<times> mem_store" where
  "append_log key e s =
     (let (e', s') = mem_append1 key e s in (e', s'\<lparr>ms_subscribers := ms_subscribers s\<rparr>))"

definition set_reader :: "nat \<Rightarrow> reader \<Rightarrow> stream_state \<Rightarrow> stream_state" where
  "set_reader c rd st = st\<lparr>ss_reader := (ss_reader st)(c \<mapsto> rd)\<rparr>"

definition set_queue :: "nat \<Rightarrow> domain_event list option \<Rightarrow> stream_state \<Rightarrow> stream_state" where
  "set_queue c q st = st\<lparr>ss_store := (ss_store st)\<lparr>ms_subscribers := (ms_subscribers (ss_store st))(c := q)\<rparr>\<rparr>"

inductive stream_step :: "stream_state \<Rightarrow> stream_state \<Rightarrow> bool" where
  open_stream: "ss_commit st = Idle \<Longrightarrow> ss_reader st c = None \<Longrightarrow>
    mem_open_stream c opts (ss_store st) = (backlog, s) \<Longrightarrow>
    stream_step st (set_reader c \<lparr>rd_cfg = resolve_store_config opts, rd_phase = Backlog backlog, rd_out = []\<rparr>
      (st\<lparr>ss_store := s\<rparr>))"
| commit_start: "ss_commit st = Idle \<Longrightarrow> es \<noteq> [] \<Longrightarrow>
    current_version (ms_by_aggregate (ss_store st) (commit_key opts es)) = v \<Longrightarrow>
    stream_step st (st\<lparr>ss_commit := Appending (commit_key opts es) (stamped opts es)\<rparr>)"
| commit_append: "ss_commit st = Appending key (e # es) \<Longrightarrow> append_log key e (ss_store st) = (e', s) \<Longrightarrow>
    stream_step st (st\<lparr>ss_store := s, ss_commit := Sending e' (dom (ms_subscribers s)) key es\<rparr>)"
| commit_send: "ss_commit st = Sending e C key es \<Longrightarrow> c \<in> C \<Longrightarrow> ms_subscribers (ss_store st) c = Some q \<Longrightarrow>
    length q < live_capacity \<Longrightarrow>
    stream_step st (set_queue c (Some (q @ [e])) (st\<lparr>ss_commit := Sending e (C - {c}) key es\<rparr>))"
| commit_sent: "ss_commit st = Sending e {} key es \<Longrightarrow>
    stream_step st (st\<lparr>ss_commit := Appending key es\<rparr>)"
| commit_finish: "ss_commit st = Appending key [] \<Longrightarrow> stream_step st (st\<lparr>ss_commit := Idle\<rparr>)"
| deliver_backlog: "ss_reader st c = Some rd \<Longrightarrow> rd_phase rd = Backlog (e # es) \<Longrightarrow>
    stream_step st (set_reader c (rd\<lparr>rd_phase := Backlog es, rd_out := rd_out rd @ [e]\<rparr>) st)"
| go_live: "ss_reader st c = Some rd \<Longrightarrow> rd_phase rd = Backlog [] \<Longrightarrow>
    stream_step st (set_reader c (rd\<lparr>rd_phase := Live\<rparr>) st)"
| receive: "ss_reader st c = Some rd \<Longrightarrow> rd_phase rd = Live \<Longrightarrow> ms_subscribers (ss_store st) c = Some (e # q) \<Longrightarrow>
    stream_step st (set_reader c (rd\<lparr>rd_phase := (if visible (rd_cfg rd) e then Offering e else Live)\<rparr>)
      (set_queue c (Some q) st))"
| deliver_live: "ss_reader st c = Some rd \<Longrightarrow> rd_phase rd = Offering e \<Longrightarrow>
    stream_step st (set_reader c (rd\<lparr>rd_phase := Live, rd_out := rd_out rd @ [e]\<rparr>) st)"
| cancel: "ss_reader st c = Some rd \<Longrightarrow> rd_phase rd \<noteq> Leaving \<Longrightarrow> rd_phase rd \<noteq> Gone \<Longrightarrow>
    rd_phase rd \<noteq> Backlog [] \<Longrightarrow>
    stream_step st (set_reader c (rd\<lparr>rd_phase := Leaving\<rparr>) st)"
| unsubscribe: "ss_reader st c = Some rd \<Longrightarrow> rd_phase rd = Leaving \<Longrightarrow> ss_commit st = Idle \<Longrightarrow>
    stream_step st (set_reader c (rd\<lparr>rd_phase := Gone\<rparr>) (set_queue c None st))"

inductive stream_reach :: "stream_state \<Rightarrow> bool" where
  init: "stream_reach stream_init"
| step: "stream_reach st \<Longrightarrow> stream_step st st' \<Longrightarrow> stream_reach st'"

section \<open>What a reader has received\<close>

text \<open>What is on its way to reader \<open>c\<close>: in the goroutine, in its channel, in the committing call.\<close>

fun in_hand :: "reader_phase \<Rightarrow> domain_event list" where
  "in_hand (Backlog es) = es"
| "in_hand (Offering e) = [e]"
| "in_hand _ = []"

fun unsent :: "nat \<Rightarrow> commit_phase \<Rightarrow> domain_event list" where
  "unsent c (Sending e C key es) = (if c \<in> C then [e] else [])"
| "unsent c _ = []"

fun reading :: "reader_phase \<Rightarrow> bool" where
  "reading Leaving = False"
| "reading Gone = False"
| "reading _ = True"

definition reader_inv :: "stream_state \<Rightarrow> nat \<Rightarrow> reader \<Rightarrow> bool" where
  "reader_inv st c rd \<longleftrightarrow>
     prefix (rd_out rd) (filter (visible (rd_cfg rd)) (ms_all (ss_store st)))
     \<and> (rd_phase rd = Gone \<longleftrightarrow> ms_subscribers (ss_store st) c = None)
     \<and> (reading (rd_phase rd) \<longrightarrow>
         rd_out rd @ in_hand (rd_phase rd)
           @ filter (visible (rd_cfg rd)) (the (ms_subscribers (ss_store st) c) @ unsent c (ss_commit st))
         = filter (visible (rd_cfg rd)) (ms_all (ss_store st)))"

definition stream_inv :: "stream_state \<Rightarrow> bool" where
  "stream_inv st \<longleftrightarrow> (\<forall>c rd. ss_reader st c = Some rd \<longrightarrow> reader_inv st c rd)
     \<and> (\<forall>c. ss_reader st c = None \<longrightarrow> ms_subscribers (ss_store st) c = None)
     \<and> (\<forall>e C key es. ss_commit st = Sending e C key es \<longrightarrow> C \<subseteq> dom (ms_subscribers (ss_store st)))"

lemma append_log_sel:
  assumes "append_log key e s = (e', s')"
  shows "ms_all s' = ms_all s @ [e']" "ms_subscribers s' = ms_subscribers s"
  using assms by (auto simp: append_log_def mem_append1_def Let_def)

lemma set_reader_sel [simp]:
  "ss_store (set_reader c rd st) = ss_store st" "ss_commit (set_reader c rd st) = ss_commit st"
  "ss_reader (set_reader c rd st) = (ss_reader st)(c \<mapsto> rd)"
  by (simp_all add: set_reader_def)

lemma set_queue_sel [simp]:
  "ms_all (ss_store (set_queue c q st)) = ms_all (ss_store st)" "ss_commit (set_queue c q st) = ss_commit st"
  "ms_subscribers (ss_store (set_queue c q st)) = (ms_subscribers (ss_store st))(c := q)"
  "ss_reader (set_queue c q st) = ss_reader st"
  by (simp_all add: set_queue_def)

lemma stream_invD:
  assumes "stream_inv st"
  shows "ss_reader st c = Some rd \<Longrightarrow> reader_inv st c rd"
    "ss_reader st c = None \<Longrightarrow> ms_subscribers (ss_store st) c = None"
    "ss_commit st = Sending e C key es \<Longrightarrow> C \<subseteq> dom (ms_subscribers (ss_store st))"
  using assms by (auto simp: stream_inv_def)

text \<open>A step that touches one reader leaves the others as they were.\<close>

lemma reader_inv_cong:
  assumes "ms_all (ss_store st') = ms_all (ss_store st)"
    and "ms_subscribers (ss_store st') c = ms_subscribers (ss_store st) c"
    and "unsent c (ss_commit st') = unsent c (ss_commit st)"
  shows "reader_inv st' c rd = reader_inv st c rd"
  using assms by (simp add: reader_inv_def)

lemma stream_inv_set_reader:
  assumes inv: "stream_inv st" and "ss_commit st1 = ss_commit st"
    and "ms_all (ss_store st1) = ms_all (ss_store st)"
    and "\<forall>d. d \<noteq> c \<longrightarrow> ms_subscribers (ss_store st1) d = ms_subscribers (ss_store st) d"
    and "ss_reader st1 = ss_reader st" and "reader_inv st1 c rd"
    and "ms_subscribers (ss_store st1) c = None \<Longrightarrow> ms_subscribers (ss_store st) c = None \<or> ss_commit st = Idle"
  shows "stream_inv (set_reader c rd st1)"
  unfolding stream_inv_def
proof (intro conjI allI impI)
  fix d rd' assume d: "ss_reader (set_reader c rd st1) d = Some rd'"
  have "reader_inv (set_reader c rd st1) d rd' = reader_inv st1 d rd'" by (rule reader_inv_cong) simp_all
  moreover have "reader_inv st1 d rd'"
  proof (cases "d = c")
    case True
    with d assms(6) show ?thesis by simp
  next
    case False
    then have "reader_inv st1 d rd' = reader_inv st d rd'"
      using assms(2-4) by (intro reader_inv_cong) simp_all
    with False d assms(5) stream_invD(1) [OF inv] show ?thesis by simp
  qed
  ultimately show "reader_inv (set_reader c rd st1) d rd'" by simp
next
  fix d assume d: "ss_reader (set_reader c rd st1) d = None"
  then have "d \<noteq> c" "ss_reader st d = None" using assms(5) by (auto split: if_splits)
  then show "ms_subscribers (ss_store (set_reader c rd st1)) d = None"
    using assms(4) stream_invD(2) [OF inv, of d] by simp
next
  fix e C key es assume "ss_commit (set_reader c rd st1) = Sending e C key es"
  then have s: "ss_commit st = Sending e C key es" by (simp add: assms(2))
  have "d \<in> dom (ms_subscribers (ss_store st1))" if "d \<in> C" for d
    using that stream_invD(3) [OF inv s] assms(4) assms(7) s by (cases "d = c") auto
  then show "C \<subseteq> dom (ms_subscribers (ss_store (set_reader c rd st1)))" by auto
qed

lemma stream_inv_step:
  assumes "stream_step st st'" "stream_inv st"
  shows "stream_inv st'"
  using assms
proof (induction rule: stream_step.induct)
  case (open_stream st c opts backlog s)
  then show ?case
    by (intro stream_inv_set_reader [of st])
      (auto simp: reader_inv_def mem_open_stream_def)
next
  case (commit_start st es opts v)
  then show ?case by (auto simp: stream_inv_def reader_inv_def)
next
  case (commit_append st key e es e' s)
  note sel = append_log_sel [OF commit_append(2)]
  show ?case unfolding stream_inv_def
  proof (intro conjI allI impI)
    fix c rd assume "ss_reader (st\<lparr>ss_store := s, ss_commit := Sending e' (dom (ms_subscribers s)) key es\<rparr>) c = Some rd"
    then have "reader_inv st c rd" using stream_invD(1) [OF commit_append(3)] by simp
    then show "reader_inv (st\<lparr>ss_store := s, ss_commit := Sending e' (dom (ms_subscribers s)) key es\<rparr>) c rd"
      using commit_append(1)
      by (cases "rd_phase rd") (auto simp: reader_inv_def sel)
  qed (use stream_invD(2) [OF commit_append(3)] in \<open>auto simp: sel\<close>)
next
  case (commit_send st e C key es c q)
  show ?case unfolding stream_inv_def
  proof (intro conjI allI impI)
    fix d rd assume "ss_reader (set_queue c (Some (q @ [e])) (st\<lparr>ss_commit := Sending e (C - {c}) key es\<rparr>)) d = Some rd"
    then have "reader_inv st d rd" using stream_invD(1) [OF commit_send(5)] by simp
    then show "reader_inv (set_queue c (Some (q @ [e])) (st\<lparr>ss_commit := Sending e (C - {c}) key es\<rparr>)) d rd"
      using commit_send(1-3) by (cases "d = c") (auto simp: reader_inv_def)
  next
    fix d assume "ss_reader (set_queue c (Some (q @ [e])) (st\<lparr>ss_commit := Sending e (C - {c}) key es\<rparr>)) d = None"
    then show "ms_subscribers (ss_store (set_queue c (Some (q @ [e])) (st\<lparr>ss_commit := Sending e (C - {c}) key es\<rparr>))) d = None"
      using stream_invD(2) [OF commit_send(5)] commit_send(3) by auto
  next
    fix e2 D key2 es2
    assume "ss_commit (set_queue c (Some (q @ [e])) (st\<lparr>ss_commit := Sending e (C - {c}) key es\<rparr>)) = Sending e2 D key2 es2"
    then show "D \<subseteq> dom (ms_subscribers (ss_store (set_queue c (Some (q @ [e])) (st\<lparr>ss_commit := Sending e (C - {c}) key es\<rparr>))))"
      using stream_invD(3) [OF commit_send(5,1)] by auto
  qed
next
  case (commit_sent st e key es)
  then show ?case by (auto simp: stream_inv_def reader_inv_def)
next
  case (commit_finish st key)
  then show ?case by (auto simp: stream_inv_def reader_inv_def)
next
  case (deliver_backlog st c rd e es)
  from stream_invD(1) [OF deliver_backlog(3,1)] deliver_backlog(2)
  have "reader_inv st c (rd\<lparr>rd_phase := Backlog es, rd_out := rd_out rd @ [e]\<rparr>)"
    by (auto simp: reader_inv_def) (metis append.assoc append_Cons append_Nil prefixI)
  then show ?case using deliver_backlog
    by (intro stream_inv_set_reader [of st]) (auto simp: reader_inv_def)
next
  case (go_live st c rd)
  from stream_invD(1) [OF go_live(3,1)] go_live(2) have "reader_inv st c (rd\<lparr>rd_phase := Live\<rparr>)"
    by (auto simp: reader_inv_def)
  then show ?case using go_live
    by (intro stream_inv_set_reader [of st]) (auto simp: reader_inv_def)
next
  case (receive st c rd e q)
  from stream_invD(1) [OF receive(4,1)] receive(2,3) show ?case
    using receive(4)
    by (intro stream_inv_set_reader [of st]) (auto simp: reader_inv_def)
next
  case (deliver_live st c rd e)
  from stream_invD(1) [OF deliver_live(3,1)] deliver_live(2)
  have "reader_inv st c (rd\<lparr>rd_phase := Live, rd_out := rd_out rd @ [e]\<rparr>)"
    by (auto simp: reader_inv_def) (metis append.assoc append_Cons append_Nil prefixI)
  then show ?case using deliver_live
    by (intro stream_inv_set_reader [of st]) (auto simp: reader_inv_def)
next
  case (cancel st c rd)
  from stream_invD(1) [OF cancel(5,1)] cancel(2,3) have "reader_inv st c (rd\<lparr>rd_phase := Leaving\<rparr>)"
    by (auto simp: reader_inv_def)
  then show ?case using cancel
    by (intro stream_inv_set_reader [of st]) (auto simp: reader_inv_def)
next
  case (unsubscribe st c rd)
  from stream_invD(1) [OF unsubscribe(4,1)] show ?case
    using unsubscribe by (intro stream_inv_set_reader [of st]) (auto simp: reader_inv_def)
qed

lemma stream_reach_inv: "stream_reach st \<Longrightarrow> stream_inv st"
proof (induction rule: stream_reach.induct)
  case init
  show ?case by (simp add: stream_inv_def stream_init_def mem_new_def)
qed (rule stream_inv_step)

definition bounded_inv :: "stream_state \<Rightarrow> bool" where
  "bounded_inv st \<longleftrightarrow> finite (dom (ss_reader st))
     \<and> (\<forall>c q. ms_subscribers (ss_store st) c = Some q \<longrightarrow> length q \<le> live_capacity)"

lemma bounded_inv_step: "stream_step st st' \<Longrightarrow> bounded_inv st \<Longrightarrow> bounded_inv st'"
proof (induction rule: stream_step.induct)
  case (open_stream st c opts backlog s)
  then show ?case by (auto simp: bounded_inv_def mem_open_stream_def split: if_splits)
next
  case (commit_append st key e es e' s)
  then show ?case by (simp add: bounded_inv_def append_log_sel)
next
  case (receive st c rd e q)
  then have "length (e # q) \<le> live_capacity" unfolding bounded_inv_def by blast
  with receive show ?case by (auto simp: bounded_inv_def)
qed (auto simp: bounded_inv_def)

lemma stream_reach_bounded: "stream_reach st \<Longrightarrow> bounded_inv st"
proof (induction rule: stream_reach.induct)
  case init
  show ?case by (simp add: bounded_inv_def stream_init_def mem_new_def)
qed (rule bounded_inv_step)

text \<open>
  C14. What a subscriber of the in-memory \<^verbatim>\<open>StreamAll\<close> has received is at every moment, under every
  interleaving with commits and with other subscribers, a prefix of the events its scope may see, in
  commit order, without gap or repetition; and it is all of them whenever the goroutine waits on an
  empty channel and no commit has an event for it.
\<close>

theorem streaming_in_order:
  assumes "stream_reach st" "ss_reader st c = Some rd"
  shows "prefix (rd_out rd) (filter (visible (rd_cfg rd)) (ms_all (ss_store st)))
    \<and> (rd_phase rd = Live \<and> ms_subscribers (ss_store st) c = Some [] \<and> unsent c (ss_commit st) = [] \<longrightarrow>
        rd_out rd = filter (visible (rd_cfg rd)) (ms_all (ss_store st)))"
  using stream_invD(1) [OF stream_reach_inv [OF assms(1)] assms(2)] by (auto simp: reader_inv_def)

text \<open>
  C36. Back pressure: a subscriber that has its backlog behind it and still listens is never more than 66
  visible events behind the log -- 64 in its channel, one the goroutine holds and one that the
  running commit is about to send.
\<close>

theorem live_reader_lag:
  assumes "stream_reach st" "ss_reader st c = Some rd" "rd_phase rd = Live \<or> rd_phase rd = Offering e"
  shows "length (filter (visible (rd_cfg rd)) (ms_all (ss_store st))) \<le> length (rd_out rd) + 66"
proof -
  have inv: "reader_inv st c rd" using stream_invD(1) [OF stream_reach_inv [OF assms(1)] assms(2)] .
  let ?v = "visible (rd_cfg rd)"
  have "rd_phase rd \<noteq> Gone" using assms(3) by auto
  with inv obtain q where q: "ms_subscribers (ss_store st) c = Some q" by (auto simp: reader_inv_def)
  have "length q \<le> live_capacity" using stream_reach_bounded [OF assms(1)] q by (auto simp: bounded_inv_def)
  then have "length (filter ?v q) \<le> 64" using order_trans [OF length_filter_le [of ?v q]] by (simp add: live_capacity_def)
  moreover have "length (filter ?v (unsent c (ss_commit st))) \<le> 1" by (cases "ss_commit st") simp_all
  moreover have "length (in_hand (rd_phase rd)) \<le> 1" "reading (rd_phase rd)" using assms(3) by auto
  moreover have "filter ?v (ms_all (ss_store st)) = rd_out rd @ in_hand (rd_phase rd)
      @ filter ?v (q @ unsent c (ss_commit st))"
    using inv q calculation(4) by (simp add: reader_inv_def)
  ultimately show ?thesis by simp
qed

section \<open>Blocking\<close>

text \<open>The state in which nothing moves any more.\<close>

definition deadlocked :: "stream_state \<Rightarrow> bool" where
  "deadlocked st \<longleftrightarrow> \<not> (\<exists>st'. stream_step st st')"

text \<open>
  There is exactly one way for the store to get stuck: a \<^verbatim>\<open>Commit\<close>, which holds the mutex, has to
  send to the full channel of a subscriber whose context was cancelled and whose goroutine waits for
  that mutex to unsubscribe. Every subscriber that still reads lets the commit go on.
\<close>

lemma stuck_only_on_leaving_reader:
  assumes "stream_reach st" "deadlocked st"
  shows "\<exists>e C key es c rd q. ss_commit st = Sending e C key es \<and> c \<in> C
    \<and> ss_reader st c = Some rd \<and> rd_phase rd = Leaving
    \<and> ms_subscribers (ss_store st) c = Some q \<and> length q = live_capacity"
proof -
  note inv = stream_reach_inv [OF assms(1)]
  note bounded = stream_reach_bounded [OF assms(1)]
  have no: "\<not> stream_step st st'" for st' using assms(2) by (auto simp: deadlocked_def)
  obtain c0 where c0: "ss_reader st c0 = None"
    using bounded by (metis bounded_inv_def domIff ex_new_if_finite infinite_UNIV_nat)
  show ?thesis
  proof (cases "ss_commit st")
    case Idle
    from no show ?thesis
      using stream_step.open_stream [OF Idle c0, of "[]"] by (metis prod.collapse)
  next
    case (Appending key es)
    show ?thesis
    proof (cases es)
      case Nil
      with no stream_step.commit_finish Appending show ?thesis by blast
    next
      case (Cons e fs)
      with no stream_step.commit_append Appending show ?thesis by (metis prod.collapse)
    qed
  next
    case (Sending e C key es)
    then have "C \<noteq> {}" using no stream_step.commit_sent [of st e key es] by auto
    then obtain c where c: "c \<in> C" by blast
    then obtain q where q: "ms_subscribers (ss_store st) c = Some q"
      using stream_invD(3) [OF inv Sending] by auto
    with no stream_step.commit_send [OF Sending c q] bounded have len: "length q = live_capacity"
      by (meson bounded_inv_def le_neq_implies_less)
    obtain rd where rd: "ss_reader st c = Some rd"
      using stream_invD(2) [OF inv, of c] q by (cases "ss_reader st c") auto
    have "rd_phase rd = Leaving"
    proof (cases "rd_phase rd")
      case (Backlog es)
      then show ?thesis
        using no stream_step.go_live [OF rd] stream_step.deliver_backlog [OF rd] by (cases es) auto
    next
      case Live
      from len obtain x q' where "q = x # q'" by (cases q) (auto simp: live_capacity_def)
      with stream_step.receive [OF rd Live] q no show ?thesis by blast
    next
      case (Offering x)
      with stream_step.deliver_live [OF rd] no show ?thesis by blast
    next
      case Gone
      with stream_invD(1) [OF inv rd] q show ?thesis by (simp add: reader_inv_def)
    qed
    with Sending c rd q len show ?thesis by blast
  qed
qed

text \<open>
  Filling a channel nobody reads: steps in which no subscriber takes part, so that they happen
  whatever stands behind the subscribers.
\<close>

definition quiet_step :: "stream_state \<Rightarrow> stream_state \<Rightarrow> bool" where
  "quiet_step st st' \<longleftrightarrow> stream_step st st' \<and> ss_reader st' = ss_reader st"

lemma append_log_view: "append_log key e s = (e', s') \<Longrightarrow> stored_view e' = stored_view e"
  by (auto simp: append_log_def mem_append1_def Let_def)

lemma quiet_steps_reader: "quiet_step\<^sup>*\<^sup>* st st' \<Longrightarrow> ss_reader st' = ss_reader st"
  by (induction rule: rtranclp_induct) (auto simp: quiet_step_def)

lemma quiet_steps_reach: "quiet_step\<^sup>*\<^sup>* st st' \<Longrightarrow> stream_reach st \<Longrightarrow> stream_reach st'"
  by (induction rule: rtranclp_induct) (auto simp: quiet_step_def intro: stream_reach.step)

text \<open>One event, from the call to the channel of the only subscriber.\<close>

lemma quiet_begin:
  assumes "ss_commit st = Appending key (e # fs)" "append_log key e (ss_store st) = (e', s)"
  shows "quiet_step st (st\<lparr>ss_store := s, ss_commit := Sending e' (dom (ms_subscribers s)) key fs\<rparr>)"
  using commit_append [OF assms] by (simp add: quiet_step_def)

lemma quiet_one:
  assumes "ss_commit st = Appending key (e # fs)"
    and "ms_subscribers (ss_store st) = [c \<mapsto> q]" "length q < live_capacity"
  shows "\<exists>st' e'. quiet_step\<^sup>*\<^sup>* st st' \<and> ss_commit st' = Appending key fs
    \<and> ms_subscribers (ss_store st') = [c \<mapsto> q @ [e']] \<and> stored_view e' = stored_view e"
proof -
  obtain e' s where al: "append_log key e (ss_store st) = (e', s)" by force
  note sel = append_log_sel [OF al]
  let ?st1 = "st\<lparr>ss_store := s, ss_commit := Sending e' (dom (ms_subscribers s)) key fs\<rparr>"
  let ?st2 = "set_queue c (Some (q @ [e'])) (?st1\<lparr>ss_commit := Sending e' (dom (ms_subscribers s) - {c}) key fs\<rparr>)"
  let ?st3 = "?st2\<lparr>ss_commit := Appending key fs\<rparr>"
  have s1: "quiet_step st ?st1" by (rule quiet_begin [OF assms(1) al])
  have "stream_step ?st1 ?st2" using assms(2,3) by (intro commit_send) (simp_all add: sel dom_def)
  then have s2: "quiet_step ?st1 ?st2" by (simp add: quiet_step_def)
  have "stream_step ?st2 ?st3"
    using assms(2) by (intro commit_sent [of _ e']) (auto simp: sel dom_def)
  then have s3: "quiet_step ?st2 ?st3" by (simp add: quiet_step_def)
  from s1 s2 s3 have "quiet_step\<^sup>*\<^sup>* st ?st3"
    by (meson converse_rtranclp_into_rtranclp r_into_rtranclp)
  moreover have "ms_subscribers (ss_store ?st3) = [c \<mapsto> q @ [e']]"
    using assms(2) by (simp add: sel fun_eq_iff)
  ultimately show ?thesis using append_log_view [OF al] by (intro exI [of _ ?st3] exI [of _ e']) simp
qed

lemma fill_channel:
  assumes "ss_commit st = Appending key (es @ fs)"
    and "ms_subscribers (ss_store st) = [c \<mapsto> q]" "length q + length es \<le> live_capacity"
  shows "\<exists>st' es'. quiet_step\<^sup>*\<^sup>* st st' \<and> ss_commit st' = Appending key fs
    \<and> ms_subscribers (ss_store st') = [c \<mapsto> q @ es'] \<and> map stored_view es' = map stored_view es"
  using assms
proof (induction es arbitrary: st q)
  case (Cons e es)
  have "ss_commit st = Appending key (e # es @ fs)" "length q < live_capacity" using Cons.prems by simp_all
  from quiet_one [OF this(1) Cons.prems(2) this(2)] obtain st1 e'
    where st1: "quiet_step\<^sup>*\<^sup>* st st1" "ss_commit st1 = Appending key (es @ fs)"
      "ms_subscribers (ss_store st1) = [c \<mapsto> q @ [e']]" "stored_view e' = stored_view e" by blast
  have "length (q @ [e']) + length es \<le> live_capacity" using Cons.prems(3) by simp
  from Cons.IH [OF st1(2,3) this] obtain st' es' where
    "quiet_step\<^sup>*\<^sup>* st1 st'" "ss_commit st' = Appending key fs"
    "ms_subscribers (ss_store st') = [c \<mapsto> (q @ [e']) @ es']" "map stored_view es' = map stored_view es" by blast
  with st1 show ?case
    by (intro exI [of _ st'] exI [of _ "e' # es'"]) (auto intro: rtranclp_trans)
qed auto

lemma deadlock_reachable: "\<exists>st. stream_reach st \<and> deadlocked st \<and> ss_commit st \<noteq> Idle"
proof -
  obtain s0 where op: "mem_open_stream 0 [] mem_new = ([], s0)"
    and s0: "ms_subscribers s0 = [0 \<mapsto> []]" "ms_by_aggregate s0 = ms_by_aggregate mem_new"
    by (simp add: mem_open_stream_def mem_new_def fun_eq_iff)
  let ?rd = "\<lparr>rd_cfg = resolve_store_config [], rd_phase = Backlog [], rd_out = []\<rparr>"
  let ?st1 = "set_reader 0 ?rd (stream_init\<lparr>ss_store := s0\<rparr>)"
  have r1: "stream_reach ?st1"
    using op by (intro stream_reach.step [OF stream_reach.init] open_stream) (simp_all add: stream_init_def)
  let ?st2 = "set_reader 0 (?rd\<lparr>rd_phase := Live\<rparr>) ?st1"
  have r2: "stream_reach ?st2" by (intro stream_reach.step [OF r1] go_live) simp_all
  let ?e = "sample_event 0 7 1"
  let ?es = "replicate 64 ?e @ [?e]"
  let ?st3 = "?st2\<lparr>ss_commit := Appending (commit_key [] ?es) (stamped [] ?es)\<rparr>"
  have "stream_step ?st2 ?st3"
    by (rule commit_start [of _ _ _ 0]) (simp_all add: stream_init_def s0(2) mem_new_def current_version_def)
  then have r3: "stream_reach ?st3" by (rule stream_reach.step [OF r2])
  have "ss_commit ?st3 = Appending (commit_key [] ?es) (stamped [] (replicate 64 ?e) @ stamped [] [?e])" by simp
  moreover have "ms_subscribers (ss_store ?st3) = [0 \<mapsto> []]" using s0(1) by simp
  ultimately obtain st4 q where q4: "quiet_step\<^sup>*\<^sup>* ?st3 st4"
    and st4: "ss_commit st4 = Appending (commit_key [] ?es) (stamped [] [?e])"
      "ms_subscribers (ss_store st4) = [0 \<mapsto> q]"
      "map stored_view q = map stored_view (stamped [] (replicate 64 ?e))"
    using fill_channel [of ?st3 _ "stamped [] (replicate 64 ?e)" "stamped [] [?e]" 0 "[]"]
    by (auto simp: live_capacity_def)
  have r4: "stream_reach st4" by (rule quiet_steps_reach [OF q4 r3])
  have len: "length q = 64" using st4(3) by (metis length_map length_replicate)
  have rd4: "ss_reader st4 = [0 \<mapsto> ?rd\<lparr>rd_phase := Live\<rparr>]"
    using quiet_steps_reader [OF q4] by (simp add: stream_init_def)
  obtain e' s where al: "append_log (commit_key [] ?es) (stamp_tenant (resolve_store_config []) ?e) (ss_store st4) = (e', s)"
    by force
  note sel = append_log_sel [OF al]
  let ?st5 = "st4\<lparr>ss_store := s, ss_commit := Sending e' (dom (ms_subscribers s)) (commit_key [] ?es) []\<rparr>"
  have "stream_reach ?st5" using st4(1) by (intro stream_reach.step [OF r4] commit_append [OF _ al]) simp
  moreover have "ss_reader ?st5 0 = Some (?rd\<lparr>rd_phase := Live\<rparr>)" using rd4 by simp
  ultimately have r6: "stream_reach (set_reader 0 (?rd\<lparr>rd_phase := Leaving\<rparr>) ?st5)"
    using stream_step.cancel [of ?st5 0 "?rd\<lparr>rd_phase := Live\<rparr>"] by (auto intro: stream_reach.step)
  have "\<not> stream_step (set_reader 0 (?rd\<lparr>rd_phase := Leaving\<rparr>) ?st5) st'" for st'
    by (rule notI, erule stream_step.cases)
      (auto simp: sel st4(1,2) rd4 len live_capacity_def split: if_splits)
  with r6 show ?thesis by (intro exI [of _ "set_reader 0 (?rd\<lparr>rd_phase := Leaving\<rparr>) ?st5"]) (simp add: deadlocked_def)
qed

text \<open>
  C38. The store does get stuck: a subscriber that stops reading and is then cancelled leaves its channel
  registered until it gets the mutex, and a commit of 65 events in that time never returns; every later
  call on the store blocks with it. (The documentation of \<^verbatim>\<open>StreamAll\<close> asks callers to drain both
  channels and to cancel the context to stop.)
\<close>

theorem commit_can_deadlock:
  "\<exists>st. stream_reach st \<and> deadlocked st \<and> ss_commit st \<noteq> Idle"
  by (rule deadlock_reachable)

theorem stuck_only_on_leaving_reader_witness:
  "\<exists>st c rd q. deadlocked st \<and> ss_reader st c = Some rd \<and> rd_phase rd = Leaving
    \<and> ms_subscribers (ss_store st) c = Some q \<and> length q = 64"
proof -
  obtain st where st: "stream_reach st" "deadlocked st" using deadlock_reachable by blast
  from stuck_only_on_leaving_reader [OF this] st(2) show ?thesis by (auto simp: live_capacity_def)
qed

theorem streaming_in_order_witness:
  "\<exists>st rd. stream_reach st \<and> ss_reader st 0 = Some rd
    \<and> prefix (rd_out rd) (filter (visible (rd_cfg rd)) (ms_all (ss_store st)))"
proof -
  obtain backlog s where "mem_open_stream 0 [] (ss_store stream_init) = (backlog, s)" by force
  then have "stream_step stream_init (set_reader 0
      \<lparr>rd_cfg = resolve_store_config [], rd_phase = Backlog backlog, rd_out = []\<rparr> (stream_init\<lparr>ss_store := s\<rparr>))"
    by (intro open_stream) (simp_all add: stream_init_def)
  then have "stream_reach (set_reader 0
      \<lparr>rd_cfg = resolve_store_config [], rd_phase = Backlog backlog, rd_out = []\<rparr> (stream_init\<lparr>ss_store := s\<rparr>))"
    by (rule stream_reach.step [OF stream_reach.init])
  moreover from streaming_in_order [OF this, of 0] show ?thesis using calculation by fastforce
qed

theorem live_reader_lag_witness:
  "\<exists>st rd. stream_reach st \<and> ss_reader st 0 = Some rd \<and> rd_phase rd = Live
    \<and> length (filter (visible (rd_cfg rd)) (ms_all (ss_store st))) \<le> length (rd_out rd) + 66"
proof -
  let ?cfg = "resolve_store_config []"
  let ?st = "\<lambda>ph s. set_reader 0 \<lparr>rd_cfg = ?cfg, rd_phase = ph, rd_out = []\<rparr> (stream_init\<lparr>ss_store := s\<rparr>)"
  obtain s where "mem_open_stream 0 [] (ss_store stream_init) = ([], s)"
    by (simp add: mem_open_stream_def stream_init_def mem_new_def)
  then have "stream_step stream_init (?st (Backlog []) s)"
    by (intro open_stream) (simp_all add: stream_init_def)
  from stream_reach.step [OF stream_reach.init this] have "stream_reach (?st (Backlog []) s)" .
  moreover have "stream_step (?st (Backlog []) s) (?st Live s)"
    using go_live [of "?st (Backlog []) s" 0 "\<lparr>rd_cfg = ?cfg, rd_phase = Backlog [], rd_out = []\<rparr>"]
    by (simp add: set_reader_def)
  ultimately have st: "stream_reach (?st Live s)" by (rule stream_reach.step)
  from live_reader_lag [OF this, of 0 "\<lparr>rd_cfg = ?cfg, rd_phase = Live, rd_out = []\<rparr>"] show ?thesis
    by (intro exI [of _ "?st Live s"] exI [of _ "\<lparr>rd_cfg = ?cfg, rd_phase = Live, rd_out = []\<rparr>"]) (use st in simp)
qed

end
