(* ===== verification/Es_Keyring.thy ===== *)
theory Es_Keyring
  imports Es_Event "HOL-Library.AList"
begin

text \<open>
  The interface \<^verbatim>\<open>KeyRing\<close> of \<^verbatim>\<open>es/pii.go\<close> (with the optional \<^verbatim>\<open>KeyRingLister\<close> of
  \<^verbatim>\<open>es/wrapped_keyring.go\<close>), its in-memory implementation \<^verbatim>\<open>es/memstore/keyring.go\<close>, and the locales
  that state what its clients rely on. A ring may fail, so the laws of \<open>keyring\<close> speak of the calls
  that succeed; \<open>reliable_keyring\<close> adds that they do.
\<close>

section \<open>Randomness\<close>

text \<open>
  \<^verbatim>\<open>crypto/rand\<close>: an endless stream of bytes. \<^verbatim>\<open>rand.Read\<close> never returns an error (as documented since
  Go 1.24; the module asks for Go 1.26), so the error branches behind it cannot be taken.
\<close>

type_synonym rng = "nat \<Rightarrow> byte"

definition rand_read :: "nat \<Rightarrow> rng \<Rightarrow> bytes \<times> rng" where
  "rand_read n r = (map r [0..<n], \<lambda>i. r (i + n))"

lemma length_rand_read: "rand_read n r = (bs, r') \<Longrightarrow> length bs = n"
  by (auto simp: rand_read_def)

section \<open>The interface\<close>

text \<open>
  \<open>kr_subjects\<close> is \<open>None\<close> when the type assertion to \<^verbatim>\<open>KeyRingLister\<close> fails. \<open>kr_put\<close> takes the random
  source along, for the rings that seal what they store.
\<close>

record 'k keyring_ops =
  kr_get :: "uuid \<Rightarrow> 'k \<Rightarrow> error + slice"
  kr_put :: "uuid \<Rightarrow> bytes \<Rightarrow> rng \<times> 'k \<Rightarrow> error option \<times> rng \<times> 'k"
  kr_forget :: "uuid \<Rightarrow> 'k \<Rightarrow> error option \<times> 'k"
  kr_subjects :: "('k \<Rightarrow> error + uuid list) option"

section \<open>The in-memory ring\<close>

text \<open>The Go map as an association list with distinct keys.\<close>

type_synonym mem_keyring = "(uuid \<times> bytes) list"

definition mem_keyring_new :: mem_keyring where
  "mem_keyring_new = []"

definition mem_kr_get :: "uuid \<Rightarrow> mem_keyring \<Rightarrow> error + slice" where
  "mem_kr_get p k = Inr (map_of k p)"

definition mem_kr_put :: "uuid \<Rightarrow> bytes \<Rightarrow> rng \<times> mem_keyring \<Rightarrow> error option \<times> rng \<times> mem_keyring" where
  "mem_kr_put p key rk = (case rk of (r, k) \<Rightarrow> (None, r, AList.update p key k))"

definition mem_kr_forget :: "uuid \<Rightarrow> mem_keyring \<Rightarrow> error option \<times> mem_keyring" where
  "mem_kr_forget p k = (None, AList.delete p k)"

text \<open>A Go map is ranged over in any order: \<open>order\<close> is the one of this run.\<close>

definition mem_kr_subjects :: "(uuid list \<Rightarrow> uuid list) \<Rightarrow> mem_keyring \<Rightarrow> error + uuid list" where
  "mem_kr_subjects order k = Inr (order (map fst k))"

definition mem_keyring_ops :: "(uuid list \<Rightarrow> uuid list) \<Rightarrow> mem_keyring keyring_ops" where
  "mem_keyring_ops order = \<lparr> kr_get = mem_kr_get, kr_put = mem_kr_put, kr_forget = mem_kr_forget,
     kr_subjects = Some (mem_kr_subjects order) \<rparr>"

lemma mem_keyring_ops_sel [simp, store_simps]:
  "kr_get (mem_keyring_ops order) = mem_kr_get"
  "kr_put (mem_keyring_ops order) = mem_kr_put"
  "kr_forget (mem_keyring_ops order) = mem_kr_forget"
  "kr_subjects (mem_keyring_ops order) = Some (mem_kr_subjects order)"
  by (simp_all add: mem_keyring_ops_def)

section \<open>The contracts\<close>

text \<open>\<open>keys k\<close> is what the ring holds; \<open>valid\<close> says which keys may be put.\<close>

locale keyring =
  fixes kr :: "'k keyring_ops"
    and inv :: "'k \<Rightarrow> bool"
    and keys :: "'k \<Rightarrow> uuid \<Rightarrow> bytes option"
  assumes get_key: "inv k \<Longrightarrow> kr_get kr p k = Inr v \<Longrightarrow> v = keys k p"
    and put_key: "inv k \<Longrightarrow> kr_put kr p b (r, k) = (None, r', k') \<Longrightarrow>
      inv k' \<and> keys k' = (keys k)(p \<mapsto> b)"
    and forget_key: "inv k \<Longrightarrow> kr_forget kr p k = (None, k') \<Longrightarrow> inv k' \<and> keys k' = (keys k)(p := None)"
begin

text \<open>A key that was forgotten and not put again is gone, whatever else is put or forgotten.\<close>

lemma get_after_forget:
  "inv k \<Longrightarrow> kr_forget kr p k = (None, k') \<Longrightarrow> kr_get kr q k' = Inr v \<Longrightarrow>
   v = (if q = p then None else keys k q)"
  using forget_key [of k p k'] get_key [of k' q v] by auto

lemma get_after_put:
  "inv k \<Longrightarrow> kr_put kr p b (r, k) = (None, r', k') \<Longrightarrow> kr_get kr q k' = Inr v \<Longrightarrow>
   v = (if q = p then Some b else keys k q)"
  using put_key [of k p b r r' k'] get_key [of k' q v] by auto

end

locale reliable_keyring = keyring +
  assumes get_succeeds: "inv k \<Longrightarrow> \<exists>v. kr_get kr p k = Inr v"
    and put_succeeds: "inv k \<Longrightarrow> fst (kr_put kr p b (r, k)) = None"
    and forget_succeeds: "inv k \<Longrightarrow> fst (kr_forget kr p k) = None"
begin

lemma get_eq: "inv k \<Longrightarrow> kr_get kr p k = Inr (keys k p)"
  using get_succeeds [of k p] get_key [of k p] by auto

lemma put_total:
  assumes "inv k"
  obtains r' k' where "kr_put kr p b (r, k) = (None, r', k')" "inv k'" "keys k' = (keys k)(p \<mapsto> b)"
  using put_succeeds [OF assms, of p b r] put_key [OF assms, of p b r]
  by (metis prod.collapse)

lemma forget_total:
  assumes "inv k"
  obtains k' where "kr_forget kr p k = (None, k')" "inv k'" "keys k' = (keys k)(p := None)"
  using forget_succeeds [OF assms, of p] forget_key [OF assms, of p]
  by (metis prod.collapse)

end

definition mem_keyring_inv :: "mem_keyring \<Rightarrow> bool" where
  "mem_keyring_inv k \<longleftrightarrow> distinct (map fst k)"

lemma mem_keyring_inv_new: "mem_keyring_inv mem_keyring_new"
  by (simp add: mem_keyring_inv_def mem_keyring_new_def)

interpretation mem_ring: reliable_keyring "mem_keyring_ops order" mem_keyring_inv map_of for order
proof unfold_locales
  fix k p v assume "kr_get (mem_keyring_ops order) p k = Inr v"
  then show "v = map_of k p" by (simp add: mem_kr_get_def)
next
  fix k p b r r' k'
  assume "mem_keyring_inv k" "kr_put (mem_keyring_ops order) p b (r, k) = (None, r', k')"
  then show "mem_keyring_inv k' \<and> map_of k' = (map_of k)(p \<mapsto> b)"
    by (auto simp: mem_kr_put_def mem_keyring_inv_def distinct_update update_conv')
next
  fix k p k'
  assume "mem_keyring_inv k" "kr_forget (mem_keyring_ops order) p k = (None, k')"
  then show "mem_keyring_inv k' \<and> map_of k' = (map_of k)(p := None)"
    by (auto simp: mem_kr_forget_def mem_keyring_inv_def distinct_delete delete_conv')
qed (simp_all add: mem_kr_get_def mem_kr_put_def mem_kr_forget_def)

section \<open>The in-memory advisory lock\<close>

text \<open>\<^verbatim>\<open>es/memstore/advisory_lock.go\<close>: a lock with nothing to coordinate with.\<close>

definition mem_try_acquire :: "error + bool" where
  "mem_try_acquire = Inr True"

definition mem_release :: "error option" where
  "mem_release = None"

end
