(* ===== verification/Es_Base64.thy ===== *)
theory Es_Base64
  imports Es_Prelude
begin

text \<open>
  \<^verbatim>\<open>encoding/base64\<close> with \<^verbatim>\<open>StdEncoding\<close>, as \<^verbatim>\<open>es/pii.go\<close> uses it: the padded standard alphabet, and a
  decoder that skips line breaks, wants whole quanta and does not check the unused trailing bits.
\<close>

definition b64_alphabet :: string where
  "b64_alphabet = ''ABCDEFGHIJKLMNOPQRSTUVWXYZabcdefghijklmnopqrstuvwxyz0123456789+/''"

definition b64_char :: "nat \<Rightarrow> char" where
  "b64_char i = b64_alphabet ! i"

definition b64_val :: "char \<Rightarrow> nat option" where
  "b64_val c =
     (if c \<in> set b64_alphabet then Some (length (takeWhile (\<lambda>d. d \<noteq> c) b64_alphabet)) else None)"

fun b64_encode :: "bytes \<Rightarrow> string" where
  "b64_encode [] = []"
| "b64_encode [a] =
     (let n = unat a * 65536
      in [b64_char (n div 262144), b64_char (n div 4096 mod 64), CHR ''='', CHR ''=''])"
| "b64_encode [a, b] =
     (let n = unat a * 65536 + unat b * 256
      in [b64_char (n div 262144), b64_char (n div 4096 mod 64), b64_char (n div 64 mod 64), CHR ''=''])"
| "b64_encode (a # b # c # r) =
     (let n = unat a * 65536 + unat b * 256 + unat c
      in b64_char (n div 262144) # b64_char (n div 4096 mod 64) # b64_char (n div 64 mod 64)
           # b64_char (n mod 64) # b64_encode r)"

text \<open>One quantum: the bytes it stands for and whether it was a padded, hence final, one.\<close>

definition b64_quantum :: "char \<Rightarrow> char \<Rightarrow> char \<Rightarrow> char \<Rightarrow> (bytes \<times> bool) option" where
  "b64_quantum c1 c2 c3 c4 =
     (case (b64_val c1, b64_val c2) of
        (Some p, Some q) \<Rightarrow>
          (let n2 = p * 262144 + q * 4096
           in case (b64_val c3, b64_val c4) of
                (Some s, Some t) \<Rightarrow>
                  (let n = n2 + s * 64 + t
                   in Some ([of_nat (n div 65536), of_nat (n div 256 mod 256), of_nat (n mod 256)], False))
              | (Some s, None) \<Rightarrow>
                  (if c4 = CHR ''=''
                   then let n = n2 + s * 64
                        in Some ([of_nat (n div 65536), of_nat (n div 256 mod 256)], True)
                   else None)
              | _ \<Rightarrow> (if c3 = CHR ''='' \<and> c4 = CHR ''='' then Some ([of_nat (n2 div 65536)], True) else None))
      | _ \<Rightarrow> None)"

fun b64_quanta :: "string \<Rightarrow> bytes option" where
  "b64_quanta [] = Some []"
| "b64_quanta (c1 # c2 # c3 # c4 # r) =
     (case b64_quantum c1 c2 c3 c4 of
        None \<Rightarrow> None
      | Some (bs, final) \<Rightarrow>
          if final then (if r = [] then Some bs else None)
          else map_option (\<lambda>rest. bs @ rest) (b64_quanta r))"
| "b64_quanta _ = None"

definition b64_decode :: "string \<Rightarrow> error + bytes" where
  "b64_decode s =
     (case b64_quanta (filter (\<lambda>c. c \<noteq> CHR 0x0A \<and> c \<noteq> CHR 0x0D) s) of
        None \<Rightarrow> Inl (ErrText ''illegal base64 data'')
      | Some bs \<Rightarrow> Inr bs)"

section \<open>Round trip\<close>

lemma b64_alphabet_facts: "length b64_alphabet = 64" "distinct b64_alphabet"
  "CHR 0x0A \<notin> set b64_alphabet" "CHR 0x0D \<notin> set b64_alphabet"
  by (simp_all add: b64_alphabet_def)

lemma b64_char_facts:
  assumes "i < 64"
  shows "b64_val (b64_char i) = Some i \<and> b64_char i \<noteq> CHR 0x0A \<and> b64_char i \<noteq> CHR 0x0D"
proof -
  have i: "i < length b64_alphabet" using assms by (simp add: b64_alphabet_facts)
  then have mem: "b64_char i \<in> set b64_alphabet" by (simp add: b64_char_def)
  have "takeWhile (\<lambda>d. d \<noteq> b64_char i) b64_alphabet = take i b64_alphabet"
    using i b64_alphabet_facts(2) by (intro takeWhile_eq_take_P_nth) (auto simp: b64_char_def nth_eq_iff_index_eq)
  with i mem b64_alphabet_facts show ?thesis by (auto simp: b64_val_def)
qed

lemma b64_pad [simp]: "b64_val CHR ''='' = None"
  by (simp add: b64_val_def b64_alphabet_def)

lemma b64_digits:
  fixes n :: nat
  assumes "n < 16777216"
  shows "n div 262144 < 64" "n div 4096 mod 64 < 64" "n div 64 mod 64 < 64" "n mod 64 < 64"
    and "n div 262144 * 262144 + n div 4096 mod 64 * 4096 + n div 64 mod 64 * 64 + n mod 64 = n"
proof -
  have d: "n div 4096 = n div 64 div 64" "n div 262144 = n div 64 div 64 div 64"
    by (simp_all flip: div_mult2_eq)
  have "n = n div 64 * 64 + n mod 64" "n div 64 = n div 64 div 64 * 64 + n div 64 mod 64"
    "n div 64 div 64 = n div 64 div 64 div 64 * 64 + n div 64 div 64 mod 64" by simp_all
  then show "n div 262144 * 262144 + n div 4096 mod 64 * 4096 + n div 64 mod 64 * 64 + n mod 64 = n"
    unfolding d by linarith
qed (use assms in \<open>simp_all add: div_less_iff_less_mult\<close>)

lemma byte_lt: "unat (b :: byte) < 256"
  using unsigned_less [of b] by simp

lemma b64_bytes:
  fixes x y z :: nat
  assumes "x < 256" "y < 256" "z < 256"
  shows "(x * 65536 + y * 256 + z) div 65536 = x" "(x * 65536 + y * 256 + z) div 256 mod 256 = y"
    "(x * 65536 + y * 256 + z) mod 256 = z" "x * 65536 + y * 256 + z < 16777216"
proof -
  let ?n = "x * 65536 + y * 256 + z"
  have n: "?n = z + (y + x * 256) * 256" by simp
  have q: "?n div 256 = y + x * 256" and m: "?n mod 256 = z"
    unfolding n using assms(3)
    by (simp_all only: div_mult_self1 mod_mult_self1 div_less mod_less add_0 zero_neq_numeral not_False_eq_True)
  have "?n div 65536 = ?n div 256 div 256" by (simp flip: div_mult2_eq)
  with q assms(2) show "?n div 65536 = x" by simp
  show "?n div 256 mod 256 = y" using q assms(2) by simp
  show "?n mod 256 = z" by (rule m)
  show "?n < 16777216" using assms by linarith
qed

lemma b64_quantum_digits:
  assumes "p < 64" "q < 64"
  shows "s < 64 \<Longrightarrow> t < 64 \<Longrightarrow> n = p * 262144 + q * 4096 + s * 64 + t \<Longrightarrow>
      b64_quantum (b64_char p) (b64_char q) (b64_char s) (b64_char t)
        = Some ([of_nat (n div 65536), of_nat (n div 256 mod 256), of_nat (n mod 256)], False)"
    and "s < 64 \<Longrightarrow> n = p * 262144 + q * 4096 + s * 64 \<Longrightarrow>
      b64_quantum (b64_char p) (b64_char q) (b64_char s) CHR ''=''
        = Some ([of_nat (n div 65536), of_nat (n div 256 mod 256)], True)"
    and "n = p * 262144 + q * 4096 \<Longrightarrow>
      b64_quantum (b64_char p) (b64_char q) CHR ''='' CHR ''='' = Some ([of_nat (n div 65536)], True)"
  using assms b64_char_facts by (simp_all only: b64_quantum_def b64_pad prod.case option.case Let_def
      if_True refl simp_thms)

lemma b64_quantum_3:
  fixes a b c :: byte
  defines "n \<equiv> unat a * 65536 + unat b * 256 + unat c"
  shows "b64_quantum (b64_char (n div 262144)) (b64_char (n div 4096 mod 64))
      (b64_char (n div 64 mod 64)) (b64_char (n mod 64)) = Some ([a, b, c], False)"
proof -
  note bs = b64_bytes [OF byte_lt [of a] byte_lt [of b] byte_lt [of c], folded n_def]
  note ds = b64_digits [OF bs(4)]
  from b64_quantum_digits(1) [OF ds(1-4) ds(5) [symmetric]] show ?thesis
    by (simp only: bs of_nat_unat ucast_id)
qed

lemma b64_quantum_2:
  fixes a b :: byte
  defines "n \<equiv> unat a * 65536 + unat b * 256"
  shows "b64_quantum (b64_char (n div 262144)) (b64_char (n div 4096 mod 64))
      (b64_char (n div 64 mod 64)) CHR ''='' = Some ([a, b], True)"
proof -
  have bs: "n div 65536 = unat a" "n div 256 mod 256 = unat b" "n < 16777216"
    using b64_bytes [of "unat a" "unat b" 0] byte_lt [of a] byte_lt [of b] unfolding n_def
    by (simp_all only: add_0_right)
  note ds = b64_digits [OF bs(3)]
  have "n = (unat a * 1024 + unat b * 4) * 64" by (simp add: n_def)
  then have "n mod 64 = 0" by (simp only: mod_mult_self2_is_0)
  with ds(5) have "n = n div 262144 * 262144 + n div 4096 mod 64 * 4096 + n div 64 mod 64 * 64" by linarith
  from b64_quantum_digits(2) [OF ds(1-3) this] show ?thesis
    by (simp only: bs of_nat_unat ucast_id)
qed

lemma b64_quantum_1:
  fixes a :: byte
  defines "n \<equiv> unat a * 65536"
  shows "b64_quantum (b64_char (n div 262144)) (b64_char (n div 4096 mod 64)) CHR ''='' CHR ''=''
    = Some ([a], True)"
proof -
  have bs: "n div 65536 = unat a" "n < 16777216"
    using b64_bytes [of "unat a" 0 0] byte_lt [of a] unfolding n_def
    by (simp_all only: add_0_right mult_zero_left)
  note ds = b64_digits [OF bs(2)]
  have n: "n = unat a * 1024 * 64" by (simp add: n_def)
  then have "n mod 64 = 0" by (simp only: mod_mult_self2_is_0)
  moreover have "n div 64 = unat a * 16 * 64" using n by simp
  then have "n div 64 mod 64 = 0" by (simp only: mod_mult_self2_is_0)
  ultimately have "n = n div 262144 * 262144 + n div 4096 mod 64 * 4096" using ds(5) by linarith
  from b64_quantum_digits(3) [OF ds(1,2) this] show ?thesis
    by (simp only: bs of_nat_unat ucast_id)
qed

lemma b64_quanta_encode: "b64_quanta (b64_encode bs) = Some bs"
proof (induction bs rule: b64_encode.induct)
  case (2 a)
  show ?case
    by (simp only: b64_encode.simps Let_def b64_quanta.simps b64_quantum_1 option.case prod.case if_True refl)
next
  case (3 a b)
  show ?case
    by (simp only: b64_encode.simps Let_def b64_quanta.simps b64_quantum_2 option.case prod.case if_True refl)
next
  case (4 a b c r)
  then show ?case
    by (simp only: b64_encode.simps Let_def b64_quanta.simps b64_quantum_3 option.case prod.case if_False
        option.map append_Cons append_Nil)
qed simp

lemma b64_char_letters: "i < 64 \<Longrightarrow> b64_char i \<in> set b64_alphabet"
  using b64_alphabet_facts(1) by (simp add: b64_char_def)

lemma b64_encode_letters: "set (b64_encode bs) \<subseteq> insert CHR ''='' (set b64_alphabet)"
proof (induction bs rule: b64_encode.induct)
  case (2 a)
  have "unat a * 65536 < 16777216" using byte_lt [of a] by linarith
  from b64_digits(1-2) [OF this] show ?case by (simp add: Let_def b64_char_letters)
next
  case (3 a b)
  have "unat a * 65536 + unat b * 256 < 16777216" using byte_lt [of a] byte_lt [of b] by linarith
  from b64_digits(1-3) [OF this] show ?case by (simp add: Let_def b64_char_letters)
next
  case (4 a b c r)
  have "unat a * 65536 + unat b * 256 + unat c < 16777216" using byte_lt [of a] byte_lt [of b] byte_lt [of c] by linarith
  from b64_digits(1-4) [OF this] 4 show ?case by (simp add: Let_def b64_char_letters)
qed simp

lemma b64_encode_no_breaks:
  assumes "c \<in> set (b64_encode bs)"
  shows "c \<noteq> CHR 0x0A \<and> c \<noteq> CHR 0x0D"
proof -
  have "CHR 0x0A \<notin> insert CHR ''='' (set b64_alphabet)" "CHR 0x0D \<notin> insert CHR ''='' (set b64_alphabet)"
    by (simp_all add: b64_alphabet_def)
  with assms b64_encode_letters [of bs] show ?thesis by blast
qed

lemma b64_decode_encode [simp]: "b64_decode (b64_encode bs) = Inr bs"
proof -
  have "filter (\<lambda>c. c \<noteq> CHR 0x0A \<and> c \<noteq> CHR 0x0D) (b64_encode bs) = b64_encode bs"
    using b64_encode_no_breaks [of _ bs] by (auto simp: filter_id_conv)
  then show ?thesis by (simp add: b64_decode_def b64_quanta_encode)
qed

text \<open>No text with a space or an at sign is base64, so a name or an email is not.\<close>

lemma b64_encode_no_space: "CHR '' '' \<notin> set (b64_encode bs)"
proof -
  have "CHR '' '' \<notin> insert CHR ''='' (set b64_alphabet)" by (simp add: b64_alphabet_def)
  with b64_encode_letters show ?thesis by blast
qed

lemma b64_encode_no_at: "CHR ''@'' \<notin> set (b64_encode bs)"
proof -
  have "CHR ''@'' \<notin> insert CHR ''='' (set b64_alphabet)" by (simp add: b64_alphabet_def)
  with b64_encode_letters show ?thesis by blast
qed

end
