(* ===== verification/Es_Aggregate.thy ===== *)
theory Es_Aggregate
  imports Es_Event
begin

text \<open>
  \<^verbatim>\<open>es/registry.go\<close> and \<^verbatim>\<open>es/aggregate.go\<close>: the event registry, the embedded \<^verbatim>\<open>BaseAggregate\<close> and
  its two state changes, \<^verbatim>\<open>RecordThat\<close> and \<^verbatim>\<open>LoadFromHistory\<close>. A concrete aggregate embeds
  \<^verbatim>\<open>BaseAggregate\<close>, which is a record extension here; what the library knows of its payload types
  is the interface record \<open>payload_ops\<close>, and its \<^verbatim>\<open>Apply\<close> is a parameter. The locale
  \<open>event_sourced\<close> states what an aggregate has to satisfy for replay and live recording to
  agree; the example domains interpret it.
\<close>

section \<open>Payload types and the registry\<close>

text \<open>
  The methods and JSON behaviour of an event's payload: its name, \<^verbatim>\<open>json.Marshal\<close> of it,
  \<^verbatim>\<open>json.Unmarshal\<close> into an instance (which may have been filled in part when it fails),
  \<^verbatim>\<open>PiiFields\<close> if the type has it (a missing bucket is the empty list) and whether the type is
  marked with \<^verbatim>\<open>RequestsErasure\<close>.
\<close>

record 'p payload_ops =
  po_event_name :: "'p \<Rightarrow> string"
  po_marshal :: "'p \<Rightarrow> error + json"
  po_unmarshal :: "raw \<Rightarrow> 'p \<Rightarrow> error option \<times> 'p"
  po_pii_fields :: "'p \<Rightarrow> (string \<Rightarrow> string list) option"
  po_requests_erasure :: "'p \<Rightarrow> bool"

text \<open>A registered factory returns a fresh zero-valued instance, so it is kept as that instance.\<close>

type_synonym 'p registry = "string \<rightharpoonup> 'p"

definition new_registry :: "'p registry" where
  "new_registry = Map.empty"

definition registry_register :: "string \<Rightarrow> 'p \<Rightarrow> 'p registry \<Rightarrow> 'p registry" where
  "registry_register name z r = r(name \<mapsto> z)"

definition registry_factory :: "'p registry \<Rightarrow> string \<Rightarrow> 'p option" where
  "registry_factory r name = r name"

lemma registry_factory_register:
  "registry_factory (registry_register name z r) name' =
     (if name' = name then Some z else registry_factory r name')"
  by (simp add: registry_factory_def registry_register_def)

lemma registry_factory_new [simp]: "registry_factory new_registry name = None"
  by (simp add: registry_factory_def new_registry_def)

section \<open>Record options\<close>

text \<open>
  The \<^verbatim>\<open>RecordOption\<close>s the package offers. The values of \<^verbatim>\<open>WithMetadata\<close> are Go values of type
  \<^verbatim>\<open>any\<close>: the document \<^verbatim>\<open>json.Marshal\<close> writes for one, or \<open>None\<close> when it refuses the value.
\<close>

datatype record_option =
    WithEventVersion int
  | WithOccurredAt time
  | WithEventID uuid
  | WithActor uuid string
  | WithPiiID uuid
  | WithMetadata "(string \<times> json option) list"

text \<open>
  The map \<open>WithMetadata\<close> merges into: empty, or what is already there decoded into
  \<^verbatim>\<open>map[string]any\<close> (with the decoding error ignored); \<open>None\<close> is a nil map.
\<close>

definition decoded_metadata :: "raw \<Rightarrow> (string \<Rightarrow> json option) option" where
  "decoded_metadata r =
     (case r of
        RawOk (JObj m) \<Rightarrow> Some (map_option json_any \<circ> m)
      | RawOk JNull \<Rightarrow> None
      | _ \<Rightarrow> Some (\<lambda>_. None))"

fun merge_fields :: "(string \<times> json option) list \<Rightarrow> (string \<Rightarrow> json option) \<Rightarrow> (string \<Rightarrow> json option)"
where
  "merge_fields [] m = m"
| "merge_fields ((k, v) # fs) m = merge_fields fs (m(k := v))"

definition with_metadata :: "(string \<times> json option) list \<Rightarrow> domain_event \<Rightarrow> error + domain_event" where
  "with_metadata flds e =
     (case decoded_metadata (ev_metadata e) of
        None \<Rightarrow> (if flds = [] then Inr (e\<lparr>ev_metadata := RawOk JNull\<rparr>)
                 else Inl (Panic ''assignment to entry in nil map''))
      | Some merged \<Rightarrow>
          (if list_ex (\<lambda>kv. snd kv = None) flds then Inr e
           else Inr (e\<lparr>ev_metadata := RawOk (JObj (merge_fields flds merged))\<rparr>)))"

fun apply_record_option :: "record_option \<Rightarrow> domain_event \<Rightarrow> error + domain_event" where
  "apply_record_option (WithEventVersion v) e = Inr (e\<lparr>ev_version := v\<rparr>)"
| "apply_record_option (WithOccurredAt t) e = Inr (e\<lparr>ev_occurred_at := t\<rparr>)"
| "apply_record_option (WithEventID i) e = Inr (e\<lparr>ev_id := i\<rparr>)"
| "apply_record_option (WithActor i ty) e =
     Inr (e\<lparr>ev_actor_id := Some i, ev_actor_type := Some ty\<rparr>)"
| "apply_record_option (WithPiiID p) e = Inr (e\<lparr>ev_pii_id := Some p\<rparr>)"
| "apply_record_option (WithMetadata flds) e = with_metadata flds e"

fun apply_record_options :: "record_option list \<Rightarrow> domain_event \<Rightarrow> error + domain_event" where
  "apply_record_options [] e = Inr e"
| "apply_record_options (opt # opts) e =
     (case apply_record_option opt e of
        Inl err \<Rightarrow> Inl err
      | Inr e' \<Rightarrow> apply_record_options opts e')"

section \<open>BaseAggregate\<close>

record base_aggregate =
  agg_id :: uuid
  agg_version :: u64
  agg_uncommitted :: "domain_event list"

definition set_id :: "uuid \<Rightarrow> 'a base_aggregate_scheme \<Rightarrow> 'a base_aggregate_scheme" where
  "set_id i a = a\<lparr>agg_id := i\<rparr>"

definition set_version :: "u64 \<Rightarrow> 'a base_aggregate_scheme \<Rightarrow> 'a base_aggregate_scheme" where
  "set_version v a = a\<lparr>agg_version := v\<rparr>"

definition clear_events :: "'a base_aggregate_scheme \<Rightarrow> 'a base_aggregate_scheme" where
  "clear_events a = a\<lparr>agg_uncommitted := []\<rparr>"

text \<open>
  \<^verbatim>\<open>Apply\<close> may change the whole aggregate, also when it fails. \<^verbatim>\<open>uuid.New\<close> and \<^verbatim>\<open>time.Now\<close> are the
  arguments \<open>new_id\<close> and \<open>now\<close>.
\<close>

type_synonym ('p, 'a) applier =
  "'p \<Rightarrow> 'a base_aggregate_scheme \<Rightarrow> error option \<times> 'a base_aggregate_scheme"

definition fresh_envelope :: "'p payload_ops \<Rightarrow> uuid \<Rightarrow> time \<Rightarrow> 'p \<Rightarrow> json \<Rightarrow>
    'a base_aggregate_scheme \<Rightarrow> domain_event" where
  "fresh_envelope ops new_id now p payload a = zero_event
     \<lparr> ev_id := new_id, ev_aggregate_id := agg_id a, ev_aggregate_version := agg_version a,
       ev_version := 1, ev_name := po_event_name ops p, ev_payload := RawOk payload,
       ev_occurred_at := now \<rparr>"

definition record_that :: "'p payload_ops \<Rightarrow> ('p, 'a) applier \<Rightarrow> uuid \<Rightarrow> time \<Rightarrow> 'p \<Rightarrow>
    record_option list \<Rightarrow> 'a base_aggregate_scheme \<Rightarrow> error option \<times> 'a base_aggregate_scheme" where
  "record_that ops appl new_id now p opts a =
     (case appl p (a\<lparr>agg_version := agg_version a + 1\<rparr>) of
        (Some err, a1) \<Rightarrow> (Some err, a1\<lparr>agg_version := agg_version a1 - 1\<rparr>)
      | (None, a1) \<Rightarrow>
          (case po_marshal ops p of
             Inl err \<Rightarrow> (Some (ErrWrap ''es: marshal payload'' err),
                         a1\<lparr>agg_version := agg_version a1 - 1\<rparr>)
           | Inr payload \<Rightarrow>
               (case apply_record_options opts (fresh_envelope ops new_id now p payload a1) of
                  Inl err \<Rightarrow> (Some err, a1)
                | Inr e \<Rightarrow> (None, a1\<lparr>agg_uncommitted := agg_uncommitted a1 @ [e]\<rparr>))))"

fun load_from_history :: "'p payload_ops \<Rightarrow> ('p, 'a) applier \<Rightarrow> 'p registry \<Rightarrow> domain_event list \<Rightarrow>
    'a base_aggregate_scheme \<Rightarrow> error option \<times> 'a base_aggregate_scheme" where
  "load_from_history ops appl reg [] a = (None, a)"
| "load_from_history ops appl reg (e # es) a =
     (case registry_factory reg (ev_name e) of
        None \<Rightarrow> (Some (ErrText ''es: no factory registered for event''), a)
      | Some z \<Rightarrow>
          (case po_unmarshal ops (ev_payload e) z of
             (Some err, _) \<Rightarrow> (Some (ErrWrap ''es: unmarshal payload'' err), a)
           | (None, p) \<Rightarrow>
               (case appl p a of
                  (Some err, a') \<Rightarrow> (Some (ErrWrap ''es: replay'' err), a')
                | (None, a') \<Rightarrow>
                    load_from_history ops appl reg es (set_version (ev_aggregate_version e) a'))))"

section \<open>What the options leave alone\<close>

lemma with_metadata_frame:
  "with_metadata fs e = Inr e' \<Longrightarrow> \<exists>r. e' = e\<lparr>ev_metadata := r\<rparr>"
proof -
  have "\<exists>r. e = e\<lparr>ev_metadata := r\<rparr>" by (rule exI [of _ "ev_metadata e"]) simp
  then show "with_metadata fs e = Inr e' \<Longrightarrow> \<exists>r. e' = e\<lparr>ev_metadata := r\<rparr>"
    by (auto simp: with_metadata_def split: option.splits if_splits)
qed

lemma apply_record_option_frame:
  assumes "apply_record_option opt e = Inr e'"
  shows "ev_aggregate_id e' = ev_aggregate_id e \<and> ev_aggregate_version e' = ev_aggregate_version e
    \<and> ev_name e' = ev_name e \<and> ev_payload e' = ev_payload e \<and> ev_tenant_id e' = ev_tenant_id e
    \<and> ev_global_id e' = ev_global_id e \<and> ev_pii_fields e' = ev_pii_fields e"
  using assms by (cases opt) (auto dest: with_metadata_frame)

lemma apply_record_options_frame:
  "apply_record_options opts e = Inr e' \<Longrightarrow>
    ev_aggregate_id e' = ev_aggregate_id e \<and> ev_aggregate_version e' = ev_aggregate_version e
    \<and> ev_name e' = ev_name e \<and> ev_payload e' = ev_payload e \<and> ev_tenant_id e' = ev_tenant_id e
    \<and> ev_global_id e' = ev_global_id e \<and> ev_pii_fields e' = ev_pii_fields e"
proof (induction opts arbitrary: e)
  case (Cons opt opts)
  then show ?case
    by (auto split: sum.splits dest: apply_record_option_frame)
qed simp

text \<open>The subject an event gets is that of the last \<open>WithPiiID\<close>.\<close>

fun pii_option :: "record_option list \<Rightarrow> uuid option \<Rightarrow> uuid option" where
  "pii_option [] d = d"
| "pii_option (WithPiiID p # opts) d = pii_option opts (Some p)"
| "pii_option (opt # opts) d = pii_option opts d"

lemma pii_option_append [simp]: "pii_option (xs @ ys) d = pii_option ys (pii_option xs d)"
  by (induction xs d rule: pii_option.induct) simp_all

lemma apply_record_options_pii:
  "apply_record_options opts e = Inr e' \<Longrightarrow>
    ev_pii_id e' = pii_option opts (ev_pii_id e) \<and> ev_pii_unrecoverable e' = ev_pii_unrecoverable e"
proof (induction opts arbitrary: e)
  case (Cons opt opts)
  from Cons.prems obtain e1 where "apply_record_option opt e = Inr e1" "apply_record_options opts e1 = Inr e'"
    by (auto split: sum.splits)
  with Cons.IH show ?case by (cases opt) (auto dest!: with_metadata_frame)
qed simp

text \<open>Metadata that \<open>WithMetadata\<close> can have written: none, or an object. On it no option panics.\<close>

fun metadata_ok :: "raw \<Rightarrow> bool" where
  "metadata_ok RawNil = True"
| "metadata_ok (RawOk (JObj m)) = True"
| "metadata_ok _ = False"

lemma decoded_metadata_ok: "metadata_ok r \<Longrightarrow> \<exists>m. decoded_metadata r = Some m"
  by (cases r rule: metadata_ok.cases) (auto simp: decoded_metadata_def)

lemma with_metadata_total:
  "metadata_ok (ev_metadata e) \<Longrightarrow>
    \<exists>e'. with_metadata fs e = Inr e' \<and> metadata_ok (ev_metadata e')"
  by (frule decoded_metadata_ok) (auto simp: with_metadata_def)

lemma apply_record_option_total:
  "metadata_ok (ev_metadata e) \<Longrightarrow>
    \<exists>e'. apply_record_option opt e = Inr e' \<and> metadata_ok (ev_metadata e')"
  by (cases opt) (auto simp: with_metadata_total)

lemma apply_record_options_total:
  "metadata_ok (ev_metadata e) \<Longrightarrow> \<exists>e'. apply_record_options opts e = Inr e'"
proof (induction opts arbitrary: e)
  case (Cons opt opts)
  from apply_record_option_total [OF Cons.prems, of opt] obtain e'
    where "apply_record_option opt e = Inr e'" "metadata_ok (ev_metadata e')" by blast
  with Cons.IH [of e'] show ?case by auto
qed simp

lemma apply_record_options_metadata:
  "apply_record_options opts e = Inr e' \<Longrightarrow> metadata_ok (ev_metadata e) \<Longrightarrow> metadata_ok (ev_metadata e')"
proof (induction opts arbitrary: e)
  case (Cons opt opts)
  from apply_record_option_total [OF Cons.prems(2), of opt] obtain e1
    where "apply_record_option opt e = Inr e1" "metadata_ok (ev_metadata e1)" by blast
  with Cons.IH [of e1] Cons.prems(1) show ?case by simp
qed simp

lemma fresh_envelope_sel [simp]:
  "ev_aggregate_id (fresh_envelope ops i t p j a) = agg_id a"
  "ev_aggregate_version (fresh_envelope ops i t p j a) = agg_version a"
  "ev_name (fresh_envelope ops i t p j a) = po_event_name ops p"
  "ev_payload (fresh_envelope ops i t p j a) = RawOk j"
  "ev_tenant_id (fresh_envelope ops i t p j a) = uuid_nil"
  "ev_metadata (fresh_envelope ops i t p j a) = RawNil"
  "ev_pii_fields (fresh_envelope ops i t p j a) = RawNil"
  "ev_pii_id (fresh_envelope ops i t p j a) = None"
  by (simp_all add: fresh_envelope_def zero_event_def)

lemma record_that_Some_cases:
  assumes "record_that ops appl i t p opts a = (Some err, a')"
  obtains (refused) a1 where "appl p (a\<lparr>agg_version := agg_version a + 1\<rparr>) = (Some err, a1)"
      "a' = a1\<lparr>agg_version := agg_version a1 - 1\<rparr>"
    | (unmarshalable) a1 err' where "appl p (a\<lparr>agg_version := agg_version a + 1\<rparr>) = (None, a1)"
      "po_marshal ops p = Inl err'" "a' = a1\<lparr>agg_version := agg_version a1 - 1\<rparr>"
proof -
  obtain r a1 where ap: "appl p (a\<lparr>agg_version := agg_version a + 1\<rparr>) = (r, a1)" by force
  have "\<exists>e'. apply_record_options opts (fresh_envelope ops i t p j a1) = Inr e'" for j
    by (rule apply_record_options_total) simp
  then show thesis
    using assms ap that by (auto simp: record_that_def split: option.splits sum.splits) (metis sum.distinct(1))
qed

section \<open>Replay\<close>

lemma load_from_history_append:
  "load_from_history ops appl reg (xs @ ys) a =
     (case load_from_history ops appl reg xs a of
        (Some err, a') \<Rightarrow> (Some err, a')
      | (None, a') \<Rightarrow> load_from_history ops appl reg ys a')"
  by (induction ops appl reg xs a rule: load_from_history.induct) (auto split: option.splits prod.splits)

lemma load_from_history_continue:
  "load_from_history ops appl reg xs a = (None, b) \<Longrightarrow>
   load_from_history ops appl reg (xs @ ys) a = load_from_history ops appl reg ys b"
  by (simp add: load_from_history_append)

text \<open>
  \<open>sourced zero hist a\<close>: the aggregate \<open>a\<close> is what replaying its committed history followed by its
  own uncommitted events gives, starting from a fresh instance; its version counts those events,
  and the uncommitted ones are numbered on from the history and carry the aggregate's id.
\<close>

definition sourced :: "'p payload_ops \<Rightarrow> ('p, 'a) applier \<Rightarrow> 'p registry \<Rightarrow>
    'a base_aggregate_scheme \<Rightarrow> domain_event list \<Rightarrow> 'a base_aggregate_scheme \<Rightarrow> bool" where
  "sourced ops appl reg zero hist a \<longleftrightarrow>
     load_from_history ops appl reg (hist @ agg_uncommitted a) (set_id (agg_id a) zero)
       = (None, clear_events a)
     \<and> versions_from 0 (hist @ agg_uncommitted a)
     \<and> agg_version a = of_nat (length hist + length (agg_uncommitted a))
     \<and> (\<forall>e \<in> set (agg_uncommitted a). ev_aggregate_id e = agg_id a \<and> ev_tenant_id e = uuid_nil)"

locale event_sourced =
  fixes ops :: "'p payload_ops"
    and apply_event :: "('p, 'a) applier"
    and reg :: "'p registry"
  assumes codec: "\<exists>j z. po_marshal ops p = Inr j \<and> registry_factory reg (po_event_name ops p) = Some z
      \<and> po_unmarshal ops (RawOk j) z = (None, p)"
    and apply_base_result:
      "fst (apply_event p (a\<lparr>agg_version := v, agg_uncommitted := u\<rparr>)) = fst (apply_event p a)"
    and apply_base_state:
      "snd (apply_event p (a\<lparr>agg_version := v, agg_uncommitted := u\<rparr>))
        = (snd (apply_event p a))\<lparr>agg_version := v, agg_uncommitted := u\<rparr>"
    and apply_id: "agg_id (snd (apply_event p a)) = agg_id a"
    and apply_error: "fst (apply_event p a) = Some err \<Longrightarrow> snd (apply_event p a) = a"
begin

lemma apply_frame:
  "agg_version (snd (apply_event p a)) = agg_version a"
  "agg_uncommitted (snd (apply_event p a)) = agg_uncommitted a"
proof -
  have eq: "snd (apply_event p (a\<lparr>agg_version := agg_version a, agg_uncommitted := agg_uncommitted a\<rparr>))
      = (snd (apply_event p a))\<lparr>agg_version := agg_version a, agg_uncommitted := agg_uncommitted a\<rparr>"
    by (rule apply_base_state)
  show "agg_version (snd (apply_event p a)) = agg_version a"
    using arg_cong [OF eq, of agg_version] by simp
  show "agg_uncommitted (snd (apply_event p a)) = agg_uncommitted a"
    using arg_cong [OF eq, of agg_uncommitted] by simp
qed

lemma apply_base:
  assumes "apply_event p a = (r, a')"
  shows "apply_event p (a\<lparr>agg_version := v, agg_uncommitted := u\<rparr>)
    = (r, a'\<lparr>agg_version := v, agg_uncommitted := u\<rparr>)"
  using apply_base_result [where p = p and a = a and v = v and u = u]
    apply_base_state [where p = p and a = a and v = v and u = u] assms
  by (metis fst_conv prod.collapse snd_conv)

lemma apply_versioned:
  assumes "apply_event p (a\<lparr>agg_version := w\<rparr>) = (r, a')"
  shows "apply_event p (clear_events a) = (r, a'\<lparr>agg_version := agg_version a, agg_uncommitted := []\<rparr>)"
  using apply_base [OF assms, where v = "agg_version a" and u = "[]"] by (simp add: clear_events_def)

text \<open>A failing \<^verbatim>\<open>RecordThat\<close> leaves the aggregate exactly as it was.\<close>

lemma record_that_error:
  assumes "record_that ops apply_event i t p opts a = (Some err, a')"
  shows "a' = a"
  using assms
proof (cases rule: record_that_Some_cases)
  case (refused a1)
  then have "a1 = a\<lparr>agg_version := agg_version a + 1\<rparr>"
    using apply_error [of p "a\<lparr>agg_version := agg_version a + 1\<rparr>" err] by simp
  with refused show ?thesis by simp
next
  case (unmarshalable a1 err')
  with codec [of p] show ?thesis by auto
qed

text \<open>A successful one buffers one event, which replays to the same state.\<close>

lemma record_that_ok:
  assumes "record_that ops apply_event i t p opts a = (None, a')"
  obtains e where "agg_uncommitted a' = agg_uncommitted a @ [e]"
    "agg_version a' = agg_version a + 1" "agg_id a' = agg_id a"
    "ev_aggregate_version e = agg_version a + 1" "ev_aggregate_id e = agg_id a"
    "ev_tenant_id e = uuid_nil" "ev_name e = po_event_name ops p"
    "load_from_history ops apply_event reg [e] (clear_events a) = (None, clear_events a')"
proof -
  let ?a = "a\<lparr>agg_version := agg_version a + 1\<rparr>"
  from assms obtain a1 j e where ap: "apply_event p ?a = (None, a1)"
    and j: "po_marshal ops p = Inr j"
    and e: "apply_record_options opts (fresh_envelope ops i t p j a1) = Inr e"
    and a': "a' = a1\<lparr>agg_uncommitted := agg_uncommitted a1 @ [e]\<rparr>"
    by (auto simp: record_that_def split: prod.splits option.splits sum.splits)
  have a1: "agg_version a1 = agg_version a + 1" "agg_uncommitted a1 = agg_uncommitted a"
    "agg_id a1 = agg_id a"
    using apply_frame [of p ?a] apply_id [of p ?a] ap by simp_all
  from codec [of p] j obtain z where z: "registry_factory reg (po_event_name ops p) = Some z"
    "po_unmarshal ops (RawOk j) z = (None, p)" by auto
  note fr = apply_record_options_frame [OF e]
  have "load_from_history ops apply_event reg [e] (clear_events a) = (None, clear_events a')"
    using fr z apply_versioned [OF ap] a1 by (simp add: a' set_version_def clear_events_def)
  with that [of e] fr a1 show thesis by (simp add: a')
qed

end

text \<open>Recording keeps an aggregate in step with its history.\<close>

context event_sourced
begin

lemma sourced_record_that:
  assumes src: "sourced ops apply_event reg zero hist a"
    and rec: "record_that ops apply_event i t p opts a = (None, a')"
  shows "sourced ops apply_event reg zero hist a'"
proof -
  from rec obtain e where e: "agg_uncommitted a' = agg_uncommitted a @ [e]"
    "agg_version a' = agg_version a + 1" "agg_id a' = agg_id a"
    "ev_aggregate_version e = agg_version a + 1" "ev_aggregate_id e = agg_id a"
    "ev_tenant_id e = uuid_nil"
    and ld: "load_from_history ops apply_event reg [e] (clear_events a) = (None, clear_events a')"
    by (rule record_that_ok) blast
  have hist: "hist @ agg_uncommitted a' = (hist @ agg_uncommitted a) @ [e]"
    using e by simp
  have "load_from_history ops apply_event reg (hist @ agg_uncommitted a) (set_id (agg_id a) zero)
      = (None, clear_events a)"
    using src by (simp add: sourced_def)
  from load_from_history_continue [OF this, of "[e]"] ld
  have "load_from_history ops apply_event reg (hist @ agg_uncommitted a') (set_id (agg_id a') zero)
      = (None, clear_events a')"
    by (simp only: hist e(3))
  moreover have "versions_from 0 (hist @ agg_uncommitted a')"
    using src e unfolding hist versions_from_append by (simp add: sourced_def versions_from_append)
  ultimately show ?thesis
    using src e by (auto simp: sourced_def)
qed

lemma sourced_fresh:
  assumes "agg_uncommitted zero = []" "agg_version zero = 0"
  shows "sourced ops apply_event reg zero [] (set_id i zero)"
  using assms by (simp add: sourced_def set_id_def clear_events_def)

text \<open>\<^verbatim>\<open>RecordThat\<close> in terms of \<^verbatim>\<open>Apply\<close> on the aggregate as it is.\<close>

lemma record_that_accepted:
  assumes "apply_event p a = (None, b)"
  obtains e where "record_that ops apply_event i t p opts a
      = (None, b\<lparr>agg_version := agg_version a + 1, agg_uncommitted := agg_uncommitted a @ [e]\<rparr>)"
    "ev_aggregate_version e = agg_version a + 1" "ev_aggregate_id e = agg_id a"
    "ev_tenant_id e = uuid_nil" "ev_name e = po_event_name ops p"
    "po_marshal ops p = Inr j \<Longrightarrow> ev_payload e = RawOk j"
    "ev_pii_fields e = RawNil" "ev_pii_id e = pii_option opts None" "\<not> ev_pii_unrecoverable e"
    "metadata_ok (ev_metadata e)"
proof -
  let ?a = "a\<lparr>agg_version := agg_version a + 1\<rparr>"
    and ?b = "b\<lparr>agg_version := agg_version a + 1, agg_uncommitted := agg_uncommitted a\<rparr>"
  have ap: "apply_event p ?a = (None, ?b)"
    using apply_base [OF assms, where v = "agg_version a + 1" and u = "agg_uncommitted a"] by simp
  have id: "agg_id b = agg_id a" using apply_id [of p a] assms by simp
  obtain k where k: "po_marshal ops p = Inr k" using codec [of p] by blast
  obtain e where e: "apply_record_options opts (fresh_envelope ops i t p k ?b) = Inr e"
    using apply_record_options_total [of "fresh_envelope ops i t p k ?b" opts] by auto
  have "record_that ops apply_event i t p opts a
      = (None, b\<lparr>agg_version := agg_version a + 1, agg_uncommitted := agg_uncommitted a @ [e]\<rparr>)"
    by (simp add: record_that_def ap k e)
  with apply_record_options_frame [OF e] apply_record_options_pii [OF e] apply_record_options_metadata [OF e] show thesis
    by (intro that [of e]) (simp_all add: id k fresh_envelope_def zero_event_def)
qed

lemma record_that_refused:
  assumes "apply_event p a = (Some err, b)"
  shows "record_that ops apply_event i t p opts a = (Some err, a)"
proof -
  have b: "b = a" using apply_error [of p a err] assms by simp
  have "apply_event p (a\<lparr>agg_version := agg_version a + 1\<rparr>)
      = (Some err, a\<lparr>agg_version := agg_version a + 1\<rparr>)"
    using apply_base [OF assms, where v = "agg_version a + 1" and u = "agg_uncommitted a"] by (simp add: b)
  then show ?thesis by (simp add: record_that_def)
qed

end

end
