(* ===== verification/Es_Pii.thy ===== *)
theory Es_Pii
  imports Es_Keyring Es_Base64 Es_Aggregate
begin

text \<open>
  \<^verbatim>\<open>es/pii.go\<close>: sealing and opening the declared PII fields of an event. The primitives below the
  code (AES-GCM, SHA-256, the text of a JSON document) are the interface record \<open>crypto\<close>; the
  predicate \<open>crypto_ok\<close> states what their documentation promises and is a hypothesis of the theorems
  that need it. Base64 and the random source are modelled.
\<close>

section \<open>Primitives\<close>

text \<open>
  \<open>cr_seal key nonce plaintext aad\<close> is the ciphertext with its tag that \<^verbatim>\<open>gcm.Seal\<close> appends to the
  nonce, \<open>cr_open\<close> is \<^verbatim>\<open>gcm.Open\<close>. \<open>js_text\<close> is the text of a raw JSON member and \<open>js_parse\<close> the document
  a text stands for.
\<close>

record crypto =
  cr_seal :: "bytes \<Rightarrow> bytes \<Rightarrow> bytes \<Rightarrow> bytes \<Rightarrow> bytes"
  cr_open :: "bytes \<Rightarrow> bytes \<Rightarrow> bytes \<Rightarrow> bytes \<Rightarrow> error + bytes"
  cr_sha256 :: "bytes \<Rightarrow> bytes"
  js_text :: "json \<Rightarrow> bytes"
  js_parse :: "bytes \<Rightarrow> json option"

text \<open>\<^verbatim>\<open>aes.NewCipher\<close> accepts the three AES key sizes; the standard GCM nonce has 12 bytes.\<close>

definition aes_key_ok :: "bytes \<Rightarrow> bool" where
  "aes_key_ok key \<longleftrightarrow> length key = 16 \<or> length key = 24 \<or> length key = 32"

definition nonce_size :: nat where
  "nonce_size = 12"

definition err_key_size :: error where
  "err_key_size = ErrText ''crypto/aes: invalid key size''"

definition js_ok :: "crypto \<Rightarrow> json \<Rightarrow> bool" where
  "js_ok c j \<longleftrightarrow> js_text c j \<noteq> [] \<and> js_parse c (js_text c j) = Some j"

definition crypto_ok :: "crypto \<Rightarrow> bool" where
  "crypto_ok c \<longleftrightarrow>
     (\<forall>key nonce pt aad. aes_key_ok key \<longrightarrow> length nonce = nonce_size \<longrightarrow>
        cr_open c key nonce (cr_seal c key nonce pt aad) aad = Inr pt)
     \<and> (\<forall>s. js_ok c (JStr s))"

lemma crypto_open_seal:
  "crypto_ok c \<Longrightarrow> aes_key_ok key \<Longrightarrow> length nonce = nonce_size \<Longrightarrow>
   cr_open c key nonce (cr_seal c key nonce pt aad) aad = Inr pt"
  by (simp add: crypto_ok_def)

section \<open>piiEncrypt and piiDecrypt\<close>

definition pii_encrypt :: "crypto \<Rightarrow> bytes \<Rightarrow> bytes \<Rightarrow> rng \<Rightarrow> (error + string) \<times> rng" where
  "pii_encrypt c key pt r =
     (if \<not> aes_key_ok key then (Inl err_key_size, r)
      else let (nonce, r') = rand_read nonce_size r
           in (Inr (b64_encode (nonce @ cr_seal c key nonce pt [])), r'))"

definition pii_decrypt :: "crypto \<Rightarrow> bytes \<Rightarrow> string \<Rightarrow> error + bytes" where
  "pii_decrypt c key encoded =
     (case b64_decode encoded of
        Inl err \<Rightarrow> Inl err
      | Inr blob \<Rightarrow>
          if \<not> aes_key_ok key then Inl err_key_size
          else if length blob < nonce_size then Inl (ErrText ''es: pii: ciphertext too short'')
          else cr_open c key (take nonce_size blob) (drop nonce_size blob) [])"

lemma pii_decrypt_blob:
  "aes_key_ok key \<Longrightarrow> length nonce = nonce_size \<Longrightarrow>
   pii_decrypt c key (b64_encode (nonce @ ct)) = cr_open c key nonce ct []"
  by (simp add: pii_decrypt_def)

lemma pii_decrypt_encrypt:
  assumes "crypto_ok c" "pii_encrypt c key pt r = (Inr s, r')"
  shows "pii_decrypt c key s = Inr pt"
proof -
  obtain nonce where nonce: "rand_read nonce_size r = (nonce, r')" "aes_key_ok key"
    "s = b64_encode (nonce @ cr_seal c key nonce pt [])"
    using assms(2) by (auto simp: pii_encrypt_def split: prod.splits if_splits)
  with length_rand_read [OF nonce(1)] show ?thesis
    by (simp add: pii_decrypt_blob crypto_open_seal [OF assms(1)])
qed

section \<open>Seal\<close>

fun map_put :: "(string \<Rightarrow> json option) option \<Rightarrow> string \<Rightarrow> json option \<Rightarrow> (string \<Rightarrow> json option) option" where
  "map_put None f j = None"
| "map_put (Some m) f j = Some (m(f := j))"

text \<open>The loop of \<^verbatim>\<open>Seal\<close>. A field is only written when it is there, so the map is not nil.\<close>

fun seal_fields :: "crypto \<Rightarrow> bytes \<Rightarrow> string list \<Rightarrow> (string \<Rightarrow> json option) option \<Rightarrow> rng \<Rightarrow>
    (error + (string \<Rightarrow> json option) option) \<times> rng" where
  "seal_fields c key [] m r = (Inr m, r)"
| "seal_fields c key (f # fs) m r =
     (case map_get m f of
        None \<Rightarrow> seal_fields c key fs m r
      | Some j \<Rightarrow>
          (case pii_encrypt c key (js_text c j) r of
             (Inl err, r') \<Rightarrow> (Inl (ErrWrap ''es: pii: encrypt field'' err), r')
           | (Inr s, r') \<Rightarrow> seal_fields c key fs (map_put m f (Some (JStr s))) r'))"

definition manifest_json :: "string list \<Rightarrow> json" where
  "manifest_json fs = JObj [''payload'' \<mapsto> JArr (map JStr fs)]"

text \<open>The part of \<^verbatim>\<open>Seal\<close> after the key is known.\<close>

definition seal_payload :: "crypto \<Rightarrow> bytes \<Rightarrow> string list \<Rightarrow> domain_event \<Rightarrow> rng \<Rightarrow>
    error option \<times> domain_event \<times> rng" where
  "seal_payload c key fs e r =
     (case unmarshal_map (ev_payload e) of
        Inl err \<Rightarrow> (Some (ErrWrap ''es: pii: unmarshal payload'' err), e, r)
      | Inr m \<Rightarrow>
          (case seal_fields c key fs m r of
             (Inl err, r') \<Rightarrow> (Some err, e, r')
           | (Inr m', r') \<Rightarrow>
               (None, e\<lparr>ev_payload := RawOk (marshal_map m'),
                        ev_pii_fields := RawOk (manifest_json fs)\<rparr>, r')))"

definition pii_seal :: "crypto \<Rightarrow> 'k keyring_ops \<Rightarrow> domain_event \<Rightarrow> (string \<Rightarrow> string list) option \<Rightarrow>
    rng \<times> 'k \<Rightarrow> error option \<times> domain_event \<times> rng \<times> 'k" where
  "pii_seal c kr e src rk =
     (case rk of (r, k) \<Rightarrow>
      case (ev_pii_id e, src) of
        (Some p, Some buckets) \<Rightarrow>
          (let fs = buckets ''payload''
           in if fs = [] then (None, e, r, k)
              else case kr_get kr p k of
                     Inl err \<Rightarrow> (Some (ErrWrap ''es: pii: get key'' err), e, r, k)
                   | Inr (Some key) \<Rightarrow>
                       (let (x, e', r') = seal_payload c key fs e r in (x, e', r', k))
                   | Inr None \<Rightarrow>
                       (let (key, r1) = rand_read 32 r
                        in case kr_put kr p key (r1, k) of
                             (Some err, r2, k2) \<Rightarrow> (Some (ErrWrap ''es: pii: store key'' err), e, r2, k2)
                           | (None, r2, k2) \<Rightarrow>
                               (let (x, e', r3) = seal_payload c key fs e r2 in (x, e', r3, k2))))
      | _ \<Rightarrow> (None, e, r, k))"

section \<open>Open\<close>

text \<open>Decoding into a \<^verbatim>\<open>map[string][]string\<close>.\<close>

fun unmarshal_strings :: "json list \<Rightarrow> error + string list" where
  "unmarshal_strings [] = Inr []"
| "unmarshal_strings (j # js) =
     (case (unmarshal_string j [], unmarshal_strings js) of
        (Inr s, Inr ss) \<Rightarrow> Inr (s # ss)
      | _ \<Rightarrow> Inl ErrJson)"

fun unmarshal_bucket :: "json \<Rightarrow> error + string list" where
  "unmarshal_bucket (JArr js) = unmarshal_strings js"
| "unmarshal_bucket JNull = Inr []"
| "unmarshal_bucket _ = Inl ErrJson"

fun unmarshal_manifest :: "raw \<Rightarrow> error + (string \<Rightarrow> string list)" where
  "unmarshal_manifest (RawOk (JObj m)) =
     (if \<exists>k j err. m k = Some j \<and> unmarshal_bucket j = Inl err then Inl ErrJson
      else Inr (\<lambda>k. case m k of None \<Rightarrow> [] | Some j \<Rightarrow> (case unmarshal_bucket j of Inr ss \<Rightarrow> ss | Inl _ \<Rightarrow> [])))"
| "unmarshal_manifest (RawOk JNull) = Inr (\<lambda>_. [])"
| "unmarshal_manifest _ = Inl ErrJson"

text \<open>The document a decrypted member stands for; a nil \<^verbatim>\<open>RawMessage\<close> is written as \<^verbatim>\<open>null\<close>.\<close>

definition decode_plaintext :: "crypto \<Rightarrow> bytes \<Rightarrow> json option" where
  "decode_plaintext c pt = (if pt = [] then Some JNull else js_parse c pt)"

text \<open>
  The loop of \<^verbatim>\<open>Open\<close>. A plaintext that is no JSON document is only noticed when the whole payload is
  marshalled again: \<open>bad\<close> remembers it.
\<close>

fun open_fields :: "crypto \<Rightarrow> bytes \<Rightarrow> string list \<Rightarrow> (string \<Rightarrow> json option) option \<Rightarrow> bool \<Rightarrow>
    error + (string \<Rightarrow> json option) option" where
  "open_fields c key [] m bad = (if bad then Inl (ErrWrap ''es: pii: marshal payload'' ErrJson) else Inr m)"
| "open_fields c key (f # fs) m bad =
     (case map_get m f of
        None \<Rightarrow> open_fields c key fs m bad
      | Some j \<Rightarrow>
          (case unmarshal_string j [] of
             Inl _ \<Rightarrow> open_fields c key fs m bad
           | Inr s \<Rightarrow>
               (case pii_decrypt c key s of
                  Inl err \<Rightarrow> Inl (ErrWrap ''es: pii: decrypt field'' err)
                | Inr pt \<Rightarrow>
                    (case decode_plaintext c pt of
                       None \<Rightarrow> open_fields c key fs (map_put m f None) True
                     | Some j' \<Rightarrow> open_fields c key fs (map_put m f (Some j')) bad))))"

definition pii_open :: "crypto \<Rightarrow> 'k keyring_ops \<Rightarrow> domain_event \<Rightarrow> 'k \<Rightarrow> error + domain_event" where
  "pii_open c kr e k =
     (case ev_pii_id e of
        None \<Rightarrow> Inr e
      | Some p \<Rightarrow>
          if \<not> raw_present (ev_pii_fields e) then Inr e
          else case unmarshal_manifest (ev_pii_fields e) of
                 Inl _ \<Rightarrow> Inr e
               | Inr manifest \<Rightarrow>
                   (let fs = manifest ''payload''
                    in if fs = [] then Inr e
                       else case kr_get kr p k of
                              Inl err \<Rightarrow> Inl (ErrWrap ''es: pii: get key'' err)
                            | Inr None \<Rightarrow> Inr (e\<lparr>ev_pii_unrecoverable := True\<rparr>)
                            | Inr (Some key) \<Rightarrow>
                                (case unmarshal_map (ev_payload e) of
                                   Inl err \<Rightarrow> Inl (ErrWrap ''es: pii: unmarshal payload'' err)
                                 | Inr m \<Rightarrow>
                                     (case open_fields c key fs m False of
                                        Inl err \<Rightarrow> Inl err
                                      | Inr m' \<Rightarrow> Inr (e\<lparr>ev_payload := RawOk (marshal_map m')\<rparr>)))))"

definition pii_forget :: "'k keyring_ops \<Rightarrow> uuid \<Rightarrow> 'k \<Rightarrow> error option \<times> 'k" where
  "pii_forget kr p k = kr_forget kr p k"

section \<open>What a sealed payload looks like\<close>

lemma manifest_roundtrip: "unmarshal_manifest (RawOk (manifest_json fs)) = Inr ((\<lambda>_. [])(''payload'' := fs))"
proof -
  have "unmarshal_strings (map JStr fs) = Inr fs" by (induction fs) simp_all
  then show ?thesis by (auto simp: manifest_json_def fun_eq_iff split: if_splits)
qed

text \<open>Fields that are not declared stay as they are; declared ones become ciphertext strings.\<close>

lemma seal_fields_other:
  "seal_fields c key fs m r = (Inr m', r') \<Longrightarrow> g \<notin> set fs \<Longrightarrow> map_get m' g = map_get m g"
proof (induction c key fs m r rule: seal_fields.induct)
  case (2 c key f fs m r)
  then show ?case
    by (cases m) (auto split: option.splits sum.splits prod.splits)
qed simp

lemma seal_fields_nil_map: "seal_fields c key fs None r = (Inr None, r)"
  by (induction fs) simp_all

lemma seal_fields_some: "seal_fields c key fs (Some m) r = (Inr m', r') \<Longrightarrow> \<exists>m1. m' = Some m1"
  by (induction c key fs "Some m" r arbitrary: m rule: seal_fields.induct)
    (fastforce split: option.splits sum.splits prod.splits)+

lemma seal_fields_total:
  assumes "aes_key_ok key"
  shows "\<exists>m' r'. seal_fields c key fs m r = (Inr m', r')"
proof (induction fs arbitrary: m r)
  case (Cons f fs)
  have "\<exists>s r'. pii_encrypt c key pt r = (Inr s, r')" for pt
    using assms by (auto simp: pii_encrypt_def split: prod.split)
  then obtain s r' where "pii_encrypt c key (js_text c (the (map_get m f))) r = (Inr s, r')" by blast
  with Cons.IH show ?case by (cases "map_get m f") auto
qed simp

text \<open>Sealing distinct fields and opening them again gives the members back.\<close>

lemma open_fields_frame:
  assumes "g \<notin> set fs"
  shows "open_fields c key fs (Some (m(g := x))) bad =
    map_sum id (map_option (\<lambda>m'. m'(g := x))) (open_fields c key fs (Some m) bad)"
  using assms
proof (induction fs arbitrary: m bad)
  case (Cons f fs)
  then have fg: "f \<noteq> g" "g \<notin> set fs" by auto
  have twist: "open_fields c key fs (Some (m(g := x, f := y))) b =
      map_sum id (map_option (\<lambda>m'. m'(g := x))) (open_fields c key fs (Some (m(f := y))) b)" for y b
    unfolding fun_upd_twist [OF fg(1) [symmetric]] by (rule Cons.IH [OF fg(2)])
  show ?case
  proof (cases "m f")
    case None
    then show ?thesis using Cons.IH [OF fg(2)] fg(1) by simp
  next
    case (Some j)
    then show ?thesis
      using Cons.IH [OF fg(2), of m bad] fg(1) twist
      by (cases "unmarshal_string j []"; cases "pii_decrypt c key (projr (unmarshal_string j []))";
          cases "decode_plaintext c (projr (pii_decrypt c key (projr (unmarshal_string j []))))")
        (simp_all del: fun_upd_apply add: fun_upd_other id_def)
  qed
qed simp

lemma open_seal_fields:
  assumes "crypto_ok c" "seal_fields c key fs (Some m) r = (Inr (Some m'), r')" "distinct fs"
    and "\<And>f j. f \<in> set fs \<Longrightarrow> m f = Some j \<Longrightarrow> js_ok c j"
  shows "open_fields c key fs (Some m') False = Inr (Some m)"
  using assms(2-4)
proof (induction fs arbitrary: m r)
  case (Cons f fs)
  show ?case
  proof (cases "m f")
    case None
    with Cons.prems have "open_fields c key fs (Some m') False = Inr (Some m)"
      by (intro Cons.IH) auto
    moreover have "m' f = None"
      using seal_fields_other [of c key fs "Some m" r "Some m'" r' f] Cons.prems None by simp
    ultimately show ?thesis by simp
  next
    case (Some j)
    with Cons.prems obtain s r1 where enc: "pii_encrypt c key (js_text c j) r = (Inr s, r1)"
      and rest: "seal_fields c key fs (Some (m(f \<mapsto> JStr s))) r1 = (Inr (Some m'), r')"
      by (auto split: sum.splits prod.splits)
    have op: "open_fields c key fs (Some m') False = Inr (Some (m(f \<mapsto> JStr s)))"
      using Cons.prems by (intro Cons.IH [OF rest]) (auto split: if_splits)
    have "m' f = Some (JStr s)"
      using seal_fields_other [OF rest, of f] Cons.prems(2) by simp
    moreover have "pii_decrypt c key s = Inr (js_text c j)"
      by (rule pii_decrypt_encrypt [OF assms(1) enc])
    moreover have "decode_plaintext c (js_text c j) = Some j"
      using Cons.prems(3) [of f j] Some by (simp add: decode_plaintext_def js_ok_def)
    moreover have "open_fields c key fs (Some (m'(f \<mapsto> j))) False = Inr (Some m)"
      using open_fields_frame [of f fs c key m' "Some j" False] Cons.prems(2) op Some
      by (simp add: fun_upd_idem)
    ultimately show ?thesis by simp
  qed
qed simp

section \<open>Sealing and opening events\<close>

text \<open>\<open>sealed c key fs e e'\<close>: \<open>e'\<close> is \<open>e\<close> with the fields \<open>fs\<close> of its payload sealed under \<open>key\<close>.\<close>

definition sealed :: "crypto \<Rightarrow> bytes \<Rightarrow> string list \<Rightarrow> domain_event \<Rightarrow> domain_event \<Rightarrow> bool" where
  "sealed c key fs e e' \<longleftrightarrow> (\<exists>r r'. seal_payload c key fs e r = (None, e', r'))"

text \<open>The fields are distinct members whose text reads back.\<close>

definition sealable :: "crypto \<Rightarrow> string list \<Rightarrow> domain_event \<Rightarrow> bool" where
  "sealable c fs e \<longleftrightarrow> fs \<noteq> [] \<and> distinct fs
     \<and> (\<exists>m. ev_payload e = RawOk (JObj m) \<and> (\<forall>f j. f \<in> set fs \<longrightarrow> m f = Some j \<longrightarrow> js_ok c j))"

lemma seal_payload_ok:
  "seal_payload c key fs e r = (None, e', r') \<Longrightarrow>
   \<exists>m x. unmarshal_map (ev_payload e) = Inr m \<and> seal_fields c key fs m r = (Inr x, r')
     \<and> e' = e\<lparr>ev_payload := RawOk (marshal_map x), ev_pii_fields := RawOk (manifest_json fs)\<rparr>"
  by (auto simp: seal_payload_def split: sum.splits prod.splits)

lemma sealed_frame:
  "sealed c key fs e e' \<Longrightarrow> \<exists>j. e' = e\<lparr>ev_payload := RawOk j, ev_pii_fields := RawOk (manifest_json fs)\<rparr>"
  unfolding sealed_def by (auto dest!: seal_payload_ok)

lemma sealed_payload:
  assumes "sealed c key fs e e'" "ev_payload e = RawOk (JObj m)"
  obtains m' r r' where "seal_fields c key fs (Some m) r = (Inr (Some m'), r')"
    "e' = e\<lparr>ev_payload := RawOk (JObj m'), ev_pii_fields := RawOk (manifest_json fs)\<rparr>"
proof -
  from assms(1) obtain r r' where "seal_payload c key fs e r = (None, e', r')" by (auto simp: sealed_def)
  from seal_payload_ok [OF this] assms(2) obtain x
    where sf: "seal_fields c key fs (Some m) r = (Inr x, r')"
    and e': "e' = e\<lparr>ev_payload := RawOk (marshal_map x), ev_pii_fields := RawOk (manifest_json fs)\<rparr>"
    by auto
  from seal_fields_some [OF sf] obtain m1 where "x = Some m1" by blast
  with sf e' that show thesis by simp
qed

text \<open>Opening with the key it was sealed under restores the payload.\<close>

lemma open_sealed:
  assumes "crypto_ok c" "sealed c key fs e e'" "sealable c fs e" "ev_pii_id e = Some p"
    and "kr_get kr p k = Inr (Some key)"
  shows "pii_open c kr e' k = Inr (e\<lparr>ev_pii_fields := RawOk (manifest_json fs)\<rparr>)"
proof -
  from assms(3) obtain m where m: "ev_payload e = RawOk (JObj m)" "fs \<noteq> []" "distinct fs"
    "\<And>f j. f \<in> set fs \<Longrightarrow> m f = Some j \<Longrightarrow> js_ok c j"
    by (auto simp: sealable_def)
  from sealed_payload [OF assms(2) m(1)] obtain m' r r'
    where sf: "seal_fields c key fs (Some m) r = (Inr (Some m'), r')"
      and e': "e' = e\<lparr>ev_payload := RawOk (JObj m'), ev_pii_fields := RawOk (manifest_json fs)\<rparr>" .
  have "open_fields c key fs (Some m') False = Inr (Some m)"
    by (rule open_seal_fields [OF assms(1) sf m(3,4)])
  moreover have "e\<lparr>ev_pii_fields := x, ev_payload := RawOk (JObj m)\<rparr> = e\<lparr>ev_pii_fields := x\<rparr>" for x
    unfolding m(1) [symmetric] by simp
  ultimately show ?thesis
    using assms(4,5) m(2) by (simp add: pii_open_def e' manifest_roundtrip)
qed

text \<open>Without the key it stays as it is, and is marked.\<close>

lemma open_sealed_forgotten:
  assumes "sealed c key fs e e'" "fs \<noteq> []" "ev_pii_id e = Some p" "kr_get kr p k = Inr None"
  shows "pii_open c kr e' k = Inr (e'\<lparr>ev_pii_unrecoverable := True\<rparr>)"
  using sealed_frame [OF assms(1)] assms(2-4) by (auto simp: pii_open_def manifest_roundtrip)

lemma open_untouched:
  "ev_pii_id e = None \<or> ev_pii_fields e = RawNil \<Longrightarrow> pii_open c kr e k = Inr e"
  by (auto simp: pii_open_def split: option.split)

lemma open_frame:
  assumes "pii_open c kr e k = Inr e'"
  shows "\<exists>p u. e' = e\<lparr>ev_payload := p, ev_pii_unrecoverable := u\<rparr>"
proof -
  have "\<exists>p u. e = e\<lparr>ev_payload := p, ev_pii_unrecoverable := u\<rparr>"
    by (rule exI [of _ "ev_payload e"], rule exI [of _ "ev_pii_unrecoverable e"]) simp
  moreover have "\<exists>p u. e\<lparr>ev_payload := q\<rparr> = e\<lparr>ev_payload := p, ev_pii_unrecoverable := u\<rparr>" for q
    by (rule exI [of _ q], rule exI [of _ "ev_pii_unrecoverable e"]) simp
  moreover have "\<exists>p u. e\<lparr>ev_pii_unrecoverable := v\<rparr> = e\<lparr>ev_payload := p, ev_pii_unrecoverable := u\<rparr>" for v
    by (rule exI [of _ "ev_payload e"], rule exI [of _ v]) simp
  ultimately show ?thesis
    using assms by (auto simp: pii_open_def Let_def split: option.splits if_splits sum.splits)
qed

section \<open>Over any key ring\<close>

context keyring
begin

text \<open>What a successful \<^verbatim>\<open>Seal\<close> of a subject's event did: use the subject's key, or issue one.\<close>

lemma seal_ok:
  assumes "inv k" "pii_seal c kr e (Some buckets) (r, k) = (None, e', r', k')"
    and "ev_pii_id e = Some p" "buckets ''payload'' = fs" "fs \<noteq> []"
  obtains key where "inv k'" "keys k' = (keys k)(p \<mapsto> key)" "sealed c key fs e e'"
    "keys k p = Some key \<or> keys k p = None \<and> length key = 32"
proof (cases "kr_get kr p k")
  case (Inl err)
  with assms show thesis by (simp add: pii_seal_def)
next
  case (Inr v)
  have v: "v = keys k p" using get_key [OF assms(1) Inr] .
  show thesis
  proof (cases v)
    case (Some key)
    with Inr assms obtain r1 where "seal_payload c key fs e r = (None, e', r1)" "k' = k"
      by (auto simp: pii_seal_def split: prod.splits)
    moreover from this Some v have "keys k' = (keys k)(p \<mapsto> key)" by auto
    ultimately show thesis using that [of key] Some v assms(1) by (auto simp: sealed_def)
  next
    case None
    obtain key r1 where rd: "rand_read 32 r = (key, r1)" by force
    with Inr None assms obtain r2 where put: "kr_put kr p key (r1, k) = (None, r2, k')"
      and "seal_payload c key fs e r2 = (None, e', r')"
      by (auto simp: pii_seal_def split: prod.splits option.splits)
    with put_key [OF assms(1) put] that [of key] None v length_rand_read [OF rd]
    show thesis by (auto simp: sealed_def)
  qed
qed

lemma seal_noop:
  "ev_pii_id e = None \<or> src = None \<or> (\<exists>b. src = Some b \<and> b ''payload'' = []) \<Longrightarrow>
   pii_seal c kr e src (r, k) = (None, e, r, k)"
  by (auto simp: pii_seal_def split: option.splits)

end

context reliable_keyring
begin

lemma seal_total:
  assumes "inv k" "ev_pii_id e = Some p" "buckets ''payload'' = fs" "fs \<noteq> []"
    and "ev_payload e = RawOk (JObj m)" "\<forall>key. keys k p = Some key \<longrightarrow> aes_key_ok key"
  obtains e' r' k' where "pii_seal c kr e (Some buckets) (r, k) = (None, e', r', k')"
proof -
  have pay: "\<exists>e' r'. seal_payload c key fs e q = (None, e', r')" if "aes_key_ok key" for key q
    using seal_fields_total [OF that, of c fs "Some m" q] assms(5) by (auto simp: seal_payload_def)
  show thesis
  proof (cases "keys k p")
    case (Some key)
    then have "aes_key_ok key" using assms(6) by blast
    with Some pay [of key r] get_eq [OF assms(1), of p] assms that show thesis
      by (auto simp: pii_seal_def)
  next
    case None
    obtain key r1 where rd: "rand_read 32 r = (key, r1)" by force
    then have "aes_key_ok key" using length_rand_read by (simp add: aes_key_ok_def)
    obtain r2 k2 where "kr_put kr p key (r1, k) = (None, r2, k2)" by (rule put_total [OF assms(1)])
    with pay [OF \<open>aes_key_ok key\<close>, of r2] get_eq [OF assms(1), of p] None assms rd that show thesis
      by (auto simp: pii_seal_def)
  qed
qed

text \<open>Seal, open, forget: the life of one subject's event.\<close>

lemma seal_open_forget:
  assumes "crypto_ok c" "inv k" "ev_pii_id e = Some p" "buckets ''payload'' = fs" "sealable c fs e"
    and "\<forall>key. keys k p = Some key \<longrightarrow> aes_key_ok key"
  shows "\<exists>e' r' k' k'' key. pii_seal c kr e (Some buckets) (r, k) = (None, e', r', k')
    \<and> sealed c key fs e e'
    \<and> pii_open c kr e' k' = Inr (e\<lparr>ev_pii_fields := RawOk (manifest_json fs)\<rparr>)
    \<and> pii_forget kr p k' = (None, k'')
    \<and> pii_open c kr e' k'' = Inr (e'\<lparr>ev_pii_unrecoverable := True\<rparr>)
    \<and> (\<forall>q. q \<noteq> p \<longrightarrow> kr_get kr q k'' = kr_get kr q k)"
proof -
  from assms(5) obtain m where fs: "fs \<noteq> []" and m: "ev_payload e = RawOk (JObj m)"
    by (auto simp: sealable_def)
  obtain e' r' k' where seal: "pii_seal c kr e (Some buckets) (r, k) = (None, e', r', k')"
    by (rule seal_total [of k e p buckets fs m c r, OF assms(2,3,4) fs m assms(6)])
  from seal_ok [OF assms(2) seal assms(3,4) fs] obtain key
    where k': "inv k'" "keys k' = (keys k)(p \<mapsto> key)" and sl: "sealed c key fs e e'" .
  have "kr_get kr p k' = Inr (Some key)" using get_eq [OF k'(1), of p] k'(2) by simp
  from open_sealed [OF assms(1) sl assms(5,3) this]
  have op: "pii_open c kr e' k' = Inr (e\<lparr>ev_pii_fields := RawOk (manifest_json fs)\<rparr>)" .
  obtain k'' where k'': "kr_forget kr p k' = (None, k'')" "inv k''" "keys k'' = (keys k')(p := None)"
    by (rule forget_total [OF k'(1)])
  have "kr_get kr p k'' = Inr None" using get_eq [OF k''(2), of p] k''(3) by simp
  from open_sealed_forgotten [OF sl fs assms(3) this]
  have "pii_open c kr e' k'' = Inr (e'\<lparr>ev_pii_unrecoverable := True\<rparr>)" .
  moreover have "kr_get kr q k'' = kr_get kr q k" if "q \<noteq> p" for q
    using get_eq [OF k''(2), of q] get_eq [OF assms(2), of q] k''(3) k'(2) that by simp
  ultimately show ?thesis using seal sl op k''(1) by (auto simp: pii_forget_def)
qed

end

section \<open>A concrete instance\<close>

text \<open>
  Primitives on which the theorems are instantiated: a cipher that carries its key as the tag, and
  the text of JSON strings only. They satisfy \<open>crypto_ok\<close>; nothing else is claimed of them.
\<close>

definition toy_crypto :: crypto where
  "toy_crypto = \<lparr>
     cr_seal = (\<lambda>key nonce pt aad. key @ pt),
     cr_open = (\<lambda>key nonce ct aad.
        if take (length key) ct = key then Inr (drop (length key) ct)
        else Inl (ErrText ''cipher: message authentication failed'')),
     cr_sha256 = (\<lambda>bs. take 32 (rev bs @ replicate 32 0)),
     js_text = (\<lambda>j. case j of JStr s \<Rightarrow> 0 # map (\<lambda>ch. of_nat (of_char ch)) s | _ \<Rightarrow> [1]),
     js_parse = (\<lambda>bs. case bs of [] \<Rightarrow> None | b # r \<Rightarrow> if b = 0 then Some (JStr (map (char_of \<circ> unat) r)) else None) \<rparr>"

lemma toy_char: "char_of (unat (of_nat (of_char ch) :: byte)) = ch"
  by (simp add: unat_of_nat)

lemma toy_crypto_ok: "crypto_ok toy_crypto"
  by (simp add: crypto_ok_def toy_crypto_def js_ok_def toy_char comp_def)

text \<open>
  C12. On the in-memory key ring an event sealed under \<^verbatim>\<open>Seal\<close> opens to its original payload, and once
  \<^verbatim>\<open>Forget\<close> has destroyed the subject's key \<^verbatim>\<open>Open\<close> still succeeds but returns the ciphertext, marked
  unrecoverable; no other subject's key is touched.
\<close>

theorem seal_open_forget_mem:
  assumes "crypto_ok c" "mem_keyring_inv k" "ev_pii_id e = Some p" "buckets ''payload'' = fs"
    and "sealable c fs e" "\<forall>key. map_of k p = Some key \<longrightarrow> aes_key_ok key"
  shows "\<exists>e' r' k' k'' key. pii_seal c (mem_keyring_ops order) e (Some buckets) (r, k) = (None, e', r', k')
    \<and> sealed c key fs e e'
    \<and> pii_open c (mem_keyring_ops order) e' k' = Inr (e\<lparr>ev_pii_fields := RawOk (manifest_json fs)\<rparr>)
    \<and> pii_forget (mem_keyring_ops order) p k' = (None, k'')
    \<and> pii_open c (mem_keyring_ops order) e' k'' = Inr (e'\<lparr>ev_pii_unrecoverable := True\<rparr>)
    \<and> (\<forall>q. q \<noteq> p \<longrightarrow> mem_kr_get q k'' = mem_kr_get q k)"
  using mem_ring.seal_open_forget [of c k e p buckets fs order r] assms by simp

definition sample_pii_event :: "uuid \<Rightarrow> domain_event" where
  "sample_pii_event p = (sample_event 0 7 1)\<lparr>ev_pii_id := Some p,
     ev_payload := RawOk (JObj [''email'' \<mapsto> JStr ''a@b''])\<rparr>"

lemma sample_pii_sealable: "sealable toy_crypto [''email''] (sample_pii_event p)"
  using toy_crypto_ok by (auto simp: sealable_def sample_pii_event_def crypto_ok_def split: if_splits)

theorem seal_open_forget_mem_witness:
  "\<exists>e' k'. e' \<noteq> sample_pii_event 3 \<and> pii_open toy_crypto (mem_keyring_ops id) e' k'
     = Inr ((sample_pii_event 3)\<lparr>ev_pii_fields := RawOk (manifest_json [''email''])\<rparr>)"
proof -
  let ?b = "(\<lambda>_. [])(''payload'' := [''email''])"
  have "ev_pii_id (sample_pii_event 3) = Some 3" by (simp add: sample_pii_event_def)
  from seal_open_forget_mem [OF toy_crypto_ok mem_keyring_inv_new this _ sample_pii_sealable,
      where buckets = ?b and order = id and r = "\<lambda>_. 0"]
  obtain e' k' key where "sealed toy_crypto key [''email''] (sample_pii_event 3) e'"
    "pii_open toy_crypto (mem_keyring_ops id) e' k'
      = Inr ((sample_pii_event 3)\<lparr>ev_pii_fields := RawOk (manifest_json [''email''])\<rparr>)"
    by (auto simp: mem_keyring_new_def)
  moreover from sealed_frame [OF this(1)] have "e' \<noteq> sample_pii_event 3"
    by (auto simp: sample_pii_event_def sample_event_def zero_event_def)
  ultimately show ?thesis by blast
qed

end
