(* ===== verification/Es_Wrapped_Keyring.thy ===== *)
theory Es_Wrapped_Keyring
  imports Es_Pii "HOL-Library.Multiset"
begin

text \<open>
  \<^verbatim>\<open>es/wrapped_keyring.go\<close>: the key ring decorator that wraps every key under a key-encryption key, its
  blob framing, the AES-GCM wrapper, and \<^verbatim>\<open>Rotate\<close>. A label is kept as its bytes. The locale
  \<open>wrapped_ring\<close> shows that wrapping a reliable ring gives a reliable ring that holds the same keys.
\<close>

section \<open>Framing\<close>

definition encode_wrapped :: "bytes \<Rightarrow> bytes \<Rightarrow> bytes" where
  "encode_wrapped label blob = be_bytes 2 (of_nat (length label) :: 16 word) @ label @ blob"

definition decode_wrapped :: "bytes \<Rightarrow> error + bytes \<times> bytes" where
  "decode_wrapped b =
     (if length b < 2 then Inl (ErrText ''es: wrapped keyring: blob too short'')
      else let n = be_uint16 (b ! 0) (b ! 1)
           in if length b - 2 < n then Inl (ErrText ''es: wrapped keyring: corrupt label length'')
              else Inr (take n (drop 2 b), drop (2 + n) b))"

lemma decode_encode_label:
  assumes "decode_wrapped (encode_wrapped label blob) = Inr (l, bl)"
  shows "length l = length label mod 65536"
proof -
  let ?w = "of_nat (length label) :: 16 word"
  have "length (be_bytes 2 ?w) = 2" by simp
  then obtain hi lo where hl: "be_bytes 2 ?w = [hi, lo]"
    by (cases "be_bytes 2 ?w"; cases "tl (be_bytes 2 ?w)") auto
  from be_uint16_be_bytes [OF hl] have "be_uint16 hi lo = length label mod 65536"
    by (simp add: unat_of_nat)
  with assms show ?thesis
    by (auto simp: decode_wrapped_def encode_wrapped_def hl Let_def min_def split: if_splits)
qed

lemma decode_encode_wrapped:
  assumes "length label < 65536"
  shows "decode_wrapped (encode_wrapped label blob) = Inr (label, blob)"
proof -
  let ?w = "of_nat (length label) :: 16 word"
  have "length (be_bytes 2 ?w) = 2" by simp
  then obtain hi lo where hl: "be_bytes 2 ?w = [hi, lo]"
    by (cases "be_bytes 2 ?w"; cases "tl (be_bytes 2 ?w)") auto
  from be_uint16_be_bytes [OF hl] have "be_uint16 hi lo = length label"
    using assms by (simp add: unat_of_nat)
  then show ?thesis by (simp add: decode_wrapped_def encode_wrapped_def hl)
qed

text \<open>
  The framing of a wrapped key reads back to the label and the blob it was written from exactly when
  the label is shorter than 65536 bytes; the length prefix of a longer one wraps around and the
  stored key is lost.
\<close>

lemma wrapped_blob_roundtrip:
  "decode_wrapped (encode_wrapped label blob) = Inr (label, blob) \<longleftrightarrow> length label < 65536"
proof
  assume "decode_wrapped (encode_wrapped label blob) = Inr (label, blob)"
  from decode_encode_label [OF this] have "length label = length label mod 65536" .
  moreover have "length label mod 65536 < 65536" by simp
  ultimately show "length label < 65536" by linarith
qed (rule decode_encode_wrapped)

section \<open>Wrappers\<close>

record key_wrapper =
  kw_wrap :: "bytes \<Rightarrow> rng \<Rightarrow> (error + bytes) \<times> rng"
  kw_unwrap :: "bytes \<Rightarrow> error + bytes"
  kw_label :: bytes

definition aes_wrap :: "crypto \<Rightarrow> bytes \<Rightarrow> bytes \<Rightarrow> bytes \<Rightarrow> rng \<Rightarrow> (error + bytes) \<times> rng" where
  "aes_wrap c master label key r =
     (let (nonce, r') = rand_read nonce_size r in (Inr (nonce @ cr_seal c master nonce key label), r'))"

definition aes_unwrap :: "crypto \<Rightarrow> bytes \<Rightarrow> bytes \<Rightarrow> bytes \<Rightarrow> error + bytes" where
  "aes_unwrap c master label wrapped =
     (if length wrapped < nonce_size then Inl (ErrText ''es: aes wrapper: wrapped blob too short'')
      else case cr_open c master (take nonce_size wrapped) (drop nonce_size wrapped) label of
             Inl err \<Rightarrow> Inl (ErrWrap ''es: aes wrapper: open'' err)
           | Inr key \<Rightarrow> Inr key)"

text \<open>\<^verbatim>\<open>hex.EncodeToString\<close>, as bytes, and the bytes of \<^verbatim>\<open>"aes:"\<close>.\<close>

definition hex_digit :: "nat \<Rightarrow> byte" where
  "hex_digit n = of_nat (if n < 10 then 48 + n else 87 + n)"

definition hex_encode :: "bytes \<Rightarrow> bytes" where
  "hex_encode bs = concat (map (\<lambda>b. [hex_digit (unat b div 16), hex_digit (unat b mod 16)]) bs)"

definition new_aes_gcm_wrapper :: "crypto \<Rightarrow> bytes \<Rightarrow> bytes \<Rightarrow> error + key_wrapper" where
  "new_aes_gcm_wrapper c master label0 =
     (if \<not> aes_key_ok master
      then Inl (ErrText ''es: aes wrapper: master key must be 16, 24 or 32 bytes'')
      else let label = (if label0 = [] then [97, 101, 115, 58] @ hex_encode (take 4 (cr_sha256 c master)) else label0)
           in Inr \<lparr>kw_wrap = aes_wrap c master label, kw_unwrap = aes_unwrap c master label, kw_label = label\<rparr>)"

text \<open>What a ring needs of its wrapper: wrapping succeeds and can be undone, and the label fits the frame.\<close>

definition wrapper_ok :: "key_wrapper \<Rightarrow> bool" where
  "wrapper_ok w \<longleftrightarrow> length (kw_label w) < 65536
     \<and> (\<forall>key r. \<exists>blob r'. kw_wrap w key r = (Inr blob, r') \<and> kw_unwrap w blob = Inr key)"

lemma aes_unwrap_wrap:
  assumes "crypto_ok c" "aes_key_ok master"
  shows "\<exists>blob r'. aes_wrap c master label key r = (Inr blob, r') \<and> aes_unwrap c master label blob = Inr key"
proof -
  obtain nonce r' where rd: "rand_read nonce_size r = (nonce, r')" by force
  with length_rand_read [OF rd] crypto_open_seal [OF assms, of nonce key label] show ?thesis
    by (simp add: aes_wrap_def aes_unwrap_def)
qed

lemma aes_wrapper_ok:
  assumes "crypto_ok c" "new_aes_gcm_wrapper c master label = Inr w" "length label < 65536"
  shows "wrapper_ok w"
proof -
  have key: "aes_key_ok master" using assms(2) by (simp add: new_aes_gcm_wrapper_def split: if_splits)
  have "length (hex_encode (take 4 bs)) \<le> 8" for bs
  proof -
    have "length (hex_encode cs) = 2 * length cs" for cs
      by (induction cs) (simp_all add: hex_encode_def)
    then show ?thesis by simp
  qed
  note short = this
  have "length (kw_label w) < 65536"
    using assms(2,3) le_less_trans [OF short [of "cr_sha256 c master"], of 65532]
    by (auto simp: new_aes_gcm_wrapper_def Let_def split: if_splits)
  moreover have "\<exists>blob r'. kw_wrap w k r = (Inr blob, r') \<and> kw_unwrap w blob = Inr k" for k r
    using assms(2) aes_unwrap_wrap [OF assms(1) key]
    by (auto simp: new_aes_gcm_wrapper_def Let_def split: if_splits)
  ultimately show ?thesis by (simp add: wrapper_ok_def)
qed

section \<open>WrappedKeyRing\<close>

record 'k wrapped_keyring =
  wr_keys :: 'k
  wr_wrapper :: key_wrapper

definition wr_get :: "'k keyring_ops \<Rightarrow> uuid \<Rightarrow> 'k wrapped_keyring \<Rightarrow> error + slice" where
  "wr_get kr p w =
     (case kr_get kr p (wr_keys w) of
        Inl err \<Rightarrow> Inl (ErrWrap ''es: wrapped keyring: get wrapped key'' err)
      | Inr None \<Rightarrow> Inr None
      | Inr (Some wrapped) \<Rightarrow>
          (case decode_wrapped wrapped of
             Inl err \<Rightarrow> Inl (ErrWrap ''es: wrapped keyring: decode stored blob'' err)
           | Inr (label, blob) \<Rightarrow>
               if label \<noteq> kw_label (wr_wrapper w)
               then Inl (ErrText ''es: wrapped keyring: stored key was wrapped with another wrapper'')
               else case kw_unwrap (wr_wrapper w) blob of
                      Inl err \<Rightarrow> Inl (ErrWrap ''es: wrapped keyring: unwrap key'' err)
                    | Inr key \<Rightarrow> Inr (Some key)))"

definition wr_put :: "'k keyring_ops \<Rightarrow> uuid \<Rightarrow> bytes \<Rightarrow> rng \<times> 'k wrapped_keyring \<Rightarrow>
    error option \<times> rng \<times> 'k wrapped_keyring" where
  "wr_put kr p key rw =
     (case rw of (r, w) \<Rightarrow>
      case kw_wrap (wr_wrapper w) key r of
        (Inl err, r1) \<Rightarrow> (Some (ErrWrap ''es: wrapped keyring: wrap key'' err), r1, w)
      | (Inr wrapped, r1) \<Rightarrow>
          (case kr_put kr p (encode_wrapped (kw_label (wr_wrapper w)) wrapped) (r1, wr_keys w) of
             (Some err, r2, k) \<Rightarrow>
               (Some (ErrWrap ''es: wrapped keyring: store wrapped key'' err), r2, w\<lparr>wr_keys := k\<rparr>)
           | (None, r2, k) \<Rightarrow> (None, r2, w\<lparr>wr_keys := k\<rparr>)))"

definition wr_forget :: "'k keyring_ops \<Rightarrow> uuid \<Rightarrow> 'k wrapped_keyring \<Rightarrow> error option \<times> 'k wrapped_keyring" where
  "wr_forget kr p w =
     (case kr_forget kr p (wr_keys w) of
        (Some err, k) \<Rightarrow> (Some (ErrWrap ''es: wrapped keyring: forget key'' err), w\<lparr>wr_keys := k\<rparr>)
      | (None, k) \<Rightarrow> (None, w\<lparr>wr_keys := k\<rparr>))"

text \<open>\<^verbatim>\<open>WrappedKeyRing\<close> has no \<^verbatim>\<open>Subjects\<close>.\<close>

definition wrapped_ops :: "'k keyring_ops \<Rightarrow> 'k wrapped_keyring keyring_ops" where
  "wrapped_ops kr = \<lparr> kr_get = wr_get kr, kr_put = wr_put kr, kr_forget = wr_forget kr,
     kr_subjects = None \<rparr>"

lemma wrapped_ops_sel [simp, store_simps]:
  "kr_get (wrapped_ops kr) = wr_get kr"
  "kr_put (wrapped_ops kr) = wr_put kr"
  "kr_forget (wrapped_ops kr) = wr_forget kr"
  "kr_subjects (wrapped_ops kr) = None"
  by (simp_all add: wrapped_ops_def)

text \<open>The loop of \<^verbatim>\<open>Rotate\<close>. A subject that is listed but has no blob is decoded as an empty slice.\<close>

fun rotate_loop :: "'k keyring_ops \<Rightarrow> key_wrapper \<Rightarrow> key_wrapper \<Rightarrow> uuid list \<Rightarrow> rng \<times> 'k \<Rightarrow>
    error option \<times> rng \<times> 'k" where
  "rotate_loop kr old new [] (r, k) = (None, r, k)"
| "rotate_loop kr old new (p # ps) (r, k) =
     (case kr_get kr p k of
        Inl err \<Rightarrow> (Some (ErrWrap ''es: wrapped keyring: rotation: get wrapped key'' err), r, k)
      | Inr wrapped \<Rightarrow>
          (case decode_wrapped (case wrapped of None \<Rightarrow> [] | Some b \<Rightarrow> b) of
             Inl err \<Rightarrow> (Some (ErrWrap ''es: wrapped keyring: rotation: decode stored blob'' err), r, k)
           | Inr (label, blob) \<Rightarrow>
               if label \<noteq> kw_label old
               then (Some (ErrText ''es: wrapped keyring: rotation: stored key was wrapped with another wrapper''), r, k)
               else case kw_unwrap old blob of
                      Inl err \<Rightarrow> (Some (ErrWrap ''es: wrapped keyring: rotation: unwrap key'' err), r, k)
                    | Inr key \<Rightarrow>
                        (case kw_wrap new key r of
                           (Inl err, r1) \<Rightarrow> (Some (ErrWrap ''es: wrapped keyring: rotation: re-wrap key'' err), r1, k)
                         | (Inr re, r1) \<Rightarrow>
                             (case kr_put kr p (encode_wrapped (kw_label new) re) (r1, k) of
                                (Some err, r2, k2) \<Rightarrow>
                                  (Some (ErrWrap ''es: wrapped keyring: rotation: store re-wrapped key'' err), r2, k2)
                              | (None, r2, k2) \<Rightarrow> rotate_loop kr old new ps (r2, k2)))))"

definition wr_rotate :: "'k keyring_ops \<Rightarrow> key_wrapper \<Rightarrow> rng \<times> 'k wrapped_keyring \<Rightarrow>
    error option \<times> rng \<times> 'k wrapped_keyring" where
  "wr_rotate kr new rw =
     (case rw of (r, w) \<Rightarrow>
      case kr_subjects kr of
        None \<Rightarrow> (Some ErrNoKeyLister, r, w)
      | Some subjects \<Rightarrow>
          (case subjects (wr_keys w) of
             Inl err \<Rightarrow> (Some (ErrWrap ''es: wrapped keyring: list subjects'' err), r, w)
           | Inr ps \<Rightarrow>
               (case rotate_loop kr (wr_wrapper w) new ps (r, wr_keys w) of
                  (Some err, r', k') \<Rightarrow> (Some err, r', w\<lparr>wr_keys := k'\<rparr>)
                | (None, r', k') \<Rightarrow> (None, r', w\<lparr>wr_keys := k', wr_wrapper := new\<rparr>))))"

section \<open>A wrapped reliable ring is a reliable ring\<close>

text \<open>The key a stored blob stands for under a wrapper.\<close>

definition unwrapped :: "key_wrapper \<Rightarrow> bytes \<Rightarrow> bytes option" where
  "unwrapped w b =
     (case decode_wrapped b of
        Inr (label, blob) \<Rightarrow>
          if label = kw_label w then (case kw_unwrap w blob of Inr key \<Rightarrow> Some key | Inl _ \<Rightarrow> None) else None
      | Inl _ \<Rightarrow> None)"

lemma unwrapped_encode:
  "wrapper_ok w \<Longrightarrow> kw_unwrap w blob = Inr key \<Longrightarrow> unwrapped w (encode_wrapped (kw_label w) blob) = Some key"
  by (simp add: unwrapped_def wrapper_ok_def decode_encode_wrapped)

lemma unwrapped_cases:
  assumes "unwrapped w b = Some key"
  obtains blob where "decode_wrapped b = Inr (kw_label w, blob)" "kw_unwrap w blob = Inr key"
  using assms by (auto simp: unwrapped_def split: sum.splits if_splits)

text \<open>What a wrapped ring holds, and when its blobs can be read back, over the underlying ring's view.\<close>

definition wr_abs :: "('k \<Rightarrow> uuid \<Rightarrow> bytes option) \<Rightarrow> 'k wrapped_keyring \<Rightarrow> uuid \<Rightarrow> bytes option" where
  "wr_abs keys w p = (case keys (wr_keys w) p of None \<Rightarrow> None | Some b \<Rightarrow> unwrapped (wr_wrapper w) b)"

definition wr_inv :: "('k \<Rightarrow> bool) \<Rightarrow> ('k \<Rightarrow> uuid \<Rightarrow> bytes option) \<Rightarrow> 'k wrapped_keyring \<Rightarrow> bool" where
  "wr_inv ok keys w \<longleftrightarrow> ok (wr_keys w) \<and> wrapper_ok (wr_wrapper w)
     \<and> (\<forall>p b. keys (wr_keys w) p = Some b \<longrightarrow> unwrapped (wr_wrapper w) b \<noteq> None)"

locale wrapped_ring = base: reliable_keyring kr inv keys
  for kr :: "'k keyring_ops" and inv :: "'k \<Rightarrow> bool" and keys :: "'k \<Rightarrow> uuid \<Rightarrow> bytes option"
begin

lemma wr_get_eq:
  assumes "wr_inv inv keys w"
  shows "wr_get kr p w = Inr (wr_abs keys w p)"
proof -
  have get: "kr_get kr p (wr_keys w) = Inr (keys (wr_keys w) p)"
    using assms base.get_eq by (simp add: wr_inv_def)
  show ?thesis
  proof (cases "keys (wr_keys w) p")
    case None
    then show ?thesis by (simp add: wr_get_def wr_abs_def get)
  next
    case (Some b)
    with assms obtain key where key: "unwrapped (wr_wrapper w) b = Some key"
      unfolding wr_inv_def by blast
    then show ?thesis
      by (cases rule: unwrapped_cases) (simp add: wr_get_def wr_abs_def get Some key)
  qed
qed

lemma wr_put_eq:
  assumes "wr_inv inv keys w"
  obtains r' w' where "wr_put kr p key (r, w) = (None, r', w')" "wr_inv inv keys w'"
    "wr_abs keys w' = (wr_abs keys w)(p \<mapsto> key)" "wr_wrapper w' = wr_wrapper w"
proof -
  have ok: "wrapper_ok (wr_wrapper w)" and inv: "inv (wr_keys w)"
    using assms by (simp_all add: wr_inv_def)
  from ok obtain blob r1 where bl: "kw_wrap (wr_wrapper w) key r = (Inr blob, r1)"
    "kw_unwrap (wr_wrapper w) blob = Inr key"
    by (auto simp: wrapper_ok_def) (meson ok wrapper_ok_def)
  let ?b = "encode_wrapped (kw_label (wr_wrapper w)) blob"
  obtain r2 k where put: "kr_put kr p ?b (r1, wr_keys w) = (None, r2, k)" "inv k"
    "keys k = (keys (wr_keys w))(p \<mapsto> ?b)"
    by (rule base.put_total [OF inv])
  let ?w = "w\<lparr>wr_keys := k\<rparr>"
  have "wr_put kr p key (r, w) = (None, r2, ?w)" by (simp add: wr_put_def bl put)
  moreover have "wr_inv inv keys ?w"
    using assms put bl unwrapped_encode [OF ok bl(2)] by (simp add: wr_inv_def)
  moreover have "wr_abs keys ?w = (wr_abs keys w)(p \<mapsto> key)"
    using put unwrapped_encode [OF ok bl(2)] by (auto simp: fun_eq_iff wr_abs_def split: option.split)
  ultimately show thesis using that by simp
qed

lemma wr_forget_eq:
  assumes "wr_inv inv keys w"
  obtains w' where "wr_forget kr p w = (None, w')" "wr_inv inv keys w'" "wr_abs keys w' = (wr_abs keys w)(p := None)"
proof -
  have inv: "inv (wr_keys w)" using assms by (simp add: wr_inv_def)
  obtain k where f: "kr_forget kr p (wr_keys w) = (None, k)" "inv k" "keys k = (keys (wr_keys w))(p := None)"
    by (rule base.forget_total [OF inv])
  let ?w = "w\<lparr>wr_keys := k\<rparr>"
  have "wr_forget kr p w = (None, ?w)" by (simp add: wr_forget_def f)
  moreover have "wr_inv inv keys ?w" using assms f by (simp add: wr_inv_def)
  moreover have "wr_abs keys ?w = (wr_abs keys w)(p := None)" using f by (auto simp: fun_eq_iff wr_abs_def split: option.split)
  ultimately show thesis using that by blast
qed

end

sublocale wrapped_ring \<subseteq> wrapped: reliable_keyring "wrapped_ops kr" "wr_inv inv keys" "wr_abs keys"
proof unfold_locales
  fix w p v assume "wr_inv inv keys w" "kr_get (wrapped_ops kr) p w = Inr v"
  then show "v = wr_abs keys w p" by (simp add: wr_get_eq)
next
  fix w p b r r' w'
  assume "wr_inv inv keys w" "kr_put (wrapped_ops kr) p b (r, w) = (None, r', w')"
  then show "wr_inv inv keys w' \<and> wr_abs keys w' = (wr_abs keys w)(p \<mapsto> b)"
    using wr_put_eq [of w p b r] by auto
next
  fix w p w'
  assume "wr_inv inv keys w" "kr_forget (wrapped_ops kr) p w = (None, w')"
  then show "wr_inv inv keys w' \<and> wr_abs keys w' = (wr_abs keys w)(p := None)"
    using wr_forget_eq [of w p] by auto
next
  fix w p b and r :: rng
  assume w: "wr_inv inv keys w"
  show "\<exists>v. kr_get (wrapped_ops kr) p w = Inr v" using w by (simp add: wr_get_eq)
  show "fst (kr_put (wrapped_ops kr) p b (r, w)) = None"
    using wr_put_eq [OF w, of p b r] by (metis fst_conv wrapped_ops_sel(2))
  show "fst (kr_forget (wrapped_ops kr) p w) = None"
    using wr_forget_eq [OF w, of p] by (metis fst_conv wrapped_ops_sel(3))
qed

interpretation mem_wrapped: wrapped_ring "mem_keyring_ops order" mem_keyring_inv map_of for order
  by unfold_locales

section \<open>Rotation\<close>

text \<open>Rings that list their subjects, in whatever order.\<close>

locale listing_keyring = reliable_keyring +
  fixes subjects :: "'a \<Rightarrow> error + uuid list"
  assumes lists: "kr_subjects kr = Some subjects"
    and subjects_dom: "inv k \<Longrightarrow> \<exists>ps. subjects k = Inr ps \<and> distinct ps \<and> set ps = dom (keys k)"
begin

text \<open>The loop re-wraps the listed subjects and leaves the others alone.\<close>

lemma rotate_loop_ok:
  assumes "inv k" "wrapper_ok new" "distinct ps"
    and "\<And>p. p \<in> set ps \<Longrightarrow> \<exists>b key. keys k p = Some b \<and> unwrapped old b = Some key"
  shows "\<exists>r' k'. rotate_loop kr old new ps (r, k) = (None, r', k') \<and> inv k'
    \<and> (\<forall>q. q \<notin> set ps \<longrightarrow> keys k' q = keys k q)
    \<and> (\<forall>q \<in> set ps. \<exists>b b'. keys k q = Some b \<and> keys k' q = Some b' \<and> unwrapped new b' = unwrapped old b)"
  using assms(1,3,4)
proof (induction ps arbitrary: r k)
  case (Cons p ps)
  from Cons.prems(3) [of p] obtain b key where b: "keys k p = Some b" "unwrapped old b = Some key" by auto
  from unwrapped_cases [OF b(2)] obtain blob where bl: "decode_wrapped b = Inr (kw_label old, blob)"
    "kw_unwrap old blob = Inr key" .
  from assms(2) obtain re r1 where re: "kw_wrap new key r = (Inr re, r1)" "kw_unwrap new re = Inr key"
    unfolding wrapper_ok_def by blast
  let ?b = "encode_wrapped (kw_label new) re"
  obtain r2 k2 where put: "kr_put kr p ?b (r1, k) = (None, r2, k2)" "inv k2" "keys k2 = (keys k)(p \<mapsto> ?b)"
    by (rule put_total [OF Cons.prems(1)])
  have get: "kr_get kr p k = Inr (Some b)" using get_eq [OF Cons.prems(1), of p] b by simp
  have step: "rotate_loop kr old new (p # ps) (r, k) = rotate_loop kr old new ps (r2, k2)"
    by (simp add: get bl re put)
  have "\<exists>b key. keys k2 q = Some b \<and> unwrapped old b = Some key" if "q \<in> set ps" for q
    using Cons.prems(2) Cons.prems(3) [of q] that put(3) by auto
  from Cons.IH [OF put(2) _ this, of r2] Cons.prems(2) obtain r' k'
    where ih: "rotate_loop kr old new ps (r2, k2) = (None, r', k')" "inv k'"
      "\<forall>q. q \<notin> set ps \<longrightarrow> keys k' q = keys k2 q"
      "\<forall>q \<in> set ps. \<exists>b b'. keys k2 q = Some b \<and> keys k' q = Some b' \<and> unwrapped new b' = unwrapped old b"
    by auto
  have "keys k' p = Some ?b" using ih(3) Cons.prems(2) put(3) by simp
  moreover have "unwrapped new ?b = unwrapped old b"
    using unwrapped_encode [OF assms(2) re(2)] b(2) by simp
  moreover have "\<exists>b b'. keys k q = Some b \<and> keys k' q = Some b' \<and> unwrapped new b' = unwrapped old b"
    if "q \<in> set ps" for q
    using bspec [OF ih(4) that] put(3) Cons.prems(2) that by (cases "q = p") auto
  ultimately have "\<forall>q \<in> set (p # ps). \<exists>b b'. keys k q = Some b \<and> keys k' q = Some b'
      \<and> unwrapped new b' = unwrapped old b"
    using b(1) by auto
  moreover have "\<forall>q. q \<notin> set (p # ps) \<longrightarrow> keys k' q = keys k q" using ih(3) put(3) by auto
  ultimately show ?case using step ih(1,2) by auto
qed simp

lemma rotate_ok:
  assumes "wr_inv inv keys w" "wrapper_ok new"
  shows "\<exists>r' w'. wr_rotate kr new (r, w) = (None, r', w') \<and> wr_inv inv keys w'
    \<and> wr_abs keys w' = wr_abs keys w \<and> wr_wrapper w' = new"
proof -
  have inv: "inv (wr_keys w)" using assms(1) by (simp add: wr_inv_def)
  from subjects_dom [OF inv] obtain ps where ps: "subjects (wr_keys w) = Inr ps" "distinct ps"
    "set ps = dom (keys (wr_keys w))" by blast
  have "\<exists>b key. keys (wr_keys w) p = Some b \<and> unwrapped (wr_wrapper w) b = Some key" if "p \<in> set ps" for p
    using that ps(3) assms(1) by (auto simp: wr_inv_def)
  from rotate_loop_ok [OF inv assms(2) ps(2) this, of r] obtain r' k'
    where rot: "rotate_loop kr (wr_wrapper w) new ps (r, wr_keys w) = (None, r', k')" "inv k'"
      and other: "\<And>q. q \<notin> set ps \<Longrightarrow> keys k' q = keys (wr_keys w) q"
      and same: "\<And>q. q \<in> set ps \<Longrightarrow> \<exists>b b'. keys (wr_keys w) q = Some b \<and> keys k' q = Some b'
        \<and> unwrapped new b' = unwrapped (wr_wrapper w) b" by blast
  let ?w = "w\<lparr>wr_keys := k', wr_wrapper := new\<rparr>"
  have none: "keys k' q = None" if "q \<notin> set ps" for q
    using other [OF that] that ps(3) by auto
  have abs: "wr_abs keys ?w q = wr_abs keys w q" for q
    using same [of q] none [of q] other [of q] by (cases "q \<in> set ps") (auto simp: wr_abs_def)
  have "unwrapped new b \<noteq> None" if "keys k' q = Some b" for q b
    using same [of q] none [of q] that assms(1) by (cases "q \<in> set ps") (force simp: wr_inv_def)+
  then have "wr_inv inv keys ?w" using rot(2) assms(2) by (simp add: wr_inv_def)
  with abs rot ps show ?thesis by (auto simp: wr_rotate_def lists fun_eq_iff)
qed

text \<open>A blob that is already labelled for the new wrapper stops the loop, whatever it did before.\<close>

lemma rotate_loop_stuck:
  assumes "inv k" "p \<in> set ps" "keys k p = Some (encode_wrapped (kw_label new) blob)"
    and "kw_label new \<noteq> kw_label old" "length (kw_label new) < 65536"
  shows "fst (rotate_loop kr old new ps (r, k)) \<noteq> None"
  using assms(1-3)
proof (induction ps arbitrary: r k)
  case (Cons q ps)
  show ?case
  proof (cases "q = p")
    case True
    then show ?thesis
      using get_eq [OF Cons.prems(1), of p] Cons.prems(3) assms(4,5)
      by (simp add: decode_encode_wrapped)
  next
    case False
    have step: "fst (rotate_loop kr old new ps (r2, k2)) \<noteq> None"
      if "kr_put kr q b (r1, k) = (None, r2, k2)" for b r1 r2 k2
      using put_key [OF Cons.prems(1) that] Cons.prems(2,3) False by (intro Cons.IH) auto
    show ?thesis by (auto split: sum.split option.split prod.split dest!: step)
  qed
qed simp

lemma rotate_stuck:
  assumes "inv (wr_keys w)" "keys (wr_keys w) p = Some (encode_wrapped (kw_label new) blob)"
    and "kw_label new \<noteq> kw_label (wr_wrapper w)" "length (kw_label new) < 65536"
  shows "\<exists>err r' w'. wr_rotate kr new (r, w) = (Some err, r', w') \<and> wr_wrapper w' = wr_wrapper w"
proof -
  from subjects_dom [OF assms(1)] obtain ps where ps: "subjects (wr_keys w) = Inr ps"
    "set ps = dom (keys (wr_keys w))" by blast
  then have "p \<in> set ps" using assms(2) by auto
  from rotate_loop_stuck [OF assms(1) this assms(2-4), of r] ps(1) show ?thesis
    by (auto simp: wr_rotate_def lists split: prod.split)
qed

end

text \<open>A map is ranged over in some order: each entry once.\<close>

definition ranges :: "(uuid list \<Rightarrow> uuid list) \<Rightarrow> bool" where
  "ranges order \<longleftrightarrow> (\<forall>xs. mset (order xs) = mset xs)"

interpretation mem_listing: listing_keyring "mem_keyring_ops order"
  "\<lambda>k. mem_keyring_inv k \<and> ranges order" map_of "mem_kr_subjects order" for order
proof unfold_locales
  fix k assume k: "mem_keyring_inv k \<and> ranges order"
  then have eq: "mset (order (map fst k)) = mset (map fst k)" by (simp add: ranges_def)
  then have "set (order (map fst k)) = fst ` set k" by (metis list.set_map set_mset_mset)
  moreover have "distinct (order (map fst k))"
    using k eq by (metis mem_keyring_inv_def mset_eq_imp_distinct_iff)
  ultimately show "\<exists>ps. mem_kr_subjects order k = Inr ps \<and> distinct ps \<and> set ps = dom (map_of k)"
    by (simp add: mem_kr_subjects_def dom_map_of_conv_image_fst)
next
  fix k p v assume "kr_get (mem_keyring_ops order) p k = Inr v"
  then show "v = map_of k p" by (simp add: mem_kr_get_def)
next
  fix k p b r r' k'
  assume "mem_keyring_inv k \<and> ranges order" "kr_put (mem_keyring_ops order) p b (r, k) = (None, r', k')"
  then show "(mem_keyring_inv k' \<and> ranges order) \<and> map_of k' = (map_of k)(p \<mapsto> b)"
    using mem_ring.put_key [of k order p b r r' k'] by simp
next
  fix k p k'
  assume "mem_keyring_inv k \<and> ranges order" "kr_forget (mem_keyring_ops order) p k = (None, k')"
  then show "(mem_keyring_inv k' \<and> ranges order) \<and> map_of k' = (map_of k)(p := None)"
    using mem_ring.forget_key [of k order p k'] by simp
qed (simp_all add: mem_kr_get_def mem_kr_put_def mem_kr_forget_def)

section \<open>The wrapped in-memory ring\<close>

abbreviation mem_wr_inv :: "mem_keyring wrapped_keyring \<Rightarrow> bool" where
  "mem_wr_inv \<equiv> wr_inv mem_keyring_inv map_of"

abbreviation mem_wr_abs :: "mem_keyring wrapped_keyring \<Rightarrow> uuid \<Rightarrow> bytes option" where
  "mem_wr_abs \<equiv> wr_abs map_of"

text \<open>
  A wrapped ring returns the key that was last put for a subject, nothing for a subject that was
  forgotten, and leaves the other subjects alone; what it stores is never the key itself but the
  framed output of the wrapper.
\<close>

lemma wrapped_ring_stores_keys:
  assumes "mem_wr_inv w"
  shows "\<exists>r1 w1 w2. wr_put (mem_keyring_ops order) p key (r, w) = (None, r1, w1)
    \<and> wr_get (mem_keyring_ops order) p w1 = Inr (Some key)
    \<and> wr_forget (mem_keyring_ops order) p w1 = (None, w2)
    \<and> wr_get (mem_keyring_ops order) p w2 = Inr None
    \<and> (\<forall>q. q \<noteq> p \<longrightarrow> wr_get (mem_keyring_ops order) q w2 = wr_get (mem_keyring_ops order) q w)
    \<and> (\<exists>blob. map_of (wr_keys w1) p = Some (encode_wrapped (kw_label (wr_wrapper w)) blob)
         \<and> kw_unwrap (wr_wrapper w) blob = Inr key)"
proof -
  obtain r1 w1 where put: "wr_put (mem_keyring_ops order) p key (r, w) = (None, r1, w1)"
    "mem_wr_inv w1" "mem_wr_abs w1 = (mem_wr_abs w)(p \<mapsto> key)" "wr_wrapper w1 = wr_wrapper w"
    by (rule mem_wrapped.wr_put_eq [OF assms])
  obtain w2 where fg: "wr_forget (mem_keyring_ops order) p w1 = (None, w2)" "mem_wr_inv w2"
    "mem_wr_abs w2 = (mem_wr_abs w1)(p := None)"
    by (rule mem_wrapped.wr_forget_eq [OF put(2)])
  have ok: "wrapper_ok (wr_wrapper w)" using assms by (simp add: wr_inv_def)
  then obtain blob r0 where bl: "kw_wrap (wr_wrapper w) key r = (Inr blob, r0)"
    "kw_unwrap (wr_wrapper w) blob = Inr key"
    unfolding wrapper_ok_def by blast
  have "map_of (wr_keys w1) p = Some (encode_wrapped (kw_label (wr_wrapper w)) blob)"
    using put(1) by (auto simp: wr_put_def bl mem_kr_put_def update_conv')
  with bl(2) put fg mem_wrapped.wr_get_eq [OF assms] mem_wrapped.wr_get_eq [OF put(2)]
    mem_wrapped.wr_get_eq [OF fg(2)] show ?thesis by auto
qed

text \<open>
  C19. \<^verbatim>\<open>Rotate\<close> keeps every key: on a ring whose blobs are all readable under the current wrapper it
  succeeds whatever the order the subjects are listed in, switches to the new wrapper, and every
  subject reads back the same key as before; a forgotten subject stays forgotten.
\<close>

theorem rotate_preserves_keys:
  assumes "mem_wr_inv w" "wrapper_ok new" "ranges order"
  shows "\<exists>r' w'. wr_rotate (mem_keyring_ops order) new (r, w) = (None, r', w')
    \<and> wr_wrapper w' = new
    \<and> (\<forall>p. wr_get (mem_keyring_ops order) p w' = wr_get (mem_keyring_ops order) p w)"
proof -
  have inv: "wr_inv (\<lambda>k. mem_keyring_inv k \<and> ranges order) map_of w"
    using assms by (simp add: wr_inv_def)
  from mem_listing.rotate_ok [OF inv assms(2), of r] obtain r' w'
    where rot: "wr_rotate (mem_keyring_ops order) new (r, w) = (None, r', w')"
      "wr_inv (\<lambda>k. mem_keyring_inv k \<and> ranges order) map_of w'" "mem_wr_abs w' = mem_wr_abs w"
      "wr_wrapper w' = new" by blast
  then have "mem_wr_inv w'" by (simp add: wr_inv_def)
  with rot assms(1) show ?thesis by (simp add: mem_wrapped.wr_get_eq)
qed

text \<open>
  A rotation that failed partway does not converge by running it again with the same new wrapper, as
  the comment of \<^verbatim>\<open>Rotate\<close> advises: once one subject's blob carries the new label while the ring still
  uses the old wrapper, every rotation to that wrapper stops with an error and changes no wrapper.
\<close>

lemma partial_rotation_stuck:
  assumes "mem_keyring_inv (wr_keys w)" "ranges order"
    and "map_of (wr_keys w) p = Some (encode_wrapped (kw_label new) blob)"
    and "kw_label new \<noteq> kw_label (wr_wrapper w)" "length (kw_label new) < 65536"
  shows "\<exists>err r' w'. wr_rotate (mem_keyring_ops order) new (r, w) = (Some err, r', w')
    \<and> wr_wrapper w' = wr_wrapper w"
  using mem_listing.rotate_stuck [of w order p new blob r] assms by simp

section \<open>Concrete wrappers\<close>

definition sample_wrapper :: "byte \<Rightarrow> key_wrapper" where
  "sample_wrapper b = \<lparr>kw_wrap = aes_wrap toy_crypto (replicate 32 b) [b],
     kw_unwrap = aes_unwrap toy_crypto (replicate 32 b) [b], kw_label = [b]\<rparr>"

lemma sample_wrapper_ok: "wrapper_ok (sample_wrapper b)"
  by (rule aes_wrapper_ok [OF toy_crypto_ok, of "replicate 32 b" "[b]"])
    (simp_all add: new_aes_gcm_wrapper_def aes_key_ok_def sample_wrapper_def Let_def)

definition sample_ring :: "mem_keyring wrapped_keyring" where
  "sample_ring = \<lparr>wr_keys = [], wr_wrapper = sample_wrapper 1\<rparr>"

lemma sample_ring_inv: "mem_wr_inv sample_ring"
  by (simp add: wr_inv_def sample_ring_def sample_wrapper_ok mem_keyring_inv_def)

lemma ranges_id: "ranges id"
  by (simp add: ranges_def)

theorem wrapped_ring_stores_keys_witness:
  "\<exists>r1 w1. wr_put (mem_keyring_ops id) 3 [9, 9] (\<lambda>_. 0, sample_ring) = (None, r1, w1)
    \<and> wr_get (mem_keyring_ops id) 3 w1 = Inr (Some [9, 9])"
  using wrapped_ring_stores_keys [OF sample_ring_inv, of id 3 "[9, 9]" "\<lambda>_. 0"] by blast

text \<open>A ring with a key of subject 3, wrapped under the first wrapper.\<close>

definition filled_ring :: "mem_keyring wrapped_keyring" where
  "filled_ring = \<lparr>wr_keys = [(3, encode_wrapped [1] (replicate 12 0 @ replicate 32 1 @ [9]))], wr_wrapper = sample_wrapper 1\<rparr>"

lemma filled_ring_key:
  "unwrapped (sample_wrapper 1) (encode_wrapped [1] (replicate 12 0 @ replicate 32 1 @ [9])) = Some [9]"
proof -
  have "kw_unwrap (sample_wrapper 1) (replicate 12 0 @ replicate 32 1 @ [9]) = Inr [9]"
    by (simp add: sample_wrapper_def aes_unwrap_def nonce_size_def toy_crypto_def)
  from unwrapped_encode [OF sample_wrapper_ok this] show ?thesis by (simp add: sample_wrapper_def)
qed

lemma filled_ring_inv: "mem_wr_inv filled_ring"
  by (simp add: wr_inv_def filled_ring_def sample_wrapper_ok mem_keyring_inv_def filled_ring_key)

theorem rotate_preserves_keys_witness:
  "\<exists>r' w'. wr_rotate (mem_keyring_ops id) (sample_wrapper 2) (\<lambda>_. 0, filled_ring) = (None, r', w')
    \<and> wr_wrapper w' = sample_wrapper 2 \<and> wr_get (mem_keyring_ops id) 3 w' = Inr (Some [9])"
proof -
  have "wr_get (mem_keyring_ops id) 3 filled_ring = Inr (Some [9])"
    using mem_wrapped.wr_get_eq [OF filled_ring_inv] by (simp add: wr_abs_def filled_ring_def filled_ring_key)
  with rotate_preserves_keys [OF filled_ring_inv sample_wrapper_ok ranges_id, of 2 "\<lambda>_. 0"] show ?thesis by metis
qed

text \<open>The state after a rotation that re-wrapped subject 3 and then met the corrupt blob of subject 4.\<close>

theorem partial_rotation_stuck_witness:
  "\<exists>b err r' w'.
     rotate_loop (mem_keyring_ops id) (sample_wrapper 1) (sample_wrapper 2) [3, 4]
       (\<lambda>_. 0, [(3, encode_wrapped [1] (replicate 12 0 @ replicate 32 1 @ [9])), (4, [0])])
       = (Some (ErrWrap ''es: wrapped keyring: rotation: decode stored blob''
                 (ErrText ''es: wrapped keyring: blob too short'')), \<lambda>_. 0, [(3, b), (4, [0])])
     \<and> wr_rotate (mem_keyring_ops id) (sample_wrapper 2)
         (\<lambda>_. 0, \<lparr>wr_keys = [(3, b), (4, [0])], wr_wrapper = sample_wrapper 1\<rparr>) = (Some err, r', w')
     \<and> wr_wrapper w' = sample_wrapper 1"
proof -
  let ?b = "encode_wrapped [2] (replicate 12 0 @ replicate 32 2 @ [9])"
  let ?k = "[(3, ?b), (4, [0])] :: mem_keyring"
  have rd: "rand_read nonce_size (\<lambda>_. 0) = (replicate 12 0, \<lambda>_. 0)"
    by (simp add: rand_read_def nonce_size_def map_replicate_const)
  have un: "kw_unwrap (sample_wrapper 1) (replicate 12 0 @ replicate 32 1 @ [9]) = Inr [9]"
    and wr: "kw_wrap (sample_wrapper 2) [9] (\<lambda>_. 0) = (Inr (replicate 12 0 @ replicate 32 2 @ [9]), \<lambda>_. 0)"
    by (simp_all add: sample_wrapper_def aes_unwrap_def aes_wrap_def rd [unfolded nonce_size_def]
        nonce_size_def toy_crypto_def)
  have labels: "kw_label (sample_wrapper b) = [b]" for b by (simp add: sample_wrapper_def)
  have "rotate_loop (mem_keyring_ops id) (sample_wrapper 1) (sample_wrapper 2) [3, 4]
       (\<lambda>_. 0, [(3, encode_wrapped [1] (replicate 12 0 @ replicate 32 1 @ [9])), (4, [0])])
       = (Some (ErrWrap ''es: wrapped keyring: rotation: decode stored blob''
                 (ErrText ''es: wrapped keyring: blob too short'')), \<lambda>_. 0, ?k)"
    by (simp add: mem_kr_get_def mem_kr_put_def decode_encode_wrapped labels un wr)
      (simp add: decode_wrapped_def)
  moreover have "\<exists>err r' w'. wr_rotate (mem_keyring_ops id) (sample_wrapper 2)
      (\<lambda>_. 0, \<lparr>wr_keys = ?k, wr_wrapper = sample_wrapper 1\<rparr>) = (Some err, r', w')
      \<and> wr_wrapper w' = wr_wrapper \<lparr>wr_keys = ?k, wr_wrapper = sample_wrapper 1\<rparr>"
    by (rule partial_rotation_stuck [where p = 3 and blob = "replicate 12 0 @ replicate 32 2 @ [9]"])
      (simp_all add: mem_keyring_inv_def ranges_id labels)
  ultimately show ?thesis by (metis select_convs(2))
qed

end
