(* ===== verification/Es_Erasure.thy ===== *)
theory Es_Erasure
  imports Es_Pii
begin

text \<open>
  \<^verbatim>\<open>es/erasure_ledger.go\<close> and \<^verbatim>\<open>es/memstore/erasure_ledger.go\<close>: the hash chain of erasure records, its
  check, the in-memory ledger and the verifier. SHA-256 is the primitive \<open>cr_sha256\<close> of \<open>crypto\<close>;
  what the chain proves holds as long as the hash does not collide on the records at hand.
\<close>

section \<open>Records and their hash\<close>

record shred_record =
  sr_pii_id :: uuid
  sr_erased_at :: time
  sr_origin_global_id :: u64
  sr_prev_hash :: bytes
  sr_hash :: bytes

definition zero_hash :: bytes where
  "zero_hash = replicate 32 0"

text \<open>\<^verbatim>\<open>erasedAt.Truncate(time.Second).UTC().Unix()\<close> as the \<^verbatim>\<open>uint64\<close> it is converted to.\<close>

definition unix_seconds :: "time \<Rightarrow> u64" where
  "unix_seconds t = of_int (t div 1000000000)"

definition shred_hash_input :: "bytes \<Rightarrow> uuid \<Rightarrow> time \<Rightarrow> u64 \<Rightarrow> bytes" where
  "shred_hash_input prev p t g =
     prev @ be_bytes 16 p @ be_bytes 8 (unix_seconds t) @ be_bytes 8 g"

definition shred_record_hash :: "crypto \<Rightarrow> bytes \<Rightarrow> uuid \<Rightarrow> time \<Rightarrow> u64 \<Rightarrow> bytes" where
  "shred_record_hash c prev p t g = cr_sha256 c (shred_hash_input prev p t g)"

fun check_shred_loop :: "crypto \<Rightarrow> bytes \<Rightarrow> shred_record list \<Rightarrow> error option" where
  "check_shred_loop c prev [] = None"
| "check_shred_loop c prev (r # rs) =
     (if sr_prev_hash r \<noteq> prev
      then Some (ErrText ''es: pii: shred chain breaks: PrevHash mismatch'')
      else if sr_hash r \<noteq> shred_record_hash c prev (sr_pii_id r) (sr_erased_at r) (sr_origin_global_id r)
      then Some (ErrText ''es: pii: shred chain breaks: Hash mismatch'')
      else check_shred_loop c (sr_hash r) rs)"

definition check_shred_chain :: "crypto \<Rightarrow> shred_record list \<Rightarrow> error option" where
  "check_shred_chain c rs = check_shred_loop c zero_hash rs"

section \<open>What the chain commits to\<close>

text \<open>The facts of a record that its hash covers.\<close>

definition shred_facts :: "shred_record \<Rightarrow> uuid \<times> u64 \<times> u64" where
  "shred_facts r = (sr_pii_id r, unix_seconds (sr_erased_at r), sr_origin_global_id r)"

lemma shred_hash_input_inj:
  assumes "shred_hash_input prev p t g = shred_hash_input prev' p' t' g'"
  shows "prev = prev' \<and> p = p' \<and> unix_seconds t = unix_seconds t' \<and> g = g'"
proof -
  have len: "length (be_bytes 16 p @ be_bytes 8 (unix_seconds t) @ be_bytes 8 g)
      = length (be_bytes 16 p' @ be_bytes 8 (unix_seconds t') @ be_bytes 8 g')" by simp
  from assms have "prev = prev' \<and> be_bytes 16 p @ be_bytes 8 (unix_seconds t) @ be_bytes 8 g
      = be_bytes 16 p' @ be_bytes 8 (unix_seconds t') @ be_bytes 8 g'"
    unfolding shred_hash_input_def by (subst (asm) append_eq_append_conv) (rule disjI2 [OF len])
  then have "prev = prev'" "be_bytes 16 p = be_bytes 16 p'"
    "be_bytes 8 (unix_seconds t) = be_bytes 8 (unix_seconds t')" "be_bytes 8 g = be_bytes 8 g'"
    by simp_all
  then show ?thesis by (auto dest: be_bytes_inj)
qed

lemma check_shred_loop_append:
  "check_shred_loop c prev (rs @ qs) =
     (case check_shred_loop c prev rs of
        Some err \<Rightarrow> Some err
      | None \<Rightarrow> check_shred_loop c (if rs = [] then prev else sr_hash (last rs)) qs)"
  by (induction c prev rs rule: check_shred_loop.induct) (auto split: option.splits)

lemma check_shred_snoc:
  "check_shred_chain c (rs @ [r]) = None \<longleftrightarrow>
     check_shred_chain c rs = None
     \<and> sr_prev_hash r = (if rs = [] then zero_hash else sr_hash (last rs))
     \<and> sr_hash r = shred_record_hash c (sr_prev_hash r) (sr_pii_id r) (sr_erased_at r) (sr_origin_global_id r)"
  by (auto simp: check_shred_chain_def check_shred_loop_append split: option.splits)

text \<open>
  What is hashed for a record, and what the record holds that the chain commits to: all of it but the
  nanoseconds of its time.
\<close>

definition hash_input_of :: "shred_record \<Rightarrow> bytes" where
  "hash_input_of r = shred_hash_input (sr_prev_hash r) (sr_pii_id r) (sr_erased_at r) (sr_origin_global_id r)"

definition committed :: "shred_record \<Rightarrow> (uuid \<times> u64 \<times> u64) \<times> bytes \<times> bytes" where
  "committed r = (shred_facts r, sr_prev_hash r, sr_hash r)"

text \<open>
  The records at hand collide nowhere: different inputs among the ones hashed for these very records
  have different hashes, and none of their hashes is the one of the empty ledger.
\<close>

definition no_forgery :: "crypto \<Rightarrow> shred_record list \<Rightarrow> bool" where
  "no_forgery c rs \<longleftrightarrow> inj_on (cr_sha256 c) (hash_input_of ` set rs) \<and> zero_hash \<notin> sr_hash ` set rs"

lemma no_forgery_subset: "no_forgery c rs \<Longrightarrow> set qs \<subseteq> set rs \<Longrightarrow> no_forgery c qs"
  unfolding no_forgery_def by (meson image_mono inj_on_subset subset_iff)

lemma check_shred_last:
  "check_shred_chain c (rs @ [r]) = None \<longleftrightarrow> check_shred_chain c rs = None
     \<and> sr_prev_hash r = (if rs = [] then zero_hash else sr_hash (last rs)) \<and> sr_hash r = cr_sha256 c (hash_input_of r)"
  by (simp add: check_shred_snoc shred_record_hash_def hash_input_of_def)

lemma hash_input_of_inj: "hash_input_of r = hash_input_of q \<Longrightarrow> shred_facts r = shred_facts q \<and> sr_prev_hash r = sr_prev_hash q"
  unfolding hash_input_of_def by (drule shred_hash_input_inj) (simp add: shred_facts_def)

lemma chain_head_commits:
  assumes "check_shred_chain c rs = None" "check_shred_chain c qs = None" "no_forgery c (rs @ qs)"
    and "(if rs = [] then zero_hash else sr_hash (last rs)) = (if qs = [] then zero_hash else sr_hash (last qs))"
  shows "map committed rs = map committed qs"
  using assms
proof (induction rs arbitrary: qs rule: rev_induct)
  case Nil
  then show ?case by (cases qs rule: rev_cases) (auto simp: no_forgery_def)
next
  case (snoc r rs)
  show ?case
  proof (cases qs rule: rev_cases)
    case Nil
    with snoc.prems show ?thesis by (auto simp: no_forgery_def)
  next
    case qs: (snoc qs' q)
    note r = snoc.prems(1) [unfolded check_shred_last] and q = snoc.prems(2) [unfolded qs check_shred_last]
    have hash: "sr_hash r = sr_hash q" using snoc.prems(4) qs by simp
    have inj: "inj_on (cr_sha256 c) (hash_input_of ` set ((rs @ [r]) @ qs))"
      using snoc.prems(3) by (simp only: no_forgery_def)
    have "hash_input_of r = hash_input_of q"
      by (rule inj_onD [OF inj]) (use hash r q qs in auto)
    then have same: "shred_facts r = shred_facts q" "sr_prev_hash r = sr_prev_hash q"
      using hash_input_of_inj by blast+
    have "map committed rs = map committed qs'"
      by (rule snoc.IH) (use r q same(2) no_forgery_subset [OF snoc.prems(3), of "rs @ qs'"] in \<open>auto simp: qs\<close>)
    with same hash show ?thesis by (simp add: qs committed_def [of r] committed_def [of q])
  qed
qed

lemma check_shred_prefix: "check_shred_chain c (rs @ qs) = None \<Longrightarrow> check_shred_chain c rs = None"
  by (simp add: check_shred_chain_def check_shred_loop_append split: option.splits)

text \<open>
  C32. Tamper evidence. Someone kept the last hash of a ledger \<open>rs\<close>. A ledger that he is shown later passes
  \<^verbatim>\<open>CheckShredChain\<close> and has that hash at its record \<open>q\<close>. Then up to \<open>q\<close> it has the records of \<open>rs\<close>, as many
  and in the same order, equal in the subject, the second of the time, the origin event, the previous
  hash and the hash: nothing of what he knew was changed, dropped, inserted or reordered, and what was
  appended stands behind it. This holds as long as the hash has no collision among the inputs hashed
  for these very records and none of them hashes to zero; what is beyond the second of a time is not
  committed to.
\<close>

theorem shred_chain_tamper_evident:
  assumes "check_shred_chain c rs = None" "rs \<noteq> []"
    and "check_shred_chain c (qs @ q # later) = None" "sr_hash q = sr_hash (last rs)"
    and "no_forgery c (rs @ qs @ [q])"
  shows "map committed rs = map committed (qs @ [q])"
proof (rule chain_head_commits [OF assms(1)])
  show "check_shred_chain c (qs @ [q]) = None"
    using check_shred_prefix [of c "qs @ [q]" later] assms(3) by simp
qed (use assms in simp_all)

section \<open>The in-memory ledger\<close>

type_synonym mem_ledger = "shred_record list"

definition mem_ledger_append :: "crypto \<Rightarrow> uuid \<Rightarrow> time \<Rightarrow> u64 \<Rightarrow> mem_ledger \<Rightarrow> error option \<times> mem_ledger" where
  "mem_ledger_append c p t g l =
     (let prev = (if l = [] then zero_hash else sr_hash (last l))
      in (None, l @ [\<lparr>sr_pii_id = p, sr_erased_at = t, sr_origin_global_id = g, sr_prev_hash = prev,
                      sr_hash = shred_record_hash c prev p t g\<rparr>]))"

definition mem_ledger_entries :: "mem_ledger \<Rightarrow> error + shred_record list" where
  "mem_ledger_entries l = Inr l"

record 'l ledger_ops =
  lg_append :: "uuid \<Rightarrow> time \<Rightarrow> u64 \<Rightarrow> 'l \<Rightarrow> error option \<times> 'l"
  lg_entries :: "'l \<Rightarrow> error + shred_record list"

definition mem_ledger_ops :: "crypto \<Rightarrow> mem_ledger ledger_ops" where
  "mem_ledger_ops c = \<lparr>lg_append = mem_ledger_append c, lg_entries = mem_ledger_entries\<rparr>"

lemma mem_ledger_ops_sel [simp, store_simps]:
  "lg_append (mem_ledger_ops c) = mem_ledger_append c"
  "lg_entries (mem_ledger_ops c) = mem_ledger_entries"
  by (simp_all add: mem_ledger_ops_def)

text \<open>
  The contract of \<^verbatim>\<open>ErasureLedger\<close>: what can be read is a valid chain, and an append puts one record
  with the given facts behind what was there, for the times \<open>keeps\<close> whose second the ledger stores
  unchanged.
\<close>

locale erasure_ledger =
  fixes c :: crypto
    and lg :: "'l ledger_ops"
    and inv :: "'l \<Rightarrow> bool"
    and keeps :: "time \<Rightarrow> bool"
  assumes entries_valid: "inv l \<Longrightarrow> lg_entries lg l = Inr rs \<Longrightarrow> check_shred_chain c rs = None"
    and append_record: "inv l \<Longrightarrow> keeps t \<Longrightarrow> lg_append lg p t g l = (None, l') \<Longrightarrow> lg_entries lg l = Inr rs \<Longrightarrow>
      inv l' \<and> (\<forall>rs'. lg_entries lg l' = Inr rs' \<longrightarrow> (\<exists>r. rs' = rs @ [r] \<and> shred_facts r = (p, unix_seconds t, g)))"
begin

lemma appended_subject_listed:
  assumes "inv l" "keeps t" "lg_append lg p t g l = (None, l')" "lg_entries lg l = Inr rs" "lg_entries lg l' = Inr rs'"
  shows "check_shred_chain c rs' = None \<and> p \<in> sr_pii_id ` set rs' \<and> length rs' = Suc (length rs)"
proof -
  from append_record [OF assms(1-4)] assms(5) obtain r where "inv l'" "rs' = rs @ [r]" "shred_facts r = (p, unix_seconds t, g)"
    by blast
  with entries_valid [OF _ assms(5)] show ?thesis by (auto simp: shred_facts_def)
qed

end

definition mem_ledger_inv :: "crypto \<Rightarrow> mem_ledger \<Rightarrow> bool" where
  "mem_ledger_inv c l \<longleftrightarrow> check_shred_chain c l = None"

lemma mem_ledger_inv_new: "mem_ledger_inv c []"
  by (simp add: mem_ledger_inv_def check_shred_chain_def)

lemma mem_ledger_append_valid:
  assumes "mem_ledger_inv c l" "mem_ledger_append c p t g l = (r, l')"
  shows "r = None \<and> mem_ledger_inv c l' \<and> (\<exists>x. l' = l @ [x] \<and> sr_pii_id x = p \<and> sr_erased_at x = t
    \<and> sr_origin_global_id x = g)"
  using assms by (auto simp: mem_ledger_append_def mem_ledger_inv_def check_shred_snoc Let_def)

interpretation mem_ledger: erasure_ledger c "mem_ledger_ops c" "mem_ledger_inv c" "\<lambda>_. True" for c
proof unfold_locales
  fix l rs assume "mem_ledger_inv c l" "lg_entries (mem_ledger_ops c) l = Inr rs"
  then show "check_shred_chain c rs = None"
    by (simp add: mem_ledger_inv_def mem_ledger_entries_def)
next
  fix l p t g l' rs
  assume "mem_ledger_inv c l" "lg_append (mem_ledger_ops c) p t g l = (None, l')"
    "lg_entries (mem_ledger_ops c) l = Inr rs"
  then show "mem_ledger_inv c l' \<and> (\<forall>rs'. lg_entries (mem_ledger_ops c) l' = Inr rs' \<longrightarrow>
      (\<exists>r. rs' = rs @ [r] \<and> shred_facts r = (p, unix_seconds t, g)))"
    using mem_ledger_append_valid [of c l p t g None l']
    by (auto simp: mem_ledger_entries_def shred_facts_def)
qed

fun append_all :: "crypto \<Rightarrow> (uuid \<times> time \<times> u64) list \<Rightarrow> mem_ledger \<Rightarrow> mem_ledger" where
  "append_all c [] l = l"
| "append_all c ((p, t, g) # xs) l = append_all c xs (snd (mem_ledger_append c p t g l))"

lemma append_all_valid:
  "mem_ledger_inv c l \<Longrightarrow> mem_ledger_inv c (append_all c xs l)
     \<and> map (\<lambda>r. (sr_pii_id r, sr_erased_at r, sr_origin_global_id r)) (append_all c xs l)
       = map (\<lambda>r. (sr_pii_id r, sr_erased_at r, sr_origin_global_id r)) l @ xs"
proof (induction c xs l rule: append_all.induct)
  case (2 c p t g xs l)
  obtain r l' where ap: "mem_ledger_append c p t g l = (r, l')" by force
  from mem_ledger_append_valid [OF 2(2) ap] 2(1) show ?case by (auto simp: ap)
qed simp

text \<open>
  Any sequence of appends gives a ledger that passes the check, holds one record per append in
  order, with the subject and the origin event each was given, and the time as it was given:
  \<^verbatim>\<open>Append\<close> does not cut it to whole seconds, although the interface says that it does.
\<close>

lemma ledger_appends_valid:
  "check_shred_chain c (append_all c xs []) = None
   \<and> map (\<lambda>r. (sr_pii_id r, sr_erased_at r, sr_origin_global_id r)) (append_all c xs []) = xs"
  using append_all_valid [OF mem_ledger_inv_new, of c xs] by (simp add: mem_ledger_inv_def)

text \<open>
  A ledger of two records, and a later one of three that has the same second hash; the time of its
  first record was moved by seven nanoseconds, the only freedom there is.
\<close>

theorem shred_chain_tamper_evident_witness:
  "let rs = append_all toy_crypto [(3, 5000000000, 1), (4, 6000000000, 2)] [];
       qs = append_all toy_crypto [(3, 5000000007, 1), (4, 6000000000, 2), (5, 7000000000, 3)] []
   in check_shred_chain toy_crypto rs = None \<and> check_shred_chain toy_crypto qs = None
      \<and> take 2 qs \<noteq> rs \<and> map committed rs = map committed (take 2 qs)"
proof -
  let ?rs = "append_all toy_crypto [(3, 5000000000, 1), (4, 6000000000, 2)] []"
    and ?qs = "append_all toy_crypto [(3, 5000000007, 1), (4, 6000000000, 2), (5, 7000000000, 3)] []"
  have v: "check_shred_chain toy_crypto ?rs = None" "check_shred_chain toy_crypto ?qs = None"
    using append_all_valid [OF mem_ledger_inv_new] by (simp_all only: mem_ledger_inv_def)
  have split: "[hd ?qs] @ (?qs ! 1) # [last ?qs] = ?qs" "[hd ?qs] @ [?qs ! 1] = take 2 ?qs"
    by (simp_all add: mem_ledger_append_def Let_def)
  have "?rs \<noteq> []" "sr_hash (?qs ! 1) = sr_hash (last ?rs)" "take 2 ?qs \<noteq> ?rs"
    by (simp_all add: mem_ledger_append_def shred_record_hash_def shred_hash_input_def unix_seconds_def Let_def)
  moreover have "no_forgery toy_crypto (?rs @ take 2 ?qs)"
    unfolding no_forgery_def inj_on_def by code_simp
  ultimately show ?thesis
    using shred_chain_tamper_evident [OF v(1), of "[hd ?qs]" "?qs ! 1" "[last ?qs]", unfolded split, OF _ v(2)] v
    by (simp only: Let_def simp_thms)
qed

text \<open>
  What the check cannot see: the last records of a ledger can be cut off, and the time of a record
  can be moved within its second, and the result still passes \<^verbatim>\<open>CheckShredChain\<close>.
\<close>

lemma shred_chain_blind_spots:
  assumes "check_shred_chain c (rs @ qs) = None"
  shows "check_shred_chain c rs = None
    \<and> (\<forall>r t. qs = [r] \<and> unix_seconds t = unix_seconds (sr_erased_at r) \<longrightarrow>
         check_shred_chain c (rs @ [r\<lparr>sr_erased_at := t\<rparr>]) = None)"
proof -
  have "check_shred_chain c rs = None"
    using assms by (simp add: check_shred_chain_def check_shred_loop_append split: option.splits)
  moreover have "check_shred_chain c (rs @ [r\<lparr>sr_erased_at := t\<rparr>]) = None"
    if "qs = [r]" "unix_seconds t = unix_seconds (sr_erased_at r)" for r t
    using assms that by (simp add: check_shred_snoc shred_record_hash_def shred_hash_input_def)
  ultimately show ?thesis by blast
qed

theorem shred_chain_blind_spots_witness:
  "check_shred_chain toy_crypto (append_all toy_crypto [(3, 0, 1)] []) = None"
proof -
  have split: "append_all toy_crypto [(3, 0, 1), (4, 0, 2)] []
      = append_all toy_crypto [(3, 0, 1)] [] @ [last (append_all toy_crypto [(3, 0, 1), (4, 0, 2)] [])]"
    by (simp add: mem_ledger_append_def Let_def)
  have "check_shred_chain toy_crypto (append_all toy_crypto [(3, 0, 1), (4, 0, 2)] []) = None"
    using append_all_valid [OF mem_ledger_inv_new] by (simp only: mem_ledger_inv_def)
  then show ?thesis
    by (subst (asm) split) (use shred_chain_blind_spots in blast)
qed

section \<open>ErasureVerifier\<close>

record erasure_proof =
  ep_subject :: uuid
  ep_erasures :: "shred_record list"
  ep_key_forgotten :: bool
  ep_events_unrecoverable :: bool

text \<open>
  \<^verbatim>\<open>Verify\<close> over what its three sources answer: \<open>entries\<close> is \<^verbatim>\<open>Ledger.Entries\<close>, \<open>get\<close> is \<^verbatim>\<open>Keys.Get\<close> and
  \<open>lookup\<close> is \<^verbatim>\<open>Events.FetchByPiiID\<close>. The result is the proof (a nil pointer is \<open>None\<close>) and the error.
\<close>

definition erasure_verify :: "crypto \<Rightarrow> error + shred_record list \<Rightarrow> (uuid \<Rightarrow> error + slice) \<Rightarrow>
    (uuid \<Rightarrow> error + domain_event list) \<Rightarrow> uuid \<Rightarrow> erasure_proof option \<times> error option" where
  "erasure_verify c entries get lookup p =
     (let pr0 = \<lparr>ep_subject = p, ep_erasures = [], ep_key_forgotten = False, ep_events_unrecoverable = False\<rparr>
      in case entries of
        Inl err \<Rightarrow> (None, Some (ErrWrap ''es: pii: read erasure ledger'' err))
      | Inr all \<Rightarrow>
          (case check_shred_chain c all of
             Some err \<Rightarrow> (None, Some err)
           | None \<Rightarrow>
               (let pr1 = pr0\<lparr>ep_erasures := filter (\<lambda>r. sr_pii_id r = p) all\<rparr>
                in if ep_erasures pr1 = [] then (Some pr1, Some ErrNoErasureRecord)
                   else case get p of
                          Inl err \<Rightarrow> (None, Some (ErrWrap ''es: pii: read key'' err))
                        | Inr key \<Rightarrow>
                            (let pr2 = pr1\<lparr>ep_key_forgotten := (key = None)\<rparr>;
                                 pr3 = (case lookup p of
                                          Inl err \<Rightarrow>
                                            if \<not> errors_is err ErrSubjectNotFound
                                            then Inl (ErrWrap ''es: pii: read subject events'' err)
                                            else Inr (pr2\<lparr>ep_events_unrecoverable := True\<rparr>)
                                        | Inr es \<Rightarrow>
                                            Inr (pr2\<lparr>ep_events_unrecoverable :=
                                              list_all (\<lambda>e. \<not> (raw_present (ev_pii_fields e) \<and> \<not> ev_pii_unrecoverable e)) es\<rparr>))
                             in case pr3 of
                                  Inl err \<Rightarrow> (None, Some err)
                                | Inr pr \<Rightarrow>
                                    if \<not> ep_key_forgotten pr
                                    then (Some pr, Some (ErrText ''es: pii: verification: key still exists in the keyring''))
                                    else if \<not> ep_events_unrecoverable pr
                                    then (Some pr, Some (ErrText ''es: pii: verification: some PII-bearing events still decrypt''))
                                    else (Some pr, None)))))"

lemma erasure_verify_success:
  assumes "entries = Inr all" "check_shred_chain c all = None"
    and "rs = filter (\<lambda>r. sr_pii_id r = p) all" "rs \<noteq> []" "get p = Inr None"
    and "case lookup p of Inl err \<Rightarrow> errors_is err ErrSubjectNotFound
      | Inr es \<Rightarrow> list_all (\<lambda>e. \<not> (raw_present (ev_pii_fields e) \<and> \<not> ev_pii_unrecoverable e)) es"
  shows "erasure_verify c entries get lookup p = (Some \<lparr>ep_subject = p, ep_erasures = rs,
    ep_key_forgotten = True, ep_events_unrecoverable = True\<rparr>, None)"
proof -
  from assms(3,4) have "filter (\<lambda>r. sr_pii_id r = p) all \<noteq> []" by simp
  with assms show ?thesis
    by (cases "lookup p") (simp_all add: erasure_verify_def Let_def)
qed


end
