(* ===== verification/Es_Pii_Store.thy ===== *)
theory Es_Pii_Store
  imports Es_Store Es_Wrapped_Keyring Es_Erasure
begin

text \<open>
  \<^verbatim>\<open>es/pii_store.go\<close>: the decorator that seals events before it commits them, opens them on every
  read and shreds a subject's key after an erasure event. The locale \<open>pii_store\<close> shows that over a
  store that keeps what it is given and a reliable ring it satisfies the same contract
  \<open>event_store\<close>, on the opened streams, so that a \<^verbatim>\<open>Repository\<close> works over it unchanged.
\<close>

section \<open>Operations\<close>

text \<open>
  The collaborators a \<^verbatim>\<open>PiiEventStore\<close> is built from, and the mutable state behind them. \<open>pw_clock\<close> is
  what the coming calls of \<^verbatim>\<open>time.Now\<close> will answer.
\<close>

record ('p, 's, 'k, 'l) pii_config =
  pc_store :: "'s event_store_ops"
  pc_ops :: "'p payload_ops"
  pc_registry :: "'p registry"
  pc_crypto :: crypto
  pc_keys :: "'k keyring_ops"
  pc_ledger :: "'l ledger_ops option"

record ('s, 'k, 'l) pii_world =
  pw_store :: 's
  pw_keys :: 'k
  pw_ledger :: 'l
  pw_rng :: rng
  pw_clock :: "nat \<Rightarrow> time"

definition new_pii_event_store :: "'s event_store_ops \<Rightarrow> 'p payload_ops \<Rightarrow> 'p registry \<Rightarrow> crypto \<Rightarrow>
    'k keyring_ops \<Rightarrow> ('p, 's, 'k, 'l) pii_config" where
  "new_pii_event_store st ops reg c kr = \<lparr>pc_store = st, pc_ops = ops, pc_registry = reg,
     pc_crypto = c, pc_keys = kr, pc_ledger = None\<rparr>"

definition with_erasure_ledger :: "'l ledger_ops \<Rightarrow> ('p, 's, 'k, 'l) pii_config \<Rightarrow> ('p, 's, 'k, 'l) pii_config" where
  "with_erasure_ledger lg cf = cf\<lparr>pc_ledger := Some lg\<rparr>"

definition payload_for :: "('p, 's, 'k, 'l) pii_config \<Rightarrow> domain_event \<Rightarrow> 'p option" where
  "payload_for cf e =
     (case registry_factory (pc_registry cf) (ev_name e) of
        None \<Rightarrow> None
      | Some z \<Rightarrow> Some (snd (po_unmarshal (pc_ops cf) (ev_payload e) z)))"

text \<open>The sealing loop of \<^verbatim>\<open>Commit\<close>: the events it got to are sealed in place, also when it fails.\<close>

fun seal_all :: "('p, 's, 'k, 'l) pii_config \<Rightarrow> domain_event list \<Rightarrow> rng \<times> 'k \<Rightarrow>
    error option \<times> domain_event list \<times> rng \<times> 'k" where
  "seal_all cf [] (r, k) = (None, [], r, k)"
| "seal_all cf (e # es) (r, k) =
     (let (x, e', r1, k1) =
        (case payload_for cf e of
           None \<Rightarrow> (None, e, r, k)
         | Some p \<Rightarrow>
             (case po_pii_fields (pc_ops cf) p of
                None \<Rightarrow> (None, e, r, k)
              | Some b \<Rightarrow> pii_seal (pc_crypto cf) (pc_keys cf) e (Some b) (r, k)))
      in case x of
           Some err \<Rightarrow> (Some err, e' # es, r1, k1)
         | None \<Rightarrow> (let (x2, es', r2, k2) = seal_all cf es (r1, k1) in (x2, e' # es', r2, k2)))"

text \<open>The shredding loop after a successful commit.\<close>

fun shred_all :: "('p, 's, 'k, 'l) pii_config \<Rightarrow> domain_event list \<Rightarrow> ('s, 'k, 'l) pii_world \<Rightarrow>
    error option \<times> ('s, 'k, 'l) pii_world" where
  "shred_all cf [] w = (None, w)"
| "shred_all cf (e # es) w =
     (case (ev_pii_id e, payload_for cf e) of
        (Some i, Some p) \<Rightarrow>
          if po_requests_erasure (pc_ops cf) p
          then case pii_forget (pc_keys cf) i (pw_keys w) of
                 (Some err, k) \<Rightarrow> (Some err, w\<lparr>pw_keys := k\<rparr>)
               | (None, k) \<Rightarrow>
                   (case pc_ledger cf of
                      None \<Rightarrow> shred_all cf es (w\<lparr>pw_keys := k\<rparr>)
                    | Some lg \<Rightarrow>
                        (case lg_append lg i (pw_clock w 0) (ev_global_id e) (pw_ledger w) of
                           (Some err, l) \<Rightarrow>
                             (Some err, w\<lparr>pw_keys := k, pw_ledger := l, pw_clock := \<lambda>n. pw_clock w (Suc n)\<rparr>)
                         | (None, l) \<Rightarrow>
                             shred_all cf es
                               (w\<lparr>pw_keys := k, pw_ledger := l, pw_clock := \<lambda>n. pw_clock w (Suc n)\<rparr>)))
          else shred_all cf es w
      | _ \<Rightarrow> shred_all cf es w)"

definition pii_commit :: "('p, 's, 'k, 'l) pii_config \<Rightarrow> domain_event list \<Rightarrow> u64 \<Rightarrow> store_option list \<Rightarrow>
    ('s, 'k, 'l) pii_world \<Rightarrow> error option \<times> domain_event list \<times> ('s, 'k, 'l) pii_world" where
  "pii_commit cf es v opts w =
     (case seal_all cf es (pw_rng w, pw_keys w) of
        (Some err, es1, r, k) \<Rightarrow> (Some err, es1, w\<lparr>pw_keys := k, pw_rng := r\<rparr>)
      | (None, es1, r, k) \<Rightarrow>
          (case st_commit (pc_store cf) es1 v opts (pw_store w) of
             (Some err, es2, s) \<Rightarrow> (Some err, es2, w\<lparr>pw_store := s, pw_keys := k, pw_rng := r\<rparr>)
           | (None, es2, s) \<Rightarrow>
               (let (x, w') = shred_all cf es2 (w\<lparr>pw_store := s, pw_keys := k, pw_rng := r\<rparr>)
                in (x, es2, w'))))"

fun open_all :: "('p, 's, 'k, 'l) pii_config \<Rightarrow> domain_event list \<Rightarrow> 'k \<Rightarrow> error + domain_event list" where
  "open_all cf [] k = Inr []"
| "open_all cf (e # es) k =
     (case pii_open (pc_crypto cf) (pc_keys cf) e k of
        Inl err \<Rightarrow> Inl err
      | Inr e' \<Rightarrow> (case open_all cf es k of Inl err \<Rightarrow> Inl err | Inr es' \<Rightarrow> Inr (e' # es')))"

definition pii_load :: "('p, 's, 'k, 'l) pii_config \<Rightarrow> uuid \<Rightarrow> store_option list \<Rightarrow>
    ('s, 'k, 'l) pii_world \<Rightarrow> error + domain_event list" where
  "pii_load cf i opts w =
     (case st_load (pc_store cf) i opts (pw_store w) of
        Inl err \<Rightarrow> Inl err
      | Inr es \<Rightarrow> open_all cf es (pw_keys w))"

definition pii_fetch_after :: "('p, 's, 'k, 'l) pii_config \<Rightarrow> u64 \<Rightarrow> int \<Rightarrow> store_option list \<Rightarrow>
    ('s, 'k, 'l) pii_world \<Rightarrow> error + domain_event list" where
  "pii_fetch_after cf g limit opts w =
     (case st_fetch_after (pc_store cf) g limit opts (pw_store w) of
        Inl err \<Rightarrow> Inl err
      | Inr es \<Rightarrow> open_all cf es (pw_keys w))"

definition pii_fetch_by_pii_id :: "('p, 's, 'k, 'l) pii_config \<Rightarrow> uuid \<Rightarrow> store_option list \<Rightarrow>
    ('s, 'k, 'l) pii_world \<Rightarrow> error + domain_event list" where
  "pii_fetch_by_pii_id cf p opts w =
     (case st_fetch_by_pii (pc_store cf) of
        None \<Rightarrow> Inl ErrPiiLookupUnsupported
      | Some lookup \<Rightarrow>
          (case lookup p opts (pw_store w) of
             Inl err \<Rightarrow> Inl err
           | Inr es \<Rightarrow> open_all cf es (pw_keys w)))"

definition pii_store_ops :: "('p, 's, 'k, 'l) pii_config \<Rightarrow> ('s, 'k, 'l) pii_world event_store_ops" where
  "pii_store_ops cf = \<lparr> st_commit = pii_commit cf, st_load = pii_load cf,
     st_fetch_after = pii_fetch_after cf, st_fetch_by_pii = Some (pii_fetch_by_pii_id cf) \<rparr>"

lemma pii_store_ops_sel [simp, store_simps]:
  "st_commit (pii_store_ops cf) = pii_commit cf"
  "st_load (pii_store_ops cf) = pii_load cf"
  "st_fetch_after (pii_store_ops cf) = pii_fetch_after cf"
  "st_fetch_by_pii (pii_store_ops cf) = Some (pii_fetch_by_pii_id cf)"
  by (simp_all add: pii_store_ops_def)

section \<open>Reading\<close>

lemma open_all_Inr_iff:
  "open_all cf es k = Inr es' \<longleftrightarrow>
     list_all2 (\<lambda>e e'. pii_open (pc_crypto cf) (pc_keys cf) e k = Inr e') es es'"
  by (induction es arbitrary: es') (auto simp: list_all2_Cons1 split: sum.splits, metis sum.inject(2))

lemma open_all_append:
  "open_all cf (es @ fs) k =
     (case open_all cf es k of
        Inl err \<Rightarrow> Inl err
      | Inr es' \<Rightarrow> (case open_all cf fs k of Inl err \<Rightarrow> Inl err | Inr fs' \<Rightarrow> Inr (es' @ fs')))"
  by (induction es) (auto split: sum.splits)

lemma open_all_total:
  "(\<And>e. e \<in> set es \<Longrightarrow> \<exists>e'. pii_open (pc_crypto cf) (pc_keys cf) e k = Inr e') \<Longrightarrow>
   \<exists>es'. open_all cf es k = Inr es' \<and> length es' = length es"
  by (induction es) (fastforce split: sum.splits)+

lemma open_all_cong:
  "(\<And>e. e \<in> set es \<Longrightarrow> pii_open (pc_crypto cf) (pc_keys cf) e k = pii_open (pc_crypto cf) (pc_keys cf) e k') \<Longrightarrow>
   open_all cf es k = open_all cf es k'"
  by (induction es) (auto split: sum.splits)

text \<open>Opening looks neither at the tenant, the global id or the time nor at the mark.\<close>

lemma sealed_view:
  assumes "sealed c key fs e e'" "kept_view x = kept_view e'"
  defines "y \<equiv> e\<lparr>ev_global_id := ev_global_id x, ev_tenant_id := ev_tenant_id x, ev_occurred_at := ev_occurred_at x,
    ev_pii_unrecoverable := ev_pii_unrecoverable x\<rparr>"
  shows "sealed c key fs y x" "kept_view y = kept_view e"
    "ev_occurred_at e' = ev_occurred_at e" "ev_pii_unrecoverable e' = ev_pii_unrecoverable e"
proof -
  from assms(1) obtain r r' where "seal_payload c key fs e r = (None, e', r')" by (auto simp: sealed_def)
  from seal_payload_ok [OF this] obtain m z where m: "unmarshal_map (ev_payload e) = Inr m"
    "seal_fields c key fs m r = (Inr z, r')"
    "e' = e\<lparr>ev_payload := RawOk (marshal_map z), ev_pii_fields := RawOk (manifest_json fs)\<rparr>" by blast
  have "x = e'\<lparr>ev_global_id := ev_global_id x, ev_tenant_id := ev_tenant_id x, ev_occurred_at := ev_occurred_at x,
      ev_pii_unrecoverable := ev_pii_unrecoverable x\<rparr>"
    using assms(2) by (cases x; cases e') (simp add: kept_view_def stored_view_def)
  also have "\<dots> = y\<lparr>ev_payload := RawOk (marshal_map z), ev_pii_fields := RawOk (manifest_json fs)\<rparr>"
    by (simp add: m(3) y_def)
  finally have "seal_payload c key fs y r = (None, x, r')"
    using m(1,2) by (simp add: seal_payload_def y_def)
  then show "sealed c key fs y x" unfolding sealed_def by blast
  show "kept_view y = kept_view e" by (simp add: kept_view_def stored_view_def y_def)
  show "ev_occurred_at e' = ev_occurred_at e" "ev_pii_unrecoverable e' = ev_pii_unrecoverable e" by (simp_all add: m(3))
qed

lemma sealed_stored_view:
  assumes "sealed c key fs e e'" "stored_view x = stored_view e'"
  shows "\<exists>y. sealed c key fs y x \<and> stored_view y = stored_view e"
proof (intro exI conjI)
  note v = sealed_view [OF assms(1) stored_kept [OF assms(2)]]
  show "sealed c key fs (e\<lparr>ev_global_id := ev_global_id x, ev_tenant_id := ev_tenant_id x, ev_occurred_at := ev_occurred_at x,
    ev_pii_unrecoverable := ev_pii_unrecoverable x\<rparr>) x" by (rule v(1))
  show "stored_view (e\<lparr>ev_global_id := ev_global_id x, ev_tenant_id := ev_tenant_id x, ev_occurred_at := ev_occurred_at x,
    ev_pii_unrecoverable := ev_pii_unrecoverable x\<rparr>) = stored_view e"
    using stored_viewD(7,9) [OF assms(2)] v(3,4) by (simp add: stored_view_def)
qed

lemma replay_view_kept:
  "kept_view x = kept_view y \<Longrightarrow> replay_view x = replay_view y"
  by (auto simp: replay_view_def dest: kept_viewD)

section \<open>Sealing a batch\<close>

text \<open>The fields an event declares, as \<^verbatim>\<open>Commit\<close> finds out.\<close>

definition declared :: "'p payload_ops \<Rightarrow> 'p registry \<Rightarrow> domain_event \<Rightarrow> string list" where
  "declared ops reg e =
     (case registry_factory reg (ev_name e) of
        None \<Rightarrow> []
      | Some z \<Rightarrow>
          (case po_pii_fields ops (snd (po_unmarshal ops (ev_payload e) z)) of
             None \<Rightarrow> []
           | Some b \<Rightarrow> b ''payload''))"

definition seals :: "'p payload_ops \<Rightarrow> 'p registry \<Rightarrow> domain_event \<Rightarrow> bool" where
  "seals ops reg e \<longleftrightarrow> ev_pii_id e \<noteq> None \<and> declared ops reg e \<noteq> []"

text \<open>Event names whose payload type may ask for erasure.\<close>

definition erasing :: "'p payload_ops \<Rightarrow> 'p registry \<Rightarrow> string \<Rightarrow> bool" where
  "erasing ops reg name \<longleftrightarrow>
     (\<exists>z r. registry_factory reg name = Some z \<and> po_requests_erasure ops (snd (po_unmarshal ops r z)))"

lemma shred_all_noop:
  "(\<And>e. e \<in> set es \<Longrightarrow> \<not> erasing (pc_ops cf) (pc_registry cf) (ev_name e)) \<Longrightarrow>
   shred_all cf es w = (None, w)"
proof (induction es)
  case (Cons e es)
  from Cons.prems [of e] have "\<not> erasing (pc_ops cf) (pc_registry cf) (ev_name e)" by simp
  moreover from Cons.prems have "shred_all cf es w = (None, w)" by (intro Cons.IH) simp
  ultimately show ?case by (auto simp: payload_for_def erasing_def split: option.split)
qed simp

text \<open>One event of the sealing loop.\<close>

definition seal_one :: "('p, 's, 'k, 'l) pii_config \<Rightarrow> domain_event \<Rightarrow> rng \<times> 'k \<Rightarrow>
    error option \<times> domain_event \<times> rng \<times> 'k" where
  "seal_one cf e rk =
     (if seals (pc_ops cf) (pc_registry cf) e
      then pii_seal (pc_crypto cf) (pc_keys cf) e
             (Some ((\<lambda>_. [])(''payload'' := declared (pc_ops cf) (pc_registry cf) e))) rk
      else (None, e, rk))"

definition seal_of :: "('p, 's, 'k, 'l) pii_config \<Rightarrow> (uuid \<Rightarrow> bytes option) \<Rightarrow> domain_event \<Rightarrow> domain_event \<Rightarrow> bool" where
  "seal_of cf ks e e' \<longleftrightarrow>
     (if seals (pc_ops cf) (pc_registry cf) e
      then \<exists>p key. ev_pii_id e = Some p \<and> ks p = Some key
             \<and> sealed (pc_crypto cf) key (declared (pc_ops cf) (pc_registry cf) e) e e'
      else e' = e)"

lemma pii_seal_buckets:
  "b ''payload'' = b' ''payload'' \<Longrightarrow> pii_seal c kr e (Some b) rk = pii_seal c kr e (Some b') rk"
  by (cases rk; cases "ev_pii_id e") (simp_all add: pii_seal_def)

lemma seal_all_Cons:
  "seal_all cf (e # es) (r, k) =
     (case seal_one cf e (r, k) of
        (Some err, e', r1, k1) \<Rightarrow> (Some err, e' # es, r1, k1)
      | (None, e', r1, k1) \<Rightarrow>
          (let (x2, es', r2, k2) = seal_all cf es (r1, k1) in (x2, e' # es', r2, k2)))"
proof -
  have "(case payload_for cf e of
           None \<Rightarrow> (None, e, r, k)
         | Some p \<Rightarrow>
             (case po_pii_fields (pc_ops cf) p of
                None \<Rightarrow> (None, e, r, k)
              | Some b \<Rightarrow> pii_seal (pc_crypto cf) (pc_keys cf) e (Some b) (r, k))) = seal_one cf e (r, k)"
  proof (cases "seals (pc_ops cf) (pc_registry cf) e")
    case True
    then show ?thesis
      by (auto simp: seal_one_def seals_def declared_def payload_for_def split: option.splits
          intro!: pii_seal_buckets)
  next
    case False
    then show ?thesis
      by (auto simp: seal_one_def seals_def declared_def payload_for_def pii_seal_def split: option.splits)
  qed
  then show ?thesis by (simp add: Let_def split: prod.split option.split)
qed

context reliable_keyring
begin

text \<open>Whatever its outcome, \<^verbatim>\<open>Seal\<close> at most issues a key to a subject that has none.\<close>

lemma seal_effect:
  assumes "inv k" "pii_seal c kr e (Some b) (r, k) = (x, e', r', k')"
  shows "inv k' \<and> batch_view e' = batch_view e
    \<and> (keys k' = keys k \<or> (\<exists>p key. ev_pii_id e = Some p \<and> b ''payload'' \<noteq> [] \<and> keys k p = None
        \<and> length key = 32 \<and> keys k' = (keys k)(p \<mapsto> key)))"
proof -
  have view: "batch_view y = batch_view e" if "seal_payload c key fs e q = (z, y, q')" for key fs q z y q'
    using that by (auto simp: seal_payload_def batch_view_def split: sum.splits prod.splits)
  show ?thesis
  proof (cases "ev_pii_id e = None \<or> b ''payload'' = []")
    case True
    then have "pii_seal c kr e (Some b) (r, k) = (None, e, r, k)" by (intro seal_noop) auto
    with assms show ?thesis by simp
  next
    case False
    then obtain p where p: "ev_pii_id e = Some p" "b ''payload'' \<noteq> []" by auto
    have get: "kr_get kr p k = Inr (keys k p)" by (rule get_eq [OF assms(1)])
    show ?thesis
    proof (cases "keys k p")
      case (Some key)
      with assms p get show ?thesis by (auto simp: pii_seal_def split: prod.splits dest: view)
    next
      case None
      obtain key r1 where rd: "rand_read 32 r = (key, r1)" by force
      obtain r2 k2 where put: "kr_put kr p key (r1, k) = (None, r2, k2)" "inv k2"
        "keys k2 = (keys k)(p \<mapsto> key)" by (rule put_total [OF assms(1)])
      obtain z y q where sp: "seal_payload c key (b ''payload'') e r2 = (z, y, q)" by (metis prod_cases3)
      have "e' = y" "k' = k2"
        using assms(2) p get None rd put(1) sp by (auto simp: pii_seal_def)
      with view [OF sp] put length_rand_read [OF rd] p None show ?thesis by auto
    qed
  qed
qed

lemma seal_one_effect:
  assumes "inv k" "seal_one cf e (r, k) = (x, e', r', k')" "pc_keys cf = kr"
  shows "inv k' \<and> batch_view e' = batch_view e \<and> keys k \<subseteq>\<^sub>m keys k'
    \<and> (\<forall>p key. keys k' p = Some key \<longrightarrow> keys k p = Some key \<or> keys k p = None \<and> length key = 32
         \<and> seals (pc_ops cf) (pc_registry cf) e \<and> ev_pii_id e = Some p)
    \<and> (x = None \<longrightarrow> seal_of cf (keys k') e e')"
proof (cases "seals (pc_ops cf) (pc_registry cf) e")
  case False
  with assms show ?thesis by (auto simp: seal_one_def seal_of_def)
next
  case True
  let ?fs = "declared (pc_ops cf) (pc_registry cf) e"
  let ?b = "(\<lambda>_. [])(''payload'' := ?fs)"
  from True obtain p where p: "ev_pii_id e = Some p" and fs: "?fs \<noteq> []" by (auto simp: seals_def)
  from True assms have seal: "pii_seal (pc_crypto cf) kr e (Some ?b) (r, k) = (x, e', r', k')"
    by (simp add: seal_one_def)
  note eff = seal_effect [OF assms(1) seal]
  have "\<exists>p key. ev_pii_id e = Some p \<and> keys k' p = Some key \<and> sealed (pc_crypto cf) key ?fs e e'" if "x = None"
  proof -
    from seal that have "pii_seal (pc_crypto cf) kr e (Some ?b) (r, k) = (None, e', r', k')" by simp
    then obtain key where "keys k' = (keys k)(p \<mapsto> key)" "sealed (pc_crypto cf) key ?fs e e'"
      by (rule seal_ok [OF assms(1) _ p _ fs]) simp_all
    with p show ?thesis by simp
  qed
  moreover from eff p consider "keys k' = keys k"
    | key where "keys k p = None" "length key = 32" "keys k' = (keys k)(p \<mapsto> key)"
    by (elim conjE disjE exE) auto
  then have "keys k \<subseteq>\<^sub>m keys k' \<and> (\<forall>q key. keys k' q = Some key \<longrightarrow> keys k q = Some key
      \<or> keys k q = None \<and> length key = 32 \<and> seals (pc_ops cf) (pc_registry cf) e \<and> ev_pii_id e = Some q)"
  proof cases
    case 2
    with True p show ?thesis by (simp add: map_le_def dom_def)
  qed simp
  moreover from eff have "inv k'" "batch_view e' = batch_view e" by blast+
  ultimately show ?thesis using True by (simp add: seal_of_def)
qed

lemma seal_all_effect:
  assumes "inv k" "seal_all cf es (r, k) = (x, es', r', k')" "pc_keys cf = kr"
  shows "inv k' \<and> map batch_view es' = map batch_view es \<and> keys k \<subseteq>\<^sub>m keys k'
    \<and> (\<forall>p key. keys k' p = Some key \<longrightarrow> keys k p = Some key \<or> keys k p = None \<and> length key = 32
         \<and> (\<exists>e \<in> set es. seals (pc_ops cf) (pc_registry cf) e \<and> ev_pii_id e = Some p))
    \<and> (x = None \<longrightarrow> list_all2 (seal_of cf (keys k')) es es')"
  using assms(1,2)
proof (induction es arbitrary: r k es')
  case (Cons e es)
  obtain y e1 r1 k1 where one: "seal_one cf e (r, k) = (y, e1, r1, k1)" by (metis prod_cases4)
  note eff = seal_one_effect [OF Cons.prems(1) one assms(3)]
  show ?case
  proof (cases y)
    case (Some err)
    with Cons.prems(2) one have "x = Some err" "es' = e1 # es" "k' = k1"
      by (simp_all add: seal_all_Cons del: seal_all.simps)
    with eff show ?thesis by auto
  next
    case None
    obtain es1 where rest: "seal_all cf es (r1, k1) = (x, es1, r', k')" and es': "es' = e1 # es1"
      using Cons.prems(2) one None by (auto simp: seal_all_Cons Let_def simp del: seal_all.simps split: prod.splits)
    have "inv k1" using eff by blast
    note ih = Cons.IH [OF this rest]
    have le: "keys k1 \<subseteq>\<^sub>m keys k'" using ih by blast
    then have "keys k' p = Some key" if "keys k1 p = Some key" for p key
      using that unfolding map_le_def by (metis domI)
    with eff None have "seal_of cf (keys k') e e1" unfolding seal_of_def by auto
    moreover have "keys k \<subseteq>\<^sub>m keys k'" using eff le by (blast intro: map_le_trans)
    moreover have "\<forall>p key. keys k' p = Some key \<longrightarrow> keys k p = Some key \<or> keys k p = None \<and> length key = 32
         \<and> (\<exists>e \<in> set (e # es). seals (pc_ops cf) (pc_registry cf) e \<and> ev_pii_id e = Some p)"
    proof (intro allI impI)
      fix p key assume "keys k' p = Some key"
      with ih [THEN conjunct2, THEN conjunct2, THEN conjunct2, THEN conjunct1, rule_format, of p key]
      consider "keys k1 p = Some key"
        | "keys k1 p = None" "length key = 32" "\<exists>e \<in> set es. seals (pc_ops cf) (pc_registry cf) e \<and> ev_pii_id e = Some p"
        by fastforce
      then show "keys k p = Some key \<or> keys k p = None \<and> length key = 32
         \<and> (\<exists>e \<in> set (e # es). seals (pc_ops cf) (pc_registry cf) e \<and> ev_pii_id e = Some p)"
      proof cases
        case 1
        from eff [THEN conjunct2, THEN conjunct2, THEN conjunct2, THEN conjunct1, rule_format, OF this]
        have "keys k p = Some key \<or> keys k p = None \<and> length key = 32
            \<and> seals (pc_ops cf) (pc_registry cf) e \<and> ev_pii_id e = Some p" .
        then show ?thesis by auto
      next
        case 2
        from eff have "keys k \<subseteq>\<^sub>m keys k1" by blast
        with 2(1) have "keys k p = None" by (auto simp: map_le_def dom_def)
        with 2 show ?thesis by auto
      qed
    qed
    moreover have "inv k'" "map batch_view es' = map batch_view (e # es)" using eff ih es' by simp_all
    moreover have "x = None \<longrightarrow> list_all2 (seal_of cf (keys k')) es es1" using ih by blast
    ultimately show ?thesis by (simp add: es')
  qed
qed simp

end

section \<open>The contract of the decorated store\<close>

definition opened :: "('p, 's, 'k, 'l) pii_config \<Rightarrow> 'k \<Rightarrow> domain_event \<Rightarrow> domain_event" where
  "opened cf k e = projr (pii_open (pc_crypto cf) (pc_keys cf) e k)"

definition openable :: "('p, 's, 'k, 'l) pii_config \<Rightarrow> 'k \<Rightarrow> domain_event \<Rightarrow> bool" where
  "openable cf k e \<longleftrightarrow> (\<exists>e'. pii_open (pc_crypto cf) (pc_keys cf) e k = Inr e')"

text \<open>What a reader sees of the streams of the store underneath.\<close>

definition pii_stream :: "('p, 's, 'k, 'l) pii_config \<Rightarrow> ('s \<Rightarrow> uuid \<Rightarrow> domain_event list) \<Rightarrow>
    ('s, 'k, 'l) pii_world \<Rightarrow> uuid \<Rightarrow> domain_event list" where
  "pii_stream cf stream w i = map (opened cf (pw_keys w)) (stream (pw_store w) i)"

definition pii_inv :: "('p, 's, 'k, 'l) pii_config \<Rightarrow> ('s \<Rightarrow> bool) \<Rightarrow> ('s \<Rightarrow> uuid \<Rightarrow> domain_event list) \<Rightarrow>
    ('k \<Rightarrow> bool) \<Rightarrow> ('s, 'k, 'l) pii_world \<Rightarrow> bool" where
  "pii_inv cf sinv stream kinv w \<longleftrightarrow> crypto_ok (pc_crypto cf) \<and> sinv (pw_store w) \<and> kinv (pw_keys w)
     \<and> (\<forall>i. \<forall>e \<in> set (stream (pw_store w) i). openable cf (pw_keys w) e)"

text \<open>A recorded event that was not sealed yet and asks for no erasure.\<close>

definition pii_fresh :: "('p, 's, 'k, 'l) pii_config \<Rightarrow> domain_event \<Rightarrow> bool" where
  "pii_fresh cf e \<longleftrightarrow> ev_pii_fields e = RawNil \<and> \<not> erasing (pc_ops cf) (pc_registry cf) (ev_name e)
     \<and> (seals (pc_ops cf) (pc_registry cf) e \<longrightarrow>
          sealable (pc_crypto cf) (declared (pc_ops cf) (pc_registry cf) e) e)"

text \<open>
  No sealed event of the subject is stored, as long as it has no key: sealing would issue a new key,
  which does not open what was sealed under a forgotten one.
\<close>

definition no_old_seals :: "(uuid \<Rightarrow> bytes option) \<Rightarrow> (uuid \<Rightarrow> domain_event list) \<Rightarrow> domain_event \<Rightarrow> bool" where
  "no_old_seals ks str e \<longleftrightarrow> (\<forall>p. ev_pii_id e = Some p \<longrightarrow> ks p = None \<longrightarrow>
     (\<forall>j. \<forall>x \<in> set (str j). ev_pii_id x = Some p \<longrightarrow> ev_pii_fields x = RawNil))"

definition pii_batch :: "('p, 's, 'k, 'l) pii_config \<Rightarrow> ('s \<Rightarrow> uuid \<Rightarrow> domain_event list) \<Rightarrow>
    ('s \<Rightarrow> uuid \<Rightarrow> domain_event list \<Rightarrow> bool) \<Rightarrow> ('k \<Rightarrow> uuid \<Rightarrow> bytes option) \<Rightarrow>
    ('s, 'k, 'l) pii_world \<Rightarrow> uuid \<Rightarrow> domain_event list \<Rightarrow> bool" where
  "pii_batch cf stream batch keys w i es \<longleftrightarrow> batch (pw_store w) i es
     \<and> (\<forall>e \<in> set es. pii_fresh cf e
          \<and> (seals (pc_ops cf) (pc_registry cf) e \<longrightarrow> no_old_seals (keys (pw_keys w)) (stream (pw_store w)) e))"

lemma sealed_names:
  assumes "list_all2 (seal_of cf ks) es es1" "map stored_view es2 = map stored_view es1"
  shows "map ev_name es2 = map ev_name es"
proof -
  from arg_cong [OF assms(2), of "map ev_name"] have "map ev_name es2 = map ev_name es1"
    by (simp add: comp_def stored_view_def)
  also from assms(1) have "map ev_name es1 = map ev_name es"
  proof (induction rule: list_all2_induct)
    case (Cons e es e1 es1)
    then show ?case by (auto simp: seal_of_def dest!: sealed_frame split: if_splits)
  qed simp
  finally show ?thesis .
qed

lemma shred_sealed_noop:
  assumes "list_all2 (seal_of cf ks) es es1" "map stored_view es2 = map stored_view es1"
    and "\<forall>e \<in> set es. pii_fresh cf e"
  shows "shred_all cf es2 u = (None, u)"
proof (rule shred_all_noop)
  fix e assume "e \<in> set es2"
  with sealed_names [OF assms(1,2)] have "ev_name e \<in> ev_name ` set es" by (metis image_eqI list.set_map)
  with assms(3) show "\<not> erasing (pc_ops cf) (pc_registry cf) (ev_name e)" by (auto simp: pii_fresh_def)
qed

lemma openable_opened: "openable cf k e \<Longrightarrow> pii_open (pc_crypto cf) (pc_keys cf) e k = Inr (opened cf k e)"
  by (auto simp: openable_def opened_def)

lemma open_all_openable:
  "(\<And>e. e \<in> set es \<Longrightarrow> openable cf k e) \<Longrightarrow> open_all cf es k = Inr (map (opened cf k) es)"
  by (simp add: open_all_Inr_iff list_all2_map2 list_all2_same openable_opened)

lemma opened_version: "openable cf k e \<Longrightarrow> ev_aggregate_version (opened cf k e) = ev_aggregate_version e"
  by (auto dest!: openable_opened open_frame)

lemma current_version_opened:
  "(\<And>e. e \<in> set es \<Longrightarrow> openable cf k e) \<Longrightarrow> current_version (map (opened cf k) es) = current_version es"
  by (simp add: current_version_def last_map opened_version)

context reliable_keyring
begin

text \<open>Keys issued by a commit change nothing for the events that were there.\<close>

lemma open_new_keys:
  assumes "inv k" "inv k'" "\<And>p. ev_pii_id e = Some p \<Longrightarrow> keys k' p = keys k p \<or> ev_pii_fields e = RawNil"
  shows "pii_open c kr e k' = pii_open c kr e k"
proof (cases "ev_pii_id e = None \<or> ev_pii_fields e = RawNil")
  case True
  then show ?thesis by (simp add: open_untouched)
next
  case False
  then obtain p where p: "ev_pii_id e = Some p" "ev_pii_fields e \<noteq> RawNil" by auto
  with assms(3) have "keys k' p = keys k p" by blast
  then have get: "kr_get kr p k' = kr_get kr p k" by (simp add: get_eq assms(1,2))
  show ?thesis unfolding pii_open_def p(1) option.case get by (rule refl)
qed

end

locale pii_store =
  base: faithful_store st opts sinv stream batch + ring: reliable_keyring kr kinv keys
  for st :: "'s event_store_ops" and opts :: "store_option list" and sinv :: "'s \<Rightarrow> bool"
    and stream :: "'s \<Rightarrow> uuid \<Rightarrow> domain_event list" and batch :: "'s \<Rightarrow> uuid \<Rightarrow> domain_event list \<Rightarrow> bool"
    and kr :: "'k keyring_ops" and kinv :: "'k \<Rightarrow> bool" and keys :: "'k \<Rightarrow> uuid \<Rightarrow> bytes option" +
  fixes cf :: "('p, 's, 'k, 'l) pii_config"
  assumes cf_store: "pc_store cf = st" and cf_keys: "pc_keys cf = kr"
begin

abbreviation pinv :: "('s, 'k, 'l) pii_world \<Rightarrow> bool" where
  "pinv \<equiv> pii_inv cf sinv stream kinv"

abbreviation pstream :: "('s, 'k, 'l) pii_world \<Rightarrow> uuid \<Rightarrow> domain_event list" where
  "pstream \<equiv> pii_stream cf stream"

abbreviation pbatch :: "('s, 'k, 'l) pii_world \<Rightarrow> uuid \<Rightarrow> domain_event list \<Rightarrow> bool" where
  "pbatch \<equiv> pii_batch cf stream batch keys"

lemma pinvD:
  assumes "pinv w"
  shows "crypto_ok (pc_crypto cf)" "sinv (pw_store w)" "kinv (pw_keys w)"
    "e \<in> set (stream (pw_store w) i) \<Longrightarrow> openable cf (pw_keys w) e"
  using assms by (auto simp: pii_inv_def)

text \<open>The sealing loop, on a batch the decorated store accepts.\<close>

lemma seal_batch:
  assumes "pinv w" "pbatch w i es" "seal_all cf es (pw_rng w, pw_keys w) = (x, es1, r, k)"
  shows "kinv k" "batch (pw_store w) i es1" "length es1 = length es"
    "\<forall>j. \<forall>e \<in> set (stream (pw_store w) j).
       pii_open (pc_crypto cf) kr e k = pii_open (pc_crypto cf) kr e (pw_keys w)"
    "x = None \<Longrightarrow> list_all2 (seal_of cf (keys k)) es es1"
proof -
  note eff = ring.seal_all_effect [OF pinvD(3) [OF assms(1)] assms(3) cf_keys]
  show "kinv k" using eff by blast
  have view: "map batch_view es1 = map batch_view es" using eff by blast
  with assms(2) show "batch (pw_store w) i es1"
    by (auto simp: pii_batch_def base.batch_cong [OF view])
  from view show "length es1 = length es" by (metis length_map)
  show "x = None \<Longrightarrow> list_all2 (seal_of cf (keys k)) es es1" using eff by blast
  have "pii_open (pc_crypto cf) kr e k = pii_open (pc_crypto cf) kr e (pw_keys w)"
    if e: "e \<in> set (stream (pw_store w) j)" for e j
  proof (rule ring.open_new_keys [OF pinvD(3) [OF assms(1)] \<open>kinv k\<close>])
    fix p assume p: "ev_pii_id e = Some p"
    show "keys k p = keys (pw_keys w) p \<or> ev_pii_fields e = RawNil"
    proof (cases "keys (pw_keys w) p")
      case (Some key)
      then have "keys k p = Some key" using eff by (auto simp: map_le_def dom_def)
      with Some show ?thesis by simp
    next
      case None
      show ?thesis
      proof (cases "keys k p")
        case (Some key)
        with eff None obtain e0 where "e0 \<in> set es" "seals (pc_ops cf) (pc_registry cf) e0"
          "ev_pii_id e0 = Some p" by fastforce
        with assms(2) None e p show ?thesis unfolding pii_batch_def no_old_seals_def by blast
      qed (simp add: None)
    qed
  qed
  then show "\<forall>j. \<forall>e \<in> set (stream (pw_store w) j).
       pii_open (pc_crypto cf) kr e k = pii_open (pc_crypto cf) kr e (pw_keys w)" by blast
qed

text \<open>How an accepted event reads once it is stored.\<close>

lemma stored_event_opens:
  assumes "crypto_ok (pc_crypto cf)" "kinv k" "pii_fresh cf e" "seal_of cf (keys k) e e1"
    and "kept_view x = kept_view e1"
  shows "openable cf k x \<and> replay_view (opened cf k x) = replay_view e"
proof (cases "seals (pc_ops cf) (pc_registry cf) e")
  case True
  let ?fs = "declared (pc_ops cf) (pc_registry cf) e"
  from assms(4) True obtain p key where p: "ev_pii_id e = Some p" "keys k p = Some key"
    and sl: "sealed (pc_crypto cf) key ?fs e e1" by (auto simp: seal_of_def)
  from sealed_view(1,2) [OF sl assms(5)] obtain y where y: "sealed (pc_crypto cf) key ?fs y x"
    "kept_view y = kept_view e" by blast
  have "sealable (pc_crypto cf) ?fs y"
    using assms(3) True kept_viewD(2) [OF y(2)] by (simp add: pii_fresh_def sealable_def)
  moreover have "ev_pii_id y = Some p" using kept_viewD(5) [OF y(2)] p(1) by simp
  moreover have "kr_get kr p k = Inr (Some key)" using ring.get_eq [OF assms(2)] p(2) by simp
  ultimately have "pii_open (pc_crypto cf) kr x k = Inr (y\<lparr>ev_pii_fields := RawOk (manifest_json ?fs)\<rparr>)"
    by (rule open_sealed [OF assms(1) y(1)])
  then have "openable cf k x" "opened cf k x = y\<lparr>ev_pii_fields := RawOk (manifest_json ?fs)\<rparr>"
    by (simp_all add: openable_def opened_def cf_keys)
  with replay_view_kept [OF y(2)] show ?thesis by (simp add: replay_view_def)
next
  case False
  with assms(4) have "e1 = e" by (simp add: seal_of_def)
  with assms(3,5) have "ev_pii_fields x = RawNil" by (auto simp: pii_fresh_def dest: kept_viewD)
  then have "openable cf k x" "opened cf k x = x" by (auto simp: openable_def opened_def open_untouched)
  with assms(5) \<open>e1 = e\<close> show ?thesis by (auto dest: replay_view_kept)
qed

text \<open>A successful commit, in one statement.\<close>

lemma pii_commit_ok:
  assumes "pinv w" "pbatch w i es" "es \<noteq> []" "pii_commit cf es v opts w = (None, es', w')"
  obtains es1 k fs where "st_commit st es1 v opts (pw_store w) = (None, es', pw_store w')"
    "pw_keys w' = k" "kinv k" "batch (pw_store w) i es1" "es1 \<noteq> []"
    "\<forall>j. \<forall>e \<in> set (stream (pw_store w) j).
       pii_open (pc_crypto cf) kr e k = pii_open (pc_crypto cf) kr e (pw_keys w)"
    "list_all2 (seal_of cf (keys k)) es es1" "map stored_view es' = map stored_view es1"
    "stream (pw_store w') i = stream (pw_store w) i @ fs" "map kept_view fs = map kept_view es1"
proof -
  obtain x es1 r k where sa: "seal_all cf es (pw_rng w, pw_keys w) = (x, es1, r, k)" by (metis prod_cases4)
  note sb = seal_batch [OF assms(1,2) sa]
  have "x = None" using assms(4) sa by (cases x) (simp_all add: pii_commit_def)
  obtain y es2 s where c: "st_commit st es1 v opts (pw_store w) = (y, es2, s)" by (metis prod_cases3)
  have "y = None" using assms(4) sa c \<open>x = None\<close> by (cases y) (simp_all add: pii_commit_def cf_store)
  have "es1 \<noteq> []" using sb(3) assms(3) by auto
  from base.commit_stores [OF pinvD(2) [OF assms(1)] sb(2) this c [unfolded \<open>y = None\<close>]]
  obtain fs where stored: "map stored_view es2 = map stored_view es1"
    "stream s i = stream (pw_store w) i @ fs" "map kept_view fs = map kept_view es1" by blast
  have seal: "list_all2 (seal_of cf (keys k)) es es1" by (rule sb(5) [OF \<open>x = None\<close>])
  have "shred_all cf es2 u = (None, u)" for u
    using assms(2) by (intro shred_sealed_noop [OF seal stored(1)]) (simp add: pii_batch_def)
  with assms(4) sa c \<open>x = None\<close> \<open>y = None\<close>
  have "es' = es2" "w' = w\<lparr>pw_store := s, pw_keys := k, pw_rng := r\<rparr>"
    by (simp_all add: pii_commit_def cf_store)
  with that [of es1 k fs] c \<open>y = None\<close> sb(1,2,4) \<open>es1 \<noteq> []\<close> seal stored show thesis by simp
qed

lemma pstream_same_keys:
  assumes "\<forall>j. \<forall>e \<in> set (stream (pw_store w) j).
       pii_open (pc_crypto cf) kr e k = pii_open (pc_crypto cf) kr e (pw_keys w)"
  shows "map (opened cf k) (stream (pw_store w) j) = pstream w j"
    "e \<in> set (stream (pw_store w) j) \<Longrightarrow> openable cf k e = openable cf (pw_keys w) e"
  using assms by (auto simp: pii_stream_def opened_def openable_def cf_keys)

end

sublocale pii_store \<subseteq> pii: event_store "pii_store_ops cf" opts pinv pstream pbatch
proof unfold_locales
  fix w i assume inv: "pinv w" and "pstream w i \<noteq> []"
  then have "stream (pw_store w) i \<noteq> []" by (auto simp: pii_stream_def)
  from base.load_stream [OF pinvD(2) [OF inv] this] open_all_openable [OF pinvD(4) [OF inv]]
  show "st_load (pii_store_ops cf) i opts w = Inr (pstream w i)"
    by (simp add: pii_load_def cf_store pii_stream_def)
next
  fix w i es v r es' w'
  assume a: "pinv w" "pbatch w i es" "es \<noteq> []" "st_commit (pii_store_ops cf) es v opts w = (r, es', w')"
    and cv: "current_version (pstream w i) \<noteq> v"
  obtain x es1 rn k where sa: "seal_all cf es (pw_rng w, pw_keys w) = (x, es1, rn, k)" by (metis prod_cases4)
  note sb = seal_batch [OF a(1,2) sa]
  note same = pstream_same_keys [OF sb(4)]
  have "current_version (stream (pw_store w) i) \<noteq> v"
    using cv current_version_opened [OF pinvD(4) [OF a(1)]] by (simp add: pii_stream_def)
  moreover have "es1 \<noteq> []" using sb(3) a(3) by auto
  moreover obtain y es2 s where c: "st_commit st es1 v opts (pw_store w) = (y, es2, s)" by (metis prod_cases3)
  ultimately have y: "y \<noteq> None" and s: "sinv s" "stream s = stream (pw_store w)"
    using base.commit_conflict [OF pinvD(2) [OF a(1)] sb(2)] by blast+
  have w': "r \<noteq> None \<and> (pw_store w' = pw_store w \<or> pw_store w' = s) \<and> pw_keys w' = k"
    using a(4) sa c y by (cases x; cases y) (auto simp: pii_commit_def cf_store)
  then have st: "sinv (pw_store w')" "stream (pw_store w') = stream (pw_store w)"
    using s pinvD(2) [OF a(1)] by auto
  have "pinv w'"
    unfolding pii_inv_def st(2) using pinvD [OF a(1)] st(1) sb(1) w' same(2) by auto
  moreover have "pstream w' = pstream w"
    unfolding fun_eq_iff using same(1) w' by (auto simp: pii_stream_def st(2))
  ultimately show "r \<noteq> None \<and> pinv w' \<and> pstream w' = pstream w" using w' by blast
next
  fix w i es v es' w'
  assume a: "pinv w" "pbatch w i es" "es \<noteq> []" "st_commit (pii_store_ops cf) es v opts w = (None, es', w')"
  then have "pii_commit cf es v opts w = (None, es', w')" by simp
  from pii_commit_ok [OF a(1-3) this] obtain es1 k fs where c: "st_commit st es1 v opts (pw_store w) = (None, es', pw_store w')"
    "pw_keys w' = k" "kinv k" "batch (pw_store w) i es1" "es1 \<noteq> []"
    "\<forall>j. \<forall>e \<in> set (stream (pw_store w) j).
       pii_open (pc_crypto cf) kr e k = pii_open (pc_crypto cf) kr e (pw_keys w)"
    "list_all2 (seal_of cf (keys k)) es es1" "map kept_view fs = map kept_view es1"
    "stream (pw_store w') i = stream (pw_store w) i @ fs" by metis
  note same = pstream_same_keys [OF c(6)]
  from base.commit_appends [OF pinvD(2) [OF a(1)] c(4,5,1)]
  have ap: "sinv (pw_store w')" "current_version (stream (pw_store w) i) = v" by blast+
  have opens: "openable cf k (fs ! n) \<and> replay_view (opened cf k (fs ! n)) = replay_view (es ! n)"
    if "n < length es" for n
  proof (rule stored_event_opens [OF pinvD(1) [OF a(1)] c(3)])
    show "pii_fresh cf (es ! n)" using a(2) that by (auto simp: pii_batch_def)
    show "seal_of cf (keys k) (es ! n) (es1 ! n)" using c(7) that by (auto simp: list_all2_conv_all_nth)
    show "kept_view (fs ! n) = kept_view (es1 ! n)"
      using c(7,8) that by (metis list_all2_lengthD map_eq_imp_length_eq nth_map)
  qed
  have len: "length fs = length es" using c(7,8) by (metis list_all2_lengthD map_eq_imp_length_eq)
  have "pinv w'" unfolding pii_inv_def
  proof (intro conjI allI ballI)
    fix j e assume e: "e \<in> set (stream (pw_store w') j)"
    show "openable cf (pw_keys w') e"
    proof (cases "e \<in> set (stream (pw_store w) j)")
      case True
      then show ?thesis using same(2) pinvD(4) [OF a(1)] c(2) by blast
    next
      case False
      with e base.commit_frame [OF pinvD(2) [OF a(1)] c(4,5,1), of j] have "j = i" by metis
      with e False c(9) have "e \<in> set fs" by auto
      then show ?thesis using opens len c(2) by (metis in_set_conv_nth)
    qed
  qed (use ap(1) c(2,3) pinvD(1) [OF a(1)] in auto)
  moreover have "current_version (pstream w i) = v"
    using ap(2) current_version_opened [OF pinvD(4) [OF a(1)]] by (simp add: pii_stream_def)
  moreover have "pstream w' i = pstream w i @ map (opened cf k) fs"
    using same(1) [of i] by (simp add: pii_stream_def c(2,9))
  moreover have "map replay_view (map (opened cf k) fs) = map replay_view es"
    using opens len by (simp add: list_eq_iff_nth_eq)
  ultimately show "pinv w' \<and> current_version (pstream w i) = v
      \<and> (\<exists>fs. pstream w' i = pstream w i @ fs \<and> map replay_view fs = map replay_view es)" by blast
next
  fix w i es v es' w' j
  assume a: "pinv w" "pbatch w i es" "es \<noteq> []" "st_commit (pii_store_ops cf) es v opts w = (None, es', w')"
    and "j \<noteq> i"
  then have "pii_commit cf es v opts w = (None, es', w')" by simp
  from pii_commit_ok [OF a(1-3) this] obtain es1 k where c: "st_commit st es1 v opts (pw_store w) = (None, es', pw_store w')"
    "pw_keys w' = k" "batch (pw_store w) i es1" "es1 \<noteq> []"
    "\<forall>j. \<forall>e \<in> set (stream (pw_store w) j).
       pii_open (pc_crypto cf) kr e k = pii_open (pc_crypto cf) kr e (pw_keys w)" by metis
  from base.commit_frame [OF pinvD(2) [OF a(1)] c(3,4,1) \<open>j \<noteq> i\<close>] pstream_same_keys(1) [OF c(5)]
  show "pstream w' j = pstream w j" by (simp add: pii_stream_def c(2))
qed

context reliable_keyring
begin

text \<open>The sealing loop succeeds on events that can be sealed.\<close>

lemma seal_all_total:
  assumes "inv k" "\<forall>p key. keys k p = Some key \<longrightarrow> aes_key_ok key" "pc_keys cf = kr"
    and "\<forall>e \<in> set es. pii_fresh cf e"
  shows "fst (seal_all cf es (r, k)) = None"
  using assms(1,2,4)
proof (induction es arbitrary: r k)
  case (Cons e es)
  have one: "fst (seal_one cf e (r, k)) = None"
  proof (cases "seals (pc_ops cf) (pc_registry cf) e")
    case True
    let ?fs = "declared (pc_ops cf) (pc_registry cf) e"
    from True obtain p where p: "ev_pii_id e = Some p" and fs: "?fs \<noteq> []" by (auto simp: seals_def)
    from Cons.prems(3) True obtain m where m: "ev_payload e = RawOk (JObj m)"
      by (auto simp: pii_fresh_def sealable_def)
    obtain e' r' k' where "pii_seal (pc_crypto cf) kr e (Some ((\<lambda>_. [])(''payload'' := ?fs))) (r, k)
        = (None, e', r', k')"
      using seal_total [of k e p "(\<lambda>_. [])(''payload'' := ?fs)" ?fs m "pc_crypto cf" r]
        Cons.prems(1,2) p fs m by auto
    with True show ?thesis by (simp add: seal_one_def assms(3))
  qed (simp add: seal_one_def)
  obtain x e1 r1 k1 where eq: "seal_one cf e (r, k) = (x, e1, r1, k1)" by (metis prod_cases4)
  with one have x: "x = None" by simp
  note eff = seal_one_effect [OF Cons.prems(1) eq assms(3)]
  have "fst (seal_all cf es (r1, k1)) = None"
  proof (rule Cons.IH)
    show "inv k1" using eff by blast
    show "\<forall>p key. keys k1 p = Some key \<longrightarrow> aes_key_ok key"
    proof (intro allI impI)
      fix p key assume "keys k1 p = Some key"
      with eff have "keys k p = Some key \<or> length key = 32" by blast
      with Cons.prems(2) show "aes_key_ok key" by (auto simp: aes_key_ok_def)
    qed
    show "\<forall>e \<in> set es. pii_fresh cf e" using Cons.prems(3) by simp
  qed
  then show ?case
    by (auto simp: seal_all_Cons eq x Let_def simp del: seal_all.simps split: prod.splits)
qed simp

end

text \<open>So a commit succeeds whenever the store underneath takes the sealed events.\<close>

context pii_store
begin

lemma pii_commit_total:
  assumes inv: "pinv w" and b: "pbatch w i es" "es \<noteq> []"
    and usable: "\<forall>p key. keys (pw_keys w) p = Some key \<longrightarrow> aes_key_ok key"
    and takes: "\<And>es1. batch (pw_store w) i es1 \<Longrightarrow> length es1 = length es \<Longrightarrow> fst (st_commit st es1 v opts (pw_store w)) = None"
  shows "\<exists>es' w'. pii_commit cf es v opts w = (None, es', w')"
proof -
  obtain x es1 r k where sa: "seal_all cf es (pw_rng w, pw_keys w) = (x, es1, r, k)" by (metis prod_cases4)
  have fresh: "\<forall>e \<in> set es. pii_fresh cf e" using b(1) by (simp add: pii_batch_def)
  from ring.seal_all_total [OF pinvD(3) [OF inv] usable cf_keys fresh, of "pw_rng w"] sa have x: "x = None" by simp
  note sb = seal_batch [OF inv b(1) sa]
  have "es1 \<noteq> []" using sb(3) b(2) by auto
  from takes [OF sb(2,3)] obtain es2 s where c: "st_commit st es1 v opts (pw_store w) = (None, es2, s)"
    by (metis prod.collapse)
  from base.commit_stores [OF pinvD(2) [OF inv] sb(2) \<open>es1 \<noteq> []\<close> c]
  have "shred_all cf es2 u = (None, u)" for u
    by (intro shred_sealed_noop [OF sb(5) [OF x] _ fresh]) blast
  with sa x c show ?thesis by (simp add: pii_commit_def cf_store)
qed

end

end
