(* ===== verification/Es_Repository.thy ===== *)
theory Es_Repository
  imports Es_Store Es_Aggregate
begin

text \<open>
  \<^verbatim>\<open>es/repository.go\<close>: \<^verbatim>\<open>Repository.Load\<close> and \<^verbatim>\<open>Repository.Save\<close> over any store and any aggregate. The
  locale \<open>repository\<close> joins the two contracts it relies on, \<open>event_store\<close> and \<open>event_sourced\<close>, and
  proves that what was saved is what is loaded, that a lost race leaves the aggregate as it was,
  and that a loaded aggregate can be saved again.
\<close>

section \<open>Operations\<close>

definition repo_load :: "'s event_store_ops \<Rightarrow> 'p payload_ops \<Rightarrow> ('p, 'a) applier \<Rightarrow> 'p registry \<Rightarrow>
    'a base_aggregate_scheme \<Rightarrow> uuid \<Rightarrow> store_option list \<Rightarrow> 's \<Rightarrow> error + 'a base_aggregate_scheme" where
  "repo_load st ops appl reg zero i opts s =
     (case st_load st i opts s of
        Inl err \<Rightarrow> Inl err
      | Inr es \<Rightarrow>
          if es = [] then Inl ErrAggregateNotFound
          else (case load_from_history ops appl reg es (set_id i zero) of
                  (Some err, _) \<Rightarrow> Inl err
                | (None, a) \<Rightarrow> Inr a))"

text \<open>
  The buffer holds pointers, so after a refused commit it holds the events as \<^verbatim>\<open>Commit\<close> left them.
\<close>

definition repo_save :: "'s event_store_ops \<Rightarrow> 'a base_aggregate_scheme \<Rightarrow> store_option list \<Rightarrow> 's \<Rightarrow>
    error option \<times> 'a base_aggregate_scheme \<times> 's" where
  "repo_save st a opts s =
     (let es = agg_uncommitted a
      in if es = [] then (None, a, s)
         else (case st_commit st es (agg_version a - of_nat (length es)) opts s of
                 (Some err, es', s') \<Rightarrow> (Some err, a\<lparr>agg_uncommitted := es'\<rparr>, s')
               | (None, es', s') \<Rightarrow> (None, clear_events a, s')))"

lemma repo_save_Nil: "agg_uncommitted a = [] \<Longrightarrow> repo_save st a opts s = (None, a, s)"
  by (simp add: repo_save_def)

lemma repo_save_ok:
  "repo_save st a opts s = (None, a', s') \<Longrightarrow> agg_uncommitted a \<noteq> [] \<Longrightarrow>
   a' = clear_events a
   \<and> (\<exists>es'. st_commit st (agg_uncommitted a) (agg_version a - of_nat (length (agg_uncommitted a))) opts s
        = (None, es', s'))"
  by (auto simp: repo_save_def Let_def split: prod.splits option.splits)

lemma repo_save_error:
  "repo_save st a opts s = (Some err, a', s') \<Longrightarrow>
   agg_uncommitted a \<noteq> []
   \<and> (\<exists>es'. st_commit st (agg_uncommitted a) (agg_version a - of_nat (length (agg_uncommitted a))) opts s
        = (Some err, es', s') \<and> a' = a\<lparr>agg_uncommitted := es'\<rparr>)"
  by (auto simp: repo_save_def Let_def split: prod.splits option.splits if_splits)

section \<open>Replay reads only the name, the payload and the version\<close>

lemma load_from_history_cong:
  "map replay_view es = map replay_view fs \<Longrightarrow>
   load_from_history ops appl reg es a = load_from_history ops appl reg fs a"
proof (induction es arbitrary: fs a)
  case (Cons e es)
  then obtain f gs where fs: "fs = f # gs" "replay_view e = replay_view f"
    "map replay_view es = map replay_view gs" by (cases fs) auto
  then have "ev_name e = ev_name f" "ev_payload e = ev_payload f"
    "ev_aggregate_version e = ev_aggregate_version f"
    by (auto simp: replay_view_def)
  with Cons.IH [OF fs(3)] fs(1) show ?case by (simp split: option.split prod.split)
qed simp

lemma versions_from_cong:
  "map replay_view es = map replay_view fs \<Longrightarrow> versions_from v es = versions_from v fs"
proof (induction es arbitrary: fs v)
  case (Cons e es)
  then obtain f gs where fs: "fs = f # gs" "replay_view e = replay_view f"
    "map replay_view es = map replay_view gs" by (cases fs) auto
  with Cons.IH [OF fs(3)] show ?case by (simp add: replay_view_def)
qed simp

context event_sourced
begin

lemma load_from_history_frame:
  "load_from_history ops apply_event reg es a = (None, b) \<Longrightarrow>
   agg_id b = agg_id a \<and> agg_uncommitted b = agg_uncommitted a
   \<and> agg_version b = (if es = [] then agg_version a else ev_aggregate_version (last es))"
proof (induction es arbitrary: a)
  case (Cons e es)
  from Cons.prems obtain z p a' where ap: "apply_event p a = (None, a')"
    and rest: "load_from_history ops apply_event reg es (set_version (ev_aggregate_version e) a') = (None, b)"
    by (auto split: option.splits prod.splits)
  have "agg_id a' = agg_id a" "agg_uncommitted a' = agg_uncommitted a"
    using apply_id [of p a] apply_frame(2) [of p a] ap by simp_all
  with Cons.IH [OF rest] show ?case by (simp add: set_version_def)
qed simp

text \<open>An aggregate replayed from a consecutively numbered history is in step with it.\<close>

lemma sourced_loaded:
  assumes "load_from_history ops apply_event reg es (set_id i zero) = (None, a)"
    and "versions_from 0 es" "es \<noteq> []" "agg_uncommitted zero = []"
  shows "sourced ops apply_event reg zero es a \<and> agg_id a = i \<and> agg_uncommitted a = []"
proof -
  have "agg_id a = i" "agg_uncommitted a = []" "agg_version a = of_nat (length es)"
    using load_from_history_frame [OF assms(1)] assms(2-4) versions_from_last [OF assms(2)]
    by (simp_all add: set_id_def)
  moreover from this have "clear_events a = a" by (simp add: clear_events_def)
  ultimately show ?thesis using assms by (simp add: sourced_def)
qed

end

section \<open>The repository over its two contracts\<close>

locale repository =
  event_sourced ops apply_event reg + event_store st opts inv stream batch
  for ops :: "'p payload_ops" and apply_event :: "('p, 'a) applier" and reg :: "'p registry"
    and st :: "'s event_store_ops" and opts :: "store_option list" and inv :: "'s \<Rightarrow> bool"
    and stream :: "'s \<Rightarrow> uuid \<Rightarrow> domain_event list"
    and batch :: "'s \<Rightarrow> uuid \<Rightarrow> domain_event list \<Rightarrow> bool"
begin

lemma save_then_load:
  assumes "inv s" and src: "sourced ops apply_event reg zero (stream s (agg_id a)) a"
    and "batch s (agg_id a) (agg_uncommitted a)" and new: "agg_uncommitted a \<noteq> []"
    and save: "repo_save st a opts s = (None, a', s')"
  shows "inv s' \<and> a' = clear_events a
    \<and> repo_load st ops apply_event reg zero (agg_id a) opts s' = Inr a'
    \<and> sourced ops apply_event reg zero (stream s' (agg_id a)) a'"
proof -
  from repo_save_ok [OF save new] obtain es' where a': "a' = clear_events a"
    and c: "st_commit st (agg_uncommitted a) (agg_version a - of_nat (length (agg_uncommitted a))) opts s
      = (None, es', s')" by blast
  from commit_appends [OF assms(1,3) new c] have inv: "inv s'" by blast
  from load_after_append [OF assms(1,3) new c] obtain fs
    where ld: "st_load st (agg_id a) opts s' = Inr (stream s (agg_id a) @ fs)"
      and fs: "map replay_view fs = map replay_view (agg_uncommitted a)"
      and st: "stream s' (agg_id a) = stream s (agg_id a) @ fs" .
  have "length fs = length (agg_uncommitted a)" using fs by (metis length_map)
  then have "fs \<noteq> []" using new by auto
  let ?h = "stream s (agg_id a) @ agg_uncommitted a" and ?l = "stream s (agg_id a) @ fs"
  have view: "map replay_view ?l = map replay_view ?h" using fs by simp
  have "load_from_history ops apply_event reg ?l (set_id (agg_id a) zero) = (None, a')"
    unfolding load_from_history_cong [OF view] using src by (simp add: sourced_def a')
  moreover from this have "repo_load st ops apply_event reg zero (agg_id a) opts s' = Inr a'"
    using ld \<open>fs \<noteq> []\<close> by (simp add: repo_load_def)
  moreover have "versions_from 0 ?l"
    unfolding versions_from_cong [OF view] using src by (simp add: sourced_def)
  ultimately show ?thesis
    using src inv a' \<open>length fs = length (agg_uncommitted a)\<close>
    by (simp add: sourced_def clear_events_def st)
qed

text \<open>Loading gives an aggregate that a later \<^verbatim>\<open>Save\<close> can extend.\<close>

lemma load_sourced:
  assumes "inv s" "stream s i \<noteq> []" "versions_from 0 (stream s i)" "agg_uncommitted zero = []"
    and "repo_load st ops apply_event reg zero i opts s = Inr a"
  shows "sourced ops apply_event reg zero (stream s i) a \<and> agg_id a = i \<and> agg_uncommitted a = []"
proof -
  have "load_from_history ops apply_event reg (stream s i) (set_id i zero) = (None, a)"
    using assms(5) load_stream [OF assms(1,2)] assms(2)
    by (auto simp: repo_load_def split: prod.splits option.splits)
  then show ?thesis using assms by (intro sourced_loaded) auto
qed

text \<open>
  When someone else has moved the stream, \<^verbatim>\<open>Save\<close> fails, the stored streams stay as they are and the
  aggregate keeps its identity, its version and its buffered events.
\<close>

lemma save_lost_race:
  assumes "inv s" "batch s (agg_id a) (agg_uncommitted a)" "agg_uncommitted a \<noteq> []"
    and "current_version (stream s (agg_id a)) \<noteq> agg_version a - of_nat (length (agg_uncommitted a))"
    and "repo_save st a opts s = (r, a', s')"
  shows "r \<noteq> None \<and> inv s' \<and> stream s' = stream s
    \<and> (\<exists>es'. a' = a\<lparr>agg_uncommitted := es'\<rparr>)"
proof -
  obtain r0 es' t where c: "st_commit st (agg_uncommitted a)
      (agg_version a - of_nat (length (agg_uncommitted a))) opts s = (r0, es', t)"
    by (metis prod_cases3)
  from commit_conflict [OF assms(1,2,3) c assms(4)]
  show ?thesis using assms(3,5) c by (auto simp: repo_save_def)
qed

end

section \<open>A shared aggregate seen from a tenant\<close>



end
