(* ===== verification/User_Domain.thy ===== *)
theory User_Domain
  imports Es_Repository
begin

text \<open>
  \<^verbatim>\<open>examples/user/domain\<close>: the \<^verbatim>\<open>User\<close> aggregate, its four event types with their JSON shapes, the
  registry of their factories, and the commands. The last section interprets the library's contracts
  on it. Text is kept as a list of characters, which stands for valid UTF-8.
\<close>

section \<open>Events\<close>

datatype user_payload =
    UserRegisteredEvent (reg_email: string) (reg_name: string)
  | UserEmailChangedEvent (chg_email: string)
  | UserNameChangedEvent (chg_name: string)
  | UserErasureRequestedEvent

definition all_user_events :: string where "all_user_events = ''user.*''"
definition user_registered :: string where "user_registered = ''user.registered''"
definition user_email_changed :: string where "user_email_changed = ''user.email_changed''"
definition user_name_changed :: string where "user_name_changed = ''user.name_changed''"
definition user_erasure_request :: string where "user_erasure_request = ''user.erasure_requested''"

lemmas user_event_names = user_registered_def user_email_changed_def user_name_changed_def
  user_erasure_request_def

fun user_event_name :: "user_payload \<Rightarrow> string" where
  "user_event_name (UserRegisteredEvent e n) = user_registered"
| "user_event_name (UserEmailChangedEvent e) = user_email_changed"
| "user_event_name (UserNameChangedEvent n) = user_name_changed"
| "user_event_name UserErasureRequestedEvent = user_erasure_request"

text \<open>\<^verbatim>\<open>json.Marshal\<close> of the struct by its tags.\<close>

fun user_marshal :: "user_payload \<Rightarrow> error + json" where
  "user_marshal (UserRegisteredEvent e n) =
     Inr (JObj [''email'' \<mapsto> JStr e, ''name'' \<mapsto> JStr n])"
| "user_marshal (UserEmailChangedEvent e) = Inr (JObj [''email'' \<mapsto> JStr e])"
| "user_marshal (UserNameChangedEvent n) = Inr (JObj [''name'' \<mapsto> JStr n])"
| "user_marshal UserErasureRequestedEvent = Inr (JObj Map.empty)"

text \<open>
  \<^verbatim>\<open>json.Unmarshal\<close> into an instance: JSON \<^verbatim>\<open>null\<close> is a no-op, an object sets the fields it has, any
  other document is an error. Keys are compared exactly; \<^verbatim>\<open>encoding/json\<close> also takes a key that differs
  in case only, which \<^verbatim>\<open>Marshal\<close> never writes.
\<close>

fun user_unmarshal_obj :: "(string \<Rightarrow> json option) \<Rightarrow> user_payload \<Rightarrow> error option \<times> user_payload" where
  "user_unmarshal_obj m (UserRegisteredEvent e n) =
     (let (r1, e') = struct_field unmarshal_string m ''email'' e;
          (r2, n') = struct_field unmarshal_string m ''name'' n
      in (first_error [r1, r2], UserRegisteredEvent e' n'))"
| "user_unmarshal_obj m (UserEmailChangedEvent e) =
     (let (r, e') = struct_field unmarshal_string m ''email'' e in (r, UserEmailChangedEvent e'))"
| "user_unmarshal_obj m (UserNameChangedEvent n) =
     (let (r, n') = struct_field unmarshal_string m ''name'' n in (r, UserNameChangedEvent n'))"
| "user_unmarshal_obj m UserErasureRequestedEvent = (None, UserErasureRequestedEvent)"

fun user_unmarshal :: "raw \<Rightarrow> user_payload \<Rightarrow> error option \<times> user_payload" where
  "user_unmarshal (RawOk (JObj m)) p = user_unmarshal_obj m p"
| "user_unmarshal (RawOk JNull) p = (None, p)"
| "user_unmarshal _ p = (Some ErrJson, p)"

fun user_pii_fields :: "user_payload \<Rightarrow> (string \<Rightarrow> string list) option" where
  "user_pii_fields (UserRegisteredEvent e n) = Some ((\<lambda>_. [])(''payload'' := [''email'']))"
| "user_pii_fields (UserEmailChangedEvent e) = Some ((\<lambda>_. [])(''payload'' := [''email'']))"
| "user_pii_fields _ = None"

fun user_requests_erasure :: "user_payload \<Rightarrow> bool" where
  "user_requests_erasure UserErasureRequestedEvent = True"
| "user_requests_erasure _ = False"

definition user_ops :: "user_payload payload_ops" where
  "user_ops = \<lparr> po_event_name = user_event_name, po_marshal = user_marshal,
     po_unmarshal = user_unmarshal, po_pii_fields = user_pii_fields,
     po_requests_erasure = user_requests_erasure \<rparr>"

lemma user_ops_sel [simp]:
  "po_event_name user_ops = user_event_name"
  "po_marshal user_ops = user_marshal"
  "po_unmarshal user_ops = user_unmarshal"
  "po_pii_fields user_ops = user_pii_fields"
  "po_requests_erasure user_ops = user_requests_erasure"
  by (simp_all add: user_ops_def)

text \<open>The function \<^verbatim>\<open>domain.Events\<close>.\<close>

definition user_events :: "user_payload registry" where
  "user_events =
     registry_register user_erasure_request UserErasureRequestedEvent
      (registry_register user_name_changed (UserNameChangedEvent [])
        (registry_register user_email_changed (UserEmailChangedEvent [])
          (registry_register user_registered (UserRegisteredEvent [] []) new_registry)))"

lemma user_events_factory [simp]:
  "registry_factory user_events user_registered = Some (UserRegisteredEvent [] [])"
  "registry_factory user_events user_email_changed = Some (UserEmailChangedEvent [])"
  "registry_factory user_events user_name_changed = Some (UserNameChangedEvent [])"
  "registry_factory user_events user_erasure_request = Some UserErasureRequestedEvent"
  by (simp_all add: user_events_def registry_factory_register user_event_names)

section \<open>The aggregate\<close>

record user_actor =
  ua_id :: uuid
  ua_type :: string

definition user_actor_is_set :: "user_actor \<Rightarrow> bool" where
  "user_actor_is_set a \<longleftrightarrow> ua_id a \<noteq> uuid_nil"

definition err_already_registered :: error where
  "err_already_registered = ErrText ''user: already registered''"
definition err_not_registered :: error where
  "err_not_registered = ErrText ''user: not registered''"
definition err_email_required :: error where
  "err_email_required = ErrText ''user: email is required''"
definition err_name_required :: error where
  "err_name_required = ErrText ''user: name is required''"

record user = base_aggregate +
  u_email :: string
  u_name :: string
  u_registered :: bool

definition new_user :: user where
  "new_user = \<lparr> agg_id = 0, agg_version = 0, agg_uncommitted = [],
     u_email = [], u_name = [], u_registered = False \<rparr>"

text \<open>
  \<^verbatim>\<open>User.Apply\<close>. Its default branch, for a value of a type that is none of the four, has no
  counterpart: the registry and the commands make no such value.
\<close>

fun user_apply :: "user_payload \<Rightarrow> user \<Rightarrow> error option \<times> user" where
  "user_apply (UserRegisteredEvent e n) u =
     (if u_registered u then (Some err_already_registered, u)
      else (None, u\<lparr>u_email := e, u_name := n, u_registered := True\<rparr>))"
| "user_apply (UserEmailChangedEvent e) u =
     (if \<not> u_registered u then (Some err_not_registered, u) else (None, u\<lparr>u_email := e\<rparr>))"
| "user_apply (UserNameChangedEvent n) u =
     (if \<not> u_registered u then (Some err_not_registered, u) else (None, u\<lparr>u_name := n\<rparr>))"
| "user_apply UserErasureRequestedEvent u =
     (if \<not> u_registered u then (Some err_not_registered, u) else (None, u))"

definition user_actor_opts :: "user_actor \<Rightarrow> record_option list" where
  "user_actor_opts a = (if user_actor_is_set a then [WithActor (ua_id a) (ua_type a)] else [])"

abbreviation user_record :: "uuid \<Rightarrow> time \<Rightarrow> user_payload \<Rightarrow> record_option list \<Rightarrow> user \<Rightarrow>
    error option \<times> user" where
  "user_record new_id now p opts u \<equiv> record_that user_ops user_apply new_id now p opts u"

definition user_register :: "uuid \<Rightarrow> time \<Rightarrow> string \<Rightarrow> string \<Rightarrow> user_actor \<Rightarrow> user \<Rightarrow>
    error option \<times> user" where
  "user_register new_id now email name actor u =
     (if email = [] then (Some err_email_required, u)
      else if name = [] then (Some err_name_required, u)
      else user_record new_id now (UserRegisteredEvent email name)
             ([WithPiiID (agg_id u)] @ user_actor_opts actor
               @ [WithMetadata [(''signup_channel'', Some (JStr ''web''))]]) u)"

definition user_change_email :: "uuid \<Rightarrow> time \<Rightarrow> string \<Rightarrow> user_actor \<Rightarrow> user \<Rightarrow>
    error option \<times> user" where
  "user_change_email new_id now email actor u =
     (if email = [] then (Some err_email_required, u)
      else user_record new_id now (UserEmailChangedEvent email)
             ([WithPiiID (agg_id u)] @ user_actor_opts actor) u)"

definition user_change_name :: "uuid \<Rightarrow> time \<Rightarrow> string \<Rightarrow> user \<Rightarrow> error option \<times> user" where
  "user_change_name new_id now name u =
     (if name = [] then (Some err_name_required, u)
      else user_record new_id now (UserNameChangedEvent name) [] u)"

definition user_request_erasure :: "uuid \<Rightarrow> time \<Rightarrow> user_actor \<Rightarrow> user \<Rightarrow> error option \<times> user" where
  "user_request_erasure new_id now actor u =
     (if \<not> u_registered u then (Some err_not_registered, u)
      else user_record new_id now UserErasureRequestedEvent
             ([WithPiiID (agg_id u)] @ user_actor_opts actor) u)"

section \<open>The contracts hold\<close>

lemma user_codec: "\<exists>j z. po_marshal user_ops p = Inr j
    \<and> registry_factory user_events (po_event_name user_ops p) = Some z
    \<and> po_unmarshal user_ops (RawOk j) z = (None, p)"
  by (cases p) simp_all

interpretation user: event_sourced user_ops user_apply user_events
proof unfold_locales
  fix p a v u err
  show "\<exists>j z. po_marshal user_ops p = Inr j
      \<and> registry_factory user_events (po_event_name user_ops p) = Some z
      \<and> po_unmarshal user_ops (RawOk j) z = (None, p)" by (rule user_codec)
  show "fst (user_apply p (a\<lparr>agg_version := v, agg_uncommitted := u\<rparr>)) = fst (user_apply p a)"
    by (cases p) simp_all
  show "snd (user_apply p (a\<lparr>agg_version := v, agg_uncommitted := u\<rparr>))
      = (snd (user_apply p a))\<lparr>agg_version := v, agg_uncommitted := u\<rparr>"
    by (cases p) simp_all
  show "agg_id (snd (user_apply p a)) = agg_id a" by (cases p) simp_all
  show "fst (user_apply p a) = Some err \<Longrightarrow> snd (user_apply p a) = a"
    by (cases p) (simp_all split: if_splits)
qed

interpretation user_repo: repository user_ops user_apply user_events
  mem_ops opts mem_inv "mem_stream opts" "\<lambda>_. fresh_batch" for opts
  by unfold_locales

interpretation user_tenant_repo: repository user_ops user_apply user_events
  "tenant_scoped t mem_ops" opts mem_inv "\<lambda>s i. ms_by_aggregate s (t, i)" "\<lambda>_. fresh_batch" for t opts
  by unfold_locales

lemma new_user_sel [simp]:
  "agg_uncommitted new_user = []" "agg_version new_user = 0" "\<not> u_registered new_user"
  by (simp_all add: new_user_def)

section \<open>The commands\<close>

text \<open>
  Registering a user succeeds exactly when both texts are given and the user is not registered
  yet; it then buffers one \<^verbatim>\<open>user.registered\<close> event and sets the two fields, and otherwise it reports
  which rule was broken and leaves the aggregate as it was.
\<close>

lemma user_register_rules:
  assumes "user_register i t email name actor u = (r, u')"
  shows "r = (if email = [] then Some err_email_required
              else if name = [] then Some err_name_required
              else if u_registered u then Some err_already_registered else None)
    \<and> (r \<noteq> None \<longrightarrow> u' = u)
    \<and> (r = None \<longrightarrow> u_email u' = email \<and> u_name u' = name \<and> u_registered u'
        \<and> agg_version u' = agg_version u + 1
        \<and> (\<exists>e. agg_uncommitted u' = agg_uncommitted u @ [e] \<and> ev_name e = user_registered))"
proof (cases "email = [] \<or> name = []")
  case True
  then show ?thesis using assms by (auto simp: user_register_def)
next
  case False
  let ?p = "UserRegisteredEvent email name"
  obtain opts where rec: "user_record i t ?p opts u = (r, u')"
    using assms False unfolding user_register_def by auto
  show ?thesis
  proof (cases "u_registered u")
    case True
    then have "user_apply ?p u = (Some err_already_registered, u)" by simp
    from user.record_that_refused [OF this, of i t opts] rec False True show ?thesis by simp
  next
    case fresh: False
    then have "user_apply ?p u = (None, u\<lparr>u_email := email, u_name := name, u_registered := True\<rparr>)"
      by simp
    then show ?thesis
      by (rule user.record_that_accepted [of _ _ _ i t opts]) (use rec False fresh in simp)
  qed
qed

theorem user_register_rules_witness:
  "let (r, u') = user_register 1 0 ''a'' ''b'' \<lparr>ua_id = 0, ua_type = []\<rparr> new_user
   in r = None \<and> u_email u' = ''a'' \<and> u_registered u' \<and> agg_version u' = 1"
proof -
  obtain r u' where c: "user_register 1 0 ''a'' ''b'' \<lparr>ua_id = 0, ua_type = []\<rparr> new_user = (r, u')"
    by force
  from user_register_rules [OF c] show ?thesis by (simp add: c)
qed

end
