(* ===== verification/Mem_Pii.thy ===== *)
theory Mem_Pii
  imports Es_Pii_Store User_Domain
begin

text \<open>
  The PII store of \<^verbatim>\<open>es/pii_store.go\<close> over the in-memory store, key ring and erasure ledger: what a
  commit leaves in the log and gives back to readers, what an erasure destroys, and the ways in
  which sealing and forgetting go wrong.
\<close>

section \<open>Over the in-memory store\<close>

abbreviation mem_pii :: "'p payload_ops \<Rightarrow> 'p registry \<Rightarrow> crypto \<Rightarrow> 'l ledger_ops option \<Rightarrow>
    (uuid list \<Rightarrow> uuid list) \<Rightarrow> ('p, mem_store, mem_keyring, 'l) pii_config" where
  "mem_pii ops reg c lg order \<equiv>
     (new_pii_event_store mem_ops ops reg c (mem_keyring_ops order))\<lparr>pc_ledger := lg\<rparr>"

lemma mem_pii_sel [simp, store_simps]:
  "pc_store (mem_pii ops reg c lg order) = mem_ops" "pc_ops (mem_pii ops reg c lg order) = ops"
  "pc_registry (mem_pii ops reg c lg order) = reg" "pc_crypto (mem_pii ops reg c lg order) = c"
  "pc_keys (mem_pii ops reg c lg order) = mem_keyring_ops order"
  "pc_ledger (mem_pii ops reg c lg order) = lg"
  by (simp_all add: new_pii_event_store_def)

interpretation pii_mem: pii_store mem_ops opts mem_inv "mem_stream opts" "\<lambda>_. fresh_batch"
  "mem_keyring_ops order" mem_keyring_inv map_of "mem_pii ops reg c lg order" for opts order ops reg c lg
  by unfold_locales simp_all

text \<open>A tenant-scoped store and a wrapped key ring underneath are as good.\<close>

interpretation pii_tenant_wrapped: pii_store "tenant_scoped t mem_ops" opts mem_inv
  "\<lambda>s i. ms_by_aggregate s (t, i)" "\<lambda>_. fresh_batch"
  "wrapped_ops (mem_keyring_ops order)" mem_wr_inv mem_wr_abs
  "(new_pii_event_store (tenant_scoped t mem_ops) ops reg c (wrapped_ops (mem_keyring_ops order)))
     \<lparr>pc_ledger := lg\<rparr>" for t opts order ops reg c lg
  by unfold_locales (simp_all add: new_pii_event_store_def)

definition keys_usable :: "mem_keyring \<Rightarrow> bool" where
  "keys_usable k \<longleftrightarrow> (\<forall>p key. map_of k p = Some key \<longrightarrow> aes_key_ok key)"

lemma mem_pii_commit_succeeds:
  assumes "pii_inv (mem_pii ops reg c lg order) mem_inv (mem_stream opts) mem_keyring_inv w"
    and "pii_batch (mem_pii ops reg c lg order) (mem_stream opts) (\<lambda>_. fresh_batch) map_of w i es" "es \<noteq> []"
    and "keys_usable (pw_keys w)" "current_version (mem_stream opts (pw_store w) i) = v"
  shows "\<exists>es' w'. pii_commit (mem_pii ops reg c lg order) es v opts w = (None, es', w')"
proof (rule pii_mem.pii_commit_total [OF assms(1-3)])
  show "\<forall>p key. map_of (pw_keys w) p = Some key \<longrightarrow> aes_key_ok key" using assms(4) by (simp add: keys_usable_def)
  fix es1 assume "fresh_batch i es1" "length es1 = length es"
  moreover from this(2) assms(3) have "es1 \<noteq> []" by auto
  ultimately show "fst (st_commit mem_ops es1 v opts (pw_store w)) = None"
    using fresh_batch_key [of i es1 opts] assms(5) by (simp add: mem_commit_eq Let_def)
qed

text \<open>
  C10. A commit through the PII store succeeds whenever the version is right. What is then in the log
  is the events with every declared field replaced by ciphertext under the subject's key; what a
  reader gets back from \<^verbatim>\<open>Load\<close> is the events as they were recorded.
\<close>

theorem pii_commit_roundtrip:
  fixes lg :: "'l ledger_ops option"
  assumes "cf = mem_pii ops reg c lg order"
    and "pii_inv cf mem_inv (mem_stream opts) mem_keyring_inv w"
    and "pii_batch cf (mem_stream opts) (\<lambda>_. fresh_batch) map_of w i es" "es \<noteq> []"
    and "keys_usable (pw_keys w)" "current_version (mem_stream opts (pw_store w) i) = v"
  shows "\<exists>es' w' fs. pii_commit cf es v opts w = (None, es', w')
    \<and> pii_inv cf mem_inv (mem_stream opts) mem_keyring_inv w'
    \<and> mem_stream opts (pw_store w') i = mem_stream opts (pw_store w) i @ es'
    \<and> list_all2 (\<lambda>e x. \<exists>e1. seal_of cf (map_of (pw_keys w')) e e1 \<and> stored_view x = stored_view e1) es es'
    \<and> pii_load cf i opts w' = Inr (pii_stream cf (mem_stream opts) w i @ fs)
    \<and> map replay_view fs = map replay_view es"
proof -
  from mem_pii_commit_succeeds assms obtain es' w'
    where c: "pii_commit (mem_pii ops reg c lg order) es v opts w = (None, es', w')" by metis
  note ok = pii_mem.pii_commit_ok [OF assms(2,3) [unfolded assms(1)] assms(4) c]
  obtain es1 where es1: "list_all2 (seal_of cf (map_of (pw_keys w'))) es es1"
    "map stored_view es' = map stored_view es1"
    "mem_stream opts (pw_store w') i = mem_stream opts (pw_store w) i @ es'"
    by (rule ok) (use mem_commit_stores assms(1) in \<open>auto\<close>)
  have "length es' = length es1" using es1(2) by (metis length_map)
  then have "list_all2 (\<lambda>e x. \<exists>e1. seal_of cf (map_of (pw_keys w')) e e1 \<and> stored_view x = stored_view e1) es es'"
  proof (intro list_all2_all_nthI exI conjI)
    show "length es = length es'" using es1(1) \<open>length es' = length es1\<close> by (simp add: list_all2_lengthD)
    fix n assume n: "n < length es"
    then show "seal_of cf (map_of (pw_keys w')) (es ! n) (es1 ! n)" using es1(1) by (simp add: list_all2_nthD)
    show "stored_view (es' ! n) = stored_view (es1 ! n)"
      using es1(1,2) n \<open>length es' = length es1\<close> by (metis list_all2_lengthD nth_map)
  qed
  moreover have c': "st_commit (pii_store_ops (mem_pii ops reg c lg order)) es v opts w = (None, es', w')"
    using c by simp
  moreover have "pii_inv cf mem_inv (mem_stream opts) mem_keyring_inv w'"
    using pii_mem.pii.commit_appends [OF assms(2,3) [unfolded assms(1)] assms(4) c'] assms(1) by blast
  moreover obtain fs where "st_load (pii_store_ops cf) i opts w' = Inr (pii_stream cf (mem_stream opts) w i @ fs)"
    "map replay_view fs = map replay_view es"
    using pii_mem.pii.load_after_append [OF assms(2,3) [unfolded assms(1)] assms(4) c'] assms(1) by metis
  ultimately show ?thesis using c es1(3) assms(1) by auto
qed

definition sample_registered :: "uuid \<Rightarrow> domain_event" where
  "sample_registered p = (sample_event 0 7 1)\<lparr>ev_name := user_registered, ev_pii_id := Some p,
     ev_payload := RawOk (JObj [''email'' \<mapsto> JStr ''a@b'', ''name'' \<mapsto> JStr ''Ann''])\<rparr>"

text \<open>Decoding keeps the kind of the payload, so what is declared depends on the event name alone.\<close>

lemma user_unmarshal_kind:
  "user_requests_erasure (snd (user_unmarshal r z)) = user_requests_erasure z"
  "user_pii_fields (snd (user_unmarshal r z)) = user_pii_fields z"
  by (cases "(r, z)" rule: user_unmarshal.cases; cases z; auto simp: Let_def split: prod.splits)+

lemma user_declared: "ev_name e = user_registered \<Longrightarrow> declared user_ops user_events e = [''email'']"
  by (simp add: declared_def user_unmarshal_kind)

lemma sample_registered_name [simp]: "ev_name (sample_registered p) = user_registered"
  by (simp add: sample_registered_def)

lemma erasing_user: "erasing user_ops user_events name \<Longrightarrow> name = user_erasure_request"
  by (auto simp: erasing_def user_unmarshal_kind user_events_def registry_factory_register split: if_splits)

lemma sample_registered_fresh:
  assumes "crypto_ok c"
  shows "pii_fresh (mem_pii user_ops user_events c lg order) (sample_registered p)"
proof -
  have "\<not> erasing user_ops user_events user_registered"
    using erasing_user [of user_registered] by (auto simp: user_event_names)
  moreover have "sealable c [''email''] (sample_registered p)"
    using assms by (auto simp: sealable_def sample_registered_def crypto_ok_def)
  ultimately show ?thesis
    unfolding pii_fresh_def mem_pii_sel by (simp add: user_declared) (simp add: sample_registered_def)
qed

lemma sample_registered_batch:
  assumes "crypto_ok c" "pw_store w = mem_new"
  shows "pii_batch (mem_pii user_ops user_events c lg order) (mem_stream []) (\<lambda>_. fresh_batch) map_of w 7
    [sample_registered p]"
  using assms sample_registered_fresh [OF assms(1)]
  by (simp add: pii_batch_def fresh_batch_def no_old_seals_def mem_new_def) (simp add: sample_registered_def)

lemma pii_inv_new:
  assumes "crypto_ok (pc_crypto cf)" "pw_store w = mem_new" "pw_keys w = mem_keyring_new"
  shows "pii_inv cf mem_inv (mem_stream opts) mem_keyring_inv w"
  using assms mem_inv_new mem_keyring_inv_new by (simp add: pii_inv_def) (simp add: mem_new_def)

definition empty_world :: "(mem_store, mem_keyring, mem_ledger) pii_world" where
  "empty_world = \<lparr>pw_store = mem_new, pw_keys = mem_keyring_new, pw_ledger = [], pw_rng = (\<lambda>_. 0),
     pw_clock = (\<lambda>_. 0)\<rparr>"

lemma empty_world_sel [simp]:
  "pw_store empty_world = mem_new" "pw_keys empty_world = mem_keyring_new" "pw_ledger empty_world = []"
  by (simp_all add: empty_world_def)

theorem pii_commit_roundtrip_witness:
  "\<exists>es' w' fs. pii_commit (mem_pii user_ops user_events toy_crypto None id) [sample_registered 3] 0 [] empty_world
      = (None, es', w')
    \<and> pii_load (mem_pii user_ops user_events toy_crypto None id) 7 [] w' = Inr fs
    \<and> map replay_view fs = map replay_view [sample_registered 3]"
proof -
  let ?cf = "mem_pii user_ops user_events toy_crypto (None :: mem_ledger ledger_ops option) id"
  have "crypto_ok (pc_crypto ?cf)" using toy_crypto_ok by simp
  have inv: "pii_inv ?cf mem_inv (mem_stream []) mem_keyring_inv empty_world"
    by (rule pii_inv_new) (simp_all add: toy_crypto_ok)
  have batch: "pii_batch ?cf (mem_stream []) (\<lambda>_. fresh_batch) map_of empty_world 7 [sample_registered 3]"
    by (rule sample_registered_batch) (simp_all add: toy_crypto_ok)
  have empty: "keys_usable (pw_keys empty_world)" "current_version (mem_stream [] (pw_store empty_world) 7) = 0"
    "pii_stream ?cf (mem_stream []) empty_world 7 = []"
    by (simp_all add: keys_usable_def mem_keyring_new_def mem_new_def current_version_def pii_stream_def)
  from pii_commit_roundtrip [OF refl inv batch _ empty(1,2)] empty(3) show ?thesis by auto
qed

section \<open>Erasure\<close>

text \<open>An event as the PII store leaves it: no manifest, or one that \<^verbatim>\<open>Seal\<close> wrote.\<close>

definition well_sealed :: "domain_event \<Rightarrow> bool" where
  "well_sealed e \<longleftrightarrow> ev_pii_fields e = RawNil
     \<or> (\<exists>fs. fs \<noteq> [] \<and> ev_pii_fields e = RawOk (manifest_json fs))"

lemma open_without_key:
  assumes "well_sealed e" "ev_pii_id e = Some p" "kr_get kr p k = Inr None"
  shows "\<exists>e'. pii_open c kr e k = Inr e' \<and> (raw_present (ev_pii_fields e') \<longrightarrow> ev_pii_unrecoverable e')"
  using assms by (auto simp: well_sealed_def pii_open_def manifest_roundtrip)

lemma open_all_without_key:
  assumes "\<forall>e \<in> set es. well_sealed e \<and> ev_pii_id e = Some p" "kr_get (pc_keys cf) p k = Inr None"
  shows "\<exists>es'. open_all cf es k = Inr es'
    \<and> list_all (\<lambda>e. \<not> (raw_present (ev_pii_fields e) \<and> \<not> ev_pii_unrecoverable e)) es'"
  using assms(1)
proof (induction es)
  case (Cons e es)
  from Cons.prems open_without_key [OF _ _ assms(2)] obtain e'
    where "pii_open (pc_crypto cf) (pc_keys cf) e k = Inr e'"
      "raw_present (ev_pii_fields e') \<longrightarrow> ev_pii_unrecoverable e'" by (metis list.set_intros(1))
  with Cons.IH Cons.prems show ?case by auto
qed simp

lemma payload_for_stored:
  assumes "stored_view x = stored_view y"
  shows "payload_for cf x = payload_for cf y"
  unfolding payload_for_def stored_viewD(1,2) [OF assms] by (rule refl)

text \<open>
  C11. An erasure request is carried out and can be proved: committing an event that asks for erasure
  destroys the subject's key and no other, appends one record naming the subject and the event to
  the erasure ledger, and from then on \<^verbatim>\<open>ErasureVerifier.Verify\<close>, reading through the same PII store,
  certifies the erasure.
\<close>

theorem erasure_carried_out_and_provable:
  fixes cf :: "('p, mem_store, mem_keyring, mem_ledger) pii_config"
  assumes cf: "cf = mem_pii ops reg c (Some (mem_ledger_ops c)) order"
    and inv: "mem_log_inv (pw_store w)" "mem_keyring_inv (pw_keys w)" "mem_ledger_inv c (pw_ledger w)"
    and ws: "\<forall>x \<in> set (ms_all (pw_store w)). ev_pii_id x = Some p \<longrightarrow> well_sealed x"
    and e: "ev_pii_id e = Some p" "ev_pii_fields e = RawNil"
    and pl: "payload_for cf e = Some pl" "po_requests_erasure ops pl" "po_pii_fields ops pl = None"
    and v: "current_version (ms_by_aggregate (pw_store w) (commit_key opts [e])) = v"
  shows "\<exists>e' w' r pr. pii_commit cf [e] v opts w = (None, [e'], w')
    \<and> mem_kr_get p (pw_keys w') = Inr None
    \<and> (\<forall>q. q \<noteq> p \<longrightarrow> mem_kr_get q (pw_keys w') = mem_kr_get q (pw_keys w))
    \<and> pw_ledger w' = pw_ledger w @ [r] \<and> sr_pii_id r = p \<and> sr_origin_global_id r = ev_global_id e'
    \<and> erasure_verify c (mem_ledger_entries (pw_ledger w')) (\<lambda>q. mem_kr_get q (pw_keys w'))
        (\<lambda>q. pii_fetch_by_pii_id cf q [] w') p = (Some pr, None)
    \<and> r \<in> set (ep_erasures pr)"
proof -
  have seal: "seal_all cf [e] (pw_rng w, pw_keys w) = (None, [e], pw_rng w, pw_keys w)"
    using pl cf by simp
  obtain e' s' where c: "mem_commit [e] v opts (pw_store w) = (None, [e'], s')"
    and e': "e' = (stamp_tenant (resolve_store_config opts) e)\<lparr>ev_global_id := ms_next_global_id (pw_store w) + 1\<rparr>"
    and s': "s' = mem_extend (commit_key opts [e]) [e'] (pw_store w)"
    using v by (simp add: mem_commit_eq Let_def)
  have same: "stored_view e' = stored_view e" by (simp add: e')
  then have e'_sel: "ev_pii_id e' = Some p" "ev_pii_fields e' = RawNil" "payload_for cf e' = Some pl"
    using e pl(1) payload_for_stored [OF same, of cf] by (simp_all add: stored_viewD [OF same])
  obtain k' where f: "mem_kr_forget p (pw_keys w) = (None, k')" by (simp add: mem_kr_forget_def)
  with mem_ring.forget_key [OF inv(2), where k' = k' and p = p and order = order]
  have k': "mem_kr_forget p (pw_keys w) = (None, k')" "mem_keyring_inv k'"
    "map_of k' = (map_of (pw_keys w))(p := None)" by auto
  obtain l' r where l': "mem_ledger_append c p (pw_clock w 0) (ev_global_id e') (pw_ledger w) = (None, l')"
    "mem_ledger_inv c l'" "l' = pw_ledger w @ [r]" "sr_pii_id r = p" "sr_origin_global_id r = ev_global_id e'"
    using mem_ledger_append_valid [OF inv(3)] by (metis prod.collapse)
  define w' where "w' = w\<lparr>pw_store := s', pw_keys := k', pw_ledger := l', pw_clock := \<lambda>n. pw_clock w (Suc n)\<rparr>"
  have commit: "pii_commit cf [e] v opts w = (None, [e'], w')"
    unfolding pii_commit_def seal using c e'_sel k'(1) l'(1) pl(2)
    by (simp add: cf w'_def pii_forget_def)
  have get: "mem_kr_get q k' = (if q = p then Inr None else mem_kr_get q (pw_keys w))" for q
    using k'(3) by (simp add: mem_kr_get_def)
  let ?es = "filter (\<lambda>x. ev_pii_id x = Some p) (ms_all s')"
  have "mem_log_inv s'"
    using mem_log_inv_extend [OF inv(1), of "commit_key opts [e]" "stamped opts [e]"] by (simp add: s' e')
  moreover have "?es \<noteq> []" using e'_sel(1) by (simp add: s')
  ultimately have lookup: "mem_fetch_by_pii_id p [] s' = Inr ?es"
    by (simp add: mem_fetch_by_pii_id_eq visible_def resolve_store_config_def)
  have "\<forall>x \<in> set ?es. well_sealed x \<and> ev_pii_id x = Some p"
    using ws e'_sel(2) by (auto simp: s' well_sealed_def)
  from open_all_without_key [OF this, of cf k'] get [of p] obtain es' where es':
    "open_all cf ?es k' = Inr es'"
    "list_all (\<lambda>e. \<not> (raw_present (ev_pii_fields e) \<and> \<not> ev_pii_unrecoverable e)) es'"
    by (auto simp: cf)
  then have fetch: "pii_fetch_by_pii_id cf p [] w' = Inr es'"
    using lookup by (simp add: pii_fetch_by_pii_id_def cf w'_def)
  have "erasure_verify c (mem_ledger_entries (pw_ledger w')) (\<lambda>q. mem_kr_get q (pw_keys w'))
      (\<lambda>q. pii_fetch_by_pii_id cf q [] w') p
    = (Some \<lparr>ep_subject = p, ep_erasures = filter (\<lambda>r. sr_pii_id r = p) l', ep_key_forgotten = True,
         ep_events_unrecoverable = True\<rparr>, None)"
    using l' es'(2) get [of p]
    by (intro erasure_verify_success [of _ l'])
      (simp_all add: w'_def [symmetric] fetch, simp_all add: w'_def mem_ledger_entries_def mem_ledger_inv_def)
  then show ?thesis
    using commit get l' by (intro exI [of _ e'] exI [of _ w'] exI [of _ r]) (simp add: w'_def)
qed

definition sample_erasure :: "uuid \<Rightarrow> u64 \<Rightarrow> domain_event" where
  "sample_erasure p v = (sample_event 0 7 v)\<lparr>ev_name := user_erasure_request, ev_pii_id := Some p,
     ev_payload := RawOk (JObj Map.empty)\<rparr>"

theorem erasure_carried_out_and_provable_witness:
  "\<exists>e' w' r. pii_commit (mem_pii user_ops user_events toy_crypto (Some (mem_ledger_ops toy_crypto)) id)
      [sample_erasure 3 1] 0 [] empty_world = (None, [e'], w')
    \<and> pw_ledger w' = [r] \<and> sr_pii_id r = 3"
proof -
  let ?cf = "mem_pii user_ops user_events toy_crypto (Some (mem_ledger_ops toy_crypto)) id"
  have "payload_for ?cf (sample_erasure 3 1) = Some UserErasureRequestedEvent"
    by (simp add: payload_for_def sample_erasure_def)
  moreover have "current_version (ms_by_aggregate (pw_store empty_world) (commit_key [] [sample_erasure 3 1])) = 0"
    by (simp add: mem_new_def current_version_def)
  moreover have "\<forall>x \<in> set (ms_all (pw_store empty_world)). ev_pii_id x = Some 3 \<longrightarrow> well_sealed x"
    by (simp add: mem_new_def)
  moreover have "ev_pii_id (sample_erasure 3 1) = Some 3" "ev_pii_fields (sample_erasure 3 1) = RawNil"
    by (simp_all add: sample_erasure_def)
  moreover have "mem_log_inv (pw_store empty_world)" "mem_keyring_inv (pw_keys empty_world)"
    "mem_ledger_inv toy_crypto (pw_ledger empty_world)"
    by (simp_all add: mem_log_inv_new mem_keyring_inv_new mem_ledger_inv_new)
  ultimately show ?thesis
    using erasure_carried_out_and_provable [where cf = ?cf and ops = user_ops and reg = user_events
        and c = toy_crypto and order = id and w = empty_world and p = 3 and e = "sample_erasure 3 1"
        and pl = UserErasureRequestedEvent and opts = "[]" and v = 0] by fastforce
qed

section \<open>What goes wrong\<close>

text \<open>A field that was sealed holds a ciphertext under the key it was sealed with.\<close>

definition cipher_text :: "crypto \<Rightarrow> bytes \<Rightarrow> json \<Rightarrow> bool" where
  "cipher_text c key j \<longleftrightarrow> (\<exists>nonce pt. length nonce = nonce_size
     \<and> j = JStr (b64_encode (nonce @ cr_seal c key nonce pt [])))"

lemma seal_fields_cipher:
  assumes "seal_fields c key fs (Some m) r = (Inr (Some m'), r')" "f \<in> set fs" "m f = Some j"
  shows "\<exists>j'. m' f = Some j' \<and> cipher_text c key j'"
  using assms
proof (induction fs arbitrary: m r j)
  case (Cons g fs)
  show ?case
  proof (cases "m g")
    case None
    with Cons.prems have "f \<in> set fs" "seal_fields c key fs (Some m) r = (Inr (Some m'), r')" by auto
    then show ?thesis using Cons.prems(3) by (intro Cons.IH)
  next
    case (Some i)
    with Cons.prems(1) obtain s r1 where enc: "pii_encrypt c key (js_text c i) r = (Inr s, r1)"
      and rest: "seal_fields c key fs (Some (m(g \<mapsto> JStr s))) r1 = (Inr (Some m'), r')"
      by (auto split: sum.splits prod.splits)
    show ?thesis
    proof (cases "f \<in> set fs")
      case True
      with Cons.IH [OF rest True] Cons.prems(3) show ?thesis by (cases "f = g") auto
    next
      case False
      with Cons.prems(2) have "f = g" by simp
      with seal_fields_other [OF rest False] have "m' f = Some (JStr s)" by simp
      moreover from enc have "cipher_text c key (JStr s)"
        by (auto simp: pii_encrypt_def cipher_text_def dest: length_rand_read split: prod.splits if_splits)
      ultimately show ?thesis by simp
    qed
  qed
qed simp

lemma seal_fields_absent:
  "seal_fields c key fs (Some m) r = (Inr (Some m'), r') \<Longrightarrow> m g = None \<Longrightarrow> m' g = None"
proof (induction fs arbitrary: m r)
  case (Cons f fs)
  show ?case
  proof (cases "m f")
    case None
    with Cons show ?thesis by simp
  next
    case (Some i)
    with Cons.prems(1) obtain s r1 where "seal_fields c key fs (Some (m(f \<mapsto> JStr s))) r1 = (Inr (Some m'), r')"
      by (auto split: sum.splits prod.splits)
    moreover have "(m(f \<mapsto> JStr s)) g = None" using Some Cons.prems(2) by auto
    ultimately show ?thesis by (rule Cons.IH)
  qed
qed simp

text \<open>A sealed value that does not authenticate under the given key.\<close>

definition rejected_by :: "crypto \<Rightarrow> bytes \<Rightarrow> json \<Rightarrow> bool" where
  "rejected_by c key' j \<longleftrightarrow> (\<forall>nonce ct. length nonce = nonce_size \<longrightarrow> j = JStr (b64_encode (nonce @ ct)) \<longrightarrow>
     (\<exists>err. cr_open c key' nonce ct [] = Inl err))"

lemma open_fields_wrong_key:
  assumes "aes_key_ok key'" "\<forall>f \<in> set fs. \<forall>j. m f = Some j \<longrightarrow> rejected_by c key' j"
    and "\<forall>f \<in> set fs. \<forall>j. m f = Some j \<longrightarrow> cipher_text c key j" "\<exists>f \<in> set fs. m f \<noteq> None"
  shows "\<exists>err. open_fields c key' fs (Some m) bad = Inl err"
  using assms(2-4)
proof (induction fs)
  case (Cons f fs)
  show ?case
  proof (cases "m f")
    case None
    with Cons show ?thesis by auto
  next
    case (Some j)
    with Cons.prems(2) obtain nonce pt where n: "length nonce = nonce_size"
      "j = JStr (b64_encode (nonce @ cr_seal c key nonce pt []))" by (auto simp: cipher_text_def)
    with Cons.prems(1) Some obtain err where "cr_open c key' nonce (cr_seal c key nonce pt []) [] = Inl err"
      unfolding rejected_by_def by (metis list.set_intros(1))
    with n Some show ?thesis by (simp add: pii_decrypt_blob [OF assms(1)])
  qed
qed simp

lemma open_all_fails:
  assumes "pii_open (pc_crypto cf) (pc_keys cf) x k = Inl err" "x \<in> set es"
  shows "\<exists>err. open_all cf es k = Inl err"
  using assms(2)
proof (induction es)
  case (Cons y es)
  then show ?case using assms(1) by (cases "x = y") (auto split: sum.splits)
qed simp

text \<open>
  C40. A subject that has been forgotten must not be written to again: sealing one more event of the
  subject issues a new key, and then an event sealed under the destroyed key, which until then
  opened as marked ciphertext, fails to decrypt; in every world with that ring, \<^verbatim>\<open>Load\<close> of a stream
  that holds the event, and \<^verbatim>\<open>FetchAfter\<close> of a page that holds it, return an error and no event at
  all. (The hypothesis on the cipher is that the event's own ciphertexts do not authenticate under
  the new, random key.)
\<close>

theorem reissued_key_breaks_reads:
  assumes "mem_keyring_inv k" "pii_forget (mem_keyring_ops order) p k = (None, k1)"
    and "sealed c key fs e x" "ev_pii_id e = Some p" "ev_payload e = RawOk (JObj m)"
    and "f \<in> set fs" "m f \<noteq> None"
    and "pii_seal c (mem_keyring_ops order) e2 (Some b) (r, k1) = (None, e2', r', k2)"
    and "ev_pii_id e2 = Some p" "b ''payload'' \<noteq> []"
    and "\<forall>mx g j. ev_payload x = RawOk (JObj mx) \<longrightarrow> g \<in> set fs \<longrightarrow> mx g = Some j \<longrightarrow>
      rejected_by c (fst (rand_read 32 r)) j"
    and cf: "cf = mem_pii ops reg c lg order"
  shows "pii_open c (mem_keyring_ops order) x k1 = Inr (x\<lparr>ev_pii_unrecoverable := True\<rparr>)
    \<and> (\<exists>err. pii_open c (mem_keyring_ops order) x k2 = Inl err)
    \<and> (\<forall>w i opts es. pw_keys w = k2 \<longrightarrow> mem_load i opts (pw_store w) = Inr es \<longrightarrow> x \<in> set es \<longrightarrow>
         (\<exists>err. pii_load cf i opts w = Inl err))
    \<and> (\<forall>w g limit opts es. pw_keys w = k2 \<longrightarrow> mem_fetch_after g limit opts (pw_store w) = Inr es \<longrightarrow> x \<in> set es \<longrightarrow>
         (\<exists>err. pii_fetch_after cf g limit opts w = Inl err))"
proof -
  obtain key2 r1 where rd: "rand_read 32 r = (key2, r1)" by force
  then have key2: "aes_key_ok key2" using length_rand_read by (simp add: aes_key_ok_def)
  have "fs \<noteq> []" using assms(6) by auto
  from mem_ring.forget_key [OF assms(1), where k' = k1 and p = p and order = order] assms(2)
  have k1: "mem_keyring_inv k1" "map_of k1 p = None" by (auto simp: pii_forget_def)
  obtain r2 k3 where put: "mem_kr_put p key2 (r1, k1) = (None, r2, k3)" by (simp add: mem_kr_put_def)
  then have "k2 = k3"
    using assms(8-10) k1(2) rd
    by (auto simp: pii_seal_def mem_kr_get_def Let_def split: prod.splits)
  with mem_ring.put_key [OF k1(1), where order = order] put
  have get2: "kr_get (mem_keyring_ops order) p k2 = Inr (Some key2)" by (auto simp: mem_kr_get_def)
  from open_sealed_forgotten [OF assms(3) \<open>fs \<noteq> []\<close> assms(4), of "mem_keyring_ops order" k1] k1(2)
  have before: "pii_open c (mem_keyring_ops order) x k1 = Inr (x\<lparr>ev_pii_unrecoverable := True\<rparr>)"
    by (simp add: mem_kr_get_def)
  obtain m' q q' where sf: "seal_fields c key fs (Some m) q = (Inr (Some m'), q')"
    and x: "x = e\<lparr>ev_payload := RawOk (JObj m'), ev_pii_fields := RawOk (manifest_json fs)\<rparr>"
    by (rule sealed_payload [OF assms(3,5)])
  have cipher: "\<forall>g \<in> set fs. \<forall>j. m' g = Some j \<longrightarrow> cipher_text c key j"
  proof (intro ballI allI impI)
    fix g j assume g: "g \<in> set fs" "m' g = Some j"
    with seal_fields_absent [OF sf, of g] obtain i where "m g = Some i" by (cases "m g") auto
    from seal_fields_cipher [OF sf g(1) this] g(2) show "cipher_text c key j" by auto
  qed
  have "m' f \<noteq> None" using seal_fields_cipher [OF sf assms(6)] assms(7) by auto
  then have "\<exists>f \<in> set fs. m' f \<noteq> None" using assms(6) by blast
  moreover have "\<forall>g \<in> set fs. \<forall>j. m' g = Some j \<longrightarrow> rejected_by c key2 j" using assms(11) rd by (simp add: x)
  ultimately obtain err where "open_fields c key2 fs (Some m') False = Inl err"
    using open_fields_wrong_key [OF key2 _ cipher, of False] by blast
  then have after: "pii_open c (mem_keyring_ops order) x k2 = Inl err"
    using assms(4) \<open>fs \<noteq> []\<close> get2 by (simp add: pii_open_def x manifest_roundtrip)
  have "\<exists>err. open_all cf es k2 = Inl err" if "x \<in> set es" for es
    by (rule open_all_fails [OF _ that]) (simp add: cf after)
  then have reads: "\<exists>err. pii_load cf i opts w = Inl err" if "pw_keys w = k2" "mem_load i opts (pw_store w) = Inr es" "x \<in> set es"
    for w i opts es using that by (simp add: pii_load_def cf)
  have "\<exists>err. pii_fetch_after cf g limit opts w = Inl err"
    if "pw_keys w = k2" "mem_fetch_after g limit opts (pw_store w) = Inr es" "x \<in> set es" for w g limit opts es
    using that \<open>\<And>es. x \<in> set es \<Longrightarrow> \<exists>err. open_all cf es k2 = Inl err\<close> by (simp add: pii_fetch_after_def cf)
  with before after reads show ?thesis by blast
qed

lemma sealed_exists:
  assumes "aes_key_ok key" "ev_payload e = RawOk (JObj m)"
  shows "\<exists>x r'. seal_payload c key fs e r = (None, x, r') \<and> sealed c key fs e x"
proof -
  obtain m' r' where "seal_fields c key fs (Some m) r = (Inr m', r')"
    using seal_fields_total [OF assms(1)] by blast
  with assms(2) have "\<exists>x. seal_payload c key fs e r = (None, x, r')" by (simp add: seal_payload_def)
  then show ?thesis unfolding sealed_def by blast
qed

theorem reissued_key_breaks_reads_witness:
  "\<exists>x k1 k2 err err2 w. pii_open toy_crypto (mem_keyring_ops id) x k1 = Inr (x\<lparr>ev_pii_unrecoverable := True\<rparr>)
    \<and> pii_open toy_crypto (mem_keyring_ops id) x k2 = Inl err
    \<and> pw_keys w = k2 \<and> mem_load 7 [] (pw_store w) = Inr [x]
    \<and> pii_load (mem_pii user_ops user_events toy_crypto (None :: mem_ledger ledger_ops option) id) 7 [] w = Inl err2"
proof -
  let ?key = "replicate 32 0 :: bytes" and ?e = "sample_pii_event 3" and ?fs = "[''email'']"
  let ?b = "(\<lambda>_. [])(''payload'' := ?fs)" and ?r = "(\<lambda>_. 1) :: rng"
  have e: "ev_pii_id ?e = Some 3" "ev_payload ?e = RawOk (JObj [''email'' \<mapsto> JStr ''a@b''])"
    by (simp_all add: sample_pii_event_def)
  have forget: "pii_forget (mem_keyring_ops id) 3 [(3, ?key)] = (None, [])"
    by (simp add: pii_forget_def mem_kr_forget_def)
  have "aes_key_ok ?key" by (simp add: aes_key_ok_def)
  from sealed_exists [OF this e(2)] obtain x where x: "sealed toy_crypto ?key ?fs ?e x" by blast
  obtain e2 r' k2 where seal: "pii_seal toy_crypto (mem_keyring_ops id) ?e (Some ?b) (?r, []) = (None, e2, r', k2)"
    by (rule mem_ring.seal_total [where k = "[]" and e = ?e and p = 3 and buckets = ?b and fs = ?fs
          and c = toy_crypto and r = ?r and order = id, OF _ e(1) _ _ e(2)])
      (simp_all add: mem_keyring_inv_def)
  obtain m' q q' where sf: "seal_fields toy_crypto ?key ?fs (Some [''email'' \<mapsto> JStr ''a@b'']) q = (Inr (Some m'), q')"
    and x_eq: "x = ?e\<lparr>ev_payload := RawOk (JObj m'), ev_pii_fields := RawOk (manifest_json ?fs)\<rparr>"
    by (rule sealed_payload [OF x e(2)])
  have wrong_key: "\<exists>err. cr_open toy_crypto (fst (rand_read 32 ?r)) nonce (cr_seal toy_crypto ?key n pt []) [] = Inl err" for nonce n pt
    by (simp add: toy_crypto_def rand_read_def) (simp add: numeral_eq_Suc)
  have "rejected_by toy_crypto (fst (rand_read 32 ?r)) j" if g: "g \<in> set ?fs" "m' g = Some j" for g j
  proof -
    have "cipher_text toy_crypto ?key j"
      using seal_fields_cipher [OF sf, of "''email''" "JStr ''a@b''"] g by auto
    then obtain n pt where j: "j = JStr (b64_encode (n @ cr_seal toy_crypto ?key n pt []))" "length n = nonce_size"
      unfolding cipher_text_def by blast
    show ?thesis
      unfolding rejected_by_def
    proof (intro allI impI)
      fix nonce ct assume nc: "length nonce = nonce_size" "j = JStr (b64_encode (nonce @ ct))"
      have "Some (nonce @ ct) = Some (n @ cr_seal toy_crypto ?key n pt [])"
        using j(1) nc(2) b64_quanta_encode by (metis json.inject(4))
      with nc(1) j(2) have "ct = cr_seal toy_crypto ?key n pt []" by simp
      then show "\<exists>err. cr_open toy_crypto (fst (rand_read 32 ?r)) nonce ct [] = Inl err" using wrong_key by simp
    qed
  qed
  then have wrong: "\<forall>mx g j. ev_payload x = RawOk (JObj mx) \<longrightarrow> g \<in> set ?fs \<longrightarrow> mx g = Some j \<longrightarrow>
      rejected_by toy_crypto (fst (rand_read 32 ?r)) j" by (simp add: x_eq)
  have ring: "mem_keyring_inv [(3, ?key)]" by (simp add: mem_keyring_inv_def)
  have f: "''email'' \<in> set ?fs" "[''email'' \<mapsto> JStr ''a@b''] ''email'' \<noteq> None" by simp_all
  have b: "?b ''payload'' \<noteq> []" by simp
  let ?w = "empty_world\<lparr>pw_store := mem_new\<lparr>ms_by_aggregate := \<lambda>_. [x]\<rparr>, pw_keys := k2\<rparr>"
  have w: "pw_keys ?w = k2" "mem_load 7 [] (pw_store ?w) = Inr [x]" "x \<in> set [x]" by (simp_all add: mem_load_def)
  from reissued_key_breaks_reads [OF ring forget x e f seal e(1) b wrong refl, where ops = user_ops and reg = user_events and lg = None] w
  show ?thesis by blast
qed

text \<open>
  A commit that fails after the sealing loop leaves the caller's events sealed, and committing the
  same events again seals the ciphertext: the commit succeeds, the events are in the log under two
  layers, and a reader gets the inner ciphertext instead of the value.
\<close>

lemma retried_commit_seals_twice:
  fixes lg :: "'l ledger_ops option"
  assumes cf: "cf = mem_pii ops reg c lg order" and crypto: "crypto_ok c"
    and ring: "mem_keyring_inv (pw_keys w)" "keys_usable (pw_keys w)"
    and fresh: "pii_fresh cf e" "seals ops reg e"
    and fail: "pii_commit cf [e] v opts w = (Some err, [e1], w1)"
    and same: "declared ops reg e1 = declared ops reg e"
    and f: "f \<in> set (declared ops reg e)" "map_get (projr (unmarshal_map (ev_payload e))) f \<noteq> None"
    and v1: "current_version (ms_by_aggregate (pw_store w1) (commit_key opts [e1])) = v1"
  shows "\<exists>e2 w2 e3 m3 key j. pii_commit cf [e1] v1 opts w1 = (None, [e2], w2)
    \<and> pii_open c (mem_keyring_ops order) e2 (pw_keys w2) = Inr e3
    \<and> ev_payload e3 = RawOk (JObj m3) \<and> m3 f = Some j \<and> cipher_text c key j"
proof -
  let ?fs = "declared ops reg e" and ?kr = "mem_keyring_ops order"
  from fresh obtain m where m: "ev_payload e = RawOk (JObj m)" "distinct ?fs" "?fs \<noteq> []"
    by (auto simp: pii_fresh_def sealable_def cf)
  obtain x es1 r k where sa: "seal_all cf [e] (pw_rng w, pw_keys w) = (x, es1, r, k)" by (metis prod_cases4)
  have "fst (seal_all cf [e] (pw_rng w, pw_keys w)) = None"
    using fresh(1) ring(2) by (intro mem_ring.seal_all_total [OF ring(1)]) (auto simp: keys_usable_def cf)
  with sa have x: "x = None" by simp
  note eff = mem_ring.seal_all_effect [OF ring(1) sa, of order]
  from eff x obtain es where es: "es1 = [es]" "seal_of cf (map_of k) e es"
    by (auto simp: cf list_all2_Cons1)
  then obtain p key where p: "ev_pii_id e = Some p" "map_of k p = Some key" and sl: "sealed c key ?fs e es"
    using fresh(2) by (auto simp: seal_of_def cf)
  have key: "aes_key_ok key"
  proof -
    from eff p(2) have "map_of (pw_keys w) p = Some key \<or> length key = 32" by (auto simp: cf)
    with ring(2) show ?thesis by (auto simp: keys_usable_def aes_key_ok_def)
  qed
  obtain m' q q' where sf: "seal_fields c key ?fs (Some m) q = (Inr (Some m'), q')"
    and es_eq: "es = e\<lparr>ev_payload := RawOk (JObj m'), ev_pii_fields := RawOk (manifest_json ?fs)\<rparr>"
    by (rule sealed_payload [OF sl m(1)])
  have w1: "e1 = stamp_tenant (resolve_store_config opts) es \<and> pw_store w1 = pw_store w
      \<and> pw_keys w1 = k \<and> pw_rng w1 = r"
  proof (cases "current_version (ms_by_aggregate (pw_store w) (commit_key opts [es])) = v")
    case True
    then obtain e2 s2 where c: "mem_commit [es] v opts (pw_store w) = (None, [e2], s2)"
      and "stored_view e2 = stored_view es" by (simp add: mem_commit_eq Let_def)
    then have "shred_all cf [e2] u = (None, u)" for u
      using fresh(1) es x eff by (intro shred_sealed_noop [of _ "map_of k" "[e]" "[es]"]) auto
    with fail sa x es(1) c show ?thesis by (simp add: pii_commit_def cf)
  next
    case False
    with fail sa x es(1) show ?thesis by (auto simp: pii_commit_def cf mem_commit_eq)
  qed
  then have e1: "ev_payload e1 = RawOk (JObj m')" "ev_pii_id e1 = Some p" "ev_name e1 = ev_name e"
    using p(1) by (simp_all add: es_eq)
  obtain e2s r2 where sp: "seal_payload c key ?fs e1 r = (None, e2s, r2)" and sl2: "sealed c key ?fs e1 e2s"
    using sealed_exists [OF key e1(1)] by blast
  have "seals ops reg e1" using e1(2) same m(3) by (simp add: seals_def)
  then have "seal_one cf e1 (r, k) = (None, e2s, r2, k)"
    using e1(2) p(2) sp m(3) same by (simp add: seal_one_def cf pii_seal_def mem_kr_get_def)
  then have sa1: "seal_all cf [e1] (r, k) = (None, [e2s], r2, k)"
    by (simp add: seal_all_Cons del: seal_all.simps(2))
  obtain j where e2s: "e2s = e1\<lparr>ev_payload := RawOk j, ev_pii_fields := RawOk (manifest_json ?fs)\<rparr>"
    using sealed_frame [OF sl2] by blast
  have "commit_key opts [e2s] = commit_key opts [e1]"
    by (simp add: e2s commit_key_def aggregate_key_def stamp_tenant_def split: option.split)
  then obtain e2 s2 where c2: "mem_commit [e2s] v1 opts (pw_store w1) = (None, [e2], s2)"
    and e2: "stored_view e2 = stored_view e2s"
    using v1 by (simp add: mem_commit_eq Let_def)
  have name: "ev_name e2 = ev_name e" using stored_viewD(1) [OF e2] e1(3) by (simp add: e2s)
  have "shred_all cf [e2] u = (None, u)" for u
    using fresh(1) name by (intro shred_all_noop) (simp add: pii_fresh_def cf)
  with sa1 c2 w1 have c3: "pii_commit cf [e1] v1 opts w1 = (None, [e2], w1\<lparr>pw_store := s2, pw_keys := k, pw_rng := r2\<rparr>)"
    by (simp add: pii_commit_def cf)
  obtain y where y: "sealed c key ?fs y e2" "stored_view y = stored_view e1"
    using sealed_stored_view [OF sl2 e2] by blast
  have ypay: "ev_payload y = RawOk (JObj m')" "ev_pii_id y = Some p"
    using stored_viewD [OF y(2)] e1 by simp_all
  have "js_ok c i" if "g \<in> set ?fs" "m' g = Some i" for g i
  proof -
    from seal_fields_absent [OF sf, of g] that(2) obtain i0 where "m g = Some i0" by (cases "m g") auto
    from seal_fields_cipher [OF sf that(1) this] that(2) have "cipher_text c key i" by auto
    with crypto show ?thesis by (auto simp: cipher_text_def crypto_ok_def)
  qed
  then have "sealable c ?fs y" using m(2,3) ypay(1) by (auto simp: sealable_def)
  from open_sealed [OF crypto y(1) this ypay(2), of "mem_keyring_ops order" k] p(2)
  have open2: "pii_open c (mem_keyring_ops order) e2 k = Inr (y\<lparr>ev_pii_fields := RawOk (manifest_json ?fs)\<rparr>)"
    by (simp add: mem_kr_get_def)
  obtain j0 where "m f = Some j0" using f(2) m(1) by auto
  from seal_fields_cipher [OF sf f(1) this] obtain j1 where "m' f = Some j1" "cipher_text c key j1" by blast
  with c3 open2 ypay(1) show ?thesis by auto
qed

theorem retried_commit_seals_twice_witness:
  "\<exists>e1 e2 e3 w1 w2 m3 key j.
    pii_commit (mem_pii user_ops user_events toy_crypto None id) [sample_registered 3] 4 [] empty_world
      = (Some ErrConcurrencyConflict, [e1], w1)
    \<and> pii_commit (mem_pii user_ops user_events toy_crypto None id) [e1] 0 [] w1 = (None, [e2], w2)
    \<and> pii_open toy_crypto (mem_keyring_ops id) e2 (pw_keys w2) = Inr e3
    \<and> ev_payload e3 = RawOk (JObj m3) \<and> m3 ''email'' = Some j \<and> cipher_text toy_crypto key j"
proof -
  let ?cf = "mem_pii user_ops user_events toy_crypto (None :: mem_ledger ledger_ops option) id"
    and ?e = "sample_registered 3"
  have ring: "mem_keyring_inv (pw_keys empty_world)" "keys_usable (pw_keys empty_world)"
    by (simp_all add: mem_keyring_inv_def keys_usable_def mem_keyring_new_def)
  have fresh: "pii_fresh ?cf ?e" by (rule sample_registered_fresh [OF toy_crypto_ok])
  obtain x es1 r k where sa: "seal_all ?cf [?e] (pw_rng empty_world, pw_keys empty_world) = (x, es1, r, k)"
    by (metis prod_cases4)
  have "fst (seal_all ?cf [?e] (pw_rng empty_world, pw_keys empty_world)) = None"
    using fresh ring(2) by (intro mem_ring.seal_all_total [OF ring(1)]) (auto simp: keys_usable_def)
  with sa have x: "x = None" by simp
  from mem_ring.seal_all_effect [OF ring(1) sa, where order = id] x obtain es
    where es: "es1 = [es]" "seal_of ?cf (map_of k) ?e es" by (auto simp: list_all2_Cons1)
  then have name: "ev_name es = user_registered"
    by (auto simp: seal_of_def dest!: sealed_frame split: if_splits)
  have zero: "current_version (ms_by_aggregate mem_new key) = 0" for key
    by (simp add: mem_new_def current_version_def)
  let ?w1 = "empty_world\<lparr>pw_keys := k, pw_rng := r\<rparr>"
  have fail: "pii_commit ?cf [?e] 4 [] empty_world = (Some ErrConcurrencyConflict, [es], ?w1)"
    using sa x es(1) zero by (simp add: pii_commit_def mem_commit_eq stamp_tenant_def)
  have "seals user_ops user_events ?e" by (simp add: seals_def user_declared) (simp add: sample_registered_def)
  moreover have "declared user_ops user_events es = declared user_ops user_events ?e"
    using name by (simp add: user_declared)
  moreover have "''email'' \<in> set (declared user_ops user_events ?e)" by (simp add: user_declared)
  moreover have "map_get (projr (unmarshal_map (ev_payload ?e))) ''email'' \<noteq> None"
    by (simp add: sample_registered_def)
  moreover have "current_version (ms_by_aggregate (pw_store ?w1) (commit_key [] [es])) = 0" using zero by simp
  ultimately show ?thesis
    using retried_commit_seals_twice [OF refl toy_crypto_ok ring fresh _ fail] fail by blast
qed

end
