(* ===== verification/Pii_Stream.thy ===== *)
theory Pii_Stream
  imports Mem_Stream Mem_Pii
begin

text \<open>
  \<^verbatim>\<open>StreamAll\<close> of \<^verbatim>\<open>es/pii_store.go\<close> over the in-memory store: one more goroutine between the stream of
  the wrapped store and the subscriber, which opens each event. The wrapped store runs as in
  \<open>Mem_Stream\<close>; the channel it sends an opened stream's events to is read by that goroutine alone.
\<close>

section \<open>State and steps\<close>

text \<open>
  \<open>PiiHolding e\<close> is the call of \<^verbatim>\<open>Open\<close> on a received event; \<open>PiiOffering e\<close> is the \<^verbatim>\<open>select\<close> between the
  subscriber and the context; \<open>PiiClosed\<close> is the end of the goroutine, both of its channels closed,
  with the error it left in \<^verbatim>\<open>errc\<close>.
\<close>

datatype pii_phase =
    PiiReceiving
  | PiiHolding domain_event
  | PiiOffering domain_event
  | PiiClosed "error option"

record pii_reader =
  pr_phase :: pii_phase
  pr_out :: "domain_event list"

record 'k pii_stream_state =
  px_stream :: stream_state
  px_keys :: 'k
  px_reader :: "nat \<Rightarrow> pii_reader option"

definition pii_stream_init :: "'k \<Rightarrow> 'k pii_stream_state" where
  "pii_stream_init k = \<lparr>px_stream = stream_init, px_keys = k, px_reader = Map.empty\<rparr>"

definition set_pii_reader :: "nat \<Rightarrow> pii_reader \<Rightarrow> 'k pii_stream_state \<Rightarrow> 'k pii_stream_state" where
  "set_pii_reader c pr st = st\<lparr>px_reader := (px_reader st)(c \<mapsto> pr)\<rparr>"

text \<open>A step of the wrapped store in which nobody receives from an opened stream's inner channel.\<close>

definition inner_step :: "(nat \<Rightarrow> pii_reader option) \<Rightarrow> stream_state \<Rightarrow> stream_state \<Rightarrow> bool" where
  "inner_step prs s s' \<longleftrightarrow> stream_step s s'
     \<and> (\<forall>c \<in> dom prs. map_option rd_out (ss_reader s' c) = map_option rd_out (ss_reader s c))"

text \<open>A step of the wrapped store in which \<open>e\<close> leaves the stream \<open>c\<close>.\<close>

definition inner_deliver :: "nat \<Rightarrow> domain_event \<Rightarrow> stream_state \<Rightarrow> stream_state \<Rightarrow> bool" where
  "inner_deliver c e s s' \<longleftrightarrow> stream_step s s' \<and> (\<exists>rd rd'. ss_reader s c = Some rd
     \<and> ss_reader s' = (ss_reader s)(c \<mapsto> rd') \<and> rd_out rd' = rd_out rd @ [e])"

inductive pii_stream_step :: "crypto \<Rightarrow> 'k keyring_ops \<Rightarrow> 'k pii_stream_state \<Rightarrow> 'k pii_stream_state \<Rightarrow> bool"
  for c kr where
  pii_open_stream: "stream_step (px_stream st) s \<Longrightarrow> ss_reader (px_stream st) i = None \<Longrightarrow>
    ss_reader s i \<noteq> None \<Longrightarrow>
    pii_stream_step c kr st (set_pii_reader i \<lparr>pr_phase = PiiReceiving, pr_out = []\<rparr> (st\<lparr>px_stream := s\<rparr>))"
| store_step: "inner_step (px_reader st) (px_stream st) s \<Longrightarrow>
    pii_stream_step c kr st (st\<lparr>px_stream := s\<rparr>)"
| pii_receive: "px_reader st i = Some pr \<Longrightarrow> pr_phase pr = PiiReceiving \<Longrightarrow>
    inner_deliver i e (px_stream st) s \<Longrightarrow>
    pii_stream_step c kr st (set_pii_reader i (pr\<lparr>pr_phase := PiiHolding e\<rparr>) (st\<lparr>px_stream := s\<rparr>))"
| pii_opened: "px_reader st i = Some pr \<Longrightarrow> pr_phase pr = PiiHolding e \<Longrightarrow>
    pii_open c kr e (px_keys st) = Inr e' \<Longrightarrow>
    pii_stream_step c kr st (set_pii_reader i (pr\<lparr>pr_phase := PiiOffering e'\<rparr>) st)"
| pii_failed: "px_reader st i = Some pr \<Longrightarrow> pr_phase pr = PiiHolding e \<Longrightarrow>
    pii_open c kr e (px_keys st) = Inl err \<Longrightarrow>
    pii_stream_step c kr st (set_pii_reader i (pr\<lparr>pr_phase := PiiClosed (Some err)\<rparr>) st)"
| pii_send: "px_reader st i = Some pr \<Longrightarrow> pr_phase pr = PiiOffering e \<Longrightarrow>
    pii_stream_step c kr st (set_pii_reader i (pr\<lparr>pr_phase := PiiReceiving, pr_out := pr_out pr @ [e]\<rparr>) st)"
| pii_give_up: "px_reader st i = Some pr \<Longrightarrow> pr_phase pr = PiiOffering e \<Longrightarrow>
    pii_stream_step c kr st (set_pii_reader i (pr\<lparr>pr_phase := PiiClosed None\<rparr>) st)"
| pii_end: "px_reader st i = Some pr \<Longrightarrow> pr_phase pr = PiiReceiving \<Longrightarrow>
    ss_reader (px_stream st) i = Some rd \<Longrightarrow> rd_phase rd = Gone \<Longrightarrow>
    pii_stream_step c kr st (set_pii_reader i (pr\<lparr>pr_phase := PiiClosed None\<rparr>) st)"
| ring_seal: "pii_seal c kr e b (r, px_keys st) = (x, e', r', k) \<Longrightarrow>
    pii_stream_step c kr st (st\<lparr>px_keys := k\<rparr>)"
| ring_forget: "pii_forget kr p (px_keys st) = (x, k) \<Longrightarrow>
    pii_stream_step c kr st (st\<lparr>px_keys := k\<rparr>)"

inductive pii_stream_reach :: "crypto \<Rightarrow> 'k keyring_ops \<Rightarrow> 'k \<Rightarrow> 'k pii_stream_state \<Rightarrow> bool"
  for c kr k where
  init: "pii_stream_reach c kr k (pii_stream_init k)"
| step: "pii_stream_reach c kr k st \<Longrightarrow> pii_stream_step c kr st st' \<Longrightarrow> pii_stream_reach c kr k st'"

lemma set_pii_reader_sel [simp]:
  "px_stream (set_pii_reader i pr st) = px_stream st" "px_keys (set_pii_reader i pr st) = px_keys st"
  "px_reader (set_pii_reader i pr st) = (px_reader st)(i \<mapsto> pr)"
  by (simp_all add: set_pii_reader_def)

text \<open>The wrapped store cannot tell that it is wrapped.\<close>

lemma pii_step_inner:
  "pii_stream_step c kr st st' \<Longrightarrow> px_stream st' = px_stream st \<or> stream_step (px_stream st) (px_stream st')"
  by (induction rule: pii_stream_step.induct) (auto simp: inner_step_def inner_deliver_def)

lemma pii_reach_inner: "pii_stream_reach c kr k st \<Longrightarrow> stream_reach (px_stream st)"
proof (induction rule: pii_stream_reach.induct)
  case init
  show ?case by (simp add: pii_stream_init_def stream_reach.init)
next
  case (step st st')
  with pii_step_inner [OF step(2)] show ?case by (auto intro: stream_reach.step)
qed

section \<open>What a subscriber has received\<close>

definition opened_from :: "crypto \<Rightarrow> 'k keyring_ops \<Rightarrow> domain_event \<Rightarrow> domain_event \<Rightarrow> bool" where
  "opened_from c kr e e' \<longleftrightarrow> (\<exists>k. pii_open c kr e k = Inr e')"

text \<open>
  \<open>taken c kr ph raw out\<close>: of the events \<open>out\<close> the wrapped stream has delivered, \<open>raw\<close> have been passed
  on, and phase \<open>ph\<close> accounts for the rest.
\<close>

fun taken :: "crypto \<Rightarrow> 'k keyring_ops \<Rightarrow> pii_phase \<Rightarrow> domain_event list \<Rightarrow> domain_event list \<Rightarrow> bool" where
  "taken c kr PiiReceiving raw out \<longleftrightarrow> out = raw"
| "taken c kr (PiiHolding e) raw out \<longleftrightarrow> out = raw @ [e]"
| "taken c kr (PiiOffering e') raw out \<longleftrightarrow> (\<exists>e. out = raw @ [e] \<and> opened_from c kr e e')"
| "taken c kr (PiiClosed x) raw out \<longleftrightarrow> prefix raw out"

definition pii_reader_inv :: "crypto \<Rightarrow> 'k keyring_ops \<Rightarrow> 'k pii_stream_state \<Rightarrow> bool" where
  "pii_reader_inv c kr st \<longleftrightarrow> (\<forall>i pr. px_reader st i = Some pr \<longrightarrow>
     (\<exists>rd raw. ss_reader (px_stream st) i = Some rd \<and> list_all2 (opened_from c kr) raw (pr_out pr)
        \<and> taken c kr (pr_phase pr) raw (rd_out rd)))"

lemma pii_reader_invD:
  assumes "pii_reader_inv c kr st" "px_reader st i = Some pr"
  obtains rd raw where "ss_reader (px_stream st) i = Some rd" "list_all2 (opened_from c kr) raw (pr_out pr)"
    "taken c kr (pr_phase pr) raw (rd_out rd)"
  using assms unfolding pii_reader_inv_def by blast

text \<open>A new phase of reader \<open>i\<close>, when the wrapped stream of the others is where it was.\<close>

lemma pii_reader_inv_set:
  assumes "pii_reader_inv c kr st"
    and "\<forall>j. j \<noteq> i \<longrightarrow> map_option rd_out (ss_reader s j) = map_option rd_out (ss_reader (px_stream st) j)"
    and "ss_reader s i = Some rd" "list_all2 (opened_from c kr) raw (pr_out pr)"
      "taken c kr (pr_phase pr) raw (rd_out rd)"
  shows "pii_reader_inv c kr (set_pii_reader i pr (st\<lparr>px_stream := s\<rparr>))"
  unfolding pii_reader_inv_def
proof (intro allI impI)
  fix j pr' assume j: "px_reader (set_pii_reader i pr (st\<lparr>px_stream := s\<rparr>)) j = Some pr'"
  show "\<exists>rd raw. ss_reader (px_stream (set_pii_reader i pr (st\<lparr>px_stream := s\<rparr>))) j = Some rd
      \<and> list_all2 (opened_from c kr) raw (pr_out pr') \<and> taken c kr (pr_phase pr') raw (rd_out rd)"
  proof (cases "j = i")
    case True
    with j assms(3-5) show ?thesis by auto
  next
    case False
    with j have "px_reader st j = Some pr'" by simp
    with assms(1) obtain rd1 raw1 where r: "ss_reader (px_stream st) j = Some rd1"
      "list_all2 (opened_from c kr) raw1 (pr_out pr')" "taken c kr (pr_phase pr') raw1 (rd_out rd1)"
      by (rule pii_reader_invD)
    from assms(2) False have "map_option rd_out (ss_reader s j) = Some (rd_out rd1)" by (simp add: r(1))
    with r(2,3) show ?thesis by auto
  qed
qed

lemma pii_reader_inv_phase:
  assumes "pii_reader_inv c kr st" "px_reader st i = Some pr"
    and "\<And>raw out. list_all2 (opened_from c kr) raw (pr_out pr) \<Longrightarrow> taken c kr (pr_phase pr) raw out \<Longrightarrow>
      \<exists>raw'. list_all2 (opened_from c kr) raw' (pr_out pr') \<and> taken c kr (pr_phase pr') raw' out"
  shows "pii_reader_inv c kr (set_pii_reader i pr' st)"
proof -
  from assms(1,2) obtain rd raw where r: "ss_reader (px_stream st) i = Some rd"
    "list_all2 (opened_from c kr) raw (pr_out pr)" "taken c kr (pr_phase pr) raw (rd_out rd)"
    by (rule pii_reader_invD)
  from assms(3) [OF r(2,3)] obtain raw' where "list_all2 (opened_from c kr) raw' (pr_out pr')"
    "taken c kr (pr_phase pr') raw' (rd_out rd)" by blast
  with pii_reader_inv_set [OF assms(1) _ r(1), of raw' pr'] show ?thesis by simp
qed

text \<open>Opening a stream leaves the subscribers there are alone.\<close>

lemma stream_step_opens:
  "stream_step s s' \<Longrightarrow> ss_reader s i = None \<Longrightarrow> ss_reader s' i = Some rd \<Longrightarrow>
   rd_out rd = [] \<and> (\<forall>j. j \<noteq> i \<longrightarrow> ss_reader s' j = ss_reader s j)"
  by (induction rule: stream_step.induct) (auto split: if_splits)

lemma pii_reader_inv_step:
  assumes "pii_stream_step c kr st st'" "pii_reader_inv c kr st"
  shows "pii_reader_inv c kr st'"
  using assms
proof (induction rule: pii_stream_step.induct)
  case (pii_open_stream st s i)
  then obtain rd where rd: "ss_reader s i = Some rd" by blast
  from stream_step_opens [OF pii_open_stream(1,2) rd] show ?case
    by (intro pii_reader_inv_set [OF pii_open_stream(4) _ rd, of "[]"]) simp_all
next
  case (store_step st s)
  show ?case unfolding pii_reader_inv_def
  proof (intro allI impI)
    fix i pr assume "px_reader (st\<lparr>px_stream := s\<rparr>) i = Some pr"
    then have i: "px_reader st i = Some pr" by simp
    from store_step(2) i obtain rd raw where r: "ss_reader (px_stream st) i = Some rd"
      "list_all2 (opened_from c kr) raw (pr_out pr)" "taken c kr (pr_phase pr) raw (rd_out rd)"
      by (rule pii_reader_invD)
    from store_step(1) i r(1) have "map_option rd_out (ss_reader s i) = Some (rd_out rd)"
      unfolding inner_step_def by (metis domI option.simps(9))
    with r(2,3) show "\<exists>rd raw. ss_reader (px_stream (st\<lparr>px_stream := s\<rparr>)) i = Some rd
        \<and> list_all2 (opened_from c kr) raw (pr_out pr) \<and> taken c kr (pr_phase pr) raw (rd_out rd)" by auto
  qed
next
  case (pii_receive st i pr e s)
  from pii_receive(3) obtain rd rd' where rd: "ss_reader (px_stream st) i = Some rd"
    "ss_reader s = (ss_reader (px_stream st))(i \<mapsto> rd')" "rd_out rd' = rd_out rd @ [e]"
    by (auto simp: inner_deliver_def)
  from pii_receive(4,1) rd(1) pii_receive(2) have "list_all2 (opened_from c kr) (rd_out rd) (pr_out pr)"
    by (auto elim!: pii_reader_invD)
  then show ?case by (intro pii_reader_inv_set [OF pii_receive(4), of i s rd' "rd_out rd"]) (simp_all add: rd(2,3))
next
  case (pii_opened st i pr e e')
  then show ?case by (intro pii_reader_inv_phase [OF pii_opened(4,1)]) (auto simp: opened_from_def)
next
  case (pii_failed st i pr e err)
  then show ?case by (intro pii_reader_inv_phase [OF pii_failed(4,1)]) auto
next
  case (pii_send st i pr e)
  show ?case
  proof (rule pii_reader_inv_phase [OF pii_send(3,1)])
    fix raw out assume raw: "list_all2 (opened_from c kr) raw (pr_out pr)" "taken c kr (pr_phase pr) raw out"
    then obtain e0 where "out = raw @ [e0]" "opened_from c kr e0 e" using pii_send(2) by auto
    with raw(1) show "\<exists>raw'. list_all2 (opened_from c kr) raw'
        (pr_out (pr\<lparr>pr_phase := PiiReceiving, pr_out := pr_out pr @ [e]\<rparr>))
      \<and> taken c kr (pr_phase (pr\<lparr>pr_phase := PiiReceiving, pr_out := pr_out pr @ [e]\<rparr>)) raw' out"
      by (intro exI [of _ "raw @ [e0]"]) (simp add: list_all2_appendI)
  qed
next
  case (pii_give_up st i pr e)
  then show ?case by (intro pii_reader_inv_phase [OF pii_give_up(3,1)]) auto
next
  case (pii_end st i pr rd)
  then show ?case by (intro pii_reader_inv_phase [OF pii_end(5,1)]) auto
qed (auto simp: pii_reader_inv_def)

lemma pii_reach_reader_inv: "pii_stream_reach c kr k st \<Longrightarrow> pii_reader_inv c kr st"
proof (induction rule: pii_stream_reach.induct)
  case init
  show ?case by (simp add: pii_reader_inv_def pii_stream_init_def)
qed (rule pii_reader_inv_step)

text \<open>
  C15. The stream of a PII store: under every interleaving of commits, erasures and subscribers, what a
  subscriber has received is, event by event and in commit order, what \<^verbatim>\<open>Open\<close> made of a prefix of the
  events its scope may see, each opened with the key ring of some moment; and of all of them whenever
  both goroutines wait and no commit has an event for the stream.
\<close>

theorem pii_streaming_in_order:
  assumes "pii_stream_reach c kr k st" "px_reader st i = Some pr"
  shows "\<exists>rd raw. ss_reader (px_stream st) i = Some rd
    \<and> prefix raw (filter (visible (rd_cfg rd)) (ms_all (ss_store (px_stream st))))
    \<and> list_all2 (opened_from c kr) raw (pr_out pr)
    \<and> (pr_phase pr = PiiReceiving \<and> rd_phase rd = Live
        \<and> ms_subscribers (ss_store (px_stream st)) i = Some [] \<and> unsent i (ss_commit (px_stream st)) = [] \<longrightarrow>
        raw = filter (visible (rd_cfg rd)) (ms_all (ss_store (px_stream st))))"
proof -
  from pii_reach_reader_inv [OF assms(1)] assms(2) obtain rd raw where r: "ss_reader (px_stream st) i = Some rd"
    "list_all2 (opened_from c kr) raw (pr_out pr)" "taken c kr (pr_phase pr) raw (rd_out rd)"
    by (rule pii_reader_invD)
  have inv: "reader_inv (px_stream st) i rd"
    using stream_invD(1) [OF stream_reach_inv [OF pii_reach_inner [OF assms(1)]] r(1)] .
  have "prefix raw (rd_out rd)" using r(3) by (cases "pr_phase pr") auto
  moreover have "prefix (rd_out rd) (filter (visible (rd_cfg rd)) (ms_all (ss_store (px_stream st))))"
    using inv by (simp add: reader_inv_def)
  ultimately have "prefix raw (filter (visible (rd_cfg rd)) (ms_all (ss_store (px_stream st))))"
    by (rule prefix_order.trans)
  moreover have "raw = filter (visible (rd_cfg rd)) (ms_all (ss_store (px_stream st)))"
    if "pr_phase pr = PiiReceiving" "rd_phase rd = Live" "ms_subscribers (ss_store (px_stream st)) i = Some []"
      "unsent i (ss_commit (px_stream st)) = []"
    using that inv r(3) by (auto simp: reader_inv_def)
  ultimately show ?thesis using r by blast
qed

section \<open>A failed open\<close>

text \<open>
  What a commit that nothing can release looks like: it has to send to the full channel of reader \<open>i\<close>,
  whose goroutine waits to hand on an event, or for the mutex.
\<close>

definition jam :: "nat \<Rightarrow> stream_state \<Rightarrow> bool" where
  "jam i s \<longleftrightarrow> (\<exists>e C key es q rd. ss_commit s = Sending e C key es \<and> i \<in> C
     \<and> ms_subscribers (ss_store s) i = Some q \<and> length q = live_capacity
     \<and> ss_reader s i = Some rd \<and> (rd_phase rd = Leaving \<or> (\<exists>x. rd_phase rd = Offering x)))"

definition jammed :: "nat \<Rightarrow> 'k pii_stream_state \<Rightarrow> bool" where
  "jammed i st \<longleftrightarrow> jam i (px_stream st) \<and> (\<exists>pr x. px_reader st i = Some pr \<and> pr_phase pr = PiiClosed x)"

definition blocked_for_good :: "crypto \<Rightarrow> 'k keyring_ops \<Rightarrow> 'k pii_stream_state \<Rightarrow> bool" where
  "blocked_for_good c kr st \<longleftrightarrow>
     (\<forall>st'. (pii_stream_step c kr)\<^sup>*\<^sup>* st st' \<longrightarrow> ss_commit (px_stream st') \<noteq> Idle)"

lemma jamI:
  "ss_commit s = Sending e C key es \<Longrightarrow> i \<in> C \<Longrightarrow> ms_subscribers (ss_store s) i = Some q \<Longrightarrow>
   length q = live_capacity \<Longrightarrow> ss_reader s i = Some rd \<Longrightarrow>
   rd_phase rd = Leaving \<or> (\<exists>x. rd_phase rd = Offering x) \<Longrightarrow> jam i s"
  unfolding jam_def by blast

lemma jam_step:
  assumes "stream_step s s'" "jam i s" "map_option rd_out (ss_reader s' i) = map_option rd_out (ss_reader s i)"
  shows "jam i s'"
proof -
  from assms(2) obtain e C key es q rd where j: "ss_commit s = Sending e C key es" "i \<in> C"
    "ms_subscribers (ss_store s) i = Some q" "length q = live_capacity" "ss_reader s i = Some rd"
    "rd_phase rd = Leaving \<or> (\<exists>x. rd_phase rd = Offering x)" unfolding jam_def by blast
  from assms(1) show ?thesis
  proof (cases rule: stream_step.cases)
    case (commit_send e2 D key2 es2 d q2)
    with j have "d \<noteq> i" by auto
    with commit_send j show ?thesis by (intro jamI [of _ e "C - {d}" key es i q rd]) simp_all
  next
    case (commit_sent e2 key2 es2)
    with j show ?thesis by simp
  next
    case (deliver_backlog d rd2 e2 es2)
    with j have "d \<noteq> i" by auto
    with deliver_backlog j show ?thesis by (intro jamI [of _ e C key es i q rd]) simp_all
  next
    case (go_live d rd2)
    with j have "d \<noteq> i" by auto
    with go_live j show ?thesis by (intro jamI [of _ e C key es i q rd]) simp_all
  next
    case (receive d rd2 e2 q2)
    with j have "d \<noteq> i" by auto
    with receive j show ?thesis by (intro jamI [of _ e C key es i q rd]) simp_all
  next
    case (deliver_live d rd2 e2)
    with assms(3) j have "d \<noteq> i" by auto
    with deliver_live j show ?thesis by (intro jamI [of _ e C key es i q rd]) simp_all
  next
    case (cancel d rd2)
    with j show ?thesis
      by (intro jamI [of _ e C key es i q "if d = i then rd\<lparr>rd_phase := Leaving\<rparr> else rd"]) auto
  qed (use j in simp_all)
qed

lemma jammed_step:
  "pii_stream_step c kr st st' \<Longrightarrow> jammed i st \<Longrightarrow> jammed i st'"
proof (induction rule: pii_stream_step.induct)
  case (pii_open_stream st s j)
  then have "j \<noteq> i" by (auto simp: jammed_def jam_def)
  moreover obtain rd where "ss_reader s j = Some rd" using pii_open_stream(3) by blast
  with stream_step_opens [OF pii_open_stream(1,2)] have "\<forall>l. l \<noteq> j \<longrightarrow> ss_reader s l = ss_reader (px_stream st) l" by blast
  ultimately show ?case using pii_open_stream jam_step [OF pii_open_stream(1), of i] by (auto simp: jammed_def)
next
  case (store_step st s)
  then have "map_option rd_out (ss_reader s i) = map_option rd_out (ss_reader (px_stream st) i)" "stream_step (px_stream st) s"
    unfolding inner_step_def jammed_def by blast+
  with jam_step [OF this(2) _ this(1)] store_step(2) show ?case by (simp add: jammed_def)
next
  case (pii_receive st j pr e s)
  then have "j \<noteq> i" by (auto simp: jammed_def)
  with pii_receive(3) have "ss_reader s i = ss_reader (px_stream st) i" "stream_step (px_stream st) s"
    by (auto simp: inner_deliver_def)
  with jam_step [OF this(2), of i] pii_receive(4) \<open>j \<noteq> i\<close> show ?case by (simp add: jammed_def)
qed (auto simp: jammed_def)

lemma jammed_blocked:
  assumes "jammed i st"
  shows "blocked_for_good c kr st"
  unfolding blocked_for_good_def
proof (intro allI impI)
  fix st' assume "(pii_stream_step c kr)\<^sup>*\<^sup>* st st'"
  then have "jammed i st'" using assms by (induction rule: rtranclp_induct) (auto intro: jammed_step)
  then show "ss_commit (px_stream st') \<noteq> Idle" by (auto simp: jammed_def jam_def)
qed

text \<open>The failure does not depend on what the store wrote into the event.\<close>

lemma open_fails_stored:
  assumes "pii_open c kr y k = Inl err" "stored_view x = stored_view y"
  shows "pii_open c kr x k = Inl err"
proof -
  note v = stored_viewD [OF assms(2)]
  from assms(1) show ?thesis
    by (auto simp: pii_open_def Let_def v split: option.splits if_splits sum.splits)
qed

lemma quiet_steps_pii:
  assumes "quiet_step\<^sup>*\<^sup>* (px_stream st) s" "pii_stream_reach c kr k st"
  shows "pii_stream_reach c kr k (st\<lparr>px_stream := s\<rparr>)"
  using assms(1)
proof (induction rule: rtranclp_induct)
  case base
  from assms(2) show ?case by simp
next
  case (step s1 s2)
  then have "inner_step (px_reader (st\<lparr>px_stream := s1\<rparr>)) (px_stream (st\<lparr>px_stream := s1\<rparr>)) s2"
    by (simp add: inner_step_def quiet_step_def)
  from pii_stream_reach.step [OF step(3) pii_stream_step.store_step [OF this]] show ?case by simp
qed

text \<open>A subscriber of the empty store has gone live, and a commit begins.\<close>

lemma pii_live_reachable:
  assumes "es \<noteq> []"
  shows "\<exists>st. pii_stream_reach c kr k st \<and> px_keys st = k
    \<and> px_reader st = [0 \<mapsto> \<lparr>pr_phase = PiiReceiving, pr_out = []\<rparr>]
    \<and> ss_reader (px_stream st) = [0 \<mapsto> \<lparr>rd_cfg = resolve_store_config [], rd_phase = Live, rd_out = []\<rparr>]
    \<and> ms_subscribers (ss_store (px_stream st)) = [0 \<mapsto> []]
    \<and> ss_commit (px_stream st) = Appending (commit_key [] es) (stamped [] es)"
proof -
  let ?rd = "\<lparr>rd_cfg = resolve_store_config [], rd_phase = Backlog [], rd_out = []\<rparr>"
  obtain s0 where op: "mem_open_stream 0 [] mem_new = ([], s0)"
    and s0: "ms_subscribers s0 = [0 \<mapsto> []]" "ms_by_aggregate s0 = ms_by_aggregate mem_new"
    by (simp add: mem_open_stream_def mem_new_def fun_eq_iff)
  let ?s1 = "set_reader 0 ?rd (stream_init\<lparr>ss_store := s0\<rparr>)"
  let ?s2 = "set_reader 0 (?rd\<lparr>rd_phase := Live\<rparr>) ?s1"
  let ?s3 = "?s2\<lparr>ss_commit := Appending (commit_key [] es) (stamped [] es)\<rparr>"
  let ?st1 = "set_pii_reader 0 \<lparr>pr_phase = PiiReceiving, pr_out = []\<rparr> ((pii_stream_init k)\<lparr>px_stream := ?s1\<rparr>)"
  have "stream_step stream_init ?s1"
    using op by (intro open_stream) (simp_all add: stream_init_def)
  then have "pii_stream_step c kr (pii_stream_init k) ?st1"
    by (intro pii_open_stream) (simp_all add: pii_stream_init_def stream_init_def)
  then have r1: "pii_stream_reach c kr k ?st1" by (rule pii_stream_reach.step [OF pii_stream_reach.init])
  have "stream_step ?s1 ?s2" by (intro go_live) simp_all
  then have "pii_stream_step c kr ?st1 (?st1\<lparr>px_stream := ?s2\<rparr>)"
    by (intro store_step) (simp add: inner_step_def)
  then have r2: "pii_stream_reach c kr k (?st1\<lparr>px_stream := ?s2\<rparr>)" by (rule pii_stream_reach.step [OF r1])
  have "stream_step ?s2 ?s3"
    using assms by (intro commit_start [of _ _ _ 0]) (simp_all add: stream_init_def s0(2) mem_new_def current_version_def)
  then have "quiet_step\<^sup>*\<^sup>* (px_stream (?st1\<lparr>px_stream := ?s2\<rparr>)) ?s3" by (simp add: quiet_step_def r_into_rtranclp)
  from quiet_steps_pii [OF this r2] have "pii_stream_reach c kr k (?st1\<lparr>px_stream := ?s3\<rparr>)" by simp
  then show ?thesis
    by (rule_tac x = "?st1\<lparr>px_stream := ?s3\<rparr>" in exI) (simp add: pii_stream_init_def stream_init_def s0(1))
qed

text \<open>
  The channel hands its first event to the goroutine of the in-memory store, which offers it to the
  goroutine of the PII store.
\<close>

lemma pii_receive_inner:
  assumes "pii_stream_reach c kr k st" "ss_reader (px_stream st) i = Some rd" "rd_phase rd = Live"
    and "rd_cfg rd = resolve_store_config []" "ms_subscribers (ss_store (px_stream st)) i = Some (x # q)"
  shows "pii_stream_reach c kr k (st\<lparr>px_stream :=
    set_reader i (rd\<lparr>rd_phase := Offering x\<rparr>) (set_queue i (Some q) (px_stream st))\<rparr>)"
proof -
  have "stream_step (px_stream st) (set_reader i (rd\<lparr>rd_phase := Offering x\<rparr>) (set_queue i (Some q) (px_stream st)))"
    using receive [OF assms(2,3,5)] assms(4) by (simp add: visible_def)
  then have "inner_step (px_reader st) (px_stream st)
      (set_reader i (rd\<lparr>rd_phase := Offering x\<rparr>) (set_queue i (Some q) (px_stream st)))"
    using assms(2) by (simp add: inner_step_def)
  then show ?thesis by (intro pii_stream_reach.step [OF assms(1)] store_step)
qed

lemma pii_fail_reachable:
  assumes "pii_stream_reach c kr k st" "px_reader st i = Some pr" "pr_phase pr = PiiReceiving"
    and "ss_reader (px_stream st) i = Some rd" "rd_phase rd = Offering x"
    and "pii_open c kr x (px_keys st) = Inl err"
  shows "pii_stream_reach c kr k (set_pii_reader i (pr\<lparr>pr_phase := PiiClosed (Some err)\<rparr>)
    (st\<lparr>px_stream := set_reader i (rd\<lparr>rd_phase := Live, rd_out := rd_out rd @ [x]\<rparr>) (px_stream st)\<rparr>))"
proof -
  let ?s = "set_reader i (rd\<lparr>rd_phase := Live, rd_out := rd_out rd @ [x]\<rparr>) (px_stream st)"
  let ?st = "set_pii_reader i (pr\<lparr>pr_phase := PiiHolding x\<rparr>) (st\<lparr>px_stream := ?s\<rparr>)"
  have "inner_deliver i x (px_stream st) ?s"
    using deliver_live [OF assms(4,5)] assms(4)
    by (auto simp: inner_deliver_def intro!: exI [of _ "rd\<lparr>rd_phase := Live, rd_out := rd_out rd @ [x]\<rparr>"])
  from pii_stream_reach.step [OF assms(1) pii_stream_step.pii_receive [OF assms(2,3) this]]
  have r: "pii_stream_reach c kr k ?st" .
  have "pii_stream_step c kr ?st (set_pii_reader i ((pr\<lparr>pr_phase := PiiHolding x\<rparr>)\<lparr>pr_phase := PiiClosed (Some err)\<rparr>) ?st)"
    using assms(6) by (intro pii_stream_step.pii_failed) simp_all
  from pii_stream_reach.step [OF r this] show ?thesis by (simp add: set_pii_reader_def)
qed

text \<open>After a failure, 66 more events of the same commit fill what is in the way.\<close>

lemma jam_reachable:
  assumes r: "pii_stream_reach c kr k st" and pr: "px_reader st 0 = Some \<lparr>pr_phase = PiiClosed x, pr_out = []\<rparr>"
    and rd: "ss_reader (px_stream st) 0 = Some rd" "rd_phase rd = Live" "rd_cfg rd = resolve_store_config []"
    and q: "ms_subscribers (ss_store (px_stream st)) = [0 \<mapsto> [y]]"
    and cm: "ss_commit (px_stream st) = Appending key (gs @ h # hs)" "length gs = 64"
  shows "\<exists>st'. pii_stream_reach c kr k st' \<and> px_reader st' 0 = Some \<lparr>pr_phase = PiiClosed x, pr_out = []\<rparr> \<and> jammed 0 st'"
proof -
  let ?s1 = "set_reader 0 (rd\<lparr>rd_phase := Offering y\<rparr>) (set_queue 0 (Some []) (px_stream st))"
  have r1: "pii_stream_reach c kr k (st\<lparr>px_stream := ?s1\<rparr>)"
    using q by (intro pii_receive_inner [OF r rd]) simp
  have "ms_subscribers (ss_store ?s1) = [0 \<mapsto> []]" "ss_commit ?s1 = Appending key (gs @ h # hs)"
    using q cm(1) by (simp_all add: fun_eq_iff)
  from fill_channel [OF this(2,1)] cm(2) obtain s2 es' where s2: "quiet_step\<^sup>*\<^sup>* ?s1 s2"
    "ss_commit s2 = Appending key (h # hs)" "ms_subscribers (ss_store s2) = [0 \<mapsto> [] @ es']"
    "map stored_view es' = map stored_view gs" by (auto simp: live_capacity_def)
  have len: "length es' = live_capacity"
    using s2(4) cm(2) by (metis length_map live_capacity_def)
  have rd2: "ss_reader s2 0 = Some (rd\<lparr>rd_phase := Offering y\<rparr>)" using quiet_steps_reader [OF s2(1)] by simp
  obtain e' s3 where al: "append_log key h (ss_store s2) = (e', s3)" by force
  let ?s4 = "s2\<lparr>ss_store := s3, ss_commit := Sending e' (dom (ms_subscribers s3)) key hs\<rparr>"
  have "quiet_step\<^sup>*\<^sup>* ?s1 ?s4" using s2(1) quiet_begin [OF s2(2) al] by (rule rtranclp.rtrancl_into_rtrancl)
  with quiet_steps_pii [OF _ r1, of ?s4] have "pii_stream_reach c kr k (st\<lparr>px_stream := ?s1\<rparr>\<lparr>px_stream := ?s4\<rparr>)"
    by simp
  moreover have "jam 0 ?s4"
    using s2(3) rd2 len by (intro jamI [of _ e' "dom (ms_subscribers s3)" key hs 0 es' "rd\<lparr>rd_phase := Offering y\<rparr>"]) (simp_all add: append_log_sel [OF al])
  then have "jammed 0 (st\<lparr>px_stream := ?s1\<rparr>\<lparr>px_stream := ?s4\<rparr>)" using pr by (simp add: jammed_def)
  ultimately show ?thesis using pr by (intro exI [of _ "st\<lparr>px_stream := ?s1\<rparr>\<lparr>px_stream := ?s4\<rparr>"]) simp
qed

lemma pii_jam_reachable:
  fixes f h :: domain_event and gs hs :: "domain_event list"
  assumes "pii_open c kr e k = Inl err" "length gs = 64"
  shows "\<exists>st. pii_stream_reach c kr k st
    \<and> px_reader st 0 = Some \<lparr>pr_phase = PiiClosed (Some err), pr_out = []\<rparr> \<and> jammed 0 st"
proof -
  let ?key = "commit_key [] (e # f # gs @ h # hs)" and ?rd = "\<lparr>rd_cfg = resolve_store_config [], rd_phase = Live, rd_out = []\<rparr>"
  let ?cm = "stamped [] gs @ stamp_tenant (resolve_store_config []) h # stamped [] hs"
  obtain st where st: "pii_stream_reach c kr k st" "px_keys st = k"
    "px_reader st = [0 \<mapsto> \<lparr>pr_phase = PiiReceiving, pr_out = []\<rparr>]" "ss_reader (px_stream st) = [0 \<mapsto> ?rd]"
    "ms_subscribers (ss_store (px_stream st)) = [0 \<mapsto> []]"
    "ss_commit (px_stream st) = Appending ?key (stamped [] [e, f] @ ?cm)"
    using pii_live_reachable [of "e # f # gs @ h # hs" c kr k] by auto
  from fill_channel [OF st(6,5)] obtain s1 es' where s1: "quiet_step\<^sup>*\<^sup>* (px_stream st) s1"
    "ss_commit s1 = Appending ?key ?cm" "ms_subscribers (ss_store s1) = [0 \<mapsto> es']"
    "map stored_view es' = map stored_view (stamped [] [e, f])" by (auto simp: live_capacity_def)
  from s1(4) obtain x y where xy: "es' = [x, y]" "stored_view x = stored_view e" by auto
  have rd1: "ss_reader s1 0 = Some ?rd" using quiet_steps_reader [OF s1(1)] st(4) by simp
  have r1: "pii_stream_reach c kr k (st\<lparr>px_stream := s1\<rparr>)" by (rule quiet_steps_pii [OF s1(1) st(1)])
  have r2: "pii_stream_reach c kr k (st\<lparr>px_stream := s1\<rparr>\<lparr>px_stream :=
      set_reader 0 (?rd\<lparr>rd_phase := Offering x\<rparr>) (set_queue 0 (Some [y]) (px_stream (st\<lparr>px_stream := s1\<rparr>)))\<rparr>)"
    (is "pii_stream_reach c kr k ?st2")
    by (rule pii_receive_inner [OF r1]) (simp_all add: rd1 s1(3) xy(1))
  have "pii_stream_reach c kr k (set_pii_reader 0 (\<lparr>pr_phase = PiiReceiving, pr_out = []\<rparr>\<lparr>pr_phase := PiiClosed (Some err)\<rparr>)
      (?st2\<lparr>px_stream := set_reader 0 (?rd\<lparr>rd_phase := Offering x\<rparr>\<lparr>rd_phase := Live, rd_out := [x]\<rparr>) (px_stream ?st2)\<rparr>))"
    (is "pii_stream_reach c kr k ?st3")
    using pii_fail_reachable [OF r2, of 0 _ "?rd\<lparr>rd_phase := Offering x\<rparr>" x err] st(2,3)
      open_fails_stored [OF assms(1) xy(2)] by simp
  then show ?thesis
    by (rule jam_reachable [of _ _ _ _ _ "?rd\<lparr>rd_out := [x]\<rparr>" y ?key "stamped [] gs"
        "stamp_tenant (resolve_store_config []) h" "stamped [] hs"])
      (simp_all add: s1(2,3) xy(1) assms(2) fun_eq_iff)
qed

text \<open>
  C37. An event that fails to open stops the store: the goroutine of the PII stream returns without
  cancelling the stream it reads, and once the channels behind it are full a \<^verbatim>\<open>Commit\<close> blocks with the
  mutex held. From then on no commit returns, whatever the subscribers do: reading the closed channels,
  forgetting the subject's key or cancelling the context does not help.
\<close>

theorem failed_open_blocks_store:
  assumes "pii_open c kr e k = Inl err"
  shows "\<exists>st. pii_stream_reach c kr k st
    \<and> px_reader st 0 = Some \<lparr>pr_phase = PiiClosed (Some err), pr_out = []\<rparr> \<and> blocked_for_good c kr st"
proof -
  obtain gs :: "domain_event list" where "length gs = 64" by (metis length_replicate)
  from pii_jam_reachable [OF assms this] jammed_blocked show ?thesis by blast
qed

text \<open>A value that is no ciphertext, under a manifest that says it is.\<close>

definition damaged_event :: domain_event where
  "damaged_event = (sample_pii_event 3)\<lparr>ev_pii_fields := RawOk (manifest_json [''email''])\<rparr>"

lemma damaged_event_fails:
  "\<exists>err. pii_open toy_crypto (mem_keyring_ops id) damaged_event [(3, replicate 32 0)] = Inl err"
proof -
  have "isl (b64_decode ''a@b'')" by code_simp
  then obtain err where "b64_decode ''a@b'' = Inl err" by (auto simp: isl_def)
  then show ?thesis
    by (simp add: damaged_event_def sample_pii_event_def pii_open_def manifest_roundtrip mem_kr_get_def pii_decrypt_def)
qed

theorem failed_open_blocks_store_witness:
  "\<exists>st err. pii_stream_reach toy_crypto (mem_keyring_ops id) [(3, replicate 32 0)] st
    \<and> px_reader st 0 = Some \<lparr>pr_phase = PiiClosed (Some err), pr_out = []\<rparr>
    \<and> blocked_for_good toy_crypto (mem_keyring_ops id) st"
proof -
  obtain err where "pii_open toy_crypto (mem_keyring_ops id) damaged_event [(3, replicate 32 0)] = Inl err"
    using damaged_event_fails by blast
  from failed_open_blocks_store [OF this] show ?thesis by blast
qed

theorem pii_streaming_in_order_witness:
  "\<exists>st rd raw. pii_stream_reach toy_crypto (mem_keyring_ops id) [] st \<and> ss_reader (px_stream st) 0 = Some rd
    \<and> prefix raw (filter (visible (rd_cfg rd)) (ms_all (ss_store (px_stream st))))"
proof -
  obtain st where st: "pii_stream_reach toy_crypto (mem_keyring_ops id) [] st"
    "px_reader st = [0 \<mapsto> \<lparr>pr_phase = PiiReceiving, pr_out = []\<rparr>]"
    using pii_live_reachable [of "[damaged_event]" toy_crypto "mem_keyring_ops id" "[]"] by blast
  with pii_streaming_in_order [OF st(1), of 0] show ?thesis by auto
qed

end
