(* ===== verification/Ledger_Domain.thy ===== *)
theory Ledger_Domain
  imports Es_Repository "HOL-Library.Multiset"
begin

text \<open>
  \<^verbatim>\<open>examples/ledger/domain\<close>: the \<^verbatim>\<open>Account\<close> aggregate, its events and its commands. Amounts and the
  balance are \<^verbatim>\<open>int64\<close>, kept as 64-bit words read as signed, so that additions wrap as in Go. The
  last section shows that the balance is a projection of the log that does not depend on the order
  in which the transactions were posted.
\<close>

section \<open>Events\<close>

type_synonym i64 = "64 word"

datatype account_payload =
    AccountOpenedEvent (open_name: string) (open_email: string) (open_balance: i64)
  | TransactionRecordedEvent (tx_amount: i64) (tx_description: string)
  | HolderErasureRequestedEvent

definition all_account_events :: string where "all_account_events = ''ledger.*''"
definition account_opened :: string where "account_opened = ''ledger.account_opened''"
definition transaction_recorded :: string where "transaction_recorded = ''ledger.transaction_recorded''"
definition holder_erasure_requested :: string where
  "holder_erasure_requested = ''ledger.holder_erasure_requested''"

lemmas account_event_names = account_opened_def transaction_recorded_def holder_erasure_requested_def

fun account_event_name :: "account_payload \<Rightarrow> string" where
  "account_event_name (AccountOpenedEvent n e b) = account_opened"
| "account_event_name (TransactionRecordedEvent a d) = transaction_recorded"
| "account_event_name HolderErasureRequestedEvent = holder_erasure_requested"

text \<open>An \<^verbatim>\<open>int64\<close> is written as its signed value and read back with its range checked.\<close>

definition unmarshal_i64 :: "json \<Rightarrow> i64 \<Rightarrow> error + i64" where
  "unmarshal_i64 j w = map_sum id of_int (unmarshal_int64 j (sint w))"

lemma unmarshal_i64_sint [simp]: "unmarshal_i64 (JNum (sint w)) v = Inr w"
proof -
  have "- (2 ^ 63) \<le> sint w" "sint w < 2 ^ 63"
    using sint_ge [of w] sint_lt [of w] by simp_all
  then show ?thesis by (simp add: unmarshal_i64_def)
qed

fun account_marshal :: "account_payload \<Rightarrow> error + json" where
  "account_marshal (AccountOpenedEvent n e b) =
     Inr (JObj [''holder_name'' \<mapsto> JStr n, ''holder_email'' \<mapsto> JStr e,
                ''opening_balance_cents'' \<mapsto> JNum (sint b)])"
| "account_marshal (TransactionRecordedEvent a d) =
     Inr (JObj [''amount_cents'' \<mapsto> JNum (sint a), ''description'' \<mapsto> JStr d])"
| "account_marshal HolderErasureRequestedEvent = Inr (JObj Map.empty)"

text \<open>\<^verbatim>\<open>json.Unmarshal\<close> into an instance, with keys compared exactly, as in \<^verbatim>\<open>User_Domain\<close>.\<close>

fun account_unmarshal_obj :: "(string \<Rightarrow> json option) \<Rightarrow> account_payload \<Rightarrow>
    error option \<times> account_payload" where
  "account_unmarshal_obj m (AccountOpenedEvent n e b) =
     (let (r1, n') = struct_field unmarshal_string m ''holder_name'' n;
          (r2, e') = struct_field unmarshal_string m ''holder_email'' e;
          (r3, b') = struct_field unmarshal_i64 m ''opening_balance_cents'' b
      in (first_error [r1, r2, r3], AccountOpenedEvent n' e' b'))"
| "account_unmarshal_obj m (TransactionRecordedEvent a d) =
     (let (r1, a') = struct_field unmarshal_i64 m ''amount_cents'' a;
          (r2, d') = struct_field unmarshal_string m ''description'' d
      in (first_error [r1, r2], TransactionRecordedEvent a' d'))"
| "account_unmarshal_obj m HolderErasureRequestedEvent = (None, HolderErasureRequestedEvent)"

fun account_unmarshal :: "raw \<Rightarrow> account_payload \<Rightarrow> error option \<times> account_payload" where
  "account_unmarshal (RawOk (JObj m)) p = account_unmarshal_obj m p"
| "account_unmarshal (RawOk JNull) p = (None, p)"
| "account_unmarshal _ p = (Some ErrJson, p)"

fun account_pii_fields :: "account_payload \<Rightarrow> (string \<Rightarrow> string list) option" where
  "account_pii_fields (AccountOpenedEvent n e b) =
     Some ((\<lambda>_. [])(''payload'' := [''holder_name'', ''holder_email'']))"
| "account_pii_fields _ = None"

fun account_requests_erasure :: "account_payload \<Rightarrow> bool" where
  "account_requests_erasure HolderErasureRequestedEvent = True"
| "account_requests_erasure _ = False"

definition account_ops :: "account_payload payload_ops" where
  "account_ops = \<lparr> po_event_name = account_event_name, po_marshal = account_marshal,
     po_unmarshal = account_unmarshal, po_pii_fields = account_pii_fields,
     po_requests_erasure = account_requests_erasure \<rparr>"

lemma account_ops_sel [simp]:
  "po_event_name account_ops = account_event_name"
  "po_marshal account_ops = account_marshal"
  "po_unmarshal account_ops = account_unmarshal"
  "po_pii_fields account_ops = account_pii_fields"
  "po_requests_erasure account_ops = account_requests_erasure"
  by (simp_all add: account_ops_def)

definition account_events :: "account_payload registry" where
  "account_events =
     registry_register holder_erasure_requested HolderErasureRequestedEvent
      (registry_register transaction_recorded (TransactionRecordedEvent 0 [])
        (registry_register account_opened (AccountOpenedEvent [] [] 0) new_registry))"

lemma account_events_factory [simp]:
  "registry_factory account_events account_opened = Some (AccountOpenedEvent [] [] 0)"
  "registry_factory account_events transaction_recorded = Some (TransactionRecordedEvent 0 [])"
  "registry_factory account_events holder_erasure_requested = Some HolderErasureRequestedEvent"
  by (simp_all add: account_events_def registry_factory_register account_event_names)

section \<open>The aggregate\<close>

record account_actor =
  aa_id :: uuid
  aa_type :: string

definition account_actor_is_set :: "account_actor \<Rightarrow> bool" where
  "account_actor_is_set a \<longleftrightarrow> aa_id a \<noteq> uuid_nil"

definition err_already_opened :: error where
  "err_already_opened = ErrText ''account: already opened''"
definition err_not_opened :: error where
  "err_not_opened = ErrText ''account: not opened''"
definition err_holder_required :: error where
  "err_holder_required = ErrText ''account: holder name and email are required''"
definition err_zero_amount :: error where
  "err_zero_amount = ErrText ''account: transaction amount must be non-zero''"

record account = base_aggregate +
  ac_holder_name :: string
  ac_holder_email :: string
  ac_balance :: i64
  ac_opened :: bool

definition new_account :: account where
  "new_account = \<lparr> agg_id = 0, agg_version = 0, agg_uncommitted = [],
     ac_holder_name = [], ac_holder_email = [], ac_balance = 0, ac_opened = False \<rparr>"

lemma new_account_sel [simp]:
  "agg_uncommitted new_account = []" "agg_version new_account = 0" "\<not> ac_opened new_account"
  "agg_id new_account = 0"
  by (simp_all add: new_account_def)

text \<open>\<^verbatim>\<open>Account.Apply\<close>; its default branch has no counterpart (see \<open>user_apply\<close> in \<open>User_Domain\<close>).\<close>

fun account_apply :: "account_payload \<Rightarrow> account \<Rightarrow> error option \<times> account" where
  "account_apply (AccountOpenedEvent n e b) a =
     (if ac_opened a then (Some err_already_opened, a)
      else (None, a\<lparr>ac_holder_name := n, ac_holder_email := e, ac_balance := b, ac_opened := True\<rparr>))"
| "account_apply (TransactionRecordedEvent amount d) a =
     (if \<not> ac_opened a then (Some err_not_opened, a)
      else (None, a\<lparr>ac_balance := ac_balance a + amount\<rparr>))"
| "account_apply HolderErasureRequestedEvent a =
     (if \<not> ac_opened a then (Some err_not_opened, a) else (None, a))"

definition account_actor_opts :: "account_actor \<Rightarrow> record_option list" where
  "account_actor_opts ac = (if account_actor_is_set ac then [WithActor (aa_id ac) (aa_type ac)] else [])"

abbreviation account_record :: "uuid \<Rightarrow> time \<Rightarrow> account_payload \<Rightarrow> record_option list \<Rightarrow> account \<Rightarrow>
    error option \<times> account" where
  "account_record new_id now p opts a \<equiv> record_that account_ops account_apply new_id now p opts a"

definition account_open :: "uuid \<Rightarrow> time \<Rightarrow> string \<Rightarrow> string \<Rightarrow> i64 \<Rightarrow> account_actor \<Rightarrow> account \<Rightarrow>
    error option \<times> account" where
  "account_open new_id now name email balance actor a =
     (if name = [] \<or> email = [] then (Some err_holder_required, a)
      else account_record new_id now (AccountOpenedEvent name email balance)
             ([WithPiiID (agg_id a), WithEventVersion 1] @ account_actor_opts actor) a)"

definition account_transact :: "uuid \<Rightarrow> time \<Rightarrow> i64 \<Rightarrow> string \<Rightarrow> string \<Rightarrow> account_actor \<Rightarrow>
    record_option list \<Rightarrow> account \<Rightarrow> error option \<times> account" where
  "account_transact new_id now amount desc channel actor opts a =
     (if amount = 0 then (Some err_zero_amount, a)
      else account_record new_id now (TransactionRecordedEvent amount desc)
             ([WithMetadata [(''channel'', Some (JStr channel))], WithPiiID (agg_id a)] @ opts
               @ account_actor_opts actor) a)"

definition account_request_erasure :: "uuid \<Rightarrow> time \<Rightarrow> account_actor \<Rightarrow> account \<Rightarrow>
    error option \<times> account" where
  "account_request_erasure new_id now actor a =
     (if \<not> ac_opened a then (Some err_not_opened, a)
      else account_record new_id now HolderErasureRequestedEvent
             ([WithPiiID (agg_id a)] @ account_actor_opts actor) a)"

section \<open>The contracts hold\<close>

lemma account_codec: "\<exists>j z. po_marshal account_ops p = Inr j
    \<and> registry_factory account_events (po_event_name account_ops p) = Some z
    \<and> po_unmarshal account_ops (RawOk j) z = (None, p)"
  by (cases p) (simp_all add: struct_field_def)

interpretation account: event_sourced account_ops account_apply account_events
proof unfold_locales
  fix p a v u err
  show "\<exists>j z. po_marshal account_ops p = Inr j
      \<and> registry_factory account_events (po_event_name account_ops p) = Some z
      \<and> po_unmarshal account_ops (RawOk j) z = (None, p)" by (rule account_codec)
  show "fst (account_apply p (a\<lparr>agg_version := v, agg_uncommitted := u\<rparr>)) = fst (account_apply p a)"
    by (cases p) simp_all
  show "snd (account_apply p (a\<lparr>agg_version := v, agg_uncommitted := u\<rparr>))
      = (snd (account_apply p a))\<lparr>agg_version := v, agg_uncommitted := u\<rparr>"
    by (cases p) simp_all
  show "agg_id (snd (account_apply p a)) = agg_id a" by (cases p) simp_all
  show "fst (account_apply p a) = Some err \<Longrightarrow> snd (account_apply p a) = a"
    by (cases p) (simp_all split: if_splits)
qed

interpretation account_repo: repository account_ops account_apply account_events
  mem_ops opts mem_inv "mem_stream opts" "\<lambda>_. fresh_batch" for opts
  by unfold_locales

section \<open>The balance is a projection of the log\<close>

text \<open>A stored transaction: its payload decodes, to the amount \<open>event_amount\<close>.\<close>

definition tx_event :: "domain_event \<Rightarrow> bool" where
  "tx_event e \<longleftrightarrow> ev_name e = transaction_recorded
     \<and> fst (account_unmarshal (ev_payload e) (TransactionRecordedEvent 0 [])) = None"

definition event_amount :: "domain_event \<Rightarrow> i64" where
  "event_amount e =
     (case snd (account_unmarshal (ev_payload e) (TransactionRecordedEvent 0 [])) of
        TransactionRecordedEvent amount d \<Rightarrow> amount
      | _ \<Rightarrow> 0)"

lemma account_unmarshal_tx:
  assumes "account_unmarshal r (TransactionRecordedEvent a d) = (err, p)"
  shows "\<exists>a' d'. p = TransactionRecordedEvent a' d'"
  using assms
  by (cases "(r, TransactionRecordedEvent a d)" rule: account_unmarshal.cases)
    (auto split: prod.splits)

lemma replay_transactions:
  assumes "list_all tx_event es" "ac_opened a"
  shows "\<exists>b. load_from_history account_ops account_apply account_events es a = (None, b)
    \<and> ac_balance b = ac_balance a + sum_list (map event_amount es)
    \<and> ac_opened b \<and> ac_holder_name b = ac_holder_name a \<and> ac_holder_email b = ac_holder_email a"
  using assms
proof (induction es arbitrary: a)
  case (Cons e es)
  from Cons.prems(1) have tx: "tx_event e" and rest: "list_all tx_event es" by simp_all
  obtain p where un: "account_unmarshal (ev_payload e) (TransactionRecordedEvent 0 []) = (None, p)"
    using tx by (metis prod.collapse tx_event_def)
  with account_unmarshal_tx [OF un] obtain amt d where p: "p = TransactionRecordedEvent amt d" by blast
  let ?a = "set_version (ev_aggregate_version e) (a\<lparr>ac_balance := ac_balance a + amt\<rparr>)"
  have "ac_opened ?a" using Cons.prems(2) by (simp add: set_version_def)
  from Cons.IH [OF rest this] obtain b where
    "load_from_history account_ops account_apply account_events es ?a = (None, b)"
    "ac_balance b = ac_balance a + amt + sum_list (map event_amount es)" "ac_opened b"
    "ac_holder_name b = ac_holder_name a" "ac_holder_email b = ac_holder_email a"
    by (auto simp: set_version_def)
  moreover have "event_amount e = amt" by (simp add: event_amount_def un p)
  ultimately show ?case
    using tx un p Cons.prems(2) by (simp add: tx_event_def add.assoc)
qed simp

text \<open>
  The balance does not depend on the order in which the transactions of an opened account landed:
  replaying any permutation of them gives the same balance, the opening one plus their sum in
  64-bit arithmetic, and the same holder.
\<close>

lemma balance_order_independent:
  assumes "ac_opened a" "list_all tx_event es" "mset fs = mset es"
  shows "\<exists>b c. load_from_history account_ops account_apply account_events es a = (None, b)
    \<and> load_from_history account_ops account_apply account_events fs a = (None, c)
    \<and> ac_balance b = ac_balance c \<and> ac_balance c = ac_balance a + sum_list (map event_amount fs)
    \<and> ac_holder_name b = ac_holder_name c \<and> ac_holder_email b = ac_holder_email c"
proof -
  have "set fs = set es" using assms(3) by (metis set_mset_mset)
  then have "list_all tx_event fs" using assms(2) by (simp add: list_all_iff)
  moreover have "sum_list (map event_amount fs) = sum_list (map event_amount es)"
    by (metis assms(3) mset_map sum_mset_sum_list)
  ultimately show ?thesis
    using replay_transactions [OF assms(2,1)] replay_transactions [of fs a] assms(1) by metis
qed

definition sample_tx :: "i64 \<Rightarrow> u64 \<Rightarrow> domain_event" where
  "sample_tx amount v = (sample_event 0 7 v)\<lparr>ev_name := transaction_recorded,
     ev_payload := RawOk (JObj [''amount_cents'' \<mapsto> JNum (sint amount), ''description'' \<mapsto> JStr []])\<rparr>"

lemma sample_tx_ok: "tx_event (sample_tx amount v)" "event_amount (sample_tx amount v) = amount"
  by (simp_all add: sample_tx_def tx_event_def event_amount_def struct_field_def)

theorem balance_order_independent_witness:
  "\<exists>b c. load_from_history account_ops account_apply account_events [sample_tx 100 2, sample_tx (-30) 3]
        (new_account\<lparr>ac_opened := True\<rparr>) = (None, b)
    \<and> load_from_history account_ops account_apply account_events [sample_tx (-30) 3, sample_tx 100 2]
        (new_account\<lparr>ac_opened := True\<rparr>) = (None, c)
    \<and> ac_balance b = ac_balance c \<and> ac_balance c = 70"
proof -
  have "mset [sample_tx (-30) 3, sample_tx 100 2] = mset [sample_tx 100 2, sample_tx (-30) 3]" by simp
  from balance_order_independent [OF _ _ this, of "new_account\<lparr>ac_opened := True\<rparr>"]
  show ?thesis by (auto simp: sample_tx_ok new_account_def)
qed

end
