(* ===== verification/Ledger_Workers.thy ===== *)
theory Ledger_Workers
  imports Ledger_Domain
begin

text \<open>
  The concurrent posting loop of \<^verbatim>\<open>examples/ledger/main.go\<close>: several goroutines post one transaction
  each to the same account, and each loads the account, records its transaction, saves, and starts
  over on \<^verbatim>\<open>ErrConcurrencyConflict\<close>. A run is any interleaving of the loads and the saves. The theory
  proves that no run can go on for ever, that a run can only stop when every transaction is posted,
  and that each is then in the balance exactly once. The locale \<open>posting\<close> proves it over any store that
  keeps the contracts \<open>event_store\<close> and \<open>live_store\<close>; it holds for the in-memory store, and for the PII
  store the program uses (\<open>Ledger_Demo\<close>).
\<close>

section \<open>The workers\<close>

record tx_spec =
  ts_amount :: i64
  ts_description :: string
  ts_channel :: string
  ts_actor :: account_actor
  ts_opts :: "record_option list"

datatype phase = Loading | Posting account | Posted

fun is_posted :: "phase \<Rightarrow> bool" where
  "is_posted Posted = True"
| "is_posted _ = False"

fun is_loading :: "phase \<Rightarrow> bool" where
  "is_loading Loading = True"
| "is_loading _ = False"

definition post_tx :: "uuid \<Rightarrow> time \<Rightarrow> tx_spec \<Rightarrow> account \<Rightarrow> error option \<times> account" where
  "post_tx new_id now tx a =
     account_transact new_id now (ts_amount tx) (ts_description tx) (ts_channel tx) (ts_actor tx)
       (ts_opts tx) a"

abbreviation load_account :: "'s event_store_ops \<Rightarrow> uuid \<Rightarrow> store_option list \<Rightarrow> 's \<Rightarrow> error + account" where
  "load_account st i opts s \<equiv> repo_load st account_ops account_apply account_events new_account i opts s"

text \<open>
  One step of one goroutine. \<open>post_tx\<close> and the save that follows it are one step, since nothing the
  other goroutines do between the two can be seen; loading is a step of its own.
\<close>

inductive post_step :: "'s event_store_ops \<Rightarrow> uuid \<Rightarrow> store_option list \<Rightarrow> tx_spec list \<Rightarrow>
    phase list \<times> 's \<Rightarrow> phase list \<times> 's \<Rightarrow> bool"
  for st :: "'s event_store_ops" and i :: uuid and opts :: "store_option list" and txs :: "tx_spec list" where
  load: "w < length ws \<Longrightarrow> ws ! w = Loading \<Longrightarrow> load_account st i opts s = Inr a \<Longrightarrow>
    post_step st i opts txs (ws, s) (ws[w := Posting a], s)"
| posted: "w < length ws \<Longrightarrow> ws ! w = Posting a \<Longrightarrow> post_tx new_id now (txs ! w) a = (None, a1) \<Longrightarrow>
    repo_save st a1 opts s = (None, a2, s') \<Longrightarrow>
    post_step st i opts txs (ws, s) (ws[w := Posted], s')"
| conflict: "w < length ws \<Longrightarrow> ws ! w = Posting a \<Longrightarrow> post_tx new_id now (txs ! w) a = (None, a1) \<Longrightarrow>
    repo_save st a1 opts s = (Some err, a2, s') \<Longrightarrow> errors_is err ErrConcurrencyConflict \<Longrightarrow>
    post_step st i opts txs (ws, s) (ws[w := Loading], s')"

inductive_cases post_stepE: "post_step st i opts txs (ws, s) c"

definition posted_total :: "tx_spec list \<Rightarrow> phase list \<Rightarrow> i64" where
  "posted_total txs ws = sum_list (map2 (\<lambda>tx ph. if is_posted ph then ts_amount tx else 0) txs ws)"

lemma posted_total_update:
  "length txs = length ws \<Longrightarrow> w < length ws \<Longrightarrow> \<not> is_posted (ws ! w) \<Longrightarrow>
   posted_total txs (ws[w := ph]) = posted_total txs ws + (if is_posted ph then ts_amount (txs ! w) else 0)"
proof (induction txs ws arbitrary: w rule: list_induct2)
  case (Cons tx txs p ws)
  then show ?case by (cases w) (simp_all add: posted_total_def algebra_simps)
qed simp

lemma count_update:
  "w < length ws \<Longrightarrow>
   length (filter P (ws[w := x])) + (if P (ws ! w) then 1 else 0) = length (filter P ws) + (if P x then 1 else 0)"
proof (induction ws arbitrary: w)
  case (Cons p ws)
  then show ?case by (cases w) auto
qed simp

section \<open>What a worker holds\<close>

text \<open>\<open>at_history h a\<close>: \<open>a\<close> is the opened account that replaying \<open>h\<close> gives, with nothing buffered.\<close>

definition at_history :: "uuid \<Rightarrow> domain_event list \<Rightarrow> account \<Rightarrow> bool" where
  "at_history i h a \<longleftrightarrow> sourced account_ops account_apply account_events new_account h a
     \<and> agg_id a = i \<and> agg_uncommitted a = [] \<and> ac_opened a \<and> h \<noteq> []"

lemma clear_events_id: "agg_uncommitted a = [] \<Longrightarrow> clear_events a = a"
  by (simp add: clear_events_def)

lemma at_history_load:
  "at_history i h a \<Longrightarrow>
   load_from_history account_ops account_apply account_events h (set_id i new_account) = (None, a)"
  by (auto simp: at_history_def sourced_def clear_events_id)

lemma at_history_unique: "at_history i h a \<Longrightarrow> at_history i h b \<Longrightarrow> a = b"
  using at_history_load [of i h a] at_history_load [of i h b] by simp

lemma at_history_version: "at_history i h a \<Longrightarrow> agg_version a = of_nat (length h)"
  by (simp add: at_history_def sourced_def)

lemma at_history_stream:
  "at_history i h a \<Longrightarrow> versions_from 0 h \<and> current_version h = of_nat (length h)"
  using current_version_from [of 0 h] by (auto simp: at_history_def sourced_def)

text \<open>Name and email of the holder.\<close>

definition holder :: "account \<Rightarrow> string \<times> string" where
  "holder a = (ac_holder_name a, ac_holder_email a)"

text \<open>
  The events a worker commits. \<open>subj i\<close> is what is known of the subject of the transactions posted to
  account \<open>i\<close>, which options of the caller may change.
\<close>

definition tx_batch :: "(uuid \<Rightarrow> uuid option \<Rightarrow> bool) \<Rightarrow> uuid \<Rightarrow> domain_event list \<Rightarrow> bool" where
  "tx_batch subj i es \<longleftrightarrow> list_all (\<lambda>e. ev_aggregate_id e = i \<and> ev_tenant_id e = uuid_nil
     \<and> ev_name e = transaction_recorded \<and> ev_pii_fields e = RawNil \<and> subj i (ev_pii_id e)
     \<and> metadata_ok (ev_metadata e)) es"

definition tx_ok :: "(uuid \<Rightarrow> uuid option \<Rightarrow> bool) \<Rightarrow> uuid \<Rightarrow> tx_spec \<Rightarrow> bool" where
  "tx_ok subj i tx \<longleftrightarrow> ts_amount tx \<noteq> 0 \<and> subj i (pii_option (ts_opts tx) (Some i))"

lemma pii_option_actor [simp]: "pii_option (account_actor_opts ac) d = d"
  by (simp add: account_actor_opts_def)

lemma post_tx_at_history:
  assumes "at_history i h a" "tx_ok subj i tx"
  obtains a1 where "post_tx new_id now tx a = (None, a1)"
    "sourced account_ops account_apply account_events new_account h a1"
    "agg_id a1 = i" "length (agg_uncommitted a1) = 1" "agg_version a1 = agg_version a + 1"
    "ac_balance a1 = ac_balance a + ts_amount tx" "holder a1 = holder a" "ac_opened a1"
    "tx_batch subj i (agg_uncommitted a1)"
proof -
  let ?p = "TransactionRecordedEvent (ts_amount tx) (ts_description tx)"
  have ap: "account_apply ?p a = (None, a\<lparr>ac_balance := ac_balance a + ts_amount tx\<rparr>)"
    using assms(1) by (simp add: at_history_def)
  let ?opts = "[WithMetadata [(''channel'', Some (JStr (ts_channel tx)))], WithPiiID (agg_id a)] @ ts_opts tx
    @ account_actor_opts (ts_actor tx)"
  have rec: "post_tx new_id now tx a = account_record new_id now ?p ?opts a"
    using assms(2) by (simp add: post_tx_def account_transact_def tx_ok_def)
  have id: "agg_id a = i" using assms(1) by (simp add: at_history_def)
  show thesis
  proof (rule account.record_that_accepted [OF ap, of new_id now ?opts])
    fix e
    assume e: "account_record new_id now ?p ?opts a = (None, (a\<lparr>ac_balance := ac_balance a + ts_amount tx\<rparr>)
        \<lparr>agg_version := agg_version a + 1, agg_uncommitted := agg_uncommitted a @ [e]\<rparr>)"
      "ev_aggregate_id e = agg_id a" "ev_tenant_id e = uuid_nil" "ev_name e = po_event_name account_ops ?p"
      "ev_pii_fields e = RawNil" "ev_pii_id e = pii_option ?opts None" "metadata_ok (ev_metadata e)"
    have "sourced account_ops account_apply account_events new_account h a"
      using assms(1) by (simp add: at_history_def)
    from account.sourced_record_that [OF this e(1)] that rec e assms id
    show thesis by (simp add: at_history_def tx_batch_def tx_ok_def holder_def)
  qed
qed

section \<open>The contract of the store\<close>

text \<open>
  What the loops need of a store beyond the contract of a repository: that it is live, that it takes
  transactions, and that committing them keeps \<open>keep i\<close>, whatever is to be known of the rest of its state.
\<close>

locale posting =
  repository account_ops account_apply account_events st opts inv stream batch
  + live_store st opts inv stream batch
  for st :: "'s event_store_ops" and opts :: "store_option list" and inv :: "'s \<Rightarrow> bool"
    and stream :: "'s \<Rightarrow> uuid \<Rightarrow> domain_event list"
    and batch :: "'s \<Rightarrow> uuid \<Rightarrow> domain_event list \<Rightarrow> bool" +
  fixes subj :: "uuid \<Rightarrow> uuid option \<Rightarrow> bool" and keep :: "uuid \<Rightarrow> 's \<Rightarrow> bool"
  assumes batch_tx: "inv s \<Longrightarrow> tx_batch subj i es \<Longrightarrow> batch s i es"
    and keep_tx: "inv s \<Longrightarrow> keep i s \<Longrightarrow> tx_batch subj i es \<Longrightarrow> es \<noteq> [] \<Longrightarrow>
      st_commit st es v opts s = (r, es', s') \<Longrightarrow> keep i s'"

section \<open>The invariant\<close>

definition post_inv :: "('s \<Rightarrow> bool) \<Rightarrow> ('s \<Rightarrow> uuid \<Rightarrow> domain_event list) \<Rightarrow> (uuid \<Rightarrow> uuid option \<Rightarrow> bool) \<Rightarrow>
    uuid \<Rightarrow> tx_spec list \<Rightarrow> i64 \<Rightarrow> string \<times> string \<Rightarrow> nat \<Rightarrow> phase list \<times> 's \<Rightarrow> bool" where
  "post_inv sinv stream subj i txs opening hld n0 c \<longleftrightarrow>
     (case c of (ws, s) \<Rightarrow>
        length ws = length txs \<and> list_all (tx_ok subj i) txs \<and> sinv s
        \<and> length (stream s i) = n0 + length (filter is_posted ws)
        \<and> (\<exists>b. at_history i (stream s i) b \<and> ac_balance b = opening + posted_total txs ws \<and> holder b = hld)
        \<and> (\<forall>a. Posting a \<in> set ws \<longrightarrow> (\<exists>h rest. stream s i = h @ rest \<and> at_history i h a)))"

lemma posting_update:
  "Posting a \<in> set (ws[w := ph]) \<Longrightarrow> Posting a = ph \<or> Posting a \<in> set ws"
  using set_update_subset_insert [of ws w ph] by auto

definition stale :: "domain_event list \<Rightarrow> phase \<Rightarrow> bool" where
  "stale h ph = (case ph of Posting a \<Rightarrow> agg_version a \<noteq> current_version h | _ \<Rightarrow> False)"

lemma stale_simps [simp]:
  "\<not> stale h Loading" "\<not> stale h Posted"
  "stale h (Posting a) \<longleftrightarrow> agg_version a \<noteq> current_version h"
  by (simp_all add: stale_def)

text \<open>
  A post lowers the number of workers still to post; a conflict lowers the number of workers that
  hold an outdated account; a load lowers the number of workers still to load.
\<close>

definition post_measure :: "('s \<Rightarrow> uuid \<Rightarrow> domain_event list) \<Rightarrow> uuid \<Rightarrow>
    ((phase list \<times> 's) \<times> (phase list \<times> 's)) set" where
  "post_measure stream i = measures
     [\<lambda>(ws, s). length (filter (\<lambda>ph. \<not> is_posted ph) ws),
      \<lambda>(ws, s). length (filter (stale (stream s i)) ws),
      \<lambda>(ws, s). length (filter is_loading ws)]"

lemma posted_total_all:
  "length txs = length ws \<Longrightarrow> list_all is_posted ws \<Longrightarrow>
   posted_total txs ws = sum_list (map ts_amount txs)"
  by (induction txs ws rule: list_induct2) (simp_all add: posted_total_def)

lemma posted_total_none:
  "posted_total txs (replicate n Loading) = 0"
  by (induction txs arbitrary: n) (auto simp: posted_total_def zip_replicate2 comp_def)

context posting
begin

abbreviation pinv :: "uuid \<Rightarrow> tx_spec list \<Rightarrow> i64 \<Rightarrow> string \<times> string \<Rightarrow> nat \<Rightarrow> phase list \<times> 's \<Rightarrow> bool" where
  "pinv \<equiv> post_inv inv stream subj"

lemma load_account_at_history:
  assumes "inv s" "at_history i (stream s i) b"
  shows "load_account st i opts s = Inr b"
proof -
  have "stream s i \<noteq> []" using assms(2) by (simp add: at_history_def)
  then show ?thesis
    using load_stream [OF assms(1), of i] at_history_load [OF assms(2)] by (simp add: repo_load_def)
qed

lemma post_inv_load:
  assumes "pinv i txs opening hld n0 (ws, s)" "w < length ws" "ws ! w = Loading"
    and "load_account st i opts s = Inr a"
  shows "pinv i txs opening hld n0 (ws[w := Posting a], s)"
proof -
  from assms(1) obtain b where b: "at_history i (stream s i) b" and "inv s"
    by (auto simp: post_inv_def)
  with load_account_at_history assms(4) have "a = b" by force
  have "length (filter is_posted (ws[w := Posting a])) = length (filter is_posted ws)"
    using count_update [of w ws is_posted "Posting a"] assms(2,3) by simp
  with assms b \<open>a = b\<close> show ?thesis
    by (auto simp: post_inv_def posted_total_update dest!: posting_update)
qed

text \<open>What the save of a worker does, by whether its account is still up to date.\<close>

lemma post_save_cases:
  assumes inv: "pinv i txs opening hld n0 (ws, s)" and w: "w < length ws" "ws ! w = Posting a"
    and small: "n0 + length txs < 2 ^ 64"
    and tx: "post_tx new_id now (txs ! w) a = (None, a1)"
    and save: "repo_save st a1 opts s = (r, a2, s')"
  obtains (fresh) "at_history i (stream s i) a" "r = None" "inv s'"
      "at_history i (stream s' i) a2" "ac_balance a2 = ac_balance a + ts_amount (txs ! w)"
      "holder a2 = holder a" "\<exists>e. stream s' i = stream s i @ [e]" "\<forall>j. j \<noteq> i \<longrightarrow> stream s' j = stream s j"
      "keep i s \<longrightarrow> keep i s'"
    | (stale) "agg_version a \<noteq> current_version (stream s i)" "r = Some ErrConcurrencyConflict"
      "inv s'" "stream s' = stream s" "keep i s \<longrightarrow> keep i s'"
proof -
  let ?h = "stream s i"
  have minv: "inv s" and "length txs = length ws" using inv by (auto simp: post_inv_def)
  have ok: "tx_ok subj i (txs ! w)" using inv w by (auto simp: post_inv_def list_all_length)
  from w have "Posting a \<in> set ws" by (metis nth_mem)
  with inv obtain h rest where h: "?h = h @ rest" and a: "at_history i h a"
    unfolding post_inv_def by blast
  from inv have len: "length ?h \<le> n0 + length txs"
    by (auto simp: post_inv_def intro: length_filter_le [THEN order_trans])
  from post_tx_at_history [OF a ok, of new_id now] tx
  have a1: "sourced account_ops account_apply account_events new_account h a1" "agg_id a1 = i"
    "length (agg_uncommitted a1) = 1" "agg_version a1 = agg_version a + 1"
    "ac_balance a1 = ac_balance a + ts_amount (txs ! w)" "ac_opened a1" "holder a1 = holder a"
    "tx_batch subj i (agg_uncommitted a1)" by auto
  then have new: "agg_uncommitted a1 \<noteq> []" by auto
  note batch = batch_tx [OF minv a1(8)]
  have hist: "current_version ?h = of_nat (length ?h)"
    using inv at_history_stream by (auto simp: post_inv_def)
  obtain r0 es' t where c: "st_commit st (agg_uncommitted a1) (agg_version a) opts s = (r0, es', t)"
    by (metis prod_cases3)
  have st': "r = r0" "s' = t" using save new a1(3,4) c by (cases r0; simp add: repo_save_def)+
  have keep: "keep i s \<longrightarrow> keep i s'" using keep_tx [OF minv _ a1(8) new c] st' by blast
  show thesis
  proof (cases "current_version ?h = agg_version a")
    case False
    from commit_stale [OF minv batch new c False] commit_conflict [OF minv batch new c False]
    show thesis using False st' keep by (intro stale) auto
  next
    case True
    have "length ?h < 2 ^ 64" "length h < 2 ^ 64" using len small h by simp_all
    moreover have "(of_nat (length ?h) :: u64) = of_nat (length h)"
      using True hist at_history_version [OF a] by simp
    ultimately have "length ?h = length h" using of_nat_u64_inj by blast
    then have cur: "?h = h" using h by simp
    have none: "r0 = None" by (rule commit_current [OF minv batch new c True])
    have "repo_save st a1 opts s = (None, a2, s')" using save st' none by simp
    from save_then_load [OF minv _ _ new this] a1(1,2) batch cur
    have sv: "inv s'" "a2 = clear_events a1"
      "sourced account_ops account_apply account_events new_account (stream s' i) a2" by auto
    from commit_appends [OF minv batch new c [unfolded none]] obtain fs
      where fs: "stream t i = ?h @ fs" "map replay_view fs = map replay_view (agg_uncommitted a1)" by blast
    from arg_cong [OF fs(2), of length] a1(3) obtain e where "fs = [e]" by (auto simp: length_Suc_conv)
    with fs st' have app: "stream s' i = ?h @ [e]" by simp
    then have "at_history i (stream s' i) a2"
      using sv a1(2,6) by (simp add: at_history_def clear_events_def)
    moreover have "\<forall>j. j \<noteq> i \<longrightarrow> stream s' j = stream s j"
      using commit_frame [OF minv batch new c [unfolded none]] st' by blast
    ultimately show thesis
      using cur a st' none sv(1,2) app a1(5,7) keep by (intro fresh) (auto simp: clear_events_def holder_def)
  qed
qed

lemma post_inv_step:
  assumes inv: "pinv i txs opening hld n0 c" and small: "n0 + length txs < 2 ^ 64"
    and step: "post_step st i opts txs c c'"
  shows "pinv i txs opening hld n0 c'"
  using step inv
proof (cases rule: post_step.cases)
  case (load w ws s a)
  then show ?thesis using inv post_inv_load by blast
next
  case (posted w ws a new_id now a1 s a2 s')
  from inv have inv: "pinv i txs opening hld n0 (ws, s)" by (simp add: posted)
  show ?thesis
  proof (cases rule: post_save_cases [OF inv posted(3,4) small posted(5,6), case_names fresh stale])
    case fresh
    then obtain e where st': "stream s' i = stream s i @ [e]" by blast
    have n: "length (filter is_posted (ws[w := Posted])) = Suc (length (filter is_posted ws))"
      using count_update [of w ws is_posted Posted] posted by simp
    have "ac_balance a = opening + posted_total txs ws" "holder a = hld"
      using inv at_history_unique [OF fresh(1)] by (auto simp: post_inv_def)
    moreover have "length txs = length ws" using inv by (simp add: post_inv_def)
    ultimately have bal: "ac_balance a2 = opening + posted_total txs (ws[w := Posted])" "holder a2 = hld"
      using fresh posted by (simp_all add: posted_total_update)
    have "\<exists>h rest. stream s' i = h @ rest \<and> at_history i h b"
      if "Posting b \<in> set (ws[w := Posted])" for b
      using posting_update [OF that] inv st' unfolding post_inv_def by fastforce
    then show ?thesis
      using inv fresh st' n bal unfolding posted(2) post_inv_def by auto
  qed simp
next
  case (conflict w ws a new_id now a1 s err a2 s')
  from inv have inv: "pinv i txs opening hld n0 (ws, s)" by (simp add: conflict)
  show ?thesis
  proof (cases rule: post_save_cases [OF inv conflict(3,4) small conflict(5,6), case_names fresh stale])
    case stale
    have "length (filter is_posted (ws[w := Loading])) = length (filter is_posted ws)"
      using count_update [of w ws is_posted Loading] conflict by simp
    moreover have "posted_total txs (ws[w := Loading]) = posted_total txs ws"
      using posted_total_update [of txs ws w Loading] inv conflict by (simp add: post_inv_def)
    ultimately show ?thesis
      using inv stale unfolding conflict(2) post_inv_def
      by (auto dest!: posting_update)
  qed simp
qed

section \<open>Every run ends, with every transaction posted\<close>

lemma post_step_decreases:
  assumes inv: "pinv i txs opening hld n0 c" and small: "n0 + length txs < 2 ^ 64"
    and step: "post_step st i opts txs c c'"
  shows "(c', c) \<in> post_measure stream i"
  using step
proof (cases rule: post_step.cases)
  case (load w ws s a)
  from inv obtain b where "at_history i (stream s i) b" "inv s"
    by (auto simp: post_inv_def load(1))
  with load_account_at_history load(5) have "\<not> Ledger_Workers.stale (stream s i) (Posting a)"
    using at_history_version at_history_stream by force
  then show ?thesis
    using count_update [of w ws "\<lambda>ph. \<not> is_posted ph" "Posting a"]
      count_update [of w ws "Ledger_Workers.stale (stream s i)" "Posting a"]
      count_update [of w ws is_loading "Posting a"] load by (simp add: post_measure_def)
next
  case (posted w ws a new_id now a1 s a2 s')
  then show ?thesis
    using count_update [of w ws "\<lambda>ph. \<not> is_posted ph" Posted] by (simp add: post_measure_def)
next
  case (conflict w ws a new_id now a1 s err a2 s')
  from inv have inv: "pinv i txs opening hld n0 (ws, s)" by (simp add: conflict)
  show ?thesis
  proof (cases rule: post_save_cases [OF inv conflict(3,4) small conflict(5,6), case_names fresh outdated])
    case outdated
    then show ?thesis
      using count_update [of w ws "\<lambda>ph. \<not> is_posted ph" Loading]
        count_update [of w ws "Ledger_Workers.stale (stream s i)" Loading] conflict
      by (simp add: post_measure_def)
  qed simp
qed

text \<open>What a step leaves alone.\<close>

lemma post_step_keeps:
  assumes inv: "pinv i txs opening hld n0 c" and small: "n0 + length txs < 2 ^ 64"
    and step: "post_step st i opts txs c c'"
  shows "(j \<noteq> i \<longrightarrow> stream (snd c') j = stream (snd c) j) \<and> (keep i (snd c) \<longrightarrow> keep i (snd c'))"
  using step
proof (cases rule: post_step.cases)
  case (posted w ws a new_id now a1 s a2 s')
  from inv have inv: "pinv i txs opening hld n0 (ws, s)" by (simp add: posted)
  show ?thesis
    by (cases rule: post_save_cases [OF inv posted(3,4) small posted(5,6), case_names fresh stale])
      (simp_all add: posted(1,2))
next
  case (conflict w ws a new_id now a1 s err a2 s')
  from inv have inv: "pinv i txs opening hld n0 (ws, s)" by (simp add: conflict)
  show ?thesis
    by (cases rule: post_save_cases [OF inv conflict(3,4) small conflict(5,6), case_names fresh stale])
      (simp_all add: conflict(1,2))
qed simp

lemma post_inv_steps:
  "(post_step st i opts txs)\<^sup>*\<^sup>* c c' \<Longrightarrow> pinv i txs opening hld n0 c \<Longrightarrow> n0 + length txs < 2 ^ 64 \<Longrightarrow>
   pinv i txs opening hld n0 c'"
  by (induction rule: rtranclp_induct) (auto intro: post_inv_step)

lemma post_steps_keep:
  assumes "(post_step st i opts txs)\<^sup>*\<^sup>* c c'" "pinv i txs opening hld n0 c" "n0 + length txs < 2 ^ 64"
    and "keep i (snd c)"
  shows "keep i (snd c')"
  using assms(1)
proof (induction rule: rtranclp_induct)
  case (step d e)
  from post_step_keeps [OF post_inv_steps [OF step(1) assms(2,3)] assms(3) step(2)] step(3)
  show ?case by simp
qed (rule assms(4))

text \<open>A worker that has not posted can always move.\<close>

lemma post_progress:
  assumes inv: "pinv i txs opening hld n0 (ws, s)" and small: "n0 + length txs < 2 ^ 64"
    and w: "w < length ws" "\<not> is_posted (ws ! w)"
  shows "\<exists>c'. post_step st i opts txs (ws, s) c'"
proof (cases "ws ! w")
  case Loading
  from inv obtain b where "at_history i (stream s i) b" "inv s"
    by (auto simp: post_inv_def)
  then show ?thesis using post_step.load [OF w(1) Loading load_account_at_history] by blast
next
  case (Posting a)
  have "length txs = length ws" and ok: "tx_ok subj i (txs ! w)"
    using inv w by (auto simp: post_inv_def list_all_length)
  have "Posting a \<in> set ws" using w Posting by (metis nth_mem)
  with inv obtain h rest where "at_history i h a" by (auto simp: post_inv_def)
  from post_tx_at_history [OF this ok, of 0 0] obtain a1
    where tx: "post_tx 0 0 (txs ! w) a = (None, a1)" by blast
  obtain r a2 s' where save: "repo_save st a1 opts s = (r, a2, s')" by (metis prod_cases3)
  show ?thesis
  proof (cases rule: post_save_cases [OF inv w(1) Posting small tx save, case_names fresh outdated])
    case fresh
    with save have "repo_save st a1 opts s = (None, a2, s')" by simp
    from post_step.posted [OF w(1) Posting tx this] show ?thesis by blast
  next
    case outdated
    with save have "repo_save st a1 opts s = (Some ErrConcurrencyConflict, a2, s')" by simp
    from post_step.conflict [OF w(1) Posting tx this] show ?thesis by auto
  qed
next
  case Posted
  with w show ?thesis by simp
qed

lemma post_stopped:
  assumes "pinv i txs opening hld n0 (ws, t)" "n0 + length txs < 2 ^ 64"
    and "\<nexists>c. post_step st i opts txs (ws, t) c"
  shows "list_all is_posted ws \<and> inv t
    \<and> (\<exists>a. at_history i (stream t i) a \<and> load_account st i opts t = Inr a
         \<and> ac_balance a = opening + sum_list (map ts_amount txs) \<and> holder a = hld)"
proof -
  have all: "list_all is_posted ws"
    using post_progress [OF assms(1,2)] assms(3) unfolding list_all_length by blast
  with assms(1) load_account_at_history [of t i] show ?thesis
    by (auto simp: post_inv_def posted_total_all)
qed

text \<open>From any state of the invariant a run leads to a stop.\<close>

lemma post_run_stops:
  assumes "pinv i txs opening hld n0 c" "n0 + length txs < 2 ^ 64"
  shows "\<exists>d. (post_step st i opts txs)\<^sup>*\<^sup>* c d \<and> (\<nexists>e. post_step st i opts txs d e)"
  by (rule runs_stop [of "post_measure stream i" "pinv i txs opening hld n0"])
    (use assms post_inv_step post_step_decreases in \<open>auto simp: post_measure_def\<close>)

lemma no_infinite_posting:
  assumes "pinv i txs opening hld n0 (run 0)" "n0 + length txs < 2 ^ 64"
    and "\<forall>k. post_step st i opts txs (run k) (run (Suc k))"
  shows False
  by (rule no_infinite_run [of "post_measure stream i" "pinv i txs opening hld n0" "post_step st i opts txs" run])
    (use assms post_inv_step post_step_decreases in \<open>auto simp: post_measure_def\<close>)

end

section \<open>Opening an account\<close>

text \<open>What \<^verbatim>\<open>Open\<close> buffers.\<close>

lemma account_open_recorded:
  assumes "account_open new_id now name email balance actor (set_id i new_account) = (None, a1)"
  obtains e where "agg_uncommitted a1 = [e]" "agg_id a1 = i" "agg_version a1 = 1" "ac_balance a1 = balance"
    "holder a1 = (name, email)" "ac_opened a1"
    "sourced account_ops account_apply account_events new_account [] a1"
    "ev_aggregate_id e = i" "ev_tenant_id e = uuid_nil" "ev_name e = account_opened" "ev_aggregate_version e = 1"
    "ev_payload e = RawOk (JObj [''holder_name'' \<mapsto> JStr name, ''holder_email'' \<mapsto> JStr email,
       ''opening_balance_cents'' \<mapsto> JNum (sint balance)])"
    "ev_pii_fields e = RawNil" "ev_pii_id e = Some i" "\<not> ev_pii_unrecoverable e" "metadata_ok (ev_metadata e)"
proof -
  let ?p = "AccountOpenedEvent name email balance" and ?z = "set_id i new_account"
  let ?opts = "[WithPiiID (agg_id ?z), WithEventVersion 1] @ account_actor_opts actor"
  let ?j = "JObj [''holder_name'' \<mapsto> JStr name, ''holder_email'' \<mapsto> JStr email,
    ''opening_balance_cents'' \<mapsto> JNum (sint balance)]"
  have src: "sourced account_ops account_apply account_events new_account [] ?z"
    by (rule account.sourced_fresh) simp_all
  have ap: "account_apply ?p ?z = (None, ?z\<lparr>ac_holder_name := name, ac_holder_email := email,
      ac_balance := balance, ac_opened := True\<rparr>)" by (simp add: set_id_def new_account_def)
  from assms have rec: "account_record new_id now ?p ?opts ?z = (None, a1)"
    by (simp add: account_open_def split: if_splits)
  from account.sourced_record_that [OF src rec]
  have src1: "sourced account_ops account_apply account_events new_account [] a1" .
  show thesis
  proof (rule account.record_that_accepted [OF ap, where i = new_id and t = now and opts = ?opts and j = ?j])
    fix e
    assume e: "account_record new_id now ?p ?opts ?z = (None, (?z\<lparr>ac_holder_name := name,
          ac_holder_email := email, ac_balance := balance, ac_opened := True\<rparr>)
          \<lparr>agg_version := agg_version ?z + 1, agg_uncommitted := agg_uncommitted ?z @ [e]\<rparr>)"
      "ev_aggregate_version e = agg_version ?z + 1" "ev_aggregate_id e = agg_id ?z" "ev_tenant_id e = uuid_nil"
      "ev_name e = po_event_name account_ops ?p" "po_marshal account_ops ?p = Inr ?j \<Longrightarrow> ev_payload e = RawOk ?j"
      "ev_pii_fields e = RawNil" "ev_pii_id e = pii_option ?opts None" "\<not> ev_pii_unrecoverable e"
      "metadata_ok (ev_metadata e)"
    with rec src1 show thesis
      by (intro that [of e]) (simp_all add: set_id_def new_account_def holder_def)
  qed
qed

context posting
begin

lemma open_account_at_history:
  assumes "inv s" "stream s i = []"
    and "account_open new_id now name email balance actor (set_id i new_account) = (None, a1)"
    and "batch s i (agg_uncommitted a1)" "repo_save st a1 opts s = (None, a2, s')"
  shows "inv s' \<and> at_history i (stream s' i) a2 \<and> ac_balance a2 = balance \<and> holder a2 = (name, email)
    \<and> length (stream s' i) = 1 \<and> (\<forall>j. j \<noteq> i \<longrightarrow> stream s' j = stream s j)"
proof -
  from account_open_recorded [OF assms(3)] obtain e
    where e: "agg_uncommitted a1 = [e]" "agg_id a1 = i" "ac_balance a1 = balance" "holder a1 = (name, email)" "ac_opened a1"
      "sourced account_ops account_apply account_events new_account [] a1" by metis
  with save_then_load [OF assms(1) _ _ _ assms(5), of new_account] assms(2,4)
  have sv: "inv s'" "a2 = clear_events a1"
    "sourced account_ops account_apply account_events new_account (stream s' i) a2" by auto
  from repo_save_ok [OF assms(5)] e(1) obtain v es' where c: "st_commit st [e] v opts s = (None, es', s')" by auto
  have b: "batch s i [e]" using assms(4) e(1) by simp
  from commit_appends [OF assms(1) b _ c] obtain fs
    where fs: "stream s' i = fs" "map replay_view fs = [replay_view e]" using assms(2) by auto
  from arg_cong [OF fs(2), of length] fs(1) have "length (stream s' i) = 1" by simp
  moreover have "\<forall>j. j \<noteq> i \<longrightarrow> stream s' j = stream s j" using commit_frame [OF assms(1) b _ c] by blast
  ultimately show ?thesis using sv e by (auto simp: at_history_def clear_events_def holder_def)
qed

lemma post_inv_start:
  assumes "inv s0" "stream s0 i = []"
    and "account_open new_id now name email balance actor (set_id i new_account) = (None, a1)"
    and "batch s0 i (agg_uncommitted a1)" "repo_save st a1 opts s0 = (None, a2, s)"
    and "list_all (tx_ok subj i) txs"
  shows "pinv i txs balance (name, email) 1 (replicate (length txs) Loading, s)"
  using open_account_at_history [OF assms(1-5)] assms(6) by (auto simp: post_inv_def posted_total_none)

end

section \<open>Over the in-memory store\<close>

interpretation mem_posting: posting mem_ops opts mem_inv "mem_stream opts" "\<lambda>_. fresh_batch"
  "\<lambda>_ _. True" "\<lambda>i s. \<forall>k. k \<noteq> scope_key opts i \<longrightarrow> ms_by_aggregate s k = rest k" for opts rest
proof unfold_locales
  fix s i es v r es' s'
  show fb: "tx_batch (\<lambda>_ _. True) i es \<Longrightarrow> fresh_batch i es"
    by (auto simp: tx_batch_def fresh_batch_def list_all_iff)
  assume a: "\<forall>k. k \<noteq> scope_key opts i \<longrightarrow> ms_by_aggregate s k = rest k" "tx_batch (\<lambda>_ _. True) i es" "es \<noteq> []"
    "st_commit mem_ops es v opts s = (r, es', s')"
  then show "\<forall>k. k \<noteq> scope_key opts i \<longrightarrow> ms_by_aggregate s' k = rest k"
    using fresh_batch_key [OF fb [OF a(2)] a(3), of opts] by (auto simp: mem_commit_eq Let_def split: if_splits)
qed

lemma open_batch_fresh:
  "account_open new_id now name email balance actor (set_id i new_account) = (None, a1) \<Longrightarrow>
   fresh_batch i (agg_uncommitted a1)"
  by (erule account_open_recorded) (simp add: fresh_batch_def)

text \<open>
  C3. Concurrent posting with reload-and-retry: after an account is opened, any number of workers
  each posting one non-zero transaction, interleaved in any order, cannot retry for ever; a run
  only stops when every worker has posted, and the account then loads with the opening balance plus
  the sum of all transactions (in 64-bit arithmetic): none is lost and none is posted twice.
\<close>

theorem concurrent_posting:
  assumes "mem_inv s0" "mem_stream opts s0 i = []"
    and "account_open new_id now name email balance actor (set_id i new_account) = (None, a1)"
    and "repo_save mem_ops a1 opts s0 = (None, a2, s)"
    and "list_all (\<lambda>tx. ts_amount tx \<noteq> 0) txs" "length txs < 2 ^ 64 - 1"
  defines "init \<equiv> (replicate (length txs) Loading, s)"
  shows "\<not> (\<exists>run. run 0 = init \<and> (\<forall>k. post_step mem_ops i opts txs (run k) (run (Suc k))))
    \<and> (\<forall>ws t. (post_step mem_ops i opts txs)\<^sup>*\<^sup>* init (ws, t) \<and> (\<nexists>c. post_step mem_ops i opts txs (ws, t) c) \<longrightarrow>
         list_all is_posted ws
         \<and> (\<exists>a. load_account mem_ops i opts t = Inr a \<and> ac_balance a = balance + sum_list (map ts_amount txs)))"
proof -
  have "list_all (tx_ok (\<lambda>_ _. True) i) txs" using assms(5) by (simp add: tx_ok_def list_all_iff)
  from mem_posting.post_inv_start [OF assms(1-3) open_batch_fresh [OF assms(3)] assms(4) this]
  have inv: "mem_posting.pinv opts i txs balance (name, email) 1 init" by (simp add: init_def)
  have small: "1 + length txs < 2 ^ 64" using assms(6) by simp
  have "list_all is_posted ws
      \<and> (\<exists>a. load_account mem_ops i opts t = Inr a \<and> ac_balance a = balance + sum_list (map ts_amount txs))"
    if "(post_step mem_ops i opts txs)\<^sup>*\<^sup>* init (ws, t)" "\<nexists>c. post_step mem_ops i opts txs (ws, t) c" for ws t
    using mem_posting.post_stopped [OF mem_posting.post_inv_steps [OF that(1) inv small] small that(2)] by blast
  with mem_posting.no_infinite_posting [OF _ small] inv show ?thesis by metis
qed

definition sample_spec :: "i64 \<Rightarrow> tx_spec" where
  "sample_spec amount = \<lparr>ts_amount = amount, ts_description = ''tx'', ts_channel = ''batch'',
     ts_actor = \<lparr>aa_id = 0, aa_type = []\<rparr>, ts_opts = []\<rparr>"

theorem concurrent_posting_witness:
  "\<exists>s. \<not> (\<exists>run. run 0 = (replicate 2 Loading, s)
      \<and> (\<forall>k. post_step mem_ops 7 [WithTenant 5] [sample_spec 100, sample_spec 50] (run k) (run (Suc k))))"
proof -
  let ?ac = "\<lparr>aa_id = 0, aa_type = []\<rparr>" and ?txs = "[sample_spec 100, sample_spec 50]"
  obtain a1 where a1: "account_open 1 0 ''n'' ''e'' 0 ?ac (set_id 7 new_account) = (None, a1)"
    by (simp add: account_open_def account_actor_opts_def account_actor_is_set_def record_that_def
        set_id_def new_account_def)
  then obtain e where e: "a1 = new_account\<lparr>agg_id := 7, agg_version := 1, agg_uncommitted := [e],
      ac_holder_name := ''n'', ac_holder_email := ''e'', ac_balance := 0, ac_opened := True\<rparr>"
    "ev_aggregate_id e = 7" "ev_tenant_id e = 0"
    by (auto simp: account_open_def account_actor_opts_def account_actor_is_set_def record_that_def
        set_id_def new_account_def)
  then obtain a2 s where sv: "repo_save mem_ops a1 [WithTenant 5] mem_new = (None, a2, s)"
    by (simp add: repo_save_def mem_commit_eq mem_new_def current_version_def Let_def)
  have two: "list_all (\<lambda>tx. ts_amount tx \<noteq> 0) ?txs" "length ?txs < 2 ^ 64 - 1"
    and empty: "mem_stream [WithTenant 5] mem_new 7 = []"
    by (simp_all add: sample_spec_def mem_new_def)
  have "length ?txs = 2" by simp
  from concurrent_posting [OF mem_inv_new empty a1 sv two, unfolded this]
  show ?thesis by blast
qed

end
