(* ===== verification/Es_Dispatcher.thy ===== *)
theory Es_Dispatcher
  imports Es_Event
begin

text \<open>
  \<^verbatim>\<open>es/dispatcher.go\<close>: the listener provider, pattern matching and \<^verbatim>\<open>Dispatch\<close>. A listener acts on a
  world \<open>'w\<close> (the read models it can reach). A reactor is started in its own goroutine, so for
  \<^verbatim>\<open>Dispatch\<close> it is only one more listener in the list of those it started; what it does later is not
  part of the result. What \<^verbatim>\<open>Dispatch\<close> does is stated over the subscriptions themselves
  (\<open>matching_of\<close>, \<open>all_succeed\<close>, \<open>first_fails\<close>), not over the code's loops.
\<close>

section \<open>Listeners\<close>

datatype listener_kind = Projector | Reactor

text \<open>\<^verbatim>\<open>ListenerKind\<close> is an \<^verbatim>\<open>iota\<close> enumeration, in this order.\<close>

instantiation listener_kind :: linorder
begin

definition less_eq_listener_kind :: "listener_kind \<Rightarrow> listener_kind \<Rightarrow> bool" where
  "less_eq_listener_kind a b \<longleftrightarrow> a = Projector \<or> b = Reactor"

definition less_listener_kind :: "listener_kind \<Rightarrow> listener_kind \<Rightarrow> bool" where
  "less_listener_kind a b \<longleftrightarrow> a = Projector \<and> b = Reactor"

instance
proof
  fix a b c :: listener_kind
  show "a < b \<longleftrightarrow> a \<le> b \<and> \<not> b \<le> a"
    by (cases a; cases b) (simp_all add: less_listener_kind_def less_eq_listener_kind_def)
  show "a \<le> a" by (cases a) (simp_all add: less_eq_listener_kind_def)
  show "a \<le> b \<Longrightarrow> b \<le> c \<Longrightarrow> a \<le> c"
    by (cases a; cases b; cases c) (simp_all add: less_eq_listener_kind_def)
  show "a \<le> b \<Longrightarrow> b \<le> a \<Longrightarrow> a = b"
    by (cases a; cases b) (simp_all add: less_eq_listener_kind_def)
  show "a \<le> b \<or> b \<le> a"
    by (cases a; cases b) (simp_all add: less_eq_listener_kind_def)
qed

end

type_synonym 'w event_handler = "domain_event \<Rightarrow> 'w \<Rightarrow> error option \<times> 'w"

record 'w event_listener =
  el_kind :: listener_kind
  el_handle :: "'w event_handler"

definition new_projector :: "'w event_handler \<Rightarrow> 'w event_listener" where
  "new_projector fn = \<lparr>el_kind = Projector, el_handle = fn\<rparr>"

definition new_reactor :: "'w event_handler \<Rightarrow> 'w event_listener" where
  "new_reactor fn = \<lparr>el_kind = Reactor, el_handle = fn\<rparr>"

section \<open>The listener provider\<close>

text \<open>Registrations in call order: a pattern and the listener it registered.\<close>

type_synonym 'w registrations = "(string \<times> 'w event_listener) list"

definition pattern_matches :: "string \<Rightarrow> string \<Rightarrow> bool" where
  "pattern_matches pat name =
     (if pat = name then True
      else let (prefix, ok) = cut_suffix pat ''*'' in ok \<and> has_prefix name prefix)"

definition register_listener :: "string \<Rightarrow> 'w event_listener \<Rightarrow> 'w registrations \<Rightarrow> 'w registrations" where
  "register_listener pat l rs = rs @ [(pat, l)]"

fun get_listeners :: "'w registrations \<Rightarrow> domain_event \<Rightarrow> 'w event_listener list" where
  "get_listeners [] e = []"
| "get_listeners ((pat, l) # rs) e =
     (if pattern_matches pat (ev_name e) then l # get_listeners rs e else get_listeners rs e)"

lemma get_listeners_append:
  "get_listeners (rs @ qs) e = get_listeners rs e @ get_listeners qs e"
  by (induction rs e rule: get_listeners.induct) auto

lemma get_listeners_register:
  "get_listeners (register_listener pat l rs) e =
     get_listeners rs e @ (if pattern_matches pat (ev_name e) then [l] else [])"
  by (simp add: register_listener_def get_listeners_append)

section \<open>Dispatch\<close>

record 'w dispatcher =
  dp_provider :: "'w registrations"
  dp_side_effects :: bool

definition new_dispatcher :: "'w dispatcher" where
  "new_dispatcher = \<lparr>dp_provider = [], dp_side_effects = True\<rparr>"

definition handle_side_effects :: "bool \<Rightarrow> 'w dispatcher \<Rightarrow> 'w dispatcher" where
  "handle_side_effects v d = d\<lparr>dp_side_effects := v\<rparr>"

definition subscribe_listener :: "string \<Rightarrow> 'w event_listener \<Rightarrow> 'w dispatcher \<Rightarrow> 'w dispatcher" where
  "subscribe_listener pat l d = d\<lparr>dp_provider := register_listener pat l (dp_provider d)\<rparr>"

text \<open>The loop over the listeners: \<open>err\<close> is \<^verbatim>\<open>projectorErr\<close>, \<open>started\<close> the goroutines started so far.\<close>

fun dispatch_loop :: "bool \<Rightarrow> domain_event \<Rightarrow> 'w event_listener list \<Rightarrow> error option \<Rightarrow>
    'w event_listener list \<Rightarrow> 'w \<Rightarrow> error option \<times> 'w event_listener list \<times> 'w" where
  "dispatch_loop side e [] err started w = (err, started, w)"
| "dispatch_loop side e (l # ls) err started w =
     (if el_kind l = Reactor
      then if \<not> side then dispatch_loop side e ls err started w
           else dispatch_loop side e ls err (started @ [l]) w
      else if err \<noteq> None then dispatch_loop side e ls err started w
      else case el_handle l e w of
             (Some x, w') \<Rightarrow> dispatch_loop side e ls (Some x) started w'
           | (None, w') \<Rightarrow> dispatch_loop side e ls None started w')"

definition dispatch :: "'w dispatcher \<Rightarrow> domain_event \<Rightarrow> 'w \<Rightarrow>
    error option \<times> 'w event_listener list \<times> 'w" where
  "dispatch d e w = dispatch_loop (dp_side_effects d) e (get_listeners (dp_provider d) e) None [] w"

section \<open>What Dispatch does\<close>

text \<open>The projector chain: one after the other, stopping at the first error.\<close>

fun run_projectors :: "domain_event \<Rightarrow> 'w event_listener list \<Rightarrow> 'w \<Rightarrow> error option \<times> 'w" where
  "run_projectors e [] w = (None, w)"
| "run_projectors e (l # ls) w =
     (case el_handle l e w of
        (Some x, w') \<Rightarrow> (Some x, w')
      | (None, w') \<Rightarrow> run_projectors e ls w')"

lemma run_projectors_append:
  "run_projectors e (ls @ ks) w =
     (case run_projectors e ls w of
        (Some x, w') \<Rightarrow> (Some x, w')
      | (None, w') \<Rightarrow> run_projectors e ks w')"
  by (induction e ls w rule: run_projectors.induct) (auto split: prod.splits option.splits)

abbreviation projectors :: "'w event_listener list \<Rightarrow> 'w event_listener list" where
  "projectors ls \<equiv> filter (\<lambda>l. el_kind l = Projector) ls"

abbreviation reactors :: "'w event_listener list \<Rightarrow> 'w event_listener list" where
  "reactors ls \<equiv> filter (\<lambda>l. el_kind l = Reactor) ls"

lemma dispatch_loop_failed:
  "dispatch_loop side e ls (Some x) started w =
     (Some x, started @ (if side then reactors ls else []), w)"
  by (induction ls arbitrary: started) auto

lemma dispatch_loop_eq:
  "dispatch_loop side e ls None started w =
     (let (r, w') = run_projectors e (projectors ls) w
      in (r, started @ (if side then reactors ls else []), w'))"
proof (induction ls arbitrary: started w)
  case (Cons l ls)
  show ?case
  proof (cases "el_kind l")
    case Projector
    then show ?thesis
      using Cons.IH by (auto simp: dispatch_loop_failed split: prod.splits option.splits)
  next
    case Reactor
    then show ?thesis using Cons.IH by (auto simp: Let_def split: prod.splits)
  qed
qed simp

lemma pattern_matches_iff:
  "pattern_matches pat name \<longleftrightarrow> pat = name \<or> (\<exists>prefix rest. pat = prefix @ ''*'' \<and> name = prefix @ rest)"
proof
  assume m: "pattern_matches pat name"
  show "pat = name \<or> (\<exists>prefix rest. pat = prefix @ ''*'' \<and> name = prefix @ rest)"
  proof (cases "pat = name")
    case False
    then obtain prefix where "cut_suffix pat ''*'' = (prefix, True)" "has_prefix name prefix"
      using m by (auto simp: pattern_matches_def split: prod.splits)
    then show ?thesis by (auto dest!: cut_suffix_True simp: has_prefix_iff)
  qed simp
next
  assume "pat = name \<or> (\<exists>prefix rest. pat = prefix @ ''*'' \<and> name = prefix @ rest)"
  then show "pattern_matches pat name"
    by (auto simp: pattern_matches_def has_prefix_iff)
qed

text \<open>
  A subscription matches an event exactly when its pattern is the event's name, or the pattern is a
  prefix of the name followed by one star; so a bare star matches every event, and a star anywhere
  else in a pattern is an ordinary character.
\<close>

lemma pattern_language:
  "(pattern_matches pat name \<longleftrightarrow>
      pat = name \<or> (\<exists>prefix rest. pat = prefix @ ''*'' \<and> name = prefix @ rest))
   \<and> pattern_matches ''*'' name"
  by (simp add: pattern_matches_iff)

lemma dispatch_eq:
  "dispatch d e w =
     (let ls = get_listeners (dp_provider d) e; (r, w') = run_projectors e (projectors ls) w
      in (r, if dp_side_effects d then reactors ls else [], w'))"
  unfolding dispatch_def dispatch_loop_eq by (simp add: Let_def split: prod.split)

text \<open>
  What the documentation asks of \<^verbatim>\<open>Dispatch\<close>, without the code's own loops: the subscriptions whose
  pattern is the event's name, or a prefix of it followed by one star, kept in the order of the
  \<^verbatim>\<open>Subscribe\<close> calls; and the handlers of a list of listeners that have run one after the other, each
  without an error, from one world to another.
\<close>

definition matching_of :: "(string \<times> 'w event_listener) list \<Rightarrow> domain_event \<Rightarrow> 'w event_listener list" where
  "matching_of subs e = map snd (filter (\<lambda>(pat, l).
     pat = ev_name e \<or> (\<exists>prefix rest. pat = prefix @ ''*'' \<and> ev_name e = prefix @ rest)) subs)"

inductive all_succeed :: "domain_event \<Rightarrow> 'w event_listener list \<Rightarrow> 'w \<Rightarrow> 'w \<Rightarrow> bool" where
  none: "all_succeed e [] w w"
| one: "el_handle l e w = (None, w1) \<Longrightarrow> all_succeed e ls w1 w' \<Longrightarrow> all_succeed e (l # ls) w w'"

definition first_fails :: "domain_event \<Rightarrow> 'w event_listener list \<Rightarrow> 'w \<Rightarrow> error \<Rightarrow> 'w \<Rightarrow> bool" where
  "first_fails e ls w err w' \<longleftrightarrow>
     (\<exists>before l after w1. ls = before @ l # after \<and> all_succeed e before w w1 \<and> el_handle l e w1 = (Some err, w'))"

lemma first_fails_here: "el_handle l e w = (Some err, w') \<Longrightarrow> first_fails e (l # ls) w err w'"
  unfolding first_fails_def by (rule exI [of _ "[]"]) (auto intro: all_succeed.none)

lemma first_fails_later:
  assumes "el_handle l e w = (None, w1)" "first_fails e ls w1 err w'"
  shows "first_fails e (l # ls) w err w'"
proof -
  from assms(2) obtain before k after w2 where
    "ls = before @ k # after" "all_succeed e before w1 w2" "el_handle k e w2 = (Some err, w')"
    unfolding first_fails_def by blast
  then have "l # ls = (l # before) @ k # after \<and> all_succeed e (l # before) w w2
      \<and> el_handle k e w2 = (Some err, w')"
    using assms(1) by (auto intro: all_succeed.one)
  then show ?thesis unfolding first_fails_def by blast
qed

lemma run_projectors_chain:
  "case run_projectors e ls w of
     (None, w') \<Rightarrow> all_succeed e ls w w'
   | (Some err, w') \<Rightarrow> first_fails e ls w err w'"
proof (induction ls arbitrary: w)
  case Nil
  show ?case by (simp add: all_succeed.none)
next
  case (Cons l ls)
  obtain r w1 where h: "el_handle l e w = (r, w1)" by (rule prod.exhaust)
  show ?case
  proof (cases r)
    case (Some err)
    then show ?thesis using h by (simp add: first_fails_here)
  next
    case None
    obtain q w' where c: "run_projectors e ls w1 = (q, w')" by (rule prod.exhaust)
    then show ?thesis
      using h None Cons.IH [of w1] by (cases q) (simp_all add: all_succeed.one first_fails_later)
  qed
qed

text \<open>The dispatcher an application builds: \<^verbatim>\<open>NewEventDispatcher\<close>, \<^verbatim>\<open>HandleSideEffects\<close>, then its \<^verbatim>\<open>Subscribe\<close> calls.\<close>

definition subscribed :: "bool \<Rightarrow> (string \<times> 'w event_listener) list \<Rightarrow> 'w dispatcher" where
  "subscribed side subs =
     fold (\<lambda>(pat, l). subscribe_listener pat l) subs (handle_side_effects side new_dispatcher)"

lemma subscribe_all:
  "fold (\<lambda>(pat, l). subscribe_listener pat l) subs d = d\<lparr>dp_provider := dp_provider d @ subs\<rparr>"
proof (induction subs arbitrary: d)
  case (Cons s subs)
  then show ?case by (cases s) (simp add: subscribe_listener_def register_listener_def)
qed simp

lemma subscribed_simps [simp]:
  "dp_provider (subscribed side subs) = subs" "dp_side_effects (subscribed side subs) = side"
  by (simp_all add: subscribed_def subscribe_all handle_side_effects_def new_dispatcher_def)

lemma get_listeners_matching: "get_listeners subs e = matching_of subs e"
  by (induction subs e rule: get_listeners.induct) (auto simp: matching_of_def pattern_matches_iff)

text \<open>
  C16. A dispatcher built by \<^verbatim>\<open>Subscribe\<close> calls. A subscription concerns an event exactly when its pattern
  is the event's name or a prefix of the name followed by one star. \<^verbatim>\<open>Dispatch\<close> starts the reactors among
  the subscriptions concerned, each once and in the order of the \<^verbatim>\<open>Subscribe\<close> calls, whatever the
  projectors do, and none when side effects are off. It returns no error exactly when the projectors
  among them have all run without one, in that order and each on the world the one before left; and
  it returns an error when it is that of the first projector that failed: those before it have all
  run, those after it have not, and the world is the one the failing projector left.
\<close>

theorem dispatch_spec:
  assumes "dispatch (subscribed side subs) e w = (result, started, w')"
  shows "started = (if side then reactors (matching_of subs e) else [])
    \<and> (case result of
         None \<Rightarrow> all_succeed e (projectors (matching_of subs e)) w w'
       | Some err \<Rightarrow> first_fails e (projectors (matching_of subs e)) w err w')"
  using assms run_projectors_chain [of e "projectors (matching_of subs e)" w]
  by (auto simp: dispatch_eq get_listeners_matching Let_def split: prod.splits option.splits)

text \<open>
  Two handlers that write their own mark, one that fails, and a reactor. The event is \<^verbatim>\<open>user.registered\<close>:
  the exact name, the prefix and the bare star match it, \<^verbatim>\<open>account.*\<close> does not; the failing projector
  is third, so the last one never runs, and the reactor behind it is started all the same.
\<close>

definition mark_handler :: "nat \<Rightarrow> nat list event_handler" where
  "mark_handler n = (\<lambda>e w. (None, w @ [n]))"

definition failing_handler :: "nat list event_handler" where
  "failing_handler = (\<lambda>e w. (Some ErrAggregateNotFound, w @ [0]))"

definition marked_subs :: "(string \<times> nat list event_listener) list" where
  "marked_subs =
     [(''user.*'', new_projector (mark_handler 1)), (''account.*'', new_projector (mark_handler 2)),
      (''user.registered'', new_projector (mark_handler 3)), (''*'', new_projector failing_handler),
      (''user.r'', new_projector (mark_handler 4)), (''*'', new_projector (mark_handler 5)),
      (''*'', new_reactor (mark_handler 6))]"

definition registered_event :: domain_event where
  "registered_event = zero_event\<lparr>ev_name := ''user.registered''\<rparr>"

lemma marked_dispatch:
  "dispatch (subscribed True marked_subs) registered_event [] =
     (Some ErrAggregateNotFound, [new_reactor (mark_handler 6)], [1, 3, 0])"
  by (simp add: dispatch_def marked_subs_def registered_event_def pattern_matches_def cut_suffix_def has_prefix_def
      new_projector_def new_reactor_def mark_handler_def failing_handler_def)

lemma marked_matching:
  "matching_of marked_subs registered_event =
     [new_projector (mark_handler 1), new_projector (mark_handler 3), new_projector failing_handler,
      new_projector (mark_handler 5), new_reactor (mark_handler 6)]"
  unfolding get_listeners_matching [symmetric]
  by (simp add: marked_subs_def registered_event_def pattern_matches_def cut_suffix_def has_prefix_def)

theorem dispatch_spec_witness:
  "dispatch (subscribed True marked_subs) registered_event [] =
     (Some ErrAggregateNotFound, [new_reactor (mark_handler 6)], [1, 3, 0])
   \<and> first_fails registered_event
       [new_projector (mark_handler 1), new_projector (mark_handler 3), new_projector failing_handler,
        new_projector (mark_handler 5)] [] ErrAggregateNotFound [1, 3, 0]"
  using dispatch_spec [OF marked_dispatch] marked_dispatch
  by (simp add: marked_matching new_projector_def new_reactor_def)

text \<open>
  Reactors are independent of the projector chain: moving every reactor behind the projectors (a
  stable sort of the listeners by kind) changes neither the error, nor the world, nor which
  reactors are started and in what order.
\<close>

lemma reactors_independent:
  "dispatch_loop side e (sort_key el_kind ls) None [] w = dispatch_loop side e ls None [] w"
proof -
  have "filter (\<lambda>l. el_kind l = k) (sort_key el_kind ls) = filter (\<lambda>l. el_kind l = k) ls" for k
    by (rule sort_key_stable)
  then show ?thesis by (simp add: dispatch_loop_eq)
qed

text \<open>A listener registered last only runs when every projector before it has succeeded.\<close>

lemma dispatch_last_listener:
  assumes "el_kind l = Projector" "pattern_matches pat (ev_name e)"
  shows "dispatch (subscribe_listener pat l d) e w =
    (case dispatch d e w of
       (Some x, started, w') \<Rightarrow> (Some x, started, w')
     | (None, started, w') \<Rightarrow> (let (r, w'') = el_handle l e w' in (r, started, w'')))"
  using assms
  by (simp add: dispatch_def dispatch_loop_eq subscribe_listener_def get_listeners_register
      run_projectors_append Let_def split: prod.split option.split)

end
