(* ===== verification/Es_Notifier.thy ===== *)
theory Es_Notifier
  imports Es_Dispatcher
begin

text \<open>
  \<^verbatim>\<open>es/notifier.go\<close>: the notifier that lets a writer wait until the read side has caught up with its
  write. A channel is a number handed out by \<^verbatim>\<open>make\<close>; the set of closed channels is part of the state,
  and closing a channel twice is a panic. The theory shows that a waiter is woken exactly when a
  version it asked for has been projected, whichever of the two comes first.
\<close>

section \<open>State and operations\<close>

record version_waiter =
  vw_min_version :: u64
  vw_ch :: nat

record notifier =
  nt_last_projected :: "uuid \<Rightarrow> u64"
  nt_waiters :: "uuid \<Rightarrow> version_waiter list"
  nt_next_ch :: nat
  nt_closed :: "nat set"

definition new_notifier :: notifier where
  "new_notifier = \<lparr>nt_last_projected = (\<lambda>_. 0), nt_waiters = (\<lambda>_. []), nt_next_ch = 0, nt_closed = {}\<rparr>"

definition notifier_subscribe :: "uuid \<Rightarrow> u64 \<Rightarrow> notifier \<Rightarrow> nat \<times> notifier" where
  "notifier_subscribe agg min_version n =
     (let ch = nt_next_ch n; n1 = n\<lparr>nt_next_ch := ch + 1\<rparr>
      in if min_version \<le> nt_last_projected n agg
         then (ch, n1\<lparr>nt_closed := insert ch (nt_closed n)\<rparr>)
         else (ch, n1\<lparr>nt_waiters := (nt_waiters n)
                 (agg := nt_waiters n agg @ [\<lparr>vw_min_version = min_version, vw_ch = ch\<rparr>])\<rparr>))"

text \<open>The loop over the pending waiters: what is closed so far and what remains.\<close>

fun wake_loop :: "u64 \<Rightarrow> version_waiter list \<Rightarrow> nat set \<Rightarrow> version_waiter list \<Rightarrow>
    error + nat set \<times> version_waiter list" where
  "wake_loop v [] closed remaining = Inr (closed, remaining)"
| "wake_loop v (w # ws) closed remaining =
     (if vw_min_version w \<le> v
      then if vw_ch w \<in> closed then Inl (Panic ''close of closed channel'')
           else wake_loop v ws (insert (vw_ch w) closed) remaining
      else wake_loop v ws closed (remaining @ [w]))"

text \<open>A map entry that is deleted when nothing remains is the empty list.\<close>

definition notifier_notify :: "domain_event \<Rightarrow> notifier \<Rightarrow> error + notifier" where
  "notifier_notify e n =
     (let agg = ev_aggregate_id e; v = ev_aggregate_version e;
          n1 = (if nt_last_projected n agg < v
                then n\<lparr>nt_last_projected := (nt_last_projected n)(agg := v)\<rparr> else n);
          pending = nt_waiters n1 agg
      in if pending = [] then Inr n1
         else case wake_loop v pending (nt_closed n1) [] of
                Inl err \<Rightarrow> Inl err
              | Inr (closed, remaining) \<Rightarrow>
                  Inr (n1\<lparr>nt_closed := closed, nt_waiters := (nt_waiters n1)(agg := remaining)\<rparr>))"

text \<open>The listener that wires the notifier into a dispatcher over a world \<open>(read model, notifier)\<close>.\<close>

definition notifier_listener :: "('v \<times> notifier) event_listener" where
  "notifier_listener =
     \<lparr>el_kind = Projector,
      el_handle = (\<lambda>e (v, n). case notifier_notify e n of
                                Inl err \<Rightarrow> (Some err, v, n)
                              | Inr n' \<Rightarrow> (None, v, n'))\<rparr>"

section \<open>The invariant\<close>

text \<open>
  Every pending waiter asks for a version beyond the projected one and holds an open channel that
  nobody else holds; channels not handed out yet are open.
\<close>

definition notifier_inv :: "notifier \<Rightarrow> bool" where
  "notifier_inv n \<longleftrightarrow>
     (\<forall>agg w. w \<in> set (nt_waiters n agg) \<longrightarrow>
        nt_last_projected n agg < vw_min_version w \<and> vw_ch w \<notin> nt_closed n \<and> vw_ch w < nt_next_ch n)
     \<and> (\<forall>agg. distinct (map vw_ch (nt_waiters n agg)))
     \<and> (\<forall>a b v w. v \<in> set (nt_waiters n a) \<longrightarrow> w \<in> set (nt_waiters n b) \<longrightarrow> vw_ch v = vw_ch w \<longrightarrow> a = b)
     \<and> (\<forall>ch \<in> nt_closed n. ch < nt_next_ch n)"

lemma notifier_inv_new: "notifier_inv new_notifier"
  by (simp add: notifier_inv_def new_notifier_def)

lemma notifier_inv_subscribe:
  assumes "notifier_inv n" "notifier_subscribe agg v n = (ch, n')"
  shows "notifier_inv n'"
proof (cases "v \<le> nt_last_projected n agg")
  case True
  then show ?thesis
    using assms by (fastforce simp: notifier_inv_def notifier_subscribe_def Let_def)
next
  case False
  let ?w = "\<lparr>vw_min_version = v, vw_ch = nt_next_ch n\<rparr>"
  have n': "n' = n\<lparr>nt_next_ch := nt_next_ch n + 1, nt_waiters := (nt_waiters n)(agg := nt_waiters n agg @ [?w])\<rparr>"
    using assms(2) False by (auto simp: notifier_subscribe_def Let_def)
  have fresh: "vw_ch w < nt_next_ch n" if "w \<in> set (nt_waiters n a)" for w a
    using assms(1) that by (auto simp: notifier_inv_def)
  show ?thesis
    using assms(1) False fresh unfolding notifier_inv_def n'
    by (auto simp: less_Suc_eq dest: less_irrefl_nat) (metis fresh less_irrefl_nat)+
qed

lemma wake_loop_eq:
  "(\<forall>w \<in> set ws. vw_ch w \<notin> closed) \<Longrightarrow> distinct (map vw_ch ws) \<Longrightarrow>
   wake_loop v ws closed remaining =
     Inr (closed \<union> vw_ch ` {w \<in> set ws. vw_min_version w \<le> v},
          remaining @ filter (\<lambda>w. \<not> vw_min_version w \<le> v) ws)"
proof (induction v ws closed remaining rule: wake_loop.induct)
  case (2 v w ws closed remaining)
  show ?case
  proof (cases "vw_min_version w \<le> v")
    case True
    have "\<forall>u \<in> set ws. vw_ch u \<notin> insert (vw_ch w) closed"
      using 2(3,4) by (auto simp: image_iff)
    with 2(1) [OF True] 2(3,4) True
    have "wake_loop v (w # ws) closed remaining =
        Inr (insert (vw_ch w) closed \<union> vw_ch ` {w \<in> set ws. vw_min_version w \<le> v},
             remaining @ filter (\<lambda>w. \<not> vw_min_version w \<le> v) ws)" by simp
    moreover have "{u \<in> set (w # ws). vw_min_version u \<le> v} = insert w {u \<in> set ws. vw_min_version u \<le> v}"
      using True by auto
    ultimately show ?thesis using True by simp
  next
    case False
    then have "{u \<in> set (w # ws). vw_min_version u \<le> v} = {u \<in> set ws. vw_min_version u \<le> v}" by auto
    with False 2 show ?thesis by simp
  qed
qed simp

lemma notifier_notify_eq:
  assumes "notifier_inv n"
  defines "agg \<equiv> \<lambda>e. ev_aggregate_id e"
  shows "notifier_notify e n = Inr (n\<lparr>
    nt_last_projected := (nt_last_projected n)(agg e := max (nt_last_projected n (agg e)) (ev_aggregate_version e)),
    nt_closed := nt_closed n \<union>
      vw_ch ` {w \<in> set (nt_waiters n (agg e)). vw_min_version w \<le> ev_aggregate_version e},
    nt_waiters := (nt_waiters n)(agg e :=
      filter (\<lambda>w. \<not> vw_min_version w \<le> ev_aggregate_version e) (nt_waiters n (agg e)))\<rparr>)"
proof -
  have "\<forall>w \<in> set (nt_waiters n (agg e)). vw_ch w \<notin> nt_closed n" "distinct (map vw_ch (nt_waiters n (agg e)))"
    using assms(1) by (auto simp: notifier_inv_def)
  note wl = wake_loop_eq [OF this, of "ev_aggregate_version e" "[]"]
  show ?thesis
    by (cases "nt_last_projected n (agg e) < ev_aggregate_version e"; cases "nt_waiters n (agg e) = []")
      (auto simp: notifier_notify_def Let_def wl agg_def [symmetric] max_def fun_upd_idem
        intro!: arg_cong [where f = Inr] notifier.equality)
qed

lemma notifier_inv_notify:
  assumes "notifier_inv n" "notifier_notify e n = Inr n'"
  shows "notifier_inv n'"
proof -
  let ?v = "ev_aggregate_version e" and ?a = "ev_aggregate_id e"
  from assms(2) have n': "n' = n\<lparr>
    nt_last_projected := (nt_last_projected n)(?a := max (nt_last_projected n ?a) ?v),
    nt_closed := nt_closed n \<union> vw_ch ` {w \<in> set (nt_waiters n ?a). vw_min_version w \<le> ?v},
    nt_waiters := (nt_waiters n)(?a := filter (\<lambda>w. \<not> vw_min_version w \<le> ?v) (nt_waiters n ?a))\<rparr>"
    by (simp add: notifier_notify_eq [OF assms(1)])
  have ws: "nt_last_projected n a < vw_min_version w" "vw_ch w \<notin> nt_closed n" "vw_ch w < nt_next_ch n"
    if "w \<in> set (nt_waiters n a)" for a w
    using assms(1) that by (auto simp: notifier_inv_def)
  have same: "v = w" if "v \<in> set (nt_waiters n a)" "w \<in> set (nt_waiters n b)" "vw_ch v = vw_ch w" for v w a b
    using assms(1) that unfolding notifier_inv_def by (metis distinct_map inj_onD)
  have dist: "distinct (map vw_ch (nt_waiters n a))"
    and uniq: "v \<in> set (nt_waiters n a) \<Longrightarrow> w \<in> set (nt_waiters n b) \<Longrightarrow> vw_ch v = vw_ch w \<Longrightarrow> a = b" for a b v w
    using assms(1) unfolding notifier_inv_def by blast+
  show ?thesis
    unfolding notifier_inv_def
  proof (intro conjI allI impI ballI)
    fix a w assume w: "w \<in> set (nt_waiters n' a)"
    then have old: "w \<in> set (nt_waiters n a)" by (auto simp: n' split: if_splits)
    show "nt_last_projected n' a < vw_min_version w"
      using w ws(1) [OF old] by (auto simp: n' not_le split: if_splits)
    show "vw_ch w < nt_next_ch n'" using ws(3) [OF old] by (simp add: n')
    have "vw_ch w \<notin> vw_ch ` {w \<in> set (nt_waiters n ?a). vw_min_version w \<le> ?v}"
    proof
      assume "vw_ch w \<in> vw_ch ` {w \<in> set (nt_waiters n ?a). vw_min_version w \<le> ?v}"
      then obtain u where u: "u \<in> set (nt_waiters n ?a)" "vw_min_version u \<le> ?v" "vw_ch w = vw_ch u" by auto
      with same [OF old u(1)] uniq [OF old u(1)] w show False by (auto simp: n')
    qed
    then show "vw_ch w \<notin> nt_closed n'" using ws(2) [OF old] by (simp add: n')
  next
    fix a
    show "distinct (map vw_ch (nt_waiters n' a))"
      using dist by (auto simp: n' distinct_map inj_on_def)
  next
    fix a b v w
    assume "v \<in> set (nt_waiters n' a)" "w \<in> set (nt_waiters n' b)" "vw_ch v = vw_ch w"
    then show "a = b" using uniq by (auto simp: n' split: if_splits)
  next
    fix ch assume "ch \<in> nt_closed n'"
    then show "ch < nt_next_ch n'"
      using assms(1) ws(3) by (auto simp: n' notifier_inv_def)
  qed
qed

section \<open>Runs\<close>

datatype notifier_op = Subscribe uuid u64 | Notify domain_event

text \<open>A sequence of calls, with the channels the subscriptions returned.\<close>

fun notifier_run :: "notifier_op list \<Rightarrow> notifier \<Rightarrow> error + nat list \<times> notifier" where
  "notifier_run [] n = Inr ([], n)"
| "notifier_run (Subscribe agg v # ops) n =
     (let (ch, n1) = notifier_subscribe agg v n
      in map_sum id (\<lambda>(chs, n'). (ch # chs, n')) (notifier_run ops n1))"
| "notifier_run (Notify e # ops) n =
     (case notifier_notify e n of
        Inl err \<Rightarrow> Inl err
      | Inr n1 \<Rightarrow> notifier_run ops n1)"

definition projected_through :: "notifier_op list \<Rightarrow> uuid \<Rightarrow> u64 \<Rightarrow> bool" where
  "projected_through ops agg v \<longleftrightarrow>
     (\<exists>e. Notify e \<in> set ops \<and> ev_aggregate_id e = agg \<and> v \<le> ev_aggregate_version e)"

lemma projected_through_simps [simp]:
  "\<not> projected_through [] agg v"
  "projected_through (Subscribe a u # ops) agg v = projected_through ops agg v"
  "projected_through (Notify e # ops) agg v
     = (ev_aggregate_id e = agg \<and> v \<le> ev_aggregate_version e \<or> projected_through ops agg v)"
  "projected_through (ops @ ops') agg v = (projected_through ops agg v \<or> projected_through ops' agg v)"
  by (auto simp: projected_through_def)

text \<open>A channel handed out for \<open>(agg, v)\<close>: closed and \<open>v\<close> reached, or open and still waiting.\<close>

definition tracked :: "nat \<Rightarrow> uuid \<Rightarrow> u64 \<Rightarrow> notifier \<Rightarrow> bool" where
  "tracked ch agg v n \<longleftrightarrow>
     (if ch \<in> nt_closed n then v \<le> nt_last_projected n agg
      else \<lparr>vw_min_version = v, vw_ch = ch\<rparr> \<in> set (nt_waiters n agg)) \<and> ch < nt_next_ch n"

lemma tracked_closed_iff:
  assumes "notifier_inv n" "tracked ch agg v n"
  shows "ch \<in> nt_closed n \<longleftrightarrow> v \<le> nt_last_projected n agg"
proof (cases "ch \<in> nt_closed n")
  case False
  then have "\<lparr>vw_min_version = v, vw_ch = ch\<rparr> \<in> set (nt_waiters n agg)"
    using assms(2) by (simp add: tracked_def)
  then have "nt_last_projected n agg < v" using assms(1) by (force simp: notifier_inv_def)
  with False show ?thesis by simp
qed (use assms(2) in \<open>simp add: tracked_def\<close>)

lemma tracked_subscribed:
  "notifier_inv n \<Longrightarrow> notifier_subscribe agg v n = (ch, n') \<Longrightarrow> tracked ch agg v n'"
  by (auto simp: notifier_subscribe_def tracked_def notifier_inv_def Let_def split: if_splits)

lemma tracked_subscribe:
  "tracked ch agg v n \<Longrightarrow> notifier_subscribe a u n = (c, n') \<Longrightarrow> tracked ch agg v n'"
  by (auto simp: notifier_subscribe_def tracked_def Let_def split: if_splits)

lemma tracked_notify:
  assumes "notifier_inv n" "tracked ch agg v n" "notifier_notify e n = Inr n'"
  shows "tracked ch agg v n'"
proof (cases "ch \<in> nt_closed n")
  case True
  then show ?thesis
    using assms by (auto simp: tracked_def notifier_notify_eq le_max_iff_disj)
next
  case False
  then have w: "\<lparr>vw_min_version = v, vw_ch = ch\<rparr> \<in> set (nt_waiters n agg)"
    using assms(2) by (simp add: tracked_def)
  have "agg = a \<and> vw_min_version u = v" if "u \<in> set (nt_waiters n a)" "vw_ch u = ch" for a u
  proof -
    have "agg = a" using assms(1) w that unfolding notifier_inv_def by (metis version_waiter.select_convs(2))
    moreover have "u = \<lparr>vw_min_version = v, vw_ch = ch\<rparr>"
      using assms(1) w that calculation unfolding notifier_inv_def
      by (metis distinct_map inj_onD version_waiter.select_convs(2))
    ultimately show ?thesis by simp
  qed
  note waiter = this
  have cl: "nt_closed n' = nt_closed n \<union>
      vw_ch ` {w \<in> set (nt_waiters n (ev_aggregate_id e)). vw_min_version w \<le> ev_aggregate_version e}"
    using assms(3) by (auto simp: notifier_notify_eq [OF assms(1)])
  have closed: "ch \<in> nt_closed n' \<longleftrightarrow> agg = ev_aggregate_id e \<and> v \<le> ev_aggregate_version e"
  proof
    assume "ch \<in> nt_closed n'"
    with False cl obtain u where "u \<in> set (nt_waiters n (ev_aggregate_id e))" "vw_ch u = ch"
      "vw_min_version u \<le> ev_aggregate_version e" by auto
    with waiter show "agg = ev_aggregate_id e \<and> v \<le> ev_aggregate_version e" by blast
  next
    assume "agg = ev_aggregate_id e \<and> v \<le> ev_aggregate_version e"
    with w cl show "ch \<in> nt_closed n'" by force
  qed
  show ?thesis
  proof (cases "agg = ev_aggregate_id e \<and> v \<le> ev_aggregate_version e")
    case True
    then show ?thesis
      using closed assms by (auto simp: tracked_def notifier_notify_eq le_max_iff_disj)
  next
    case kept: False
    then show ?thesis
      using closed w assms by (auto simp: tracked_def notifier_notify_eq)
  qed
qed

lemma notifier_run_total:
  "notifier_inv n \<Longrightarrow> \<exists>chs n'. notifier_run ops n = Inr (chs, n') \<and> notifier_inv n'
     \<and> (\<forall>agg v. v \<le> nt_last_projected n' agg \<longleftrightarrow>
           v \<le> nt_last_projected n agg \<or> projected_through ops agg v)
     \<and> (\<forall>ch agg v. tracked ch agg v n \<longrightarrow> tracked ch agg v n')"
proof (induction ops n rule: notifier_run.induct)
  case (2 agg v ops n)
  obtain ch n1 where sub: "notifier_subscribe agg v n = (ch, n1)" by force
  have "nt_last_projected n1 = nt_last_projected n"
    using sub by (auto simp: notifier_subscribe_def Let_def split: if_splits)
  with 2(1) [OF sub [symmetric] refl] notifier_inv_subscribe [OF 2(2) sub] tracked_subscribe [OF _ sub]
  show ?case by (fastforce simp: sub)
next
  case (3 e ops n)
  obtain n1 where nt: "notifier_notify e n = Inr n1"
    using notifier_notify_eq [OF 3(2)] by blast
  have last: "v \<le> nt_last_projected n1 agg \<longleftrightarrow> v \<le> nt_last_projected n agg
      \<or> ev_aggregate_id e = agg \<and> v \<le> ev_aggregate_version e" for agg v
    using nt by (auto simp: notifier_notify_eq [OF 3(2)] le_max_iff_disj split: if_splits)
  from 3(1) [OF nt] notifier_inv_notify [OF 3(2) nt] obtain chs n' where
    "notifier_run ops n1 = Inr (chs, n')" "notifier_inv n'"
    "\<And>agg v. v \<le> nt_last_projected n' agg \<longleftrightarrow> v \<le> nt_last_projected n1 agg \<or> projected_through ops agg v"
    "\<And>ch agg v. tracked ch agg v n1 \<Longrightarrow> tracked ch agg v n'" by blast
  with tracked_notify [OF 3(2) _ nt] show ?case by (auto simp: nt last)
qed simp

lemma notifier_wakes:
  "\<exists>chs n1 ch n2 chs' n3. notifier_run pre new_notifier = Inr (chs, n1)
     \<and> notifier_subscribe agg v n1 = (ch, n2)
     \<and> notifier_run post n2 = Inr (chs', n3)
     \<and> (ch \<in> nt_closed n3 \<longleftrightarrow> v = 0 \<or> projected_through (pre @ post) agg v)"
proof -
  from notifier_run_total [OF notifier_inv_new, of pre] obtain chs n1
    where r1: "notifier_run pre new_notifier = Inr (chs, n1)" and i1: "notifier_inv n1"
      and l1: "v \<le> nt_last_projected n1 agg \<longleftrightarrow> v \<le> 0 \<or> projected_through pre agg v"
    by (auto simp: new_notifier_def)
  obtain ch n2 where sub: "notifier_subscribe agg v n1 = (ch, n2)" by force
  have "nt_last_projected n2 = nt_last_projected n1"
    using sub by (auto simp: notifier_subscribe_def Let_def split: if_splits)
  with notifier_run_total [OF notifier_inv_subscribe [OF i1 sub], of post]
    tracked_subscribed [OF i1 sub] obtain chs' n3
    where r3: "notifier_run post n2 = Inr (chs', n3)" and "notifier_inv n3" "tracked ch agg v n3"
      and "v \<le> nt_last_projected n3 agg \<longleftrightarrow> v \<le> nt_last_projected n1 agg \<or> projected_through post agg v"
    by auto
  with tracked_closed_iff l1 have "ch \<in> nt_closed n3 \<longleftrightarrow> v = 0 \<or> projected_through (pre @ post) agg v"
    by (auto simp: word_le_0_iff)
  with r1 sub r3 show ?thesis by blast
qed

text \<open>
  C17. No lost and no early wake-up: in any sequence of calls on a new notifier, none of which panics, the
  channel a \<^verbatim>\<open>Subscribe(agg, v)\<close> returned is closed at the end exactly when \<open>v\<close> is 0 or some
  \<^verbatim>\<open>Notify\<close> of that aggregate with a version of at least \<open>v\<close> was called, before or after it.
\<close>

theorem wakes_exactly:
  "\<exists>chs n1 ch n2 chs' n3. notifier_run pre new_notifier = Inr (chs, n1)
     \<and> notifier_subscribe agg v n1 = (ch, n2)
     \<and> notifier_run post n2 = Inr (chs', n3)
     \<and> (ch \<in> nt_closed n3 \<longleftrightarrow> v = 0 \<or> projected_through (pre @ post) agg v)"
  by (rule notifier_wakes)

section \<open>Wired into a dispatcher\<close>

text \<open>
  A waiter is only woken for an event that the read model has applied: with the notifier's
  listener subscribed last on the star pattern, a dispatch in which a projector fails returns that
  error and leaves the notifier untouched, and one in which all succeed ends by notifying.
\<close>

lemma wakes_after_projection:
  "dispatch (subscribe_listener ''*'' notifier_listener d) e (v, n) =
     (case dispatch d e (v, n) of
        (Some x, started, w') \<Rightarrow> (Some x, started, w')
      | (None, started, (v', n')) \<Rightarrow>
          (case notifier_notify e n' of
             Inl err \<Rightarrow> (Some err, started, (v', n'))
           | Inr n'' \<Rightarrow> (None, started, (v', n''))))"
proof -
  have "pattern_matches ''*'' (ev_name e)" by (simp add: pattern_matches_iff)
  then show ?thesis
    by (subst dispatch_last_listener) (auto simp: notifier_listener_def split: prod.splits option.splits sum.splits)
qed

end
