(* ===== verification/Es_Export.thy ===== *)
theory Es_Export
  imports Mem_Reads "HOL-Library.Multiset"
begin

text \<open>
  \<^verbatim>\<open>es/pii_lookup.go\<close> and \<^verbatim>\<open>es/dsar.go\<close>: the subject export, its grouping of a subject's events by
  stream, and the document it is rendered to. The text of a UUID (a third-party package) and the
  text of a time are the interface record \<open>dsar_codec\<close>.
\<close>

section \<open>Export\<close>

record aggregate_history =
  ah_tenant_id :: uuid
  ah_aggregate_id :: uuid
  ah_events :: "domain_event list"

record subject_export =
  se_pii_id :: uuid
  se_aggregates :: "aggregate_history list"

text \<open>
  The grouping loop over \<^verbatim>\<open>firstSeen\<close> and \<^verbatim>\<open>export.Aggregates\<close>. An index beyond the slice would be a
  panic; the lemma \<open>export_loop_eq\<close> shows that there is none.
\<close>

fun export_loop :: "domain_event list \<Rightarrow> (uuid \<times> uuid \<Rightarrow> nat option) \<Rightarrow> aggregate_history list \<Rightarrow>
    error + aggregate_history list" where
  "export_loop [] first_seen aggs = Inr aggs"
| "export_loop (e # es) first_seen aggs =
     (let key = (ev_tenant_id e, ev_aggregate_id e);
          (idx, first_seen', aggs') =
            (case first_seen key of
               Some idx \<Rightarrow> (idx, first_seen, aggs)
             | None \<Rightarrow> (length aggs, first_seen(key \<mapsto> length aggs),
                 aggs @ [\<lparr>ah_tenant_id = ev_tenant_id e, ah_aggregate_id = ev_aggregate_id e, ah_events = []\<rparr>]))
      in if idx < length aggs'
         then export_loop es first_seen' (aggs'[idx := (aggs' ! idx)\<lparr>ah_events := ah_events (aggs' ! idx) @ [e]\<rparr>])
         else Inl (Panic ''index out of range''))"

definition export_subject :: "(uuid \<Rightarrow> store_option list \<Rightarrow> error + domain_event list) \<Rightarrow> uuid \<Rightarrow>
    store_option list \<Rightarrow> error + subject_export" where
  "export_subject lookup p opts =
     (case lookup p opts of
        Inl err \<Rightarrow> Inl err
      | Inr es \<Rightarrow>
          (case export_loop es Map.empty [] of
             Inl err \<Rightarrow> Inl err
           | Inr aggs \<Rightarrow> Inr \<lparr>se_pii_id = p, se_aggregates = aggs\<rparr>))"

section \<open>The reference grouping\<close>

text \<open>The streams of the events in the order of their first events, and the events of each.\<close>

definition first_keys :: "domain_event list \<Rightarrow> (uuid \<times> uuid) list" where
  "first_keys es = rev (remdups (rev (map aggregate_key es)))"

definition history_of :: "domain_event list \<Rightarrow> uuid \<times> uuid \<Rightarrow> aggregate_history" where
  "history_of es k = \<lparr>ah_tenant_id = fst k, ah_aggregate_id = snd k,
     ah_events = filter (\<lambda>e. aggregate_key e = k) es\<rparr>"

lemma first_keys_snoc:
  "first_keys (es @ [e]) =
     (if aggregate_key e \<in> aggregate_key ` set es then first_keys es else first_keys es @ [aggregate_key e])"
  by (simp add: first_keys_def)

lemma first_keys_distinct: "distinct (first_keys es)"
  by (simp add: first_keys_def)

lemma set_first_keys: "set (first_keys es) = aggregate_key ` set es"
  by (simp add: first_keys_def)

text \<open>What the loop has built after the events \<open>ds\<close>.\<close>

definition grouped :: "domain_event list \<Rightarrow> (uuid \<times> uuid \<Rightarrow> nat option) \<Rightarrow> aggregate_history list \<Rightarrow> bool" where
  "grouped ds first_seen aggs \<longleftrightarrow> aggs = map (history_of ds) (first_keys ds)
     \<and> (\<forall>k i. first_seen k = Some i \<longleftrightarrow> i < length (first_keys ds) \<and> first_keys ds ! i = k)"

lemma history_of_snoc:
  "history_of (ds @ [e]) k =
     (if aggregate_key e = k then (history_of ds k)\<lparr>ah_events := ah_events (history_of ds k) @ [e]\<rparr>
      else history_of ds k)"
  by (simp add: history_of_def)

lemma map_history_snoc:
  assumes "i < length ks" "distinct ks" "ks ! i = aggregate_key e"
  shows "(map (history_of ds) ks)
      [i := (history_of ds (ks ! i))\<lparr>ah_events := ah_events (history_of ds (ks ! i)) @ [e]\<rparr>]
    = map (history_of (ds @ [e])) ks"
proof (rule nth_equalityI)
  fix j assume "j < length ((map (history_of ds) ks)
      [i := (history_of ds (ks ! i))\<lparr>ah_events := ah_events (history_of ds (ks ! i)) @ [e]\<rparr>])"
  then have j: "j < length ks" by simp
  have "ks ! j = ks ! i \<longleftrightarrow> j = i" using nth_eq_iff_index_eq [OF assms(2) j assms(1)] .
  with assms j show "(map (history_of ds) ks)
      [i := (history_of ds (ks ! i))\<lparr>ah_events := ah_events (history_of ds (ks ! i)) @ [e]\<rparr>] ! j
    = map (history_of (ds @ [e])) ks ! j"
    by (auto simp: nth_list_update history_of_snoc)
qed simp

lemma export_loop_grouped:
  "grouped ds first_seen aggs \<Longrightarrow>
   export_loop es first_seen aggs = Inr (map (history_of (ds @ es)) (first_keys (ds @ es)))"
proof (induction es arbitrary: ds first_seen aggs)
  case Nil
  then show ?case by (simp add: grouped_def)
next
  case (Cons e es)
  let ?k = "aggregate_key e"
  from Cons.prems have aggs: "aggs = map (history_of ds) (first_keys ds)"
    and seen: "\<And>k i. first_seen k = Some i \<longleftrightarrow> i < length (first_keys ds) \<and> first_keys ds ! i = k"
    by (auto simp: grouped_def)
  show ?case
  proof (cases "first_seen ?k")
    case (Some i)
    then have i: "i < length (first_keys ds)" "first_keys ds ! i = ?k" using seen by auto
    then have "?k \<in> aggregate_key ` set ds" using set_first_keys nth_mem by metis
    then have keys: "first_keys (ds @ [e]) = first_keys ds" by (simp add: first_keys_snoc)
    have "grouped (ds @ [e]) first_seen
        (aggs[i := (aggs ! i)\<lparr>ah_events := ah_events (aggs ! i) @ [e]\<rparr>])"
      using map_history_snoc [OF i(1) first_keys_distinct i(2), of ds] seen i(1)
      by (simp add: grouped_def keys aggs)
    from Cons.IH [OF this] Some i(1) show ?thesis by (simp add: aggregate_key_def aggs)
  next
    case None
    have new: "?k \<notin> set (first_keys ds)"
      using None seen by (metis in_set_conv_nth option.distinct(1))
    then have keys: "first_keys (ds @ [e]) = first_keys ds @ [?k]"
      by (simp add: first_keys_snoc set_first_keys)
    have "filter (\<lambda>x. aggregate_key x = ?k) ds = []"
      using new unfolding set_first_keys filter_empty_conv by (metis imageI)
    then have "history_of (ds @ [e]) ?k
        = \<lparr>ah_tenant_id = ev_tenant_id e, ah_aggregate_id = ev_aggregate_id e, ah_events = [e]\<rparr>"
      by (simp add: history_of_def aggregate_key_def)
    moreover have "map (history_of (ds @ [e])) (first_keys ds) = map (history_of ds) (first_keys ds)"
      using new by (intro map_cong) (auto simp: history_of_snoc)
    moreover have "(first_seen(?k \<mapsto> length aggs)) k = Some i
        \<longleftrightarrow> i < length (first_keys (ds @ [e])) \<and> first_keys (ds @ [e]) ! i = k" for k i
      using seen [of k i] new None by (auto simp: keys nth_append aggs less_Suc_eq in_set_conv_nth)
    ultimately have "grouped (ds @ [e]) (first_seen(?k \<mapsto> length aggs))
        (aggs @ [\<lparr>ah_tenant_id = ev_tenant_id e, ah_aggregate_id = ev_aggregate_id e, ah_events = [e]\<rparr>])"
      by (simp add: grouped_def keys aggs)
    from Cons.IH [OF this] None show ?thesis
      by (simp add: aggregate_key_def Let_def del: fun_upd_apply)
  qed
qed

lemma export_loop_eq: "export_loop es Map.empty [] = Inr (map (history_of es) (first_keys es))"
  using export_loop_grouped [of "[]" Map.empty "[]" es] by (simp add: grouped_def first_keys_def)

lemma mset_partition:
  "distinct ks \<Longrightarrow> mset (concat (map (\<lambda>k. filter (\<lambda>e. f e = k) es) ks)) = mset (filter (\<lambda>e. f e \<in> set ks) es)"
proof (induction ks)
  case (Cons k ks)
  have "mset (filter (\<lambda>e. f e \<in> set (k # ks)) xs)
      = mset (filter (\<lambda>e. f e = k) xs) + mset (filter (\<lambda>e. f e \<in> set ks) xs)" for xs
    using Cons.prems by (induction xs) auto
  with Cons show ?case by simp
qed simp

text \<open>
  C35. The subject export is a grouping of what the lookup returned: one history per (tenant, aggregate)
  among the events, in the order in which they first occur, holding exactly that stream's events in
  the order of the lookup; no index of the loop is out of range and no event is lost or duplicated.
\<close>

theorem export_is_grouping:
  "export_subject lookup p opts =
     (case lookup p opts of
        Inl err \<Rightarrow> Inl err
      | Inr es \<Rightarrow> Inr \<lparr>se_pii_id = p, se_aggregates = map (history_of es) (first_keys es)\<rparr>)
   \<and> distinct (first_keys es) \<and> set (first_keys es) = aggregate_key ` set es
   \<and> mset (concat (map (ah_events \<circ> history_of es) (first_keys es))) = mset es"
proof (intro conjI)
  have "map (ah_events \<circ> history_of es) ks = map (\<lambda>k. filter (\<lambda>e. aggregate_key e = k) es) ks" for ks
    by (simp add: history_of_def)
  then have "mset (concat (map (ah_events \<circ> history_of es) (first_keys es)))
      = mset (filter (\<lambda>e. aggregate_key e \<in> set (first_keys es)) es)"
    by (simp only: mset_partition [OF first_keys_distinct])
  also have "filter (\<lambda>e. aggregate_key e \<in> set (first_keys es)) es = es"
    by (simp add: filter_id_conv set_first_keys)
  finally show "mset (concat (map (ah_events \<circ> history_of es) (first_keys es))) = mset es" .
qed (simp_all add: export_subject_def export_loop_eq first_keys_distinct set_first_keys split: sum.split)

section \<open>The exporter over the in-memory store\<close>

lemma visible_key: "aggregate_key e = aggregate_key f \<Longrightarrow> visible cfg e = visible cfg f"
  by (simp add: visible_def aggregate_key_def split: option.split)

text \<open>
  Over a reachable in-memory store the export of a subject is exact per stream: each history is the
  part of that stream that carries the subject, in stream order, and the histories cover every
  event of the subject that the scope may see.
\<close>

lemma export_exact_mem:
  assumes "mem_reach s"
    and "export_subject (\<lambda>p opts. mem_fetch_by_pii_id p opts s) p opts = Inr x"
  shows "(\<forall>h \<in> set (se_aggregates x). ah_events h \<noteq> []
      \<and> ah_events h = filter (\<lambda>e. ev_pii_id e = Some p) (ms_by_aggregate s (ah_tenant_id h, ah_aggregate_id h)))
    \<and> (\<forall>e \<in> set (visible_log opts s). ev_pii_id e = Some p \<longrightarrow>
        (\<exists>h \<in> set (se_aggregates x). e \<in> set (ah_events h)))"
proof -
  let ?es = "filter (\<lambda>e. ev_pii_id e = Some p) (visible_log opts s)"
  have inv: "mem_log_inv s" "mem_keyed s" using mem_reach_inv [OF assms(1)] by auto
  from assms(2) have x: "se_aggregates x = map (history_of ?es) (first_keys ?es)"
    by (auto simp: export_subject_def mem_fetch_by_pii_id_eq [OF inv(1)] Let_def export_loop_eq
        split: if_splits)
  have hist: "ah_events (history_of ?es k) \<noteq> []
      \<and> ah_events (history_of ?es k) = filter (\<lambda>e. ev_pii_id e = Some p) (ms_by_aggregate s k)"
    if "k \<in> aggregate_key ` set ?es" for k
  proof -
    from that obtain e where e: "e \<in> set ?es" "aggregate_key e = k" by auto
    then have "visible (resolve_store_config opts) f \<longleftrightarrow> True" if "aggregate_key f = k" for f
      using visible_key [of f e] that by auto
    then have "filter (\<lambda>f. aggregate_key f = k) ?es
        = filter (\<lambda>e. ev_pii_id e = Some p) (filter (\<lambda>f. aggregate_key f = k) (ms_all s))"
      by (auto intro!: filter_cong)
    moreover have "filter (\<lambda>f. aggregate_key f = k) ?es \<noteq> []" using e by (auto simp: filter_empty_conv)
    moreover have "ms_by_aggregate s k = filter (\<lambda>e. aggregate_key e = k) (ms_all s)"
      using inv(2) unfolding mem_keyed_def by blast
    ultimately show ?thesis by (simp add: history_of_def)
  qed
  have "\<forall>h \<in> set (se_aggregates x). ah_events h \<noteq> []
      \<and> ah_events h = filter (\<lambda>e. ev_pii_id e = Some p) (ms_by_aggregate s (ah_tenant_id h, ah_aggregate_id h))"
  proof
    fix h assume "h \<in> set (se_aggregates x)"
    then obtain k where k: "h = history_of ?es k" "k \<in> aggregate_key ` set ?es"
      by (auto simp: x set_first_keys)
    then have key: "(ah_tenant_id h, ah_aggregate_id h) = k" by (simp add: history_of_def)
    show "ah_events h \<noteq> [] \<and> ah_events h
        = filter (\<lambda>e. ev_pii_id e = Some p) (ms_by_aggregate s (ah_tenant_id h, ah_aggregate_id h))"
      unfolding key unfolding k(1) by (rule hist [OF k(2)])
  qed
  moreover have "\<exists>h \<in> set (se_aggregates x). e \<in> set (ah_events h)" if "e \<in> set ?es" for e
  proof (rule bexI)
    show "history_of ?es (aggregate_key e) \<in> set (se_aggregates x)"
      using that by (simp add: x set_first_keys)
    show "e \<in> set (ah_events (history_of ?es (aggregate_key e)))"
      using that by (simp add: history_of_def)
  qed
  then have "\<forall>e \<in> set (visible_log opts s). ev_pii_id e = Some p \<longrightarrow>
      (\<exists>h \<in> set (se_aggregates x). e \<in> set (ah_events h))" by simp
  ultimately show ?thesis by (rule conjI)
qed

theorem export_exact_mem_witness:
  "\<exists>s x e. export_subject (\<lambda>p opts. mem_fetch_by_pii_id p opts s) 3 [] = Inr x
    \<and> (\<exists>h \<in> set (se_aggregates x). e \<in> set (ah_events h))"
proof -
  let ?f = "(sample_event 0 7 1)\<lparr>ev_pii_id := Some 3\<rparr>"
  let ?e = "?f\<lparr>ev_global_id := 1\<rparr>"
  obtain s where c: "mem_commit [?f] 0 [] mem_new = (None, [?e], s)"
    and s: "s = mem_extend (commit_key [] [?f]) [?e] mem_new"
    by (simp add: mem_commit_eq mem_new_def current_version_def Let_def stamp_tenant_def
        resolve_store_config_def)
  have reach: "mem_reach s"
    using c by (rule mem_reach.commit [OF mem_reach.new, rotated])
      (simp add: uniform_batch_def commit_key_def)
  have "mem_fetch_by_pii_id 3 [] s = Inr [?e]"
    by (simp add: s mem_fetch_by_pii_id_def mem_new_def visible_def resolve_store_config_def)
  then obtain x where x: "export_subject (\<lambda>p opts. mem_fetch_by_pii_id p opts s) 3 [] = Inr x"
    by (simp add: export_subject_def export_loop_eq)
  have "?e \<in> set (visible_log [] s)" "ev_pii_id ?e = Some 3"
    by (simp_all add: s visible_def resolve_store_config_def)
  with export_exact_mem [OF reach x] x show ?thesis by blast
qed

section \<open>The DSAR document\<close>

record dsar_actor_doc =
  da_id :: uuid
  da_type :: string

record dsar_event_doc =
  de_id :: uuid
  de_name :: string
  de_version :: int
  de_aggregate_version :: u64
  de_occurred_at :: time
  de_actor :: "dsar_actor_doc option"
  de_metadata :: raw
  de_pii_unrecoverable :: bool
  de_payload :: raw

record dsar_aggregate_doc =
  dg_tenant_id :: uuid
  dg_aggregate_id :: uuid
  dg_events :: "dsar_event_doc list"

record dsar_response_doc =
  dr_pii_id :: uuid
  dr_generated_at :: time
  dr_aggregates :: "dsar_aggregate_doc list"

text \<open>What \<^verbatim>\<open>MarshalJSON\<close> builds before it calls \<^verbatim>\<open>json.Marshal\<close>; \<open>now\<close> is \<^verbatim>\<open>time.Now\<close>.\<close>

definition dsar_event :: "domain_event \<Rightarrow> dsar_event_doc" where
  "dsar_event e = \<lparr>de_id = ev_id e, de_name = ev_name e, de_version = ev_version e,
     de_aggregate_version = ev_aggregate_version e, de_occurred_at = ev_occurred_at e,
     de_actor = (case ev_actor_id e of
        None \<Rightarrow> None
      | Some a \<Rightarrow> Some \<lparr>da_id = a, da_type = (case ev_actor_type e of None \<Rightarrow> [] | Some t \<Rightarrow> t)\<rparr>),
     de_metadata = (if raw_present (ev_metadata e) then ev_metadata e else RawNil),
     de_pii_unrecoverable = ev_pii_unrecoverable e, de_payload = ev_payload e\<rparr>"

definition dsar_response :: "time \<Rightarrow> subject_export \<Rightarrow> dsar_response_doc" where
  "dsar_response now x = \<lparr>dr_pii_id = se_pii_id x, dr_generated_at = now,
     dr_aggregates = map (\<lambda>h. \<lparr>dg_tenant_id = ah_tenant_id h, dg_aggregate_id = ah_aggregate_id h,
       dg_events = map dsar_event (ah_events h)\<rparr>) (se_aggregates x)\<rparr>"

text \<open>
  \<^verbatim>\<open>json.Marshal\<close> of these documents. A nil slice is written as \<^verbatim>\<open>null\<close>, a nil \<^verbatim>\<open>RawMessage\<close> too, unless
  it is tagged \<^verbatim>\<open>omitempty\<close>; bytes that are no JSON fail, and so does a time outside the years
  0 to 9999 (\<open>dc_time\<close> is \<open>None\<close>).
\<close>

record dsar_codec =
  dc_uuid :: "uuid \<Rightarrow> string"
  dc_time :: "time \<Rightarrow> string option"

fun raw_json :: "raw \<Rightarrow> error + json" where
  "raw_json RawNil = Inr JNull"
| "raw_json (RawOk j) = Inr j"
| "raw_json RawBad = Inl ErrJson"

definition time_json :: "dsar_codec \<Rightarrow> time \<Rightarrow> error + json" where
  "time_json cd t = (case dc_time cd t of None \<Rightarrow> Inl ErrJson | Some s \<Rightarrow> Inr (JStr s))"

fun marshal_struct :: "(string \<times> (error + json)) list \<Rightarrow> error + (string \<Rightarrow> json option)" where
  "marshal_struct [] = Inr Map.empty"
| "marshal_struct ((k, v) # fs) =
     (case v of
        Inl err \<Rightarrow> Inl err
      | Inr j \<Rightarrow> (case marshal_struct fs of Inl err \<Rightarrow> Inl err | Inr m \<Rightarrow> Inr (m(k \<mapsto> j))))"

fun marshal_all :: "('d \<Rightarrow> error + json) \<Rightarrow> 'd list \<Rightarrow> error + json list" where
  "marshal_all f [] = Inr []"
| "marshal_all f (d # ds) =
     (case f d of
        Inl err \<Rightarrow> Inl err
      | Inr j \<Rightarrow> (case marshal_all f ds of Inl err \<Rightarrow> Inl err | Inr js \<Rightarrow> Inr (j # js)))"

definition marshal_slice :: "('d \<Rightarrow> error + json) \<Rightarrow> 'd list \<Rightarrow> error + json" where
  "marshal_slice f ds =
     (case marshal_all f ds of Inl err \<Rightarrow> Inl err | Inr js \<Rightarrow> Inr (if ds = [] then JNull else JArr js))"

definition marshal_event_doc :: "dsar_codec \<Rightarrow> dsar_event_doc \<Rightarrow> error + json" where
  "marshal_event_doc cd d = map_sum id JObj (marshal_struct
     ([(''id'', Inr (JStr (dc_uuid cd (de_id d)))), (''name'', Inr (JStr (de_name d))),
       (''version'', Inr (JNum (de_version d))),
       (''aggregate_version'', Inr (JNum (uint (de_aggregate_version d)))),
       (''occurred_at'', time_json cd (de_occurred_at d))]
      @ (case de_actor d of
           None \<Rightarrow> []
         | Some a \<Rightarrow> [(''actor'', Inr (JObj [''id'' \<mapsto> JStr (dc_uuid cd (da_id a)), ''type'' \<mapsto> JStr (da_type a)]))])
      @ (if raw_present (de_metadata d) then [(''metadata'', raw_json (de_metadata d))] else [])
      @ [(''pii_unrecoverable'', Inr (JBool (de_pii_unrecoverable d))),
         (''payload'', raw_json (de_payload d))]))"

definition marshal_aggregate_doc :: "dsar_codec \<Rightarrow> dsar_aggregate_doc \<Rightarrow> error + json" where
  "marshal_aggregate_doc cd d = map_sum id JObj (marshal_struct
     [(''tenant_id'', Inr (JStr (dc_uuid cd (dg_tenant_id d)))),
      (''aggregate_id'', Inr (JStr (dc_uuid cd (dg_aggregate_id d)))),
      (''events'', marshal_slice (marshal_event_doc cd) (dg_events d))])"

definition marshal_response_doc :: "dsar_codec \<Rightarrow> dsar_response_doc \<Rightarrow> error + json" where
  "marshal_response_doc cd d = map_sum id JObj (marshal_struct
     [(''pii_id'', Inr (JStr (dc_uuid cd (dr_pii_id d)))),
      (''generated_at'', time_json cd (dr_generated_at d)),
      (''aggregates'', marshal_slice (marshal_aggregate_doc cd) (dr_aggregates d))])"

text \<open>\<^verbatim>\<open>ExportJSON\<close>, up to the indentation.\<close>

definition export_json :: "dsar_codec \<Rightarrow> time \<Rightarrow> (uuid \<Rightarrow> store_option list \<Rightarrow> error + domain_event list) \<Rightarrow>
    uuid \<Rightarrow> store_option list \<Rightarrow> error + json" where
  "export_json cd now lookup p opts =
     (case export_subject lookup p opts of
        Inl err \<Rightarrow> Inl err
      | Inr x \<Rightarrow> marshal_response_doc cd (dsar_response now x))"

section \<open>When there is a document, and what it says\<close>

lemma marshal_all_Inr:
  "(\<exists>js. marshal_all f ds = Inr js) \<longleftrightarrow> (\<forall>d \<in> set ds. \<exists>j. f d = Inr j)"
  by (induction ds) (auto split: sum.split)

lemma marshal_slice_Inr:
  "(\<exists>j. marshal_slice f ds = Inr j) \<longleftrightarrow> (\<forall>d \<in> set ds. \<exists>j. f d = Inr j)"
  unfolding marshal_slice_def marshal_all_Inr [symmetric] by (auto split: sum.split)

lemma map_sum_Inr: "(\<exists>j. map_sum id g x = Inr j) \<longleftrightarrow> (\<exists>m. x = Inr m)"
  by (cases x) auto

lemma marshal_struct_Inr:
  "(\<exists>m. marshal_struct fs = Inr m) \<longleftrightarrow> (\<forall>(k, v) \<in> set fs. \<exists>j. v = Inr j)"
  by (induction fs rule: marshal_struct.induct) (auto split: sum.split)

definition event_renders :: "dsar_codec \<Rightarrow> domain_event \<Rightarrow> bool" where
  "event_renders cd e \<longleftrightarrow> dc_time cd (ev_occurred_at e) \<noteq> None \<and> ev_payload e \<noteq> RawBad \<and> ev_metadata e \<noteq> RawBad"

lemma raw_json_Inr: "(\<exists>j. raw_json r = Inr j) \<longleftrightarrow> r \<noteq> RawBad"
  by (cases r) auto

lemma time_json_Inr: "(\<exists>j. time_json cd t = Inr j) \<longleftrightarrow> dc_time cd t \<noteq> None"
  by (auto simp: time_json_def split: option.split)

lemma marshal_event_Inr: "(\<exists>j. marshal_event_doc cd (dsar_event e) = Inr j) \<longleftrightarrow> event_renders cd e"
  unfolding marshal_event_doc_def map_sum_Inr marshal_struct_Inr
  using raw_json_Inr [of "ev_payload e"] raw_json_Inr [of "ev_metadata e"] time_json_Inr [of cd "ev_occurred_at e"]
  by (auto simp: dsar_event_def event_renders_def split: option.split)

lemma marshal_aggregate_Inr:
  "(\<exists>j. marshal_aggregate_doc cd \<lparr>dg_tenant_id = t, dg_aggregate_id = i, dg_events = map dsar_event es\<rparr> = Inr j)
     \<longleftrightarrow> (\<forall>e \<in> set es. event_renders cd e)"
  unfolding marshal_aggregate_doc_def map_sum_Inr marshal_struct_Inr
  by (simp add: marshal_slice_Inr marshal_event_Inr)

lemma marshal_response_Inr:
  "(\<exists>j. marshal_response_doc cd (dsar_response now x) = Inr j) \<longleftrightarrow>
     dc_time cd now \<noteq> None \<and> (\<forall>h \<in> set (se_aggregates x). \<forall>e \<in> set (ah_events h). event_renders cd e)"
  unfolding marshal_response_doc_def map_sum_Inr marshal_struct_Inr
  by (simp add: marshal_slice_Inr marshal_aggregate_Inr time_json_Inr dsar_response_def)

lemma marshal_response_eq:
  "marshal_response_doc cd (dsar_response t x) = Inr j \<longleftrightarrow>
     (\<exists>a s. marshal_slice (marshal_aggregate_doc cd) (dr_aggregates (dsar_response 0 x)) = Inr a
       \<and> dc_time cd t = Some s
       \<and> j = JObj [''aggregates'' \<mapsto> a, ''generated_at'' \<mapsto> JStr s, ''pii_id'' \<mapsto> JStr (dc_uuid cd (se_pii_id x))])"
  by (auto simp: marshal_response_doc_def dsar_response_def time_json_def split: sum.splits option.splits)

lemma marshal_response_generated_at:
  assumes "marshal_response_doc cd (dsar_response t x) = Inr j"
    and "marshal_response_doc cd (dsar_response u x) = Inr j'"
  shows "\<exists>m s s'. j = JObj m \<and> m ''generated_at'' = Some (JStr s) \<and> dc_time cd t = Some s
    \<and> dc_time cd u = Some s' \<and> j' = JObj (m(''generated_at'' \<mapsto> JStr s'))"
proof -
  from assms obtain a s s' where "dc_time cd t = Some s" "dc_time cd u = Some s'"
    "j = JObj [''aggregates'' \<mapsto> a, ''generated_at'' \<mapsto> JStr s, ''pii_id'' \<mapsto> JStr (dc_uuid cd (se_pii_id x))]"
    "j' = JObj [''aggregates'' \<mapsto> a, ''generated_at'' \<mapsto> JStr s', ''pii_id'' \<mapsto> JStr (dc_uuid cd (se_pii_id x))]"
    unfolding marshal_response_eq by auto
  moreover have "[''aggregates'' \<mapsto> a, ''generated_at'' \<mapsto> y, ''pii_id'' \<mapsto> z]
      = [''aggregates'' \<mapsto> a, ''generated_at'' \<mapsto> y0, ''pii_id'' \<mapsto> z](''generated_at'' \<mapsto> y)" for y y0 z :: json
    by (simp add: fun_eq_iff)
  ultimately show ?thesis
    by (intro exI [of _ "[''aggregates'' \<mapsto> a, ''generated_at'' \<mapsto> JStr s, ''pii_id'' \<mapsto> JStr (dc_uuid cd (se_pii_id x))]"]
        exI [of _ s] exI [of _ s']) simp
qed

text \<open>
  There is a DSAR document for a subject exactly when the lookup finds events of it, every one of
  them has a payload and metadata that are JSON (or absent) and a time that can be written, and so
  does the current time. Otherwise the call fails.
\<close>

lemma export_json_total:
  "(\<exists>j. export_json cd now lookup p opts = Inr j) \<longleftrightarrow>
     (\<exists>es. lookup p opts = Inr es \<and> dc_time cd now \<noteq> None
        \<and> (\<forall>e \<in> set es. dc_time cd (ev_occurred_at e) \<noteq> None
             \<and> ev_payload e \<noteq> RawBad \<and> ev_metadata e \<noteq> RawBad))"
proof (cases "lookup p opts")
  case (Inr es)
  have "(\<forall>h \<in> set (map (history_of es) (first_keys es)). \<forall>e \<in> set (ah_events h). event_renders cd e)
      \<longleftrightarrow> (\<forall>e \<in> set es. event_renders cd e)"
    by (auto simp: set_first_keys history_of_def)
  with marshal_response_Inr [of cd now "\<lparr>se_pii_id = p, se_aggregates = map (history_of es) (first_keys es)\<rparr>"]
  show ?thesis by (simp add: export_json_def export_subject_def export_loop_eq Inr event_renders_def)
qed (simp add: export_json_def export_subject_def)

text \<open>
  The document of one log state is not the same at two times: it carries the time it was generated,
  and differs in that member, and in that member only, whenever the two times print differently.
  (The comments promise the same bytes.)
\<close>

lemma export_json_time_dependent:
  assumes "export_json cd t lookup p opts = Inr j" "export_json cd u lookup p opts = Inr j'"
    and "dc_time cd t \<noteq> dc_time cd u"
  shows "j \<noteq> j' \<and> (\<exists>m s. j = JObj m \<and> j' = JObj (m(''generated_at'' \<mapsto> JStr s)))"
proof -
  from assms(1,2) obtain x where "marshal_response_doc cd (dsar_response t x) = Inr j"
    "marshal_response_doc cd (dsar_response u x) = Inr j'"
    by (auto simp: export_json_def split: sum.splits)
  from marshal_response_generated_at [OF this] obtain m s s' where m: "j = JObj m"
    "m ''generated_at'' = Some (JStr s)" "j' = JObj (m(''generated_at'' \<mapsto> JStr s'))" "s \<noteq> s'"
    using assms(3) by auto
  then have "m \<noteq> m(''generated_at'' \<mapsto> JStr s')" by (metis fun_upd_same json.inject(4) option.inject)
  with m show ?thesis by auto
qed

definition sample_codec :: dsar_codec where
  "sample_codec = \<lparr>dc_uuid = (\<lambda>u. replicate (unat u) CHR ''0''),
     dc_time = (\<lambda>t. Some (replicate (nat t) CHR ''0''))\<rparr>"

theorem export_json_time_dependent_witness:
  "\<exists>j j'. export_json sample_codec 1 (\<lambda>p opts. Inr [sample_event 0 7 1]) 3 [] = Inr j
    \<and> export_json sample_codec 2 (\<lambda>p opts. Inr [sample_event 0 7 1]) 3 [] = Inr j' \<and> j \<noteq> j'"
proof -
  let ?lookup = "\<lambda>(p :: uuid) (opts :: store_option list). Inr [sample_event 0 7 1]"
  have ok: "dc_time sample_codec t \<noteq> None" "event_renders sample_codec (sample_event 0 7 1)" for t
    by (simp_all add: sample_codec_def event_renders_def sample_event_def zero_event_def)
  have "\<exists>j. export_json sample_codec t ?lookup 3 [] = Inr j" for t
    using ok marshal_response_Inr [of sample_codec t
        "\<lparr>se_pii_id = 3, se_aggregates = map (history_of [sample_event 0 7 1]) (first_keys [sample_event 0 7 1])\<rparr>"]
    by (simp add: export_json_def export_subject_def export_loop_eq first_keys_def history_of_def)
  then obtain j j' where "export_json sample_codec 1 ?lookup 3 [] = Inr j"
    "export_json sample_codec 2 ?lookup 3 [] = Inr j'" by blast
  moreover from export_json_time_dependent [OF this] have "j \<noteq> j'"
    by (simp add: sample_codec_def numeral_2_eq_2)
  ultimately show ?thesis by blast
qed

end
