(* ===== verification/User_App.thy ===== *)
theory User_App
  imports User_Domain Mem_Reads
begin

text \<open>
  The application layer of the user example, \<^verbatim>\<open>examples/user/app\<close>: the use cases over a repository.
\<close>

section \<open>Use cases\<close>

record user_view =
  uv_id :: uuid
  uv_email :: string
  uv_name :: string
  uv_version :: u64

definition to_view :: "user \<Rightarrow> user_view" where
  "to_view u = \<lparr>uv_id = agg_id u, uv_email = u_email u, uv_name = u_name u, uv_version = agg_version u\<rparr>"

record register_user_command =
  ru_tenant_id :: uuid
  ru_user_id :: uuid
  ru_email :: string
  ru_name :: string
  ru_actor :: user_actor

record change_email_command =
  ce_tenant_id :: uuid
  ce_user_id :: uuid
  ce_email :: string
  ce_actor :: user_actor

record change_name_command =
  cn_tenant_id :: uuid
  cn_user_id :: uuid
  cn_name :: string

record forget_user_command =
  fu_tenant_id :: uuid
  fu_user_id :: uuid
  fu_actor :: user_actor

abbreviation load_user :: "'s event_store_ops \<Rightarrow> uuid \<Rightarrow> store_option list \<Rightarrow> 's \<Rightarrow> error + user" where
  "load_user st i opts s \<equiv> repo_load st user_ops user_apply user_events new_user i opts s"

text \<open>The part every use case ends with: call the aggregate, save it.\<close>

definition save_command :: "'s event_store_ops \<Rightarrow> store_option list \<Rightarrow> error option \<times> user \<Rightarrow> 's \<Rightarrow> (error + user) \<times> 's" where
  "save_command st opts cmd s =
     (case cmd of
        (Some err, u) \<Rightarrow> (Inl err, s)
      | (None, u) \<Rightarrow>
          (case repo_save st u opts s of
             (Some err, u', s') \<Rightarrow> (Inl err, s')
           | (None, u', s') \<Rightarrow> (Inr u', s')))"

definition register_user :: "'s event_store_ops \<Rightarrow> uuid \<Rightarrow> time \<Rightarrow> register_user_command \<Rightarrow> 's \<Rightarrow>
    (error + user_view) \<times> 's" where
  "register_user st new_id now cmd s =
     (let opts = [WithTenant (ru_tenant_id cmd)]
      in case (case load_user st (ru_user_id cmd) opts s of
                 Inr u \<Rightarrow> Inr u
               | Inl err \<Rightarrow>
                   if errors_is err ErrAggregateNotFound then Inr (set_id (ru_user_id cmd) new_user)
                   else Inl err) of
           Inl err \<Rightarrow> (Inl err, s)
         | Inr u \<Rightarrow>
             apfst (map_sum id to_view)
               (save_command st opts (user_register new_id now (ru_email cmd) (ru_name cmd) (ru_actor cmd) u) s))"

definition change_email :: "'s event_store_ops \<Rightarrow> uuid \<Rightarrow> time \<Rightarrow> change_email_command \<Rightarrow> 's \<Rightarrow>
    (error + user_view) \<times> 's" where
  "change_email st new_id now cmd s =
     (let opts = [WithTenant (ce_tenant_id cmd)]
      in case load_user st (ce_user_id cmd) opts s of
           Inl err \<Rightarrow> (Inl err, s)
         | Inr u \<Rightarrow>
             apfst (map_sum id to_view)
               (save_command st opts (user_change_email new_id now (ce_email cmd) (ce_actor cmd) u) s))"

definition change_name :: "'s event_store_ops \<Rightarrow> uuid \<Rightarrow> time \<Rightarrow> change_name_command \<Rightarrow> 's \<Rightarrow>
    (error + user_view) \<times> 's" where
  "change_name st new_id now cmd s =
     (let opts = [WithTenant (cn_tenant_id cmd)]
      in case load_user st (cn_user_id cmd) opts s of
           Inl err \<Rightarrow> (Inl err, s)
         | Inr u \<Rightarrow>
             apfst (map_sum id to_view)
               (save_command st opts (user_change_name new_id now (cn_name cmd) u) s))"

definition forget_user :: "'s event_store_ops \<Rightarrow> uuid \<Rightarrow> time \<Rightarrow> forget_user_command \<Rightarrow> 's \<Rightarrow> error option \<times> 's" where
  "forget_user st new_id now cmd s =
     (let opts = [WithTenant (fu_tenant_id cmd)]
      in case load_user st (fu_user_id cmd) opts s of
           Inl err \<Rightarrow> (Some err, s)
         | Inr u \<Rightarrow>
             (case save_command st opts (user_request_erasure new_id now (fu_actor cmd) u) s of
                (Inl err, s') \<Rightarrow> (Some err, s')
              | (Inr u', s') \<Rightarrow> (None, s')))"

section \<open>A use case in one statement\<close>

text \<open>
  A command either refuses, or records one event on the aggregate. \<open>recorded u cmd\<close> says so of the
  result \<open>cmd\<close> of a command on \<open>u\<close>.
\<close>

definition recorded :: "user \<Rightarrow> error option \<times> user \<Rightarrow> bool" where
  "recorded u cmd \<longleftrightarrow> (\<exists>err. cmd = (Some err, u)) \<or>
     (\<exists>new_id now p opts u'. cmd = (None, u') \<and> user_record new_id now p opts u = (None, u'))"

lemma recorded_record: "recorded u (user_record new_id now p opts u)"
proof (cases "user_apply p u")
  case (Pair r b)
  show ?thesis
  proof (cases r)
    case None
    with Pair have "user_apply p u = (None, b)" by simp
    then obtain u' where "user_record new_id now p opts u = (None, u')"
      by (rule user.record_that_accepted)
    then show ?thesis unfolding recorded_def by blast
  next
    case (Some err)
    with Pair user.record_that_refused [of p u err b new_id now opts] show ?thesis
      by (auto simp: recorded_def)
  qed
qed

lemma commands_recorded:
  "recorded u (user_register new_id now email name actor u)"
  "recorded u (user_change_email new_id now email actor u)"
  "recorded u (user_change_name new_id now name u)"
  "recorded u (user_request_erasure new_id now actor u)"
  using recorded_record
  by (auto simp: user_register_def user_change_email_def user_change_name_def user_request_erasure_def)
    (auto simp: recorded_def)

abbreviation user_sourced :: "domain_event list \<Rightarrow> user \<Rightarrow> bool" where
  "user_sourced \<equiv> sourced user_ops user_apply user_events new_user"

lemma save_command_mem:
  assumes "mem_inv s" "user_sourced (mem_stream opts s (agg_id u)) u" "agg_uncommitted u = []"
    and "recorded u cmd" "save_command mem_ops opts cmd s = (r, s')"
  shows "case r of
      Inl err \<Rightarrow> s' = s \<and> cmd = (Some err, u)
    | Inr u' \<Rightarrow> mem_inv s' \<and> load_user mem_ops (agg_id u) opts s' = Inr u' \<and> agg_id u' = agg_id u
        \<and> user_sourced (mem_stream opts s' (agg_id u)) u' \<and> agg_uncommitted u' = []
        \<and> length (mem_stream opts s' (agg_id u)) = Suc (length (mem_stream opts s (agg_id u)))"
proof (cases "\<exists>err. cmd = (Some err, u)")
  case True
  with assms(5) show ?thesis by (auto simp: save_command_def)
next
  case False
  with assms(4) obtain new_id now p o' u1 where cmd: "cmd = (None, u1)"
    and rec: "user_record new_id now p o' u = (None, u1)" by (auto simp: recorded_def)
  note src = user.sourced_record_that [OF assms(2) rec]
  obtain e where e: "agg_uncommitted u1 = [e]" "agg_version u1 = agg_version u + 1" "agg_id u1 = agg_id u"
    "ev_aggregate_id e = agg_id u" "ev_tenant_id e = uuid_nil"
    by (rule user.record_that_ok [OF rec]) (simp add: assms(3))
  have ne: "agg_uncommitted u1 \<noteq> []" using e(1) by simp
  have fb: "fresh_batch (agg_id u1) (agg_uncommitted u1)" using e by (simp add: fresh_batch_def)
  from assms(2,3) have "versions_from 0 (mem_stream opts s (agg_id u))"
    "agg_version u = of_nat (length (mem_stream opts s (agg_id u)))" by (simp_all add: sourced_def)
  then have v: "current_version (mem_stream opts s (agg_id u)) = agg_version u"
    using current_version_from [of 0 "mem_stream opts s (agg_id u)"]
    by (cases "mem_stream opts s (agg_id u) = []") (simp_all add: current_version_def)
  have "commit_key opts [e] = scope_key opts (agg_id u)"
    using fresh_batch_key [OF fb, of opts] e by simp
  then obtain es1 s1 where c: "mem_commit [e] (agg_version u) opts s = (None, es1, s1)"
    using v by (simp add: mem_commit_eq Let_def)
  have len: "length (mem_stream opts s1 (agg_id u)) = Suc (length (mem_stream opts s (agg_id u)))"
    using mem_commit_fresh_ok [OF fb ne, of "agg_version u" opts s es1 s1] c e(1,3)
    by (auto dest!: map_eq_imp_length_eq)
  from c have save: "repo_save mem_ops u1 opts s = (None, clear_events u1, s1)"
    using e(1,2) by (simp add: repo_save_def)
  have src': "user_sourced (mem_stream opts s (agg_id u1)) u1" using src e(3) by simp
  from user_repo.save_then_load [OF assms(1) src' fb ne save]
  have "mem_inv s1" "load_user mem_ops (agg_id u) opts s1 = Inr (clear_events u1)"
    "user_sourced (mem_stream opts s1 (agg_id u)) (clear_events u1)" using e(3) by simp_all
  moreover have "r = Inr (clear_events u1)" "s' = s1"
    using assms(5) save by (simp_all add: save_command_def cmd)
  ultimately show ?thesis using e(3) len by (simp add: clear_events_def)
qed

lemma load_user_mem:
  assumes "mem_inv s" "versions_from 0 (mem_stream opts s i)" "load_user mem_ops i opts s = Inr u"
    and "mem_stream opts s i = [] \<longrightarrow> ms_by_aggregate s (global_tenant_id, i) = []"
  shows "user_sourced (mem_stream opts s i) u \<and> agg_id u = i \<and> agg_uncommitted u = []"
proof -
  have "mem_stream opts s i \<noteq> []"
  proof
    assume "mem_stream opts s i = []"
    with assms(4) have "mem_load i opts s = Inl ErrAggregateNotFound"
      by (simp add: mem_load_def scope_key_def Let_def split: option.splits)
    with assms(3) show False by (simp add: repo_load_def)
  qed
  then show ?thesis by (intro user_repo.load_sourced [OF assms(1) _ assms(2) _ assms(3)]) simp_all
qed

text \<open>No replay error of a user passes for "not found".\<close>

lemma user_unmarshal_error: "user_unmarshal r z = (Some err, x) \<Longrightarrow> err = ErrJson"
proof -
  have str: "unmarshal_string j old = Inl e \<Longrightarrow> e = ErrJson" for j old e
    by (cases j) auto
  assume "user_unmarshal r z = (Some err, x)"
  then show ?thesis
    by (cases "(r, z)" rule: user_unmarshal.cases; cases z)
      (auto simp: struct_field_def Let_def dest: str split: option.splits sum.splits)
qed

lemma user_replay_error:
  "load_from_history user_ops user_apply user_events es u = (Some err, u') \<Longrightarrow>
   \<not> errors_is err ErrAggregateNotFound"
proof (induction es arbitrary: u)
  case (Cons e es)
  have ap: "user_apply p a = (Some x, b) \<Longrightarrow> \<not> errors_is x ErrAggregateNotFound" for p a x b
    by (cases p) (auto simp: err_already_registered_def err_not_registered_def split: if_splits)
  from Cons show ?case
    by (auto dest!: user_unmarshal_error ap split: option.splits prod.splits)
qed simp

definition use_case_ok :: "uuid \<Rightarrow> store_option list \<Rightarrow> mem_store \<Rightarrow> error + user_view \<Rightarrow> mem_store \<Rightarrow> bool" where
  "use_case_ok i opts s r s' \<longleftrightarrow>
     (case r of
        Inl err \<Rightarrow> s' = s
      | Inr view \<Rightarrow> (\<exists>u. load_user mem_ops i opts s' = Inr u \<and> to_view u = view) \<and> uv_id view = i
          \<and> mem_inv s' \<and> versions_from 0 (mem_stream opts s' i)
          \<and> length (mem_stream opts s' i) = Suc (length (mem_stream opts s i)))"

lemma use_case_tail:
  assumes "mem_inv s" "user_sourced (mem_stream opts s i) u" "agg_id u = i" "agg_uncommitted u = []"
    and "recorded u cmd" "(r, s') = apfst (map_sum id to_view) (save_command mem_ops opts cmd s)"
  shows "use_case_ok i opts s r s'"
proof -
  obtain r0 where sc: "save_command mem_ops opts cmd s = (r0, s')" and r: "r = map_sum id to_view r0"
    using assms(6) by (cases "save_command mem_ops opts cmd s") auto
  have src: "user_sourced (mem_stream opts s (agg_id u)) u" using assms(2,3) by simp
  from save_command_mem [OF assms(1) src assms(4,5) sc] assms(3) show ?thesis
    by (cases r0) (auto simp: use_case_ok_def r to_view_def sourced_def)
qed

lemma use_cases_ok:
  assumes "mem_inv s" "versions_from 0 (mem_stream [WithTenant t] s i)"
    and "ms_by_aggregate s (global_tenant_id, i) = []"
    and "(r, s') \<in> {register_user mem_ops new_id now \<lparr>ru_tenant_id = t, ru_user_id = i, ru_email = email, ru_name = name, ru_actor = actor\<rparr> s,
        change_email mem_ops new_id now \<lparr>ce_tenant_id = t, ce_user_id = i, ce_email = email, ce_actor = actor\<rparr> s,
        change_name mem_ops new_id now \<lparr>cn_tenant_id = t, cn_user_id = i, cn_name = name\<rparr> s}"
  shows "use_case_ok i [WithTenant t] s r s'"
proof -
  let ?opts = "[WithTenant t]"
  note loaded = load_user_mem [OF assms(1,2)]
  have refused: "use_case_ok i ?opts s (Inl err) s" for err by (simp add: use_case_ok_def)
  have tail: "use_case_ok i ?opts s r s'"
    if "load_user mem_ops i ?opts s = Inr u" "recorded u cmd"
      "(r, s') = apfst (map_sum id to_view) (save_command mem_ops ?opts cmd s)" for u cmd
    using loaded [OF that(1)] assms(3) that(2,3) by (intro use_case_tail [OF assms(1)]) auto
  have register: "use_case_ok i ?opts s r s'"
    if reg: "(r, s') = register_user mem_ops new_id now
      \<lparr>ru_tenant_id = t, ru_user_id = i, ru_email = email, ru_name = name, ru_actor = actor\<rparr> s"
  proof (cases "load_user mem_ops i ?opts s")
    case (Inr u)
    with reg show ?thesis by (intro tail [OF Inr commands_recorded(1)]) (simp add: register_user_def)
  next
    case (Inl err)
    show ?thesis
    proof (cases "errors_is err ErrAggregateNotFound")
      case False
      with Inl reg refused show ?thesis by (simp add: register_user_def)
    next
      case True
      have "mem_stream ?opts s i = []"
      proof (rule ccontr)
        assume ne: "mem_stream ?opts s i \<noteq> []"
        then obtain b where "load_from_history user_ops user_apply user_events (mem_stream ?opts s i)
            (set_id i new_user) = (Some err, b)"
          using Inl mem.load_stream [OF assms(1), of ?opts i]
          by (auto simp: repo_load_def split: prod.splits option.splits)
        with user_replay_error True show False by blast
      qed
      then have "user_sourced (mem_stream ?opts s i) (set_id i new_user)"
        using user.sourced_fresh [of new_user i] by simp
      then show ?thesis
        using Inl True reg
        by (intro use_case_tail [OF assms(1), where u = "set_id i new_user"])
          (simp_all add: register_user_def set_id_def commands_recorded)
    qed
  qed
  have "use_case_ok i ?opts s r s'"
    if "(r, s') = change_email mem_ops new_id now
      \<lparr>ce_tenant_id = t, ce_user_id = i, ce_email = email, ce_actor = actor\<rparr> s"
  proof (cases "load_user mem_ops i ?opts s")
    case (Inr u)
    with that show ?thesis by (intro tail [OF Inr commands_recorded(2)]) (simp add: change_email_def)
  qed (use that refused in \<open>simp add: change_email_def\<close>)
  moreover have "use_case_ok i ?opts s r s'"
    if "(r, s') = change_name mem_ops new_id now \<lparr>cn_tenant_id = t, cn_user_id = i, cn_name = name\<rparr> s"
  proof (cases "load_user mem_ops i ?opts s")
    case (Inr u)
    with that show ?thesis by (intro tail [OF Inr commands_recorded(3)]) (simp add: change_name_def)
  qed (use that refused in \<open>simp add: change_name_def\<close>)
  ultimately show ?thesis using assms(4) register by blast
qed

text \<open>
  The use cases read their own writes: a use case that returns a view has stored exactly one more
  event in the user's stream, and the view is that of the user a later \<^verbatim>\<open>Load\<close> under the same tenant
  replays; a use case that fails leaves the store as it was. (A stream of the same user id under the
  global tenant is excluded: it would be loaded instead and could not be saved.)
\<close>

lemma use_cases_read_their_writes:
  assumes "mem_inv s" "versions_from 0 (mem_stream [WithTenant t] s i)"
    and "ms_by_aggregate s (global_tenant_id, i) = []"
    and "(r, s') \<in> {register_user mem_ops new_id now \<lparr>ru_tenant_id = t, ru_user_id = i, ru_email = email, ru_name = name, ru_actor = actor\<rparr> s,
        change_email mem_ops new_id now \<lparr>ce_tenant_id = t, ce_user_id = i, ce_email = email, ce_actor = actor\<rparr> s,
        change_name mem_ops new_id now \<lparr>cn_tenant_id = t, cn_user_id = i, cn_name = name\<rparr> s}"
  shows "use_case_ok i [WithTenant t] s r s'"
  using assms by (rule use_cases_ok)

theorem use_cases_read_their_writes_witness:
  "\<exists>r s'. register_user mem_ops 9 0 \<lparr>ru_tenant_id = 5, ru_user_id = 7, ru_email = ''a@b'', ru_name = ''Ann'',
      ru_actor = \<lparr>ua_id = 1, ua_type = []\<rparr>\<rparr> mem_new = (r, s')
    \<and> use_case_ok 7 [WithTenant 5] mem_new r s'"
proof -
  obtain r s' where r: "register_user mem_ops 9 0 \<lparr>ru_tenant_id = 5, ru_user_id = 7, ru_email = ''a@b'', ru_name = ''Ann'',
      ru_actor = \<lparr>ua_id = 1, ua_type = []\<rparr>\<rparr> mem_new = (r, s')" by force
  have "use_case_ok 7 [WithTenant 5] mem_new r s'"
    by (rule use_cases_read_their_writes [OF mem_inv_new, of 5 7 r s' 9 0 "''a@b''" "''Ann''" "\<lparr>ua_id = 1, ua_type = []\<rparr>"])
      (simp_all add: r, simp_all add: mem_new_def)
  with r show ?thesis by blast
qed

end
