(* ===== verification/Read_Worker.thy ===== *)
theory Read_Worker
  imports Es_Notifier Es_Aggregate
begin

text \<open>
  The read side of the examples, in general: a worker that dispatches every event of a stream to a
  projector and to the notifier subscribed after it. The locale \<open>read_model\<close> states what a projector has
  to satisfy against its aggregate, and concludes that the view a worker builds from the log is the
  view of the replayed aggregate, and that whoever waits for that version is woken.
\<close>

section \<open>Workers\<close>

text \<open>A listener of one read model in a world that holds more.\<close>

definition on_fst :: "'v event_listener \<Rightarrow> ('v \<times> 'x) event_listener" where
  "on_fst l = \<lparr>el_kind = el_kind l,
     el_handle = (\<lambda>e (v, x). let (r, v') = el_handle l e v in (r, v', x))\<rparr>"

definition on_snd :: "'v event_listener \<Rightarrow> ('x \<times> 'v) event_listener" where
  "on_snd l = \<lparr>el_kind = el_kind l,
     el_handle = (\<lambda>e (x, v). let (r, v') = el_handle l e v in (r, x, v'))\<rparr>"

lemma el_kind_lifted [simp]: "el_kind (on_fst l) = el_kind l" "el_kind (on_snd l) = el_kind l"
  by (simp_all add: on_fst_def on_snd_def)

text \<open>The loop \<^verbatim>\<open>for e := range out\<close> over a dispatcher: an error of \<^verbatim>\<open>Dispatch\<close> is printed and passed over.\<close>

fun dispatch_all :: "'w dispatcher \<Rightarrow> domain_event list \<Rightarrow> 'w \<Rightarrow> 'w" where
  "dispatch_all d [] w = w"
| "dispatch_all d (e # es) w = (case dispatch d e w of (r, started, w') \<Rightarrow> dispatch_all d es w')"

lemma dispatch_all_append: "dispatch_all d (es @ fs) w = dispatch_all d fs (dispatch_all d es w)"
  by (induction d es w rule: dispatch_all.induct) (simp_all split: prod.split)

text \<open>A dispatcher whose projectors are one read model's, on a pattern, and the notifier's after it.\<close>

definition wired :: "string \<Rightarrow> 'v event_handler \<Rightarrow> ('v \<times> notifier) dispatcher \<Rightarrow> bool" where
  "wired pat proj d \<longleftrightarrow> (\<forall>e. projectors (get_listeners (dp_provider d) e) =
     (if pattern_matches pat (ev_name e) then [on_fst (new_projector proj)] else []) @ [notifier_listener])"

definition notified :: "domain_event \<Rightarrow> notifier \<Rightarrow> notifier \<Rightarrow> bool" where
  "notified e n n' \<longleftrightarrow> notifier_inv n' \<and> (\<forall>i. nt_last_projected n' i =
     (if i = ev_aggregate_id e then max (nt_last_projected n i) (ev_aggregate_version e)
      else nt_last_projected n i))"

lemma dispatch_wired:
  assumes "wired pat proj d" "notifier_inv n" "dispatch d e (v, n) = (r, started, v', n')"
  shows "if pattern_matches pat (ev_name e)
    then v' = snd (proj e v) \<and> (if fst (proj e v) = None then notified e n n' else n' = n)
    else v' = v \<and> notified e n n'"
proof -
  obtain n1 where nt: "notifier_notify e n = Inr n1" and "notified e n n1"
    using notifier_notify_eq [OF assms(2), of e] notifier_inv_notify [OF assms(2)]
    by (auto simp: notified_def)
  moreover have "run_projectors e (projectors (get_listeners (dp_provider d) e)) (v, n) = (r, v', n')"
    using assms(3) unfolding dispatch_eq by (simp add: Let_def split: prod.splits)
  ultimately show ?thesis
    using assms(1)
    by (auto simp: wired_def nt notifier_listener_def on_fst_def new_projector_def
        split: prod.splits option.splits if_splits)
qed

section \<open>Read models\<close>

lemma replay_version:
  assumes "load_from_history ops appl reg es a = (None, b)" "es \<noteq> []"
  shows "agg_version b = ev_aggregate_version (last es)"
proof -
  obtain fs e where es: "es = fs @ [e]" using assms(2) by (metis append_butlast_last_id)
  from assms(1) show ?thesis
    unfolding es load_from_history_append by (auto simp: set_version_def split: option.splits prod.splits)
qed

text \<open>
  \<open>agree es a v\<close> is what the view \<open>v\<close> of an aggregate should be when its events are \<open>es\<close> and replaying
  them gives \<open>a\<close>.
\<close>

locale read_model =
  fixes ops :: "'p payload_ops" and apply_event :: "('p, 'a) applier" and reg :: "'p registry"
    and zero :: "'a base_aggregate_scheme"
    and pat :: string and proj :: "'v event_handler" and view :: "'v \<Rightarrow> uuid \<Rightarrow> 'w option"
    and agree :: "domain_event list \<Rightarrow> 'a base_aggregate_scheme \<Rightarrow> 'w option \<Rightarrow> bool"
  assumes others: "i \<noteq> ev_aggregate_id e \<Longrightarrow> view (snd (proj e v)) i = view v i"
    and agree_new: "agree [] (set_id i zero) None"
    and in_pattern: "load_from_history ops apply_event reg [e] a = (None, b) \<Longrightarrow> pattern_matches pat (ev_name e)"
    and agree_step: "agree es a (view v (ev_aggregate_id e)) \<Longrightarrow> agg_id a = ev_aggregate_id e \<Longrightarrow>
      load_from_history ops apply_event reg [e] a = (None, b) \<Longrightarrow>
      fst (proj e v) = None \<and> agg_id b = agg_id a
      \<and> agree (es @ [e]) b (view (snd (proj e v)) (ev_aggregate_id e))"
begin

lemma caught_up:
  assumes wired: "wired pat proj d" and "notifier_inv n0" "view v0 i = None"
    and "load_from_history ops apply_event reg (filter (\<lambda>e. ev_aggregate_id e = i) es) (set_id i zero) = (None, a)"
    and "dispatch_all d es (v0, n0) = (v, n)"
  shows "agree (filter (\<lambda>e. ev_aggregate_id e = i) es) a (view v i) \<and> agg_id a = i \<and> notifier_inv n
    \<and> (\<forall>e \<in> set es. ev_aggregate_id e = i \<longrightarrow> ev_aggregate_version e \<le> nt_last_projected n i)"
  using assms(4,5)
proof (induction es arbitrary: a v n rule: rev_induct)
  case Nil
  then show ?case using assms(2,3) agree_new [of i] by (auto simp: set_id_def)
next
  case (snoc e es)
  obtain v1 n1 where one: "dispatch_all d es (v0, n0) = (v1, n1)" by force
  obtain r started where two: "dispatch d e (v1, n1) = (r, started, v, n)"
    using snoc.prems(2) by (auto simp: dispatch_all_append one split: prod.splits)
  let ?mine = "filter (\<lambda>e. ev_aggregate_id e = i) es"
  obtain r1 a1 where a1: "load_from_history ops apply_event reg ?mine (set_id i zero) = (r1, a1)" by force
  show ?case
  proof (cases "ev_aggregate_id e = i")
    case False
    with snoc.prems(1) have "load_from_history ops apply_event reg ?mine (set_id i zero) = (None, a)" by simp
    note ih = snoc.IH [OF this one]
    then have "notifier_inv n1" by blast
    from dispatch_wired [OF wired this two] others [of i e v1] False ih show ?thesis
      by (auto simp: notified_def split: if_splits)
  next
    case True
    with snoc.prems(1) a1 have "r1 = None"
      and step: "load_from_history ops apply_event reg [e] a1 = (None, a)"
      by (auto simp: load_from_history_append split: option.splits prod.splits)
    note ih = snoc.IH [OF a1 [unfolded this] one]
    then have inv: "notifier_inv n1" by blast
    from agree_step [of ?mine a1 v1 e a] ih step True
    have "fst (proj e v1) = None" "agg_id a = i"
      "agree (?mine @ [e]) a (view (snd (proj e v1)) i)" by auto
    with dispatch_wired [OF wired inv two] in_pattern [OF step] True ih show ?thesis
      by (auto simp: notified_def le_max_iff_disj)
  qed
qed

text \<open>
  What the code that follows a write relies on: when the worker has seen the log, the view is the
  aggregate's, and a subscription to any version of its events is woken at once.
\<close>

lemma caught_up_subscribe:
  assumes "wired pat proj d" "view v0 i = None"
    and "load_from_history ops apply_event reg (filter (\<lambda>e. ev_aggregate_id e = i) es) (set_id i zero) = (None, a)"
    and "dispatch_all d es (v0, new_notifier) = (v, n)"
    and "e \<in> set es" "ev_aggregate_id e = i" "u \<le> ev_aggregate_version e"
    and "notifier_subscribe i u n = (ch, n')"
  shows "agree (filter (\<lambda>e. ev_aggregate_id e = i) es) a (view v i) \<and> ch \<in> nt_closed n'"
proof -
  from caught_up [OF assms(1) notifier_inv_new assms(2-4)] assms(5-7)
  have "agree (filter (\<lambda>e. ev_aggregate_id e = i) es) a (view v i)" "u \<le> nt_last_projected n i"
    by (auto intro: order_trans)
  with assms(8) show ?thesis by (auto simp: notifier_subscribe_def Let_def)
qed

end

end
