(* ===== verification/User_Read_Model.thy ===== *)
theory User_Read_Model
  imports User_App Read_Worker
begin

text \<open>
  The adapters of the user example and their wiring in \<^verbatim>\<open>examples/user/main.go\<close>: the read model with its
  projector, the welcome mails, the dispatcher the worker runs. The contract \<open>read_model\<close> holds for the
  projector, so that the view of a user in a caught-up read model is the replayed user.
\<close>

section \<open>The read model\<close>

type_synonym user_views = "uuid \<rightharpoonup> user_view"

definition views_new :: user_views where
  "views_new = Map.empty"

definition views_upsert :: "user_view \<Rightarrow> user_views \<Rightarrow> user_views" where
  "views_upsert v m = m(uv_id v \<mapsto> v)"

definition zero_view :: user_view where
  "zero_view = \<lparr>uv_id = 0, uv_email = [], uv_name = [], uv_version = 0\<rparr>"

definition erased_text :: string where
  "erased_text = ''[erased]''"

text \<open>\<^verbatim>\<open>UserProjector.Handle\<close>. A payload that does not decode leaves the model as it was.\<close>

definition user_project :: "domain_event \<Rightarrow> user_views \<Rightarrow> error option \<times> user_views" where
  "user_project e m =
     (let v0 = (case m (ev_aggregate_id e) of None \<Rightarrow> zero_view | Some v \<Rightarrow> v);
          v = v0\<lparr>uv_id := ev_aggregate_id e, uv_version := ev_aggregate_version e\<rparr>
      in if ev_name e = user_registered
         then (case user_unmarshal (ev_payload e) (UserRegisteredEvent [] []) of
                 (None, UserRegisteredEvent em n) \<Rightarrow>
                   (None, views_upsert (v\<lparr>uv_email := (if ev_pii_unrecoverable e then erased_text else em), uv_name := n\<rparr>) m)
               | (Some err, _) \<Rightarrow> (Some err, m)
               | _ \<Rightarrow> (None, m))
         else if ev_name e = user_email_changed
         then (case user_unmarshal (ev_payload e) (UserEmailChangedEvent []) of
                 (None, UserEmailChangedEvent em) \<Rightarrow>
                   (None, views_upsert (v\<lparr>uv_email := (if ev_pii_unrecoverable e then erased_text else em)\<rparr>) m)
               | (Some err, _) \<Rightarrow> (Some err, m)
               | _ \<Rightarrow> (None, m))
         else if ev_name e = user_name_changed
         then (case user_unmarshal (ev_payload e) (UserNameChangedEvent []) of
                 (None, UserNameChangedEvent n) \<Rightarrow> (None, views_upsert (v\<lparr>uv_name := n\<rparr>) m)
               | (Some err, _) \<Rightarrow> (Some err, m)
               | _ \<Rightarrow> (None, m))
         else if ev_name e = user_erasure_request then (None, views_upsert v m)
         else (Some (ErrText ''readmodel: unknown event''), m))"

definition user_projector :: "user_views event_listener" where
  "user_projector = new_projector user_project"

text \<open>The welcome mails: the reactor writes the mails it queues to a list.\<close>

definition notify_registered :: "uuid \<Rightarrow> string \<Rightarrow> (uuid \<times> string) list \<Rightarrow> error option \<times> (uuid \<times> string) list" where
  "notify_registered i email sent = (None, sent @ [(i, email)])"

definition welcome_handle :: "domain_event \<Rightarrow> (uuid \<times> string) list \<Rightarrow> error option \<times> (uuid \<times> string) list" where
  "welcome_handle e sent =
     (if ev_name e \<noteq> user_registered then (None, sent)
      else if ev_pii_unrecoverable e then (None, sent)
      else (case user_unmarshal (ev_payload e) (UserRegisteredEvent [] []) of
              (None, UserRegisteredEvent em n) \<Rightarrow> notify_registered (ev_aggregate_id e) em sent
            | (Some err, _) \<Rightarrow> (Some err, sent)
            | _ \<Rightarrow> (None, sent)))"

definition welcome_email_reactor :: "(uuid \<times> string) list event_listener" where
  "welcome_email_reactor = new_reactor welcome_handle"

text \<open>The wiring of \<^verbatim>\<open>main\<close>: the read model, the mails and the notifier are the worker's world.\<close>

type_synonym mails = "(uuid \<times> string) list"

definition user_dispatcher :: "((user_views \<times> mails) \<times> notifier) dispatcher" where
  "user_dispatcher =
     subscribe_listener ''*'' notifier_listener
       (subscribe_listener user_registered (on_fst (on_snd welcome_email_reactor))
         (subscribe_listener all_user_events (on_fst (on_fst user_projector)) new_dispatcher))"

section \<open>The contract of a read model holds\<close>

text \<open>The email in a view is replaced when the last event that set it could not be opened.\<close>

definition email_erased :: "domain_event list \<Rightarrow> bool" where
  "email_erased es =
     (let xs = filter (\<lambda>e. ev_name e = user_registered \<or> ev_name e = user_email_changed) es
      in xs \<noteq> [] \<and> ev_pii_unrecoverable (last xs))"

definition shown_view :: "domain_event list \<Rightarrow> user \<Rightarrow> user_view" where
  "shown_view es u =
     (if email_erased es then (to_view u)\<lparr>uv_email := erased_text\<rparr> else to_view u)"

definition user_agree :: "domain_event list \<Rightarrow> user \<Rightarrow> user_view option \<Rightarrow> bool" where
  "user_agree es u vo \<longleftrightarrow>
     (if es = [] then vo = None \<and> \<not> u_registered u else vo = Some (shown_view es u))"

lemma email_erased_snoc [simp]:
  "email_erased (es @ [e]) =
     (if ev_name e = user_registered \<or> ev_name e = user_email_changed then ev_pii_unrecoverable e
      else email_erased es)"
  by (simp add: email_erased_def Let_def)

lemma user_unmarshal_shape:
  "user_unmarshal r (UserRegisteredEvent a b) = (x, p) \<Longrightarrow> \<exists>c d. p = UserRegisteredEvent c d"
  "user_unmarshal r (UserEmailChangedEvent a) = (x, p) \<Longrightarrow> \<exists>c. p = UserEmailChangedEvent c"
  "user_unmarshal r (UserNameChangedEvent a) = (x, p) \<Longrightarrow> \<exists>c. p = UserNameChangedEvent c"
  "user_unmarshal r UserErasureRequestedEvent = (x, p) \<Longrightarrow> p = UserErasureRequestedEvent"
  by (cases r; auto split: json.splits prod.splits elim!: user_unmarshal.elims simp: Let_def)+

text \<open>One step of a replay, by the name of the event.\<close>

lemma user_step_cases:
  assumes "load_from_history user_ops user_apply user_events [e] a = (None, b)"
  obtains (registered) em n where "ev_name e = user_registered" "\<not> u_registered a"
      "user_unmarshal (ev_payload e) (UserRegisteredEvent [] []) = (None, UserRegisteredEvent em n)"
      "b = a\<lparr>u_email := em, u_name := n, u_registered := True, agg_version := ev_aggregate_version e\<rparr>"
    | (email) em where "ev_name e = user_email_changed" "u_registered a"
      "user_unmarshal (ev_payload e) (UserEmailChangedEvent []) = (None, UserEmailChangedEvent em)"
      "b = a\<lparr>u_email := em, agg_version := ev_aggregate_version e\<rparr>"
    | (name) n where "ev_name e = user_name_changed" "u_registered a"
      "user_unmarshal (ev_payload e) (UserNameChangedEvent []) = (None, UserNameChangedEvent n)"
      "b = a\<lparr>u_name := n, agg_version := ev_aggregate_version e\<rparr>"
    | (erasure) "ev_name e = user_erasure_request" "u_registered a"
      "b = a\<lparr>agg_version := ev_aggregate_version e\<rparr>"
proof -
  obtain z p where z: "registry_factory user_events (ev_name e) = Some z"
    and p: "user_unmarshal (ev_payload e) z = (None, p)"
    and b: "fst (user_apply p a) = None" "b = set_version (ev_aggregate_version e) (snd (user_apply p a))"
    using assms by (auto split: option.splits prod.splits)
  have ap: "fst (user_apply p a) = None \<and> b = set_version (ev_aggregate_version e) (snd (user_apply p a))"
    using b by simp
  from z consider "ev_name e = user_registered" "z = UserRegisteredEvent [] []"
    | "ev_name e = user_email_changed" "z = UserEmailChangedEvent []"
    | "ev_name e = user_name_changed" "z = UserNameChangedEvent []"
    | "ev_name e = user_erasure_request" "z = UserErasureRequestedEvent"
    by (auto simp: user_events_def registry_factory_register split: if_splits)
  then show thesis
  proof cases
    case 1
    from p obtain c d where "p = UserRegisteredEvent c d" unfolding 1 by (auto dest: user_unmarshal_shape)
    with 1 p ap show thesis by (intro registered) (auto simp: set_version_def split: if_splits)
  next
    case 2
    from p obtain c where "p = UserEmailChangedEvent c" unfolding 2 by (auto dest: user_unmarshal_shape)
    with 2 p ap show thesis by (intro email) (auto simp: set_version_def split: if_splits)
  next
    case 3
    from p obtain c where "p = UserNameChangedEvent c" unfolding 3 by (auto dest: user_unmarshal_shape)
    with 3 p ap show thesis by (intro name) (auto simp: set_version_def split: if_splits)
  next
    case 4
    from p have "p = UserErasureRequestedEvent" unfolding 4 by (auto dest: user_unmarshal_shape)
    with 4 p ap show thesis by (intro erasure) (auto simp: set_version_def split: if_splits)
  qed
qed


lemma user_project_step:
  assumes "user_agree es a (m (ev_aggregate_id e))" "agg_id a = ev_aggregate_id e"
    and "load_from_history user_ops user_apply user_events [e] a = (None, b)"
  shows "fst (user_project e m) = None \<and> agg_id b = agg_id a
    \<and> user_agree (es @ [e]) b (snd (user_project e m) (ev_aggregate_id e))"
  using assms(3)
proof (cases rule: user_step_cases)
  case (registered em n)
  then show ?thesis
    using assms(2) by (simp add: user_project_def user_agree_def shown_view_def views_upsert_def to_view_def)
next
  case (email em)
  then have "m (ev_aggregate_id e) = Some (shown_view es a)"
    using assms(1) by (auto simp: user_agree_def split: if_splits)
  with email assms(2) show ?thesis
    by (simp add: user_project_def user_agree_def shown_view_def views_upsert_def to_view_def user_event_names)
next
  case (name n)
  then have "m (ev_aggregate_id e) = Some (shown_view es a)"
    using assms(1) by (auto simp: user_agree_def split: if_splits)
  with name assms(2) show ?thesis
    by (simp add: user_project_def user_agree_def shown_view_def views_upsert_def to_view_def user_event_names)
next
  case erasure
  then have "m (ev_aggregate_id e) = Some (shown_view es a)"
    using assms(1) by (auto simp: user_agree_def split: if_splits)
  with erasure assms(2) show ?thesis
    by (simp add: user_project_def user_agree_def shown_view_def views_upsert_def to_view_def user_event_names)
qed

lemma user_project_others:
  assumes "i \<noteq> ev_aggregate_id e"
  shows "snd (user_project e m) i = m i"
proof -
  obtain x1 a b x2 c x3 d where
    "user_unmarshal (ev_payload e) (UserRegisteredEvent [] []) = (x1, UserRegisteredEvent a b)"
    "user_unmarshal (ev_payload e) (UserEmailChangedEvent []) = (x2, UserEmailChangedEvent c)"
    "user_unmarshal (ev_payload e) (UserNameChangedEvent []) = (x3, UserNameChangedEvent d)"
    using user_unmarshal_shape(1-3) by (metis surj_pair)
  then show ?thesis
    using assms by (cases x1; cases x2; cases x3) (simp_all add: user_project_def views_upsert_def Let_def)
qed

abbreviation user_proj :: "(user_views \<times> mails) event_handler" where
  "user_proj \<equiv> el_handle (on_fst user_projector)"

lemma user_proj_eq: "user_proj e (m, x) = (fst (user_project e m), snd (user_project e m), x)"
  by (simp add: on_fst_def user_projector_def new_projector_def split: prod.split)

lemma user_pattern:
  assumes "load_from_history user_ops user_apply user_events [e] a = (None, b)"
  shows "pattern_matches all_user_events (ev_name e)"
  using assms by (cases rule: user_step_cases)
    (simp_all add: all_user_events_def user_event_names pattern_matches_def cut_suffix_def has_prefix_def)

interpretation user_views: read_model user_ops user_apply user_events new_user all_user_events
  user_proj "\<lambda>v. fst v" user_agree
proof unfold_locales
  fix i :: uuid and e :: domain_event and v :: "user_views \<times> mails" assume "i \<noteq> ev_aggregate_id e"
  then show "fst (snd (user_proj e v)) i = fst v i"
    by (cases v) (simp add: user_proj_eq user_project_others)
next
  fix i show "user_agree [] (set_id i new_user) None" by (simp add: user_agree_def new_user_def set_id_def)
next
  fix es a b and e :: domain_event and v :: "user_views \<times> mails"
  assume "user_agree es a (fst v (ev_aggregate_id e))" "agg_id a = ev_aggregate_id e"
    "load_from_history user_ops user_apply user_events [e] a = (None, b)"
  from user_project_step [of es a "fst v" e b, OF this]
  show "fst (user_proj e v) = None \<and> agg_id b = agg_id a
    \<and> user_agree (es @ [e]) b (fst (snd (user_proj e v)) (ev_aggregate_id e))"
    by (cases v) (simp add: user_proj_eq)
qed (rule user_pattern)

lemma user_wired: "wired all_user_events user_proj user_dispatcher"
proof -
  have "pattern_matches ''*'' name" for name by (simp add: pattern_matches_iff)
  then show ?thesis
    by (simp add: wired_def user_dispatcher_def subscribe_listener_def get_listeners_register new_dispatcher_def
        welcome_email_reactor_def new_reactor_def user_projector_def new_projector_def notifier_listener_def on_fst_def)
qed


lemma user_worker_caught_up:
  assumes "load_from_history user_ops user_apply user_events (filter (\<lambda>e. ev_aggregate_id e = i) es)
      (set_id i new_user) = (None, u)"
    and "filter (\<lambda>e. ev_aggregate_id e = i) es \<noteq> []"
    and "dispatch_all user_dispatcher es ((views_new, []), new_notifier) = ((m, sent), n)"
    and "notifier_subscribe i (agg_version u) n = (ch, n')"
  shows "m i = Some (shown_view (filter (\<lambda>e. ev_aggregate_id e = i) es) u) \<and> ch \<in> nt_closed n'"
proof -
  let ?e = "last (filter (\<lambda>e. ev_aggregate_id e = i) es)"
  have e: "?e \<in> set es" "ev_aggregate_id ?e = i" using last_in_set [OF assms(2)] by simp_all
  have v: "agg_version u \<le> ev_aggregate_version ?e"
    using replay_version [OF assms(1,2)] by simp
  have "fst (views_new, [] :: mails) i = None" by (simp add: views_new_def)
  from user_views.caught_up_subscribe [OF user_wired this assms(1,3) e v assms(4)] assms(2)
  show ?thesis by (simp add: user_agree_def)
qed

text \<open>
  C18. Read your writes: when the worker of \<^verbatim>\<open>main\<close> has gone through a log in which the events of a user
  replay to the user \<open>u\<close>, the read model holds the view of \<open>u\<close> -- with the placeholder for an email that
  could not be opened -- and a subscription to \<open>u\<close>'s version returns a closed channel. Events of others,
  of other kinds and such as make \<^verbatim>\<open>Dispatch\<close> fail, anywhere in the log, change nothing of this.
\<close>

theorem read_model_catches_up:
  assumes "load_from_history user_ops user_apply user_events (filter (\<lambda>e. ev_aggregate_id e = i) es)
      (set_id i new_user) = (None, u)"
    and "filter (\<lambda>e. ev_aggregate_id e = i) es \<noteq> []"
    and "dispatch_all user_dispatcher es ((views_new, []), new_notifier) = ((m, sent), n)"
    and "notifier_subscribe i (agg_version u) n = (ch, n')"
  shows "m i = Some (shown_view (filter (\<lambda>e. ev_aggregate_id e = i) es) u) \<and> ch \<in> nt_closed n'"
  using assms by (rule user_worker_caught_up)

definition sample_user_event :: "uuid \<Rightarrow> u64 \<Rightarrow> string \<Rightarrow> (string \<Rightarrow> json option) \<Rightarrow> bool \<Rightarrow> domain_event" where
  "sample_user_event i v name jm unrec = zero_event\<lparr>ev_aggregate_id := i, ev_aggregate_version := v,
     ev_name := name, ev_payload := RawOk (JObj jm), ev_pii_unrecoverable := unrec\<rparr>"

text \<open>A log with a foreign event and an erased email.\<close>

definition sample_user_log :: "domain_event list" where
  "sample_user_log =
     [sample_user_event 7 1 user_registered [''email'' \<mapsto> JStr ''x'', ''name'' \<mapsto> JStr ''Ann''] True,
      sample_user_event 3 1 ''platform.note'' Map.empty False,
      sample_user_event 7 2 user_name_changed [''name'' \<mapsto> JStr ''Anna''] False]"

theorem read_model_catches_up_witness:
  "\<exists>m sent n ch n'. dispatch_all user_dispatcher sample_user_log ((views_new, []), new_notifier) = ((m, sent), n)
    \<and> notifier_subscribe 7 2 n = (ch, n') \<and> ch \<in> nt_closed n'
    \<and> m 7 = Some \<lparr>uv_id = 7, uv_email = ''[erased]'', uv_name = ''Anna'', uv_version = 2\<rparr>"
proof -
  obtain m sent n where d: "dispatch_all user_dispatcher sample_user_log ((views_new, []), new_notifier)
      = ((m, sent), n)" by (metis surj_pair)
  obtain ch n' where c: "notifier_subscribe 7 2 n = (ch, n')" by force
  let ?u = "\<lparr>agg_id = 7, agg_version = 2, agg_uncommitted = [], u_email = ''x'', u_name = ''Anna'', u_registered = True\<rparr>"
  have mine: "filter (\<lambda>e. ev_aggregate_id e = 7) sample_user_log = [hd sample_user_log, last sample_user_log]"
    by (simp add: sample_user_log_def sample_user_event_def)
  have "load_from_history user_ops user_apply user_events (filter (\<lambda>e. ev_aggregate_id e = 7) sample_user_log)
      (set_id 7 new_user) = (None, ?u)"
    unfolding mine by (simp add: sample_user_log_def sample_user_event_def new_user_def set_id_def set_version_def)
  from read_model_catches_up [OF this _ d, of ch n'] c
  have "m 7 = Some (shown_view [hd sample_user_log, last sample_user_log] ?u)" "ch \<in> nt_closed n'"
    unfolding mine by simp_all
  then show ?thesis
    using d c by (auto simp: shown_view_def email_erased_def sample_user_log_def sample_user_event_def
        user_event_names to_view_def erased_text_def)
qed

end
