(* ===== verification/Sealed_Log.thy ===== *)
theory Sealed_Log
  imports Mem_Pii
begin

text \<open>
  A program that writes through the PII store over the in-memory store and ring, event by event, leaves a
  log that is described by the events it recorded: each is in it as recorded, but for the declared fields,
  which are sealed. The lemmas follow that description through commits and erasures, and say what every
  read answers from it.
\<close>

section \<open>The description\<close>

abbreviation plain_pii :: "'p payload_ops \<Rightarrow> 'p registry \<Rightarrow> crypto \<Rightarrow> (uuid list \<Rightarrow> uuid list) \<Rightarrow>
    ('p, mem_store, mem_keyring, unit) pii_config" where
  "plain_pii ops reg c order \<equiv> mem_pii ops reg c None order"

text \<open>
  \<open>es\<close> are the events recorded, with the tenant and the global id the store gave them; \<open>F\<close> the subjects
  whose keys were destroyed; \<open>kh\<close> below the keys that subjects were given.
\<close>

definition sealable_event :: "'p payload_ops \<Rightarrow> 'p registry \<Rightarrow> crypto \<Rightarrow> domain_event \<Rightarrow> bool" where
  "sealable_event ops reg c e \<longleftrightarrow> ev_pii_fields e = RawNil \<and> \<not> ev_pii_unrecoverable e
     \<and> (seals ops reg e \<longrightarrow> sealable c (declared ops reg e) e)"

definition sealed_log :: "('p, mem_store, mem_keyring, unit) pii_config \<Rightarrow> uuid set \<Rightarrow> domain_event list \<Rightarrow>
    (mem_store, mem_keyring, unit) pii_world \<Rightarrow> bool" where
  "sealed_log cf F es w \<longleftrightarrow> mem_inv (pw_store w) \<and> mem_keyring_inv (pw_keys w)
     \<and> list_all (sealable_event (pc_ops cf) (pc_registry cf) (pc_crypto cf)) es
     \<and> (\<exists>kh. (\<forall>p. map_of (pw_keys w) p = (if p \<in> F then None else kh p))
          \<and> (\<forall>p key. kh p = Some key \<longrightarrow> aes_key_ok key) \<and> list_all2 (seal_of cf kh) es (ms_all (pw_store w)))"

lemma sealed_log_new:
  assumes "pw_store w = mem_new" "pw_keys w = mem_keyring_new"
  shows "sealed_log cf {} [] w"
proof -
  have "ms_all mem_new = []" "map_of mem_keyring_new = Map.empty" by (simp_all add: mem_new_def mem_keyring_new_def)
  then show ?thesis
    using assms mem_inv_new mem_keyring_inv_new by (simp add: sealed_log_def) (intro exI [of _ Map.empty], simp)
qed

section \<open>Fields that sealing leaves alone\<close>

lemma seal_of_frame:
  assumes "seal_of cf kh e x"
  shows "\<exists>p f. x = e\<lparr>ev_payload := p, ev_pii_fields := f\<rparr>"
proof (cases "seals (pc_ops cf) (pc_registry cf) e")
  case True
  with assms show ?thesis by (auto simp: seal_of_def dest!: sealed_frame)
next
  case False
  with assms have "x = e\<lparr>ev_payload := ev_payload e, ev_pii_fields := ev_pii_fields e\<rparr>" by (simp add: seal_of_def)
  then show ?thesis by blast
qed

lemma seal_of_sel:
  assumes "seal_of cf kh e x"
  shows "aggregate_key x = aggregate_key e" "visible cfg x = visible cfg e" "ev_aggregate_version x = ev_aggregate_version e"
    "ev_name x = ev_name e" "ev_pii_id x = ev_pii_id e" "ev_actor_id x = ev_actor_id e" "ev_actor_type x = ev_actor_type e"
    "ev_metadata x = ev_metadata e"
  using seal_of_frame [OF assms] by (auto simp: aggregate_key_def visible_def split: option.splits)

lemma seal_of_mono:
  assumes "seal_of cf kh e x" "\<And>p key. kh p = Some key \<Longrightarrow> kh' p = Some key"
  shows "seal_of cf kh' e x"
  using assms unfolding seal_of_def by (auto split: if_splits)

text \<open>A batch of streams, filtered alike before and after it was sealed.\<close>

lemma seal_of_filter:
  assumes "list_all2 (seal_of cf kh) es xs" "\<And>e x. seal_of cf kh e x \<Longrightarrow> P x = P e"
  shows "list_all2 (seal_of cf kh) (filter P es) (filter P xs)"
  using assms(1) by (induction rule: list_all2_induct) (auto simp: assms(2))

lemma sealed_log_versions:
  assumes "list_all2 (seal_of cf kh) es xs"
  shows "current_version (filter (\<lambda>x. aggregate_key x = k) xs) = current_version (filter (\<lambda>e. aggregate_key e = k) es)"
proof (rule current_version_cong)
  have "list_all2 (seal_of cf kh) (filter (\<lambda>e. aggregate_key e = k) es) (filter (\<lambda>x. aggregate_key x = k) xs)"
    by (rule seal_of_filter [OF assms]) (simp add: seal_of_sel(1))
  then show "map ev_aggregate_version (filter (\<lambda>x. aggregate_key x = k) xs) = map ev_aggregate_version (filter (\<lambda>e. aggregate_key e = k) es)"
    by (induction rule: list_all2_induct) (simp_all add: seal_of_sel(3))
qed

text \<open>The envelope as the store completes it.\<close>

definition stored_at :: "store_option list \<Rightarrow> nat \<Rightarrow> domain_event \<Rightarrow> domain_event" where
  "stored_at opts n e = (stamp_tenant (resolve_store_config opts) e)\<lparr>ev_global_id := of_nat (Suc n)\<rparr>"

lemma stored_at_eq: "\<exists>t. stored_at opts n e = e\<lparr>ev_tenant_id := t, ev_global_id := of_nat (Suc n)\<rparr>"
proof -
  have "e\<lparr>ev_tenant_id := ev_tenant_id e\<rparr> = e" by simp
  then have "\<exists>t. e\<lparr>ev_tenant_id := t\<rparr> = e" by blast
  then have "\<exists>t. e\<lparr>ev_tenant_id := t\<rparr> = stamp_tenant (resolve_store_config opts) e"
    by (cases "scope_of opts") (auto simp: stamp_tenant_def)
  then show ?thesis unfolding stored_at_def by metis
qed

lemma stored_at_sel [simp]:
  "ev_name (stored_at opts n e) = ev_name e" "ev_payload (stored_at opts n e) = ev_payload e"
  "ev_pii_id (stored_at opts n e) = ev_pii_id e" "ev_pii_fields (stored_at opts n e) = ev_pii_fields e"
  "ev_pii_unrecoverable (stored_at opts n e) = ev_pii_unrecoverable e"
  "ev_aggregate_id (stored_at opts n e) = ev_aggregate_id e"
  "ev_aggregate_version (stored_at opts n e) = ev_aggregate_version e"
  "ev_actor_id (stored_at opts n e) = ev_actor_id e" "ev_actor_type (stored_at opts n e) = ev_actor_type e"
  "ev_metadata (stored_at opts n e) = ev_metadata e"
  by (simp_all add: stored_at_def)

lemma sealed_moved:
  assumes "sealed c key fs e x"
  shows "sealed c key fs (e\<lparr>ev_tenant_id := t, ev_global_id := g\<rparr>) (x\<lparr>ev_tenant_id := t, ev_global_id := g\<rparr>)"
proof -
  from assms obtain r r' where "seal_payload c key fs e r = (None, x, r')" by (auto simp: sealed_def)
  then have "seal_payload c key fs (e\<lparr>ev_tenant_id := t, ev_global_id := g\<rparr>) r = (None, x\<lparr>ev_tenant_id := t, ev_global_id := g\<rparr>, r')"
    by (auto simp: seal_payload_def split: sum.splits prod.splits)
  then show ?thesis unfolding sealed_def by blast
qed

lemma declared_stored [simp]:
  "declared ops reg (e\<lparr>ev_tenant_id := t, ev_global_id := g\<rparr>) = declared ops reg e"
  "seals ops reg (e\<lparr>ev_tenant_id := t, ev_global_id := g\<rparr>) = seals ops reg e"
  by (auto simp: declared_def seals_def split: option.splits)

lemma seal_of_stored:
  assumes "seal_of cf kh e x"
  shows "seal_of cf kh (stored_at opts n e) (stored_at opts n x)"
proof -
  obtain p f where x: "x = e\<lparr>ev_payload := p, ev_pii_fields := f\<rparr>" using seal_of_frame [OF assms] by blast
  obtain t where e: "stored_at opts n e = e\<lparr>ev_tenant_id := t, ev_global_id := of_nat (Suc n)\<rparr>" using stored_at_eq by blast
  have "stored_at opts n x = x\<lparr>ev_tenant_id := t, ev_global_id := of_nat (Suc n)\<rparr>"
  proof -
    have "ev_tenant_id (stored_at opts n x) = t"
      using arg_cong [OF e, of ev_tenant_id] by (simp add: stored_at_def stamp_tenant_def x split: option.splits if_splits)
    moreover obtain u where "stored_at opts n x = x\<lparr>ev_tenant_id := u, ev_global_id := of_nat (Suc n)\<rparr>" using stored_at_eq by blast
    ultimately show ?thesis by simp
  qed
  with assms e show ?thesis by (auto simp: seal_of_def sealed_moved split: if_splits)
qed

lemma sealable_stored: "sealable_event ops reg c e \<Longrightarrow> sealable_event ops reg c (stored_at opts n e)"
  using stored_at_eq [of opts n e] by (auto simp: sealable_event_def sealable_def)

section \<open>Committing\<close>

lemma mem_commit_one:
  assumes "mem_inv s" "current_version (filter (\<lambda>x. aggregate_key x = commit_key opts [e]) (ms_all s)) = v"
  shows "\<exists>s'. mem_commit [e] v opts s = (None, [stored_at opts (length (ms_all s)) e], s') \<and> mem_inv s'
    \<and> ms_all s' = ms_all s @ [stored_at opts (length (ms_all s)) e]"
proof -
  have inv: "mem_log_inv s" "mem_keyed s" using assms(1) by (simp_all add: mem_inv_def)
  have gid: "ms_next_global_id s = of_nat (length (ms_all s))" using inv(1) by (simp add: mem_log_inv_def)
  have "current_version (ms_by_aggregate s (commit_key opts [e])) = v"
    using assms(2) inv(2) unfolding mem_keyed_def by metis
  then obtain s' where c: "mem_commit [e] v opts s = (None, [stored_at opts (length (ms_all s)) e], s')"
    "ms_all s' = ms_all s @ [stored_at opts (length (ms_all s)) e]"
    by (simp add: mem_commit_eq Let_def gid stored_at_def add.commute)
  have "uniform_batch opts [e]" by (simp add: uniform_batch_def commit_key_def)
  with c(1) inv have "mem_inv s'" unfolding mem_inv_def by (blast intro: mem_log_inv_commit mem_keyed_commit)
  with c show ?thesis by blast
qed

lemma sealed_log_length: "sealed_log cf F es w \<Longrightarrow> length (ms_all (pw_store w)) = length es"
  unfolding sealed_log_def by (auto dest: list_all2_lengthD)

text \<open>An event that asks for no erasure, of a subject that was not forgotten.\<close>

lemma sealed_log_commit:
  assumes log: "sealed_log (plain_pii ops reg c order) F es w" and e: "sealable_event ops reg c e"
    and no: "\<not> erasing ops reg (ev_name e)" "\<And>p. seals ops reg e \<Longrightarrow> ev_pii_id e = Some p \<Longrightarrow> p \<notin> F"
    and v: "current_version (filter (\<lambda>x. aggregate_key x = commit_key opts [e]) es) = v"
  shows "\<exists>es' w'. pii_commit (plain_pii ops reg c order) [e] v opts w = (None, es', w')
    \<and> sealed_log (plain_pii ops reg c order) F (es @ [stored_at opts (length es) e]) w'"
proof -
  let ?cf = "plain_pii ops reg c order" and ?k = "pw_keys w"
  obtain kh where kh: "\<And>p. map_of ?k p = (if p \<in> F then None else kh p)" "\<And>p key. kh p = Some key \<Longrightarrow> aes_key_ok key"
    "list_all2 (seal_of ?cf kh) es (ms_all (pw_store w))"
    and inv: "mem_inv (pw_store w)" "mem_keyring_inv ?k"
    using log by (auto simp: sealed_log_def)
  obtain x es1 q k where sa: "seal_all ?cf [e] (pw_rng w, ?k) = (x, es1, q, k)" by (metis prod_cases4)
  have fresh: "\<forall>e' \<in> set [e]. pii_fresh ?cf e'" using e no(1) by (auto simp: pii_fresh_def sealable_event_def)
  have "fst (seal_all ?cf [e] (pw_rng w, ?k)) = None"
    using kh(1,2) fresh by (intro mem_ring.seal_all_total [OF inv(2)]) (auto split: if_splits)
  with sa have x: "x = None" by simp
  note eff = mem_ring.seal_all_effect [OF inv(2) sa mem_pii_sel(5)]
  then have new: "map_of ?k p = Some key \<or> map_of ?k p = None \<and> length key = 32 \<and> seals ops reg e \<and> ev_pii_id e = Some p"
    if "map_of k p = Some key" for p key using that by simp
  from eff obtain e1 where e1: "es1 = [e1]" "seal_of ?cf (map_of k) e e1" and k: "mem_keyring_inv k" "map_of ?k \<subseteq>\<^sub>m map_of k"
    using x by (auto simp: list_all2_Cons1)
  let ?kh = "\<lambda>p. if p \<in> F then kh p else map_of k p"
  have grow: "kh p = Some key \<Longrightarrow> ?kh p = Some key" for p key
    using kh(1) [of p] k(2) by (auto simp: map_le_def dom_def)
  have keys: "map_of k p = (if p \<in> F then None else ?kh p)" for p
  proof (cases "p \<in> F")
    case True
    then have "map_of ?k p = None" by (simp add: kh(1))
    moreover have "map_of k p \<noteq> Some key" for key using new [of p key] no(2) [of p] True calculation by auto
    ultimately show ?thesis using True by (cases "map_of k p") auto
  qed simp
  have ok: "aes_key_ok key" if "?kh p = Some key" for p key
  proof (cases "p \<in> F")
    case True
    with that kh(2) show ?thesis by simp
  next
    case False
    with that new [of p key] have "map_of ?k p = Some key \<or> length key = 32" by auto
    with False kh(1,2) show ?thesis by (auto simp: aes_key_ok_def)
  qed
  have key: "commit_key opts [e1] = commit_key opts [e]"
    using seal_of_frame [OF e1(2)] by (auto simp: commit_key_def aggregate_key_def stamp_tenant_def split: option.splits)
  have "current_version (filter (\<lambda>x. aggregate_key x = commit_key opts [e1]) (ms_all (pw_store w))) = v"
    unfolding key sealed_log_versions [OF kh(3)] by (rule v)
  from mem_commit_one [OF inv(1) this] sealed_log_length [OF log] obtain s'
    where c: "mem_commit [e1] v opts (pw_store w) = (None, [stored_at opts (length es) e1], s')" "mem_inv s'"
      "ms_all s' = ms_all (pw_store w) @ [stored_at opts (length es) e1]" by auto
  have e2: "seal_of ?cf ?kh e e1"
  proof (cases "seals ops reg e")
    case True
    with e1(2) obtain p key where "ev_pii_id e = Some p" "map_of k p = Some key" "sealed c key (declared ops reg e) e e1"
      by (auto simp: seal_of_def)
    with True no(2) show ?thesis by (auto simp: seal_of_def)
  next
    case False
    with e1(2) show ?thesis by (simp add: seal_of_def)
  qed
  have sealed: "list_all2 (seal_of ?cf ?kh) (es @ [stored_at opts (length es) e]) (ms_all s')"
  proof -
    have "list_all2 (seal_of ?cf ?kh) es (ms_all (pw_store w))"
      by (rule list_all2_mono [OF kh(3)]) (erule seal_of_mono, rule grow)
    with seal_of_stored [OF e2] show ?thesis unfolding c(3) by (simp add: list_all2_appendI)
  qed
  have "shred_all ?cf [stored_at opts (length es) e1] u = (None, u)" for u
    using no(1) seal_of_sel(4) [OF e1(2)] by (intro shred_all_noop) simp
  then have cm: "pii_commit ?cf [e] v opts w
      = (None, [stored_at opts (length es) e1], w\<lparr>pw_store := s', pw_keys := k, pw_rng := q\<rparr>)"
    using sa x e1(1) c(1) by (simp add: pii_commit_def del: seal_all.simps shred_all.simps)
  have "list_all (sealable_event ops reg c) es" using log by (simp add: sealed_log_def)
  then have "sealed_log ?cf F (es @ [stored_at opts (length es) e]) (w\<lparr>pw_store := s', pw_keys := k, pw_rng := q\<rparr>)"
    unfolding sealed_log_def using c(2) k(1) keys ok sealable_stored [OF e] sealed by (simp add: exI [of _ ?kh])
  with cm show ?thesis by blast
qed

text \<open>An event that asks for the erasure of a subject, and declares no fields.\<close>

lemma sealed_log_erase:
  assumes log: "sealed_log (plain_pii ops reg c order) F es w" and e: "sealable_event ops reg c e"
    and p: "ev_pii_id e = Some p" "payload_for (plain_pii ops reg c order) e = Some pl" "po_requests_erasure ops pl" "\<not> seals ops reg e"
    and v: "current_version (filter (\<lambda>x. aggregate_key x = commit_key opts [e]) es) = v"
  shows "\<exists>es' w'. pii_commit (plain_pii ops reg c order) [e] v opts w = (None, es', w')
    \<and> sealed_log (plain_pii ops reg c order) (insert p F) (es @ [stored_at opts (length es) e]) w'"
proof -
  let ?cf = "plain_pii ops reg c order" and ?e = "stored_at opts (length es) e"
  obtain kh where kh: "\<And>p. map_of (pw_keys w) p = (if p \<in> F then None else kh p)" "\<And>p key. kh p = Some key \<Longrightarrow> aes_key_ok key"
    "list_all2 (seal_of ?cf kh) es (ms_all (pw_store w))"
    and inv: "mem_inv (pw_store w)" "mem_keyring_inv (pw_keys w)"
    using log by (auto simp: sealed_log_def)
  have sa: "seal_all ?cf [e] (pw_rng w, pw_keys w) = (None, [e], pw_rng w, pw_keys w)"
    using p(4) by (simp add: seal_all_Cons seal_one_def del: seal_all.simps(2))
  have "current_version (filter (\<lambda>x. aggregate_key x = commit_key opts [e]) (ms_all (pw_store w))) = v"
    unfolding sealed_log_versions [OF kh(3)] by (rule v)
  from mem_commit_one [OF inv(1) this] sealed_log_length [OF log] obtain s'
    where c: "mem_commit [e] v opts (pw_store w) = (None, [?e], s')" "mem_inv s'" "ms_all s' = ms_all (pw_store w) @ [?e]" by auto
  obtain k' where k': "mem_kr_forget p (pw_keys w) = (None, k')" by (simp add: mem_kr_forget_def)
  with mem_ring.forget_key [OF inv(2), where k' = k' and p = p and order = order]
  have k: "mem_keyring_inv k'" "map_of k' = (map_of (pw_keys w))(p := None)" by auto
  have "payload_for ?cf ?e = Some pl" using p(2) by (auto simp: payload_for_def split: option.splits)
  then have "shred_all ?cf [?e] u = (None, u\<lparr>pw_keys := snd (mem_kr_forget p (pw_keys u))\<rparr>)" for u
    using p(1,3) by (simp add: pii_forget_def mem_kr_forget_def)
  then have cm: "pii_commit ?cf [e] v opts w = (None, [?e], w\<lparr>pw_store := s', pw_keys := k'\<rparr>)"
    using c(1) k' by (simp add: pii_commit_def sa del: shred_all.simps seal_all.simps)
  have "seal_of ?cf kh ?e ?e"
  proof -
    have "seal_of ?cf kh e e" using p(4) by (simp add: seal_of_def)
    then show ?thesis by (rule seal_of_stored)
  qed
  then have "list_all2 (seal_of ?cf kh) (es @ [?e]) (ms_all s')" unfolding c(3) using kh(3) by (simp add: list_all2_appendI)
  moreover have "map_of k' q = (if q \<in> insert p F then None else kh q)" for q by (simp add: k(2) kh(1))
  ultimately have "sealed_log ?cf (insert p F) (es @ [?e]) (w\<lparr>pw_store := s', pw_keys := k'\<rparr>)"
    using c(2) k(1) kh(2) log sealable_stored [OF e] unfolding sealed_log_def by auto
  with cm show ?thesis by blast
qed

section \<open>Reading\<close>

text \<open>How an event of the log reads: restored, or as it is and marked when its subject was forgotten.\<close>

definition reads_as :: "('p, mem_store, mem_keyring, unit) pii_config \<Rightarrow> uuid set \<Rightarrow> domain_event \<Rightarrow> domain_event \<Rightarrow> bool" where
  "reads_as cf F e y \<longleftrightarrow>
     (if seals (pc_ops cf) (pc_registry cf) e
      then if the (ev_pii_id e) \<in> F
           then \<exists>key x. sealed (pc_crypto cf) key (declared (pc_ops cf) (pc_registry cf) e) e x \<and> y = x\<lparr>ev_pii_unrecoverable := True\<rparr>
           else y = e\<lparr>ev_pii_fields := RawOk (manifest_json (declared (pc_ops cf) (pc_registry cf) e))\<rparr>
      else y = e)"

lemma reads_as_open:
  assumes "crypto_ok c" "mem_keyring_inv k" "\<And>p. map_of k p = (if p \<in> F then None else kh p)"
    and "seal_of (plain_pii ops reg c order) kh e x" "sealable_event ops reg c e"
  shows "\<exists>y. pii_open c (mem_keyring_ops order) x k = Inr y \<and> reads_as (plain_pii ops reg c order) F e y"
proof (cases "seals ops reg e")
  case False
  with assms(4,5) have "x = e" "ev_pii_fields e = RawNil" by (auto simp: seal_of_def sealable_event_def)
  with False show ?thesis by (auto simp: reads_as_def open_untouched)
next
  case True
  with assms(4) obtain p key where p: "ev_pii_id e = Some p" "kh p = Some key" "sealed c key (declared ops reg e) e x"
    by (auto simp: seal_of_def)
  have get: "kr_get (mem_keyring_ops order) p k = Inr (map_of k p)" by (simp add: mem_kr_get_def)
  have sl: "sealable c (declared ops reg e) e" using assms(5) True by (simp add: sealable_event_def)
  show ?thesis
  proof (cases "p \<in> F")
    case True
    with get assms(3) have "kr_get (mem_keyring_ops order) p k = Inr None" by simp
    from open_sealed_forgotten [OF p(3) _ p(1) this] sl
    have "pii_open c (mem_keyring_ops order) x k = Inr (x\<lparr>ev_pii_unrecoverable := True\<rparr>)" by (simp add: sealable_def)
    with \<open>seals ops reg e\<close> True p show ?thesis by (auto simp: reads_as_def)
  next
    case False
    with get assms(3) p(2) have "kr_get (mem_keyring_ops order) p k = Inr (Some key)" by simp
    from open_sealed [OF assms(1) p(3) sl p(1) this] \<open>seals ops reg e\<close> False p(1) show ?thesis by (simp add: reads_as_def)
  qed
qed

lemma sealed_log_open:
  assumes log: "sealed_log (plain_pii ops reg c order) F es w" and "crypto_ok c"
    and P: "\<And>kh e x. seal_of (plain_pii ops reg c order) kh e x \<Longrightarrow> P x = P e"
  shows "\<exists>ys. open_all (plain_pii ops reg c order) (filter P (ms_all (pw_store w))) (pw_keys w) = Inr ys
    \<and> list_all2 (reads_as (plain_pii ops reg c order) F) (filter P es) ys"
proof -
  let ?cf = "plain_pii ops reg c order"
  obtain kh where kh: "\<And>p. map_of (pw_keys w) p = (if p \<in> F then None else kh p)"
    "list_all2 (seal_of ?cf kh) es (ms_all (pw_store w))" and inv: "mem_keyring_inv (pw_keys w)"
    and ok: "list_all (sealable_event ops reg c) es"
    using log by (auto simp: sealed_log_def)
  have "\<exists>ys. open_all ?cf B (pw_keys w) = Inr ys \<and> list_all2 (reads_as ?cf F) A ys"
    if "list_all2 (seal_of ?cf kh) A B" "list_all (sealable_event ops reg c) A" for A B
    using that
  proof (induction rule: list_all2_induct)
    case (Cons e A x B)
    from Cons.prems have "sealable_event ops reg c e" by simp
    from reads_as_open [OF assms(2) inv kh(1) Cons.hyps(1) this] obtain y
      where "pii_open c (mem_keyring_ops order) x (pw_keys w) = Inr y" "reads_as ?cf F e y" by blast
    moreover obtain ys where "open_all ?cf B (pw_keys w) = Inr ys" "list_all2 (reads_as ?cf F) A ys"
      using Cons.IH Cons.prems by auto
    ultimately show ?case by simp
  qed simp
  moreover have "list_all2 (seal_of ?cf kh) (filter P es) (filter P (ms_all (pw_store w)))"
    by (rule seal_of_filter [OF kh(2)]) (rule P)
  moreover have "list_all (sealable_event ops reg c) (filter P es)" using ok by (simp add: list_all_iff)
  ultimately show ?thesis by simp
qed

lemma sealed_log_streams:
  "sealed_log cf F es w \<Longrightarrow> ms_by_aggregate (pw_store w) k = filter (\<lambda>x. aggregate_key x = k) (ms_all (pw_store w))"
  by (cases k) (simp add: sealed_log_def mem_inv_def mem_keyed_def)

lemma sealed_log_empty_stream:
  assumes "sealed_log cf F es w"
  shows "filter (\<lambda>x. aggregate_key x = k) (ms_all (pw_store w)) = [] \<longleftrightarrow> filter (\<lambda>e. aggregate_key e = k) es = []"
proof -
  obtain kh where "list_all2 (seal_of cf kh) es (ms_all (pw_store w))" using assms by (auto simp: sealed_log_def)
  from seal_of_filter [OF this, of "\<lambda>x. aggregate_key x = k"] show ?thesis
    by (auto simp: seal_of_sel(1) dest: list_all2_lengthD)
qed

text \<open>A load under a tenant: its own stream, the shared one, or neither.\<close>

lemma sealed_log_load:
  assumes log: "sealed_log (plain_pii ops reg c order) F es w" and "crypto_ok c"
    and S: "S = (if filter (\<lambda>e. aggregate_key e = (t, i)) es = [] then filter (\<lambda>e. aggregate_key e = (global_tenant_id, i)) es
      else filter (\<lambda>e. aggregate_key e = (t, i)) es)"
  shows "if S = [] then pii_load (plain_pii ops reg c order) i [WithTenant t] w = Inl ErrAggregateNotFound
    else \<exists>ys. pii_load (plain_pii ops reg c order) i [WithTenant t] w = Inr ys \<and> ys \<noteq> []
      \<and> list_all2 (reads_as (plain_pii ops reg c order) F) S ys"
proof -
  let ?f = "\<lambda>u xs. filter (\<lambda>x. aggregate_key x = (u, i)) xs" and ?s = "ms_all (pw_store w)"
  have ml: "mem_load i [WithTenant t] (pw_store w)
      = (let xs = (if ?f t ?s = [] then ?f global_tenant_id ?s else ?f t ?s) in if xs = [] then Inl ErrAggregateNotFound else Inr xs)"
    unfolding mem_load_def sealed_log_streams [OF log] by (simp add: resolve_store_config_def Let_def)
  have op: "\<exists>ys. open_all (plain_pii ops reg c order) (?f u ?s) (pw_keys w) = Inr ys
      \<and> list_all2 (reads_as (plain_pii ops reg c order) F) (?f u es) ys" for u
    by (rule sealed_log_open [OF log assms(2)]) (simp add: seal_of_sel(1))
  note emp = sealed_log_empty_stream [OF log]
  show ?thesis
  proof (cases "?f t es = []")
    case True
    with op [of global_tenant_id] emp show ?thesis by (auto simp: S pii_load_def ml)
  next
    case False
    with op [of t] emp show ?thesis by (auto simp: S pii_load_def ml)
  qed
qed

end
