(* ===== verification/User_Demo.thy ===== *)
theory User_Demo
  imports User_Read_Model Sealed_Log
begin

text \<open>
  The program \<^verbatim>\<open>main\<close> of \<^verbatim>\<open>examples/user/main.go\<close> from its composition root to its last line, with the
  worker that builds the read model beside it. What it prints is its result. The theorem says what that
  is: the views, the isolation of tenants, the ciphertext at rest, the counts of the operator's report,
  the entry all tenants share, and what is left of a user that was forgotten.
\<close>

section \<open>The program\<close>

text \<open>What \<^verbatim>\<open>uuid.New\<close> and \<^verbatim>\<open>time.Now\<close> answer.\<close>

record user_env =
  ue_tenant_a :: uuid
  ue_tenant_b :: uuid
  ue_user :: uuid
  ue_bob :: uuid
  ue_bob_actor :: uuid
  ue_catalog :: uuid
  ue_admin :: uuid
  ue_event :: "nat \<Rightarrow> uuid"
  ue_now :: "nat \<Rightarrow> time"

type_synonym user_world = "(mem_store, mem_keyring, unit) pii_world"

definition user_store :: "crypto \<Rightarrow> (uuid list \<Rightarrow> uuid list) \<Rightarrow> (user_payload, mem_store, mem_keyring, unit) pii_config" where
  "user_store c order = new_pii_event_store mem_ops user_ops user_events c (mem_keyring_ops order)"

definition ann_actor :: "user_env \<Rightarrow> user_actor" where
  "ann_actor env = \<lparr>ua_id = ue_user env, ua_type = ''customer''\<rparr>"

definition register_ann :: "'s event_store_ops \<Rightarrow> user_env \<Rightarrow> 's \<Rightarrow> (error + user_view) \<times> 's" where
  "register_ann st env = register_user st (ue_event env 0) (ue_now env 0)
     \<lparr>ru_tenant_id = ue_tenant_a env, ru_user_id = ue_user env, ru_email = ''ann@example.com'', ru_name = ''Ann'',
      ru_actor = ann_actor env\<rparr>"

text \<open>The answer tells whether tenant B was refused as if there were no such user.\<close>

definition isolation :: "'s event_store_ops \<Rightarrow> user_env \<Rightarrow> 's \<Rightarrow> error + bool" where
  "isolation st env w =
     (case load_user st (ue_user env) [WithTenant (ue_tenant_b env)] w of
        Inl err \<Rightarrow> if errors_is err ErrAggregateNotFound then Inr True else Inl err
      | Inr u \<Rightarrow> Inr False)"

definition register_bob :: "'s event_store_ops \<Rightarrow> user_env \<Rightarrow> 's \<Rightarrow> (error + user_view) \<times> 's" where
  "register_bob st env = register_user st (ue_event env 1) (ue_now env 1)
     \<lparr>ru_tenant_id = ue_tenant_b env, ru_user_id = ue_bob env, ru_email = ''bob@example.com'', ru_name = ''Bob'',
      ru_actor = \<lparr>ua_id = ue_bob_actor env, ua_type = ''customer''\<rparr>\<rparr>"

definition change_ann :: "'s event_store_ops \<Rightarrow> user_env \<Rightarrow> 's \<Rightarrow> (error + user_view) \<times> 's" where
  "change_ann st env = change_email st (ue_event env 2) (ue_now env 2)
     \<lparr>ce_tenant_id = ue_tenant_a env, ce_user_id = ue_user env, ce_email = ''ann.new@example.com'',
      ce_actor = ann_actor env\<rparr>"

text \<open>The read past the PII store: the last payload, and of the first event its actor and its metadata.\<close>

record at_rest =
  ar_payload :: raw
  ar_actor_id :: uuid
  ar_actor_type :: string
  ar_metadata :: raw

definition read_at_rest :: "user_env \<Rightarrow> mem_store \<Rightarrow> error + at_rest" where
  "read_at_rest env s =
     (case mem_load (ue_user env) [WithTenant (ue_tenant_a env)] s of
        Inl err \<Rightarrow> Inl err
      | Inr es \<Rightarrow>
          (case es of
             [] \<Rightarrow> Inl (Panic ''index out of range'')
           | first # _ \<Rightarrow>
               (case (ev_actor_id first, ev_actor_type first) of
                  (Some i, Some ty) \<Rightarrow> Inr \<lparr>ar_payload = ev_payload (last es), ar_actor_id = i, ar_actor_type = ty,
                    ar_metadata = ev_metadata first\<rparr>
                | _ \<Rightarrow> Inl (Panic ''nil pointer dereference''))))"

text \<open>
  The wait for the write to be projected, and the query. The worker has dispatched \<open>pre\<close> when \<^verbatim>\<open>main\<close>
  subscribes and \<open>mid\<close> after that when the select ends; the answer is whether the channel was closed, and
  what \<^verbatim>\<open>views.Get\<close> finds.
\<close>

definition wait_and_query :: "uuid \<Rightarrow> u64 \<Rightarrow> domain_event list \<Rightarrow> domain_event list \<Rightarrow> bool \<times> user_view option" where
  "wait_and_query i v pre mid =
     (let (x, n) = dispatch_all user_dispatcher pre ((views_new, []), new_notifier);
          (ch, n1) = notifier_subscribe i v n;
          ((m, sent), n2) = dispatch_all user_dispatcher mid (x, n1)
      in (ch \<in> nt_closed n2, m i))"

text \<open>What the stream of the PII store delivers of a log: the events up to the first that fails to open.\<close>

fun opened_prefix :: "('p, 's, 'k, 'l) pii_config \<Rightarrow> domain_event list \<Rightarrow> 'k \<Rightarrow> domain_event list" where
  "opened_prefix cf [] k = []"
| "opened_prefix cf (e # es) k =
     (case pii_open (pc_crypto cf) (pc_keys cf) e k of
        Inl err \<Rightarrow> []
      | Inr e' \<Rightarrow> e' # opened_prefix cf es k)"

text \<open>All events, and those of tenant A.\<close>

definition operator_report :: "'s event_store_ops \<Rightarrow> user_env \<Rightarrow> 's \<Rightarrow> error + nat \<times> nat" where
  "operator_report st env w =
     (case st_fetch_after st 0 1000 [WithTenant (ue_tenant_a env)] w of
        Inl err \<Rightarrow> Inl err
      | Inr scoped \<Rightarrow>
          (case st_fetch_after st 0 1000 [WithAllTenants] w of
             Inl err \<Rightarrow> Inl err
           | Inr all \<Rightarrow> Inr (length all, length scoped)))"

definition catalog_event :: "user_env \<Rightarrow> domain_event" where
  "catalog_event env = zero_event\<lparr>ev_id := ue_event env 3, ev_aggregate_id := ue_catalog env,
     ev_aggregate_version := 1, ev_version := 1, ev_name := ''example.GlobalCatalogEntryAdded'',
     ev_payload := RawOk (JObj [''sku'' \<mapsto> JStr ''WIDGET-1'']), ev_occurred_at := ue_now env 3\<rparr>"

definition add_catalog_entry :: "'s event_store_ops \<Rightarrow> user_env \<Rightarrow> 's \<Rightarrow> error + 's" where
  "add_catalog_entry st env w =
     (case st_commit st [catalog_event env] 0 [] w of
        (Some err, es, w') \<Rightarrow> Inl err
      | (None, es, w') \<Rightarrow> Inr w')"

definition sees_catalog_entry :: "'s event_store_ops \<Rightarrow> user_env \<Rightarrow> uuid \<Rightarrow> 's \<Rightarrow> error + bool" where
  "sees_catalog_entry st env t w = map_sum id (\<lambda>es. length es = 1) (st_load st (ue_catalog env) [WithTenant t] w)"

definition forget_ann :: "'s event_store_ops \<Rightarrow> user_env \<Rightarrow> 's \<Rightarrow> error option \<times> 's" where
  "forget_ann st env = forget_user st (ue_event env 4) (ue_now env 4)
     \<lparr>fu_tenant_id = ue_tenant_a env, fu_user_id = ue_user env, fu_actor = \<lparr>ua_id = ue_admin env, ua_type = ''admin''\<rparr>\<rparr>"

definition rebuilt_user_dispatcher :: "user_views dispatcher" where
  "rebuilt_user_dispatcher = subscribe_listener all_user_events user_projector new_dispatcher"

fun rebuild_views_loop :: "domain_event list \<Rightarrow> user_views \<Rightarrow> error + user_views" where
  "rebuild_views_loop [] m = Inr m"
| "rebuild_views_loop (e # es) m =
     (case dispatch rebuilt_user_dispatcher e m of
        (Some err, started, m') \<Rightarrow> Inl err
      | (None, started, m') \<Rightarrow> rebuild_views_loop es m')"

text \<open>
  The stream of the tenant-scoped store delivers what tenant A sees, opened, when the two seconds that
  \<^verbatim>\<open>main\<close> gives it are enough.
\<close>

definition rebuild_views :: "crypto \<Rightarrow> (uuid list \<Rightarrow> uuid list) \<Rightarrow> user_env \<Rightarrow> user_world \<Rightarrow> error + user_views" where
  "rebuild_views c order env w =
     (case open_all (user_store c order) (visible_log [WithTenant (ue_tenant_a env)] (pw_store w)) (pw_keys w) of
        Inl err \<Rightarrow> Inl err
      | Inr es \<Rightarrow> rebuild_views_loop es views_new)"

text \<open>What the program prints, in order.\<close>

record user_report =
  ur_registered :: user_view
  ur_isolated :: bool
  ur_updated :: user_view
  ur_at_rest :: at_rest
  ur_ready :: bool
  ur_view :: "user_view option"
  ur_counts :: "nat \<times> nat"
  ur_catalog :: "bool \<times> bool"
  ur_forgotten :: user
  ur_rebuilt :: "user_view option"

text \<open>
  \<^verbatim>\<open>main\<close>. Of the events the worker is sent it has dispatched \<open>n1\<close> when \<^verbatim>\<open>main\<close> subscribes and \<open>n1 + n2\<close> when
  the wait ends. An error that \<^verbatim>\<open>main\<close> panics with is its result.
\<close>

definition user_demo_end :: "crypto \<Rightarrow> (uuid list \<Rightarrow> uuid list) \<Rightarrow> user_env \<Rightarrow> user_world \<Rightarrow>
    error + (bool \<times> bool) \<times> user \<times> user_view option" where
  "user_demo_end c order env w3 =
     (let st = pii_store_ops (user_store c order)
      in case add_catalog_entry st env w3 of
           Inl err \<Rightarrow> Inl err
         | Inr w4 \<Rightarrow>
      (case sees_catalog_entry st env (ue_tenant_a env) w4 of
           Inl err \<Rightarrow> Inl err
         | Inr a \<Rightarrow>
      (case sees_catalog_entry st env (ue_tenant_b env) w4 of
           Inl err \<Rightarrow> Inl err
         | Inr b \<Rightarrow>
      (case forget_ann st env w4 of
           (Some err, w5) \<Rightarrow> Inl err
         | (None, w5) \<Rightarrow>
      (case load_user st (ue_user env) [WithTenant (ue_tenant_a env)] w5 of
           Inl err \<Rightarrow> Inl err
         | Inr forgotten \<Rightarrow>
      (case rebuild_views c order env w5 of
           Inl err \<Rightarrow> Inl err
         | Inr rebuilt \<Rightarrow> Inr ((a, b), forgotten, rebuilt (ue_user env))))))))"

definition user_demo :: "crypto \<Rightarrow> (uuid list \<Rightarrow> uuid list) \<Rightarrow> user_env \<Rightarrow> nat \<Rightarrow> nat \<Rightarrow> user_world \<Rightarrow> error + user_report" where
  "user_demo c order env n1 n2 w =
     (let st = pii_store_ops (user_store c order)
      in case register_ann st env w of
           (Inl err, w1) \<Rightarrow> Inl err
         | (Inr registered, w1) \<Rightarrow>
      (case isolation st env w1 of
           Inl err \<Rightarrow> Inl err
         | Inr isolated \<Rightarrow>
      (case register_bob st env w1 of
           (Inl err, w2) \<Rightarrow> Inl err
         | (Inr bob, w2) \<Rightarrow>
      (case change_ann st env w2 of
           (Inl err, w3) \<Rightarrow> Inl err
         | (Inr updated, w3) \<Rightarrow>
      (case read_at_rest env (pw_store w3) of
           Inl err \<Rightarrow> Inl err
         | Inr rest \<Rightarrow>
      (let feed = opened_prefix (user_store c order) (visible_log [] (pw_store w3)) (pw_keys w3);
           (ready, view) = wait_and_query (ue_user env) (uv_version updated) (take n1 feed) (take n2 (drop n1 feed))
       in case operator_report st env w3 of
            Inl err \<Rightarrow> Inl err
          | Inr counts \<Rightarrow>
       (case user_demo_end c order env w3 of
            Inl err \<Rightarrow> Inl err
          | Inr (catalog, forgotten, rebuilt) \<Rightarrow>
              Inr \<lparr>ur_registered = registered, ur_isolated = isolated, ur_updated = updated, ur_at_rest = rest,
                   ur_ready = ready, ur_view = view, ur_counts = counts, ur_catalog = catalog,
                   ur_forgotten = forgotten, ur_rebuilt = rebuilt\<rparr>)))))))"

section \<open>What the commands record\<close>

lemma user_store_plain: "user_store c order = plain_pii user_ops user_events c order"
  by (simp add: user_store_def new_pii_event_store_def)

definition user_event :: "user_env \<Rightarrow> nat \<Rightarrow> uuid \<Rightarrow> u64 \<Rightarrow> user_payload \<Rightarrow> user_actor \<Rightarrow> raw \<Rightarrow> domain_event" where
  "user_event env n i v p act md = zero_event\<lparr>ev_id := ue_event env n, ev_aggregate_id := i, ev_aggregate_version := v,
     ev_version := 1, ev_name := user_event_name p, ev_payload := RawOk (projr (user_marshal p)), ev_metadata := md,
     ev_actor_id := Some (ua_id act), ev_actor_type := Some (ua_type act), ev_pii_id := Some i,
     ev_occurred_at := ue_now env n\<rparr>"

lemma user_event_sel [simp]:
  "ev_aggregate_id (user_event env n i v p act md) = i" "ev_aggregate_version (user_event env n i v p act md) = v"
  "ev_name (user_event env n i v p act md) = user_event_name p"
  "ev_payload (user_event env n i v p act md) = RawOk (projr (user_marshal p))"
  "ev_metadata (user_event env n i v p act md) = md" "ev_actor_id (user_event env n i v p act md) = Some (ua_id act)"
  "ev_actor_type (user_event env n i v p act md) = Some (ua_type act)" "ev_pii_id (user_event env n i v p act md) = Some i"
  "ev_tenant_id (user_event env n i v p act md) = uuid_nil" "ev_pii_fields (user_event env n i v p act md) = RawNil"
  "\<not> ev_pii_unrecoverable (user_event env n i v p act md)"
  by (simp_all add: user_event_def zero_event_def)

definition signup_metadata :: raw where
  "signup_metadata = RawOk (JObj [''signup_channel'' \<mapsto> JStr ''web''])"

lemma register_records:
  assumes "email \<noteq> []" "name \<noteq> []" "ua_id act \<noteq> uuid_nil"
  shows "user_register (ue_event env n) (ue_now env n) email name act (set_id i new_user)
    = (None, \<lparr>agg_id = i, agg_version = 1, agg_uncommitted = [user_event env n i 1 (UserRegisteredEvent email name) act signup_metadata],
         u_email = email, u_name = name, u_registered = True\<rparr>)"
  using assms by (simp add: user_register_def user_actor_opts_def user_actor_is_set_def record_that_def fresh_envelope_def
      set_id_def new_user_def user_event_def with_metadata_def decoded_metadata_def signup_metadata_def zero_event_def)

lemma change_email_records:
  assumes "email \<noteq> []" "ua_id act \<noteq> uuid_nil" "u_registered u" "agg_uncommitted u = []"
  shows "user_change_email (ue_event env n) (ue_now env n) email act u
    = (None, u\<lparr>u_email := email, agg_version := agg_version u + 1,
         agg_uncommitted := [user_event env n (agg_id u) (agg_version u + 1) (UserEmailChangedEvent email) act RawNil]\<rparr>)"
  using assms by (simp add: user_change_email_def user_actor_opts_def user_actor_is_set_def record_that_def fresh_envelope_def
      user_event_def zero_event_def)

lemma request_erasure_records:
  assumes "ua_id act \<noteq> uuid_nil" "u_registered u" "agg_uncommitted u = []"
  shows "user_request_erasure (ue_event env n) (ue_now env n) act u
    = (None, u\<lparr>agg_version := agg_version u + 1,
         agg_uncommitted := [user_event env n (agg_id u) (agg_version u + 1) UserErasureRequestedEvent act RawNil]\<rparr>)"
  using assms by (simp add: user_request_erasure_def user_actor_opts_def user_actor_is_set_def record_that_def fresh_envelope_def
      user_event_def zero_event_def)

section \<open>A use case over a described log\<close>

abbreviation user_log :: "crypto \<Rightarrow> (uuid list \<Rightarrow> uuid list) \<Rightarrow> uuid set \<Rightarrow> domain_event list \<Rightarrow> user_world \<Rightarrow> bool" where
  "user_log c order F es w \<equiv> sealed_log (user_store c order) F es w"

abbreviation user_ops_of :: "crypto \<Rightarrow> (uuid list \<Rightarrow> uuid list) \<Rightarrow> user_world event_store_ops" where
  "user_ops_of c order \<equiv> pii_store_ops (user_store c order)"

lemma user_declared_of:
  "ev_name e = user_registered \<Longrightarrow> declared user_ops user_events e = [''email'']"
  "ev_name e = user_email_changed \<Longrightarrow> declared user_ops user_events e = [''email'']"
  "ev_name e = user_erasure_request \<Longrightarrow> declared user_ops user_events e = []"
  by (simp_all add: declared_def user_unmarshal_kind)

lemma not_erasing_user:
  "\<not> erasing user_ops user_events user_registered" "\<not> erasing user_ops user_events user_email_changed"
  using erasing_user [of user_registered] erasing_user [of user_email_changed] by (auto simp: user_event_names)

lemma saved:
  assumes "pii_commit cf [e] (agg_version u - 1) opts w = (None, es', w')" "agg_uncommitted u = [e]"
  shows "save_command (pii_store_ops cf) opts (None, u) w = (Inr (clear_events u), w')"
  using assms by (simp add: save_command_def repo_save_def)

text \<open>The stream an event of a user goes to.\<close>

lemma user_commit_key: "commit_key [WithTenant t] [user_event env n i v p act md] = (t, i)"
  by (simp add: commit_key_def aggregate_key_def stamp_tenant_def)

lemma user_event_committed:
  assumes log: "user_log c order F es w" and "crypto_ok c" "i \<notin> F"
    and p: "(\<exists>em nm. p = UserRegisteredEvent em nm) \<or> (\<exists>em. p = UserEmailChangedEvent em)"
    and v: "current_version (filter (\<lambda>e. aggregate_key e = (t, i)) es) = v"
  shows "\<exists>es' w'. pii_commit (user_store c order) [user_event env n i (v + 1) p act md] v [WithTenant t] w = (None, es', w')
    \<and> user_log c order F (es @ [stored_at [WithTenant t] (length es) (user_event env n i (v + 1) p act md)]) w'"
proof -
  let ?e = "user_event env n i (v + 1) p act md"
  have js: "js_ok c (JStr s)" for s using assms(2) by (simp add: crypto_ok_def)
  have "sealable_event user_ops user_events c ?e"
    using p js by (auto simp: sealable_event_def sealable_def user_declared_of split: if_splits)
  moreover have "\<not> erasing user_ops user_events (ev_name ?e)" using p not_erasing_user by auto
  moreover have "q \<notin> F" if "ev_pii_id ?e = Some q" for q using that assms(3) by simp
  ultimately show ?thesis
    using sealed_log_commit [OF log [unfolded user_store_plain], of ?e "[WithTenant t]" v] v
    unfolding user_store_plain user_commit_key by blast
qed

lemma erasure_committed_user:
  assumes log: "user_log c order F es w" and v: "current_version (filter (\<lambda>e. aggregate_key e = (t, i)) es) = v"
  shows "\<exists>es' w'. pii_commit (user_store c order) [user_event env n i (v + 1) UserErasureRequestedEvent act md] v [WithTenant t] w = (None, es', w')
    \<and> user_log c order (insert i F) (es @ [stored_at [WithTenant t] (length es) (user_event env n i (v + 1) UserErasureRequestedEvent act md)]) w'"
proof -
  let ?e = "user_event env n i (v + 1) UserErasureRequestedEvent act md"
  have no: "\<not> seals user_ops user_events ?e" by (simp add: seals_def user_declared_of)
  then have "sealable_event user_ops user_events c ?e" by (simp add: sealable_event_def)
  moreover have "payload_for (plain_pii user_ops user_events c order) ?e = Some UserErasureRequestedEvent"
    by (simp add: payload_for_def)
  ultimately show ?thesis
    using sealed_log_erase [OF log [unfolded user_store_plain], of ?e i UserErasureRequestedEvent "[WithTenant t]" v] v no
    unfolding user_store_plain user_commit_key by simp
qed

lemma load_user_none:
  assumes log: "user_log c order F es w" and "crypto_ok c"
    and "filter (\<lambda>e. aggregate_key e = (t, i)) es = []" "filter (\<lambda>e. aggregate_key e = (global_tenant_id, i)) es = []"
  shows "load_user (user_ops_of c order) i [WithTenant t] w = Inl ErrAggregateNotFound"
  using sealed_log_load [OF log [unfolded user_store_plain] assms(2) refl, of t i] assms(3,4)
  by (simp add: repo_load_def user_store_plain)

lemma reads_as_replay:
  assumes "reads_as cf F e y" "\<And>p. ev_pii_id e = Some p \<Longrightarrow> p \<notin> F"
  shows "replay_view y = replay_view e \<and> \<not> (\<not> ev_pii_unrecoverable e \<and> ev_pii_unrecoverable y)"
  using assms by (auto simp: reads_as_def replay_view_def seals_def split: if_splits)

text \<open>As long as its subject is known, a user is replayed from the events as they were recorded.\<close>

lemma load_user_known:
  assumes log: "user_log c order F es w" and "crypto_ok c" "i \<notin> F"
    and S: "filter (\<lambda>e. aggregate_key e = (t, i)) es = S" "S \<noteq> []" "\<forall>e \<in> set S. ev_pii_id e = Some i"
    and "load_from_history user_ops user_apply user_events S (set_id i new_user) = (None, u)"
  shows "load_user (user_ops_of c order) i [WithTenant t] w = Inr u"
proof -
  obtain ys where ys: "pii_load (user_store c order) i [WithTenant t] w = Inr ys" "ys \<noteq> []"
    "list_all2 (reads_as (plain_pii user_ops user_events c order) F) S ys"
    using sealed_log_load [OF log [unfolded user_store_plain] assms(2) refl, of t i] S by (auto simp: user_store_plain)
  from ys(3) S(3) have "map replay_view ys = map replay_view S"
  proof (induction rule: list_all2_induct)
    case (Cons e S y ys)
    then show ?case using reads_as_replay [OF Cons.hyps(1)] assms(3) by simp
  qed simp
  from trans [OF load_from_history_cong [OF this] assms(7)] ys(1,2) show ?thesis by (simp add: repo_load_def)
qed

text \<open>Registering a user that is not there, and changing the email of one that is.\<close>

lemma register_demo:
  assumes log: "user_log c order F es w" and "crypto_ok c" "i \<notin> F" "ua_id act \<noteq> uuid_nil" "email \<noteq> []" "name \<noteq> []"
    and none: "filter (\<lambda>e. aggregate_key e = (t, i)) es = []" "filter (\<lambda>e. aggregate_key e = (global_tenant_id, i)) es = []"
  shows "\<exists>w'. register_user (user_ops_of c order) (ue_event env n) (ue_now env n)
      \<lparr>ru_tenant_id = t, ru_user_id = i, ru_email = email, ru_name = name, ru_actor = act\<rparr> w
      = (Inr \<lparr>uv_id = i, uv_email = email, uv_name = name, uv_version = 1\<rparr>, w')
    \<and> user_log c order F (es @ [stored_at [WithTenant t] (length es)
        (user_event env n i 1 (UserRegisteredEvent email name) act signup_metadata)]) w'"
proof -
  let ?p = "UserRegisteredEvent email name"
  have "current_version (filter (\<lambda>e. aggregate_key e = (t, i)) es) = 0" by (simp add: none(1) current_version_def)
  from user_event_committed [OF log assms(2,3) _ this, of ?p env n act signup_metadata] obtain es' w'
    where c: "pii_commit (user_store c order) [user_event env n i 1 ?p act signup_metadata] 0 [WithTenant t] w = (None, es', w')"
    and l: "user_log c order F (es @ [stored_at [WithTenant t] (length es) (user_event env n i 1 ?p act signup_metadata)]) w'"
    by auto
  have "save_command (user_ops_of c order) [WithTenant t]
      (user_register (ue_event env n) (ue_now env n) email name act (set_id i new_user)) w
    = (Inr \<lparr>agg_id = i, agg_version = 1, agg_uncommitted = [], u_email = email, u_name = name, u_registered = True\<rparr>, w')"
    unfolding register_records [OF assms(5,6,4)] by (subst saved) (use c in \<open>simp_all add: clear_events_def\<close>)
  with l load_user_none [OF log assms(2) none] show ?thesis by (simp add: register_user_def to_view_def)
qed

lemma change_email_demo:
  assumes log: "user_log c order F es w" and "crypto_ok c" "i \<notin> F" "ua_id act \<noteq> uuid_nil" "email \<noteq> []"
    and S: "filter (\<lambda>e. aggregate_key e = (t, i)) es = S" "S \<noteq> []" "\<forall>e \<in> set S. ev_pii_id e = Some i"
    and replay: "load_from_history user_ops user_apply user_events S (set_id i new_user) = (None, u)"
    and u: "agg_id u = i" "agg_uncommitted u = []" "u_registered u" "agg_version u = current_version S"
  shows "\<exists>w'. change_email (user_ops_of c order) (ue_event env n) (ue_now env n)
      \<lparr>ce_tenant_id = t, ce_user_id = i, ce_email = email, ce_actor = act\<rparr> w
      = (Inr \<lparr>uv_id = i, uv_email = email, uv_name = u_name u, uv_version = agg_version u + 1\<rparr>, w')
    \<and> user_log c order F (es @ [stored_at [WithTenant t] (length es)
        (user_event env n i (agg_version u + 1) (UserEmailChangedEvent email) act RawNil)]) w'"
proof -
  let ?p = "UserEmailChangedEvent email" and ?v = "agg_version u"
  have "current_version (filter (\<lambda>e. aggregate_key e = (t, i)) es) = ?v" by (simp add: S(1) u(4))
  from user_event_committed [OF log assms(2,3) _ this, of ?p env n act RawNil] obtain es' w'
    where c: "pii_commit (user_store c order) [user_event env n i (?v + 1) ?p act RawNil] ?v [WithTenant t] w = (None, es', w')"
    and l: "user_log c order F (es @ [stored_at [WithTenant t] (length es) (user_event env n i (?v + 1) ?p act RawNil)]) w'"
    by auto
  let ?u = "u\<lparr>u_email := email, agg_version := ?v + 1, agg_uncommitted := [user_event env n i (?v + 1) ?p act RawNil]\<rparr>"
  have "save_command (user_ops_of c order) [WithTenant t] (user_change_email (ue_event env n) (ue_now env n) email act u) w
    = (Inr (clear_events ?u), w')"
    unfolding change_email_records [OF assms(5,4) u(3,2)] u(1) by (rule saved) (use c in simp_all)
  with l load_user_known [OF log assms(2,3) S replay] u show ?thesis
    by (simp add: change_email_def to_view_def clear_events_def)
qed

lemma forget_demo:
  assumes log: "user_log c order F es w" and "crypto_ok c" "i \<notin> F" "ua_id act \<noteq> uuid_nil"
    and S: "filter (\<lambda>e. aggregate_key e = (t, i)) es = S" "S \<noteq> []" "\<forall>e \<in> set S. ev_pii_id e = Some i"
    and replay: "load_from_history user_ops user_apply user_events S (set_id i new_user) = (None, u)"
    and u: "agg_id u = i" "agg_uncommitted u = []" "u_registered u" "agg_version u = current_version S"
  shows "\<exists>w'. forget_user (user_ops_of c order) (ue_event env n) (ue_now env n)
      \<lparr>fu_tenant_id = t, fu_user_id = i, fu_actor = act\<rparr> w = (None, w')
    \<and> user_log c order (insert i F) (es @ [stored_at [WithTenant t] (length es)
        (user_event env n i (agg_version u + 1) UserErasureRequestedEvent act RawNil)]) w'"
proof -
  let ?p = "UserErasureRequestedEvent" and ?v = "agg_version u"
  have "current_version (filter (\<lambda>e. aggregate_key e = (t, i)) es) = ?v" by (simp add: S(1) u(4))
  from erasure_committed_user [OF log this, of env n act RawNil] obtain es' w'
    where c: "pii_commit (user_store c order) [user_event env n i (?v + 1) ?p act RawNil] ?v [WithTenant t] w = (None, es', w')"
    and l: "user_log c order (insert i F) (es @ [stored_at [WithTenant t] (length es) (user_event env n i (?v + 1) ?p act RawNil)]) w'"
    by auto
  let ?u = "u\<lparr>agg_version := ?v + 1, agg_uncommitted := [user_event env n i (?v + 1) ?p act RawNil]\<rparr>"
  have "save_command (user_ops_of c order) [WithTenant t] (user_request_erasure (ue_event env n) (ue_now env n) act u) w
    = (Inr (clear_events ?u), w')"
    unfolding request_erasure_records [OF assms(4) u(3,2)] u(1) by (rule saved) (use c in simp_all)
  with l load_user_known [OF log assms(2,3) S replay] show ?thesis by (simp add: forget_user_def)
qed

section \<open>The worker and the wait\<close>

text \<open>Events the projector takes, whatever the read model holds.\<close>

definition projectable :: "domain_event \<Rightarrow> bool" where
  "projectable e \<longleftrightarrow> pattern_matches all_user_events (ev_name e) \<and> (\<forall>m. fst (user_project e m) = None)"

abbreviation project_all :: "domain_event list \<Rightarrow> user_views \<Rightarrow> user_views" where
  "project_all es m \<equiv> fold (\<lambda>e m. snd (user_project e m)) es m"

lemma user_dispatch:
  assumes "projectable e" "notifier_notify e n = Inr n'"
  shows "\<exists>started. dispatch user_dispatcher e ((m, x), n) = (None, started, (snd (user_project e m), x), n')"
proof -
  obtain m' where p: "pattern_matches all_user_events (ev_name e)" "user_project e m = (None, m')"
    using assms(1) unfolding projectable_def by (metis prod.collapse)
  have "pattern_matches ''*'' (ev_name e)" by (simp add: pattern_matches_iff)
  with p assms(2) show ?thesis
    unfolding dispatch_eq user_dispatcher_def subscribe_listener_def
    by (simp add: get_listeners_register new_dispatcher_def welcome_email_reactor_def new_reactor_def Let_def
        user_projector_def new_projector_def notifier_listener_def on_fst_def on_snd_def split: prod.split)
qed

lemma user_dispatch_all:
  assumes "\<forall>e \<in> set es. projectable e" "notifier_run (map Notify es) n = Inr (chs, n')"
  shows "dispatch_all user_dispatcher es ((m, x), n) = ((project_all es m, x), n')"
  using assms
proof (induction es arbitrary: m n)
  case (Cons e es)
  from Cons.prems(2) obtain n1 where n1: "notifier_notify e n = Inr n1" "notifier_run (map Notify es) n1 = Inr (chs, n')"
    by (auto split: sum.splits)
  from user_dispatch [OF _ n1(1), of m x] Cons.prems(1) Cons.IH [OF _ n1(2)] show ?case by auto
qed simp

abbreviation for_users :: "domain_event \<Rightarrow> bool" where
  "for_users e \<equiv> pattern_matches all_user_events (ev_name e)"

lemma rebuild_views_loop_eq:
  assumes "\<forall>e \<in> set es. for_users e \<longrightarrow> projectable e"
  shows "rebuild_views_loop es m = Inr (project_all (filter for_users es) m)"
  using assms
proof (induction es arbitrary: m)
  case (Cons e es)
  show ?case
  proof (cases "for_users e")
    case True
    then obtain m' where "user_project e m = (None, m')"
      using Cons.prems unfolding projectable_def by (metis list.set_intros(1) prod.collapse)
    then have "\<exists>started. dispatch rebuilt_user_dispatcher e m = (None, started, snd (user_project e m))"
      using True unfolding dispatch_eq rebuilt_user_dispatcher_def subscribe_listener_def
      by (simp add: get_listeners_register new_dispatcher_def user_projector_def new_projector_def Let_def split: prod.split)
    with Cons True show ?thesis by auto
  next
    case False
    then have "\<exists>started. dispatch rebuilt_user_dispatcher e m = (None, started, m)"
      unfolding dispatch_eq rebuilt_user_dispatcher_def subscribe_listener_def
      by (simp add: get_listeners_register new_dispatcher_def Let_def)
    with Cons False show ?thesis by auto
  qed
qed simp

lemma wait_and_query_eq:
  assumes "\<forall>e \<in> set (pre @ mid). projectable e"
  shows "wait_and_query i v pre mid
    = (v = 0 \<or> (\<exists>e \<in> set (pre @ mid). ev_aggregate_id e = i \<and> v \<le> ev_aggregate_version e), project_all (pre @ mid) views_new i)"
proof -
  obtain chs n1 ch n2 chs' n3 where n: "notifier_run (map Notify pre) new_notifier = Inr (chs, n1)"
    "notifier_subscribe i v n1 = (ch, n2)" "notifier_run (map Notify mid) n2 = Inr (chs', n3)"
    "ch \<in> nt_closed n3 \<longleftrightarrow> v = 0 \<or> projected_through (map Notify pre @ map Notify mid) i v"
    using notifier_wakes [of "map Notify pre" i v "map Notify mid"] by metis
  moreover have "projected_through (map Notify pre @ map Notify mid) i v
      \<longleftrightarrow> (\<exists>e \<in> set (pre @ mid). ev_aggregate_id e = i \<and> v \<le> ev_aggregate_version e)"
    by (auto simp: projected_through_def)
  ultimately show ?thesis
    using assms by (simp add: wait_and_query_def user_dispatch_all [OF _ n(1)] user_dispatch_all [OF _ n(3)])
qed

text \<open>What the projector makes of the events of a user.\<close>

lemma projects_registered:
  assumes "ev_name e = user_registered" "ev_payload e = RawOk (JObj j)" "j ''email'' = Some (JStr em)" "j ''name'' = Some (JStr nm)"
  shows "user_project e m = (None, m(ev_aggregate_id e \<mapsto> \<lparr>uv_id = ev_aggregate_id e,
     uv_email = (if ev_pii_unrecoverable e then erased_text else em), uv_name = nm, uv_version = ev_aggregate_version e\<rparr>))"
proof -
  have upd: "v\<lparr>uv_id := i, uv_version := n, uv_email := x, uv_name := y\<rparr> = \<lparr>uv_id = i, uv_email = x, uv_name = y, uv_version = n\<rparr>"
    for v :: user_view and i n x y by (cases v) simp
  show ?thesis unfolding user_project_def Let_def views_upsert_def using assms by (simp add: struct_field_def upd)
qed

lemma projects_changed:
  assumes "ev_name e = user_email_changed" "ev_payload e = RawOk (JObj j)" "j ''email'' = Some (JStr em)"
  shows "user_project e m = (None, m(ev_aggregate_id e \<mapsto> (case m (ev_aggregate_id e) of None \<Rightarrow> zero_view | Some v \<Rightarrow> v)
     \<lparr>uv_id := ev_aggregate_id e, uv_version := ev_aggregate_version e,
      uv_email := (if ev_pii_unrecoverable e then erased_text else em)\<rparr>))"
  using assms by (simp add: user_project_def Let_def views_upsert_def struct_field_def user_event_names split: option.split)

lemma projects_erasure:
  assumes "ev_name e = user_erasure_request"
  shows "user_project e m = (None, m(ev_aggregate_id e \<mapsto> (case m (ev_aggregate_id e) of None \<Rightarrow> zero_view | Some v \<Rightarrow> v)
     \<lparr>uv_id := ev_aggregate_id e, uv_version := ev_aggregate_version e\<rparr>))"
  using assms by (simp add: user_project_def Let_def views_upsert_def user_event_names split: option.split)

lemma user_names_match:
  "pattern_matches all_user_events user_registered" "pattern_matches all_user_events user_email_changed"
  "pattern_matches all_user_events user_erasure_request"
  by (simp_all add: all_user_events_def user_event_names pattern_matches_def cut_suffix_def has_prefix_def)

lemmas projectable_intros = projects_registered projects_changed projects_erasure user_names_match

section \<open>What is left of a forgotten user\<close>

lemma sealed_email:
  assumes "sealed c key [''email''] e x" "ev_payload e = RawOk (JObj m)" "m ''email'' = Some j"
  shows "\<exists>m' t. x = e\<lparr>ev_payload := RawOk (JObj m'), ev_pii_fields := RawOk (manifest_json [''email''])\<rparr>
    \<and> m' ''email'' = Some (JStr t) \<and> CHR ''@'' \<notin> set t \<and> (\<forall>f. f \<noteq> ''email'' \<longrightarrow> m' f = m f)"
proof -
  from sealed_payload [OF assms(1,2)] obtain m' r r' where m': "seal_fields c key [''email''] (Some m) r = (Inr (Some m'), r')"
    "x = e\<lparr>ev_payload := RawOk (JObj m'), ev_pii_fields := RawOk (manifest_json [''email''])\<rparr>" .
  from seal_fields_cipher [OF m'(1) _ assms(3)] obtain j' where "m' ''email'' = Some j'" "cipher_text c key j'" by auto
  then obtain bs where "m' ''email'' = Some (JStr (b64_encode bs))" by (auto simp: cipher_text_def)
  moreover have "m' f = m f" if "f \<noteq> ''email''" for f using seal_fields_other [OF m'(1), of f] that by simp
  ultimately show ?thesis using m'(2) b64_encode_no_at by blast
qed

section \<open>The log of the program\<close>

text \<open>The five events of \<^verbatim>\<open>main\<close> as they are stored.\<close>

definition ann_registered :: "user_env \<Rightarrow> domain_event" where
  "ann_registered env = stored_at [WithTenant (ue_tenant_a env)] 0 (user_event env 0 (ue_user env) 1
     (UserRegisteredEvent ''ann@example.com'' ''Ann'') (ann_actor env) signup_metadata)"

definition bob_registered :: "user_env \<Rightarrow> domain_event" where
  "bob_registered env = stored_at [WithTenant (ue_tenant_b env)] 1 (user_event env 1 (ue_bob env) 1
     (UserRegisteredEvent ''bob@example.com'' ''Bob'') \<lparr>ua_id = ue_bob_actor env, ua_type = ''customer''\<rparr> signup_metadata)"

definition ann_changed :: "user_env \<Rightarrow> domain_event" where
  "ann_changed env = stored_at [WithTenant (ue_tenant_a env)] 2 (user_event env 2 (ue_user env) 2
     (UserEmailChangedEvent ''ann.new@example.com'') (ann_actor env) RawNil)"

definition catalog_added :: "user_env \<Rightarrow> domain_event" where
  "catalog_added env = stored_at [] 3 (catalog_event env)"

definition ann_erased :: "user_env \<Rightarrow> domain_event" where
  "ann_erased env = stored_at [WithTenant (ue_tenant_a env)] 4 (user_event env 4 (ue_user env) 3 UserErasureRequestedEvent
     \<lparr>ua_id = ue_admin env, ua_type = ''admin''\<rparr> RawNil)"

lemmas demo_event_defs = ann_registered_def bob_registered_def ann_changed_def catalog_added_def ann_erased_def

abbreviation demo_log :: "user_env \<Rightarrow> domain_event list" where
  "demo_log env \<equiv> [ann_registered env, bob_registered env, ann_changed env]"

abbreviation demo_log_end :: "user_env \<Rightarrow> domain_event list" where
  "demo_log_end env \<equiv> demo_log env @ [catalog_added env, ann_erased env]"

lemma stored_user_key [simp]:
  "aggregate_key (stored_at [WithTenant t] n (user_event env m i v p act md)) = (t, i)"
  "ev_tenant_id (stored_at [WithTenant t] n (user_event env m i v p act md)) = t"
  by (simp_all add: aggregate_key_def stored_at_def stamp_tenant_def)

lemma catalog_sel [simp]:
  "ev_name (catalog_event env) = ''example.GlobalCatalogEntryAdded''" "ev_pii_id (catalog_event env) = None"
  "ev_pii_fields (catalog_event env) = RawNil" "\<not> ev_pii_unrecoverable (catalog_event env)"
  "aggregate_key (stored_at [] n (catalog_event env)) = (global_tenant_id, ue_catalog env)"
  "ev_tenant_id (stored_at [] n (catalog_event env)) = global_tenant_id"
  "ev_aggregate_version (catalog_event env) = 1"
  by (simp_all add: catalog_event_def zero_event_def aggregate_key_def stored_at_def stamp_tenant_def global_tenant_id_def)

lemma demo_keys [simp]:
  "aggregate_key (ann_registered env) = (ue_tenant_a env, ue_user env)"
  "aggregate_key (bob_registered env) = (ue_tenant_b env, ue_bob env)"
  "aggregate_key (ann_changed env) = (ue_tenant_a env, ue_user env)"
  "aggregate_key (catalog_added env) = (global_tenant_id, ue_catalog env)"
  "aggregate_key (ann_erased env) = (ue_tenant_a env, ue_user env)"
  by (simp_all add: demo_event_defs)

text \<open>Nothing is asked of the ids but that they are what \<^verbatim>\<open>uuid.New\<close> is for: distinct, and none is nil.\<close>

definition env_ok :: "user_env \<Rightarrow> bool" where
  "env_ok env \<longleftrightarrow> distinct [uuid_nil, ue_tenant_a env, ue_tenant_b env] \<and> distinct [ue_user env, ue_bob env, ue_catalog env]
     \<and> uuid_nil \<notin> {ue_user env, ue_bob_actor env, ue_admin env}"

lemma tenants_of:
  "ev_tenant_id (ann_registered env) = ue_tenant_a env" "ev_tenant_id (bob_registered env) = ue_tenant_b env"
  "ev_tenant_id (ann_changed env) = ue_tenant_a env" "ev_tenant_id (ann_erased env) = ue_tenant_a env"
  "ev_tenant_id (catalog_added env) = global_tenant_id"
  by (simp_all add: demo_event_defs)

lemma env_okD:
  assumes "env_ok env"
  shows "ue_tenant_a env \<noteq> global_tenant_id" "ue_tenant_b env \<noteq> global_tenant_id" "ue_tenant_a env \<noteq> ue_tenant_b env"
    "ue_tenant_b env \<noteq> ue_tenant_a env" "global_tenant_id \<noteq> ue_tenant_a env" "global_tenant_id \<noteq> ue_tenant_b env"
    "ue_user env \<noteq> ue_bob env" "ue_user env \<noteq> ue_catalog env" "ue_catalog env \<noteq> ue_user env" "ue_bob env \<noteq> ue_catalog env"
    "ue_bob env \<noteq> ue_user env" "ue_catalog env \<noteq> ue_bob env"
    "ue_user env \<noteq> uuid_nil" "ue_bob_actor env \<noteq> uuid_nil" "ue_admin env \<noteq> uuid_nil"
  using assms by (auto simp: env_ok_def global_tenant_id_def)

text \<open>Replaying them, as they were recorded.\<close>

lemma replays:
  "load_from_history user_ops user_apply user_events [ann_registered env] (set_id (ue_user env) new_user)
     = (None, \<lparr>agg_id = ue_user env, agg_version = 1, agg_uncommitted = [], u_email = ''ann@example.com'', u_name = ''Ann'',
         u_registered = True\<rparr>)"
  "load_from_history user_ops user_apply user_events [ann_registered env, ann_changed env] (set_id (ue_user env) new_user)
     = (None, \<lparr>agg_id = ue_user env, agg_version = 2, agg_uncommitted = [], u_email = ''ann.new@example.com'', u_name = ''Ann'',
         u_registered = True\<rparr>)"
  by (simp_all add: demo_event_defs struct_field_def set_id_def new_user_def set_version_def)

section \<open>The writes\<close>

lemma user_log_root: "pw_store w = mem_new \<Longrightarrow> pw_keys w = mem_keyring_new \<Longrightarrow> user_log c order {} [] w"
  by (rule sealed_log_new)

lemma first_writes:
  assumes root: "pw_store w = mem_new" "pw_keys w = mem_keyring_new" and "crypto_ok c" and env: "env_ok env"
  obtains w1 w2 w3 bob where
    "register_ann (user_ops_of c order) env w = (Inr \<lparr>uv_id = ue_user env, uv_email = ''ann@example.com'', uv_name = ''Ann'', uv_version = 1\<rparr>, w1)"
    "isolation (user_ops_of c order) env w1 = Inr True"
    "register_bob (user_ops_of c order) env w1 = (Inr bob, w2)"
    "change_ann (user_ops_of c order) env w2
      = (Inr \<lparr>uv_id = ue_user env, uv_email = ''ann.new@example.com'', uv_name = ''Ann'', uv_version = 2\<rparr>, w3)"
    "user_log c order {} (demo_log env) w3"
proof -
  note ok = env_okD [OF env]
  obtain w1 where w1: "register_ann (user_ops_of c order) env w
      = (Inr \<lparr>uv_id = ue_user env, uv_email = ''ann@example.com'', uv_name = ''Ann'', uv_version = 1\<rparr>, w1)"
    "user_log c order {} [ann_registered env] w1"
    using register_demo [OF user_log_root [OF root] assms(3), of "ue_user env" "ann_actor env" "''ann@example.com''" "''Ann''" "ue_tenant_a env" order env 0] ok
    by (auto simp: register_ann_def ann_actor_def ann_registered_def)
  have "load_user (user_ops_of c order) (ue_user env) [WithTenant (ue_tenant_b env)] w1 = Inl ErrAggregateNotFound"
    by (rule load_user_none [OF w1(2) assms(3)]) (simp_all add: ok)
  then have iso: "isolation (user_ops_of c order) env w1 = Inr True" by (simp add: isolation_def)
  obtain bob w2 where w2: "register_bob (user_ops_of c order) env w1 = (Inr bob, w2)"
    "user_log c order {} [ann_registered env, bob_registered env] w2"
    using register_demo [OF w1(2) assms(3), of "ue_bob env" "\<lparr>ua_id = ue_bob_actor env, ua_type = ''customer''\<rparr>" "''bob@example.com''" "''Bob''" "ue_tenant_b env" env 1] ok
    by (auto simp: register_bob_def bob_registered_def)
  have S: "filter (\<lambda>e. aggregate_key e = (ue_tenant_a env, ue_user env)) [ann_registered env, bob_registered env] = [ann_registered env]"
    by (simp add: ok)
  have "\<forall>e \<in> set [ann_registered env]. ev_pii_id e = Some (ue_user env)" by (simp add: ann_registered_def)
  from change_email_demo [OF w2(2) assms(3) _ _ _ S _ this replays(1), of "ann_actor env" "''ann.new@example.com''" env 2] ok
  obtain w3 where w3: "change_ann (user_ops_of c order) env w2
      = (Inr \<lparr>uv_id = ue_user env, uv_email = ''ann.new@example.com'', uv_name = ''Ann'', uv_version = 2\<rparr>, w3)"
    "user_log c order {} (demo_log env) w3"
    by (auto simp: change_ann_def ann_actor_def ann_changed_def current_version_def ann_registered_def numeral_2_eq_2)
  from that [OF w1(1) iso w2(1) w3] show thesis .
qed

section \<open>The reads\<close>

lemma sealed_log_raw:
  assumes log: "sealed_log cf F es w" and S: "filter (\<lambda>e. aggregate_key e = (t, i)) es = S" "S \<noteq> []"
  shows "\<exists>kh xs. mem_load i [WithTenant t] (pw_store w) = Inr xs \<and> list_all2 (seal_of cf kh) S xs"
proof -
  obtain kh where "list_all2 (seal_of cf kh) es (ms_all (pw_store w))" using log by (auto simp: sealed_log_def)
  from seal_of_filter [OF this, of "\<lambda>x. aggregate_key x = (t, i)"] S(1)
  have xs: "list_all2 (seal_of cf kh) S (filter (\<lambda>x. aggregate_key x = (t, i)) (ms_all (pw_store w)))"
    by (simp add: seal_of_sel(1))
  then have "filter (\<lambda>x. aggregate_key x = (t, i)) (ms_all (pw_store w)) \<noteq> []" using S(2) by auto
  with xs show ?thesis by (auto simp: mem_load_def sealed_log_streams [OF log] resolve_store_config_def Let_def)
qed

definition email_sealed :: "raw \<Rightarrow> bool" where
  "email_sealed r \<longleftrightarrow> (\<exists>m t. r = RawOk (JObj m) \<and> m ''email'' = Some (JStr t) \<and> CHR ''@'' \<notin> set t)"

lemma at_rest_demo:
  assumes log: "user_log c order {} (demo_log env) w" and env: "env_ok env"
  shows "\<exists>r. read_at_rest env (pw_store w) = Inr r \<and> email_sealed (ar_payload r)
    \<and> ar_actor_id r = ue_user env \<and> ar_actor_type r = ''customer'' \<and> ar_metadata r = signup_metadata"
proof -
  have "filter (\<lambda>e. aggregate_key e = (ue_tenant_a env, ue_user env)) (demo_log env) = [ann_registered env, ann_changed env]"
    by (simp add: env_okD [OF env])
  from sealed_log_raw [OF log this] obtain kh x y where xs: "mem_load (ue_user env) [WithTenant (ue_tenant_a env)] (pw_store w) = Inr [x, y]"
    "seal_of (user_store c order) kh (ann_registered env) x" "seal_of (user_store c order) kh (ann_changed env) y"
    by (auto simp: list_all2_Cons1)
  have "seals user_ops user_events (ann_changed env)" "declared user_ops user_events (ann_changed env) = [''email'']"
    by (simp_all add: seals_def user_declared_of ann_changed_def)
  with xs(3) obtain key where "sealed c key [''email''] (ann_changed env) y" by (auto simp: seal_of_def user_store_plain)
  from sealed_email [OF this, of "[''email'' \<mapsto> JStr ''ann.new@example.com'']"] have "email_sealed (ev_payload y)"
    by (auto simp: ann_changed_def email_sealed_def)
  then show ?thesis
    using seal_of_sel [OF xs(2)] by (simp add: read_at_rest_def xs(1) ann_registered_def ann_actor_def)
qed

lemma opened_prefix_all: "open_all cf xs k = Inr ys \<Longrightarrow> opened_prefix cf xs k = ys"
  by (induction xs arbitrary: ys) (auto split: sum.splits)

text \<open>An event of a subject that is known reads as it was recorded, but for the manifest.\<close>

lemma reads_known:
  assumes "reads_as cf {} e y"
  shows "\<exists>f. y = e\<lparr>ev_pii_fields := f\<rparr>"
proof (cases "seals (pc_ops cf) (pc_registry cf) e")
  case True
  with assms show ?thesis by (auto simp: reads_as_def)
next
  case False
  with assms have "y = e\<lparr>ev_pii_fields := ev_pii_fields e\<rparr>" by (simp add: reads_as_def)
  then show ?thesis by blast
qed

lemma query_demo:
  assumes log: "user_log c order {} (demo_log env) w" and "crypto_ok c" and env: "env_ok env"
    and q: "wait_and_query (ue_user env) 2 (take n1 feed) (take n2 (drop n1 feed)) = (ready, view)"
    and feed: "feed = opened_prefix (user_store c order) (visible_log [] (pw_store w)) (pw_keys w)"
  shows "(ready \<longleftrightarrow> 3 \<le> n1 + n2) \<and> (ready \<longrightarrow> view = Some \<lparr>uv_id = ue_user env, uv_email = ''ann.new@example.com'', uv_name = ''Ann'', uv_version = 2\<rparr>)"
proof -
  have "filter (visible (resolve_store_config [])) (demo_log env) = demo_log env" by (simp add: visible_def)
  with sealed_log_open [OF log [unfolded user_store_plain] assms(2), of "visible (resolve_store_config [])"]
  obtain ys where ys: "open_all (user_store c order) (visible_log [] (pw_store w)) (pw_keys w) = Inr ys"
    "list_all2 (reads_as (user_store c order) {}) (demo_log env) ys"
    by (auto simp: seal_of_sel(2) user_store_plain)
  then obtain f1 f2 f3 where f: "feed = [(ann_registered env)\<lparr>ev_pii_fields := f1\<rparr>, (bob_registered env)\<lparr>ev_pii_fields := f2\<rparr>,
      (ann_changed env)\<lparr>ev_pii_fields := f3\<rparr>]"
    unfolding feed opened_prefix_all [OF ys(1)] by (auto simp: list_all2_Cons1 dest!: reads_known)
  have p: "\<forall>e \<in> set feed. projectable e"
    unfolding f by (auto simp: projectable_def demo_event_defs projectable_intros)
  have seen: "take n1 feed @ take n2 (drop n1 feed) = take (n1 + n2) feed" by (simp add: take_add)
  have "\<forall>e \<in> set (take n1 feed @ take n2 (drop n1 feed)). projectable e"
    using p set_take_subset [of "n1 + n2" feed] unfolding seen by blast
  from wait_and_query_eq [OF this, of "ue_user env" 2] q
  have r: "ready = (\<exists>e \<in> set (take (n1 + n2) feed). ev_aggregate_id e = ue_user env \<and> 2 \<le> ev_aggregate_version e)"
    "view = project_all (take (n1 + n2) feed) views_new (ue_user env)" unfolding seen by auto
  show ?thesis
  proof (cases "3 \<le> n1 + n2")
    case True
    then have all: "take (n1 + n2) feed = feed" by (simp add: f)
    show ?thesis unfolding r all using True env_okD [OF env]
      by (simp add: f demo_event_defs projectable_intros views_new_def)
  next
    case False
    then have "n1 + n2 \<in> {0, 1, 2}" by auto
    moreover have "\<not> (2 :: u64) \<le> 1" by (simp add: word_le_nat_alt)
    ultimately show ?thesis unfolding r using False env_okD [OF env] by (auto simp: f demo_event_defs)
  qed
qed

text \<open>The operator's report counts what is visible.\<close>

lemma sealed_log_report:
  assumes log: "sealed_log (plain_pii ops reg c order) F es w" and "crypto_ok c" "length es \<le> 1000"
  shows "\<exists>ys. pii_fetch_after (plain_pii ops reg c order) 0 1000 opts w = Inr ys
    \<and> length ys = length (filter (visible (resolve_store_config opts)) es)"
proof -
  let ?vis = "filter (visible (resolve_store_config opts))" and ?s = "pw_store w"
  have len: "length (ms_all ?s) = length es" by (rule sealed_log_length [OF log])
  have inv: "mem_feed_inv ?s" using log assms(3) len by (simp add: mem_feed_inv_def sealed_log_def mem_inv_def)
  have "after 0 (?vis (ms_all ?s)) = ?vis (ms_all ?s)"
    unfolding after_def by (intro filter_True) (auto intro: mem_feed_positive [OF inv])
  moreover have "length (?vis (ms_all ?s)) \<le> 1000" using length_filter_le [of "visible (resolve_store_config opts)" "ms_all ?s"] len assms(3) by simp
  ultimately have "mem_fetch_after 0 1000 opts ?s = Inr (?vis (ms_all ?s))" by (simp add: mem_fetch_after_eq)
  moreover obtain ys where "open_all (plain_pii ops reg c order) (?vis (ms_all ?s)) (pw_keys w) = Inr ys"
    "list_all2 (reads_as (plain_pii ops reg c order) F) (?vis es) ys"
    using sealed_log_open [OF log assms(2), of "visible (resolve_store_config opts)"] by (auto simp: seal_of_sel(2))
  ultimately show ?thesis by (auto simp: pii_fetch_after_def dest: list_all2_lengthD)
qed

lemma report_demo:
  assumes log: "user_log c order {} (demo_log env) w" and "crypto_ok c" and env: "env_ok env"
  shows "operator_report (user_ops_of c order) env w = Inr (3, 2)"
proof -
  have "length (filter (visible (resolve_store_config [WithTenant (ue_tenant_a env)])) (demo_log env)) = 2"
    "length (filter (visible (resolve_store_config [WithAllTenants])) (demo_log env)) = 3"
    by (simp_all add: visible_def tenants_of env_okD [OF env])
  moreover have "length (demo_log env) \<le> 1000" by simp
  note rep = sealed_log_report [OF log [unfolded user_store_plain] assms(2) this]
  ultimately show ?thesis
    using rep [of "[WithTenant (ue_tenant_a env)]"] rep [of "[WithAllTenants]"]
    by (auto simp: operator_report_def user_store_plain)
qed

section \<open>The entry of all tenants, and the erasure\<close>

lemma catalog_demo:
  assumes log: "user_log c order {} (demo_log env) w" and "crypto_ok c" and env: "env_ok env"
  shows "\<exists>w'. add_catalog_entry (user_ops_of c order) env w = Inr w'
    \<and> user_log c order {} (demo_log env @ [catalog_added env]) w'
    \<and> sees_catalog_entry (user_ops_of c order) env (ue_tenant_a env) w' = Inr True
    \<and> sees_catalog_entry (user_ops_of c order) env (ue_tenant_b env) w' = Inr True"
proof -
  let ?e = "catalog_event env"
  have "sealable_event user_ops user_events c ?e" by (simp add: sealable_event_def seals_def)
  moreover have "\<not> erasing user_ops user_events (ev_name ?e)"
    using erasing_user [of "ev_name ?e"] by (auto simp: user_event_names)
  moreover have "commit_key [] [?e] = (global_tenant_id, ue_catalog env)"
    by (simp add: commit_key_def aggregate_key_def stamp_tenant_def catalog_event_def zero_event_def global_tenant_id_def)
  then have "current_version (filter (\<lambda>x. aggregate_key x = commit_key [] [?e]) (demo_log env)) = 0"
    using env_okD [OF env] by (simp add: current_version_def)
  ultimately obtain es' w' where c: "pii_commit (user_store c order) [?e] 0 [] w = (None, es', w')"
    and log': "user_log c order {} (demo_log env @ [catalog_added env]) w'"
    using sealed_log_commit [OF log [unfolded user_store_plain], of ?e "[]" 0]
    by (auto simp: user_store_plain catalog_added_def numeral_3_eq_3)
  have "sees_catalog_entry (user_ops_of c order) env t w' = Inr True" if "t \<in> {ue_tenant_a env, ue_tenant_b env}" for t
    using sealed_log_load [OF log' [unfolded user_store_plain] assms(2) refl, of t "ue_catalog env"] that env_okD [OF env]
    by (auto simp: sees_catalog_entry_def user_store_plain list_all2_Cons1)
  with c log' show ?thesis by (simp add: add_catalog_entry_def)
qed

text \<open>An event whose subject was forgotten reads as ciphertext, marked.\<close>

lemma reads_forgotten:
  assumes "reads_as (user_store c order) F e y" "declared user_ops user_events e = [''email'']" "ev_pii_id e = Some p" "p \<in> F"
    and "ev_payload e = RawOk (JObj m)" "m ''email'' = Some j"
  shows "\<exists>m' t. y = e\<lparr>ev_payload := RawOk (JObj m'), ev_pii_fields := RawOk (manifest_json [''email'']), ev_pii_unrecoverable := True\<rparr>
    \<and> m' ''email'' = Some (JStr t) \<and> CHR ''@'' \<notin> set t \<and> (\<forall>f. f \<noteq> ''email'' \<longrightarrow> m' f = m f)"
proof -
  have "seals user_ops user_events e" using assms(2,3) by (simp add: seals_def)
  with assms(1-4) obtain key x where x: "sealed c key [''email''] e x" "y = x\<lparr>ev_pii_unrecoverable := True\<rparr>"
    by (auto simp: reads_as_def user_store_plain)
  from sealed_email [OF x(1) assms(5,6)] x(2) show ?thesis by auto
qed

lemma catalog_not_for_users: "\<not> pattern_matches all_user_events ''example.GlobalCatalogEntryAdded''"
  by (simp add: all_user_events_def pattern_matches_def cut_suffix_def has_prefix_def)

lemma ann_events_forgotten:
  assumes "reads_as (user_store c order) {ue_user env} (ann_registered env) y0"
    and "reads_as (user_store c order) {ue_user env} (ann_changed env) y2"
    and "reads_as (user_store c order) {ue_user env} (ann_erased env) y4"
  obtains m0 t0 m2 t2 f g where
    "y0 = (ann_registered env)\<lparr>ev_payload := RawOk (JObj m0), ev_pii_fields := f, ev_pii_unrecoverable := True\<rparr>"
    "m0 ''email'' = Some (JStr t0)" "m0 ''name'' = Some (JStr ''Ann'')"
    "y2 = (ann_changed env)\<lparr>ev_payload := RawOk (JObj m2), ev_pii_fields := g, ev_pii_unrecoverable := True\<rparr>"
    "m2 ''email'' = Some (JStr t2)" "CHR ''@'' \<notin> set t2" "y4 = ann_erased env"
proof -
  obtain m0 t0 where "y0 = (ann_registered env)\<lparr>ev_payload := RawOk (JObj m0),
      ev_pii_fields := RawOk (manifest_json [''email'']), ev_pii_unrecoverable := True\<rparr>"
    "m0 ''email'' = Some (JStr t0)" "m0 ''name'' = Some (JStr ''Ann'')"
    using reads_forgotten [OF assms(1), of "ue_user env" "[''email'' \<mapsto> JStr ''ann@example.com'', ''name'' \<mapsto> JStr ''Ann'']"]
    by (auto simp: ann_registered_def user_declared_of)
  moreover obtain m2 t2 where "y2 = (ann_changed env)\<lparr>ev_payload := RawOk (JObj m2),
      ev_pii_fields := RawOk (manifest_json [''email'']), ev_pii_unrecoverable := True\<rparr>"
    "m2 ''email'' = Some (JStr t2)" "CHR ''@'' \<notin> set t2"
    using reads_forgotten [OF assms(2), of "ue_user env" "[''email'' \<mapsto> JStr ''ann.new@example.com'']"]
    by (auto simp: ann_changed_def user_declared_of)
  moreover have "y4 = ann_erased env"
    using assms(3) by (simp add: reads_as_def user_store_plain seals_def user_declared_of ann_erased_def)
  ultimately show thesis using that by blast
qed

text \<open>Replayed and projected, they keep the name and the versions, and nothing of the email.\<close>

lemma ann_forgotten:
  assumes "reads_as (user_store c order) {ue_user env} (ann_registered env) y0"
    and "reads_as (user_store c order) {ue_user env} (ann_changed env) y2"
    and "reads_as (user_store c order) {ue_user env} (ann_erased env) y4"
  shows "\<exists>u. load_from_history user_ops user_apply user_events [y0, y2, y4] (set_id (ue_user env) new_user) = (None, u)
      \<and> u_name u = ''Ann'' \<and> agg_version u = 3 \<and> CHR ''@'' \<notin> set (u_email u)"
    "\<forall>e \<in> {y0, y2, y4}. for_users e \<and> projectable e"
    "project_all [y0, y2, y4] views_new (ue_user env)
      = Some \<lparr>uv_id = ue_user env, uv_email = ''[erased]'', uv_name = ''Ann'', uv_version = 3\<rparr>"
proof -
  obtain m0 t0 m2 t2 f g where y: "y0 = (ann_registered env)\<lparr>ev_payload := RawOk (JObj m0), ev_pii_fields := f, ev_pii_unrecoverable := True\<rparr>"
    "m0 ''email'' = Some (JStr t0)" "m0 ''name'' = Some (JStr ''Ann'')"
    "y2 = (ann_changed env)\<lparr>ev_payload := RawOk (JObj m2), ev_pii_fields := g, ev_pii_unrecoverable := True\<rparr>"
    "m2 ''email'' = Some (JStr t2)" "CHR ''@'' \<notin> set t2" "y4 = ann_erased env"
    by (rule ann_events_forgotten [OF assms])
  show "\<exists>u. load_from_history user_ops user_apply user_events [y0, y2, y4] (set_id (ue_user env) new_user) = (None, u)
      \<and> u_name u = ''Ann'' \<and> agg_version u = 3 \<and> CHR ''@'' \<notin> set (u_email u)"
    using y(2,3,5,6) by (simp add: y(1,4,7) demo_event_defs struct_field_def set_id_def new_user_def set_version_def)
  show "\<forall>e \<in> {y0, y2, y4}. for_users e \<and> projectable e"
    using y(2,3,5) by (auto simp: y(1,4,7) demo_event_defs projectable_def projectable_intros)
  show "project_all [y0, y2, y4] views_new (ue_user env)
      = Some \<lparr>uv_id = ue_user env, uv_email = ''[erased]'', uv_name = ''Ann'', uv_version = 3\<rparr>"
    using y(2,3,5) by (simp add: y(1,4,7) demo_event_defs projectable_intros views_new_def erased_text_def)
qed

lemma erased_demo:
  assumes log: "user_log c order {} (demo_log env @ [catalog_added env]) w" and "crypto_ok c" and env: "env_ok env"
  shows "\<exists>w' u m. forget_ann (user_ops_of c order) env w = (None, w')
    \<and> load_user (user_ops_of c order) (ue_user env) [WithTenant (ue_tenant_a env)] w' = Inr u
    \<and> u_name u = ''Ann'' \<and> agg_version u = 3 \<and> CHR ''@'' \<notin> set (u_email u)
    \<and> rebuild_views c order env w' = Inr m
    \<and> m (ue_user env) = Some \<lparr>uv_id = ue_user env, uv_email = ''[erased]'', uv_name = ''Ann'', uv_version = 3\<rparr>"
proof -
  let ?a = "ue_tenant_a env" and ?i = "ue_user env" and ?cf = "user_store c order" and ?F = "{ue_user env}"
  note ok = env_okD [OF env]
  have S: "filter (\<lambda>e. aggregate_key e = (?a, ?i)) (demo_log env @ [catalog_added env]) = [ann_registered env, ann_changed env]"
    by (simp add: ok)
  have "\<forall>e \<in> set [ann_registered env, ann_changed env]. ev_pii_id e = Some ?i" by (simp add: ann_registered_def ann_changed_def)
  from forget_demo [OF log assms(2) _ _ S _ this replays(2), of "\<lparr>ua_id = ue_admin env, ua_type = ''admin''\<rparr>" env 4] ok
  obtain w' where w': "forget_ann (user_ops_of c order) env w = (None, w')" "user_log c order ?F (demo_log_end env) w'"
    by (auto simp: forget_ann_def ann_erased_def current_version_def ann_changed_def eval_nat_numeral)
  have S': "filter (\<lambda>e. aggregate_key e = (?a, ?i)) (demo_log_end env) = [ann_registered env, ann_changed env, ann_erased env]"
    by (simp add: ok)
  note log' = w'(2) [unfolded user_store_plain]
  obtain ys where ys: "pii_load ?cf ?i [WithTenant ?a] w' = Inr ys" "ys \<noteq> []"
    "list_all2 (reads_as ?cf ?F) [ann_registered env, ann_changed env, ann_erased env] ys"
    using sealed_log_load [OF log' assms(2) refl, of ?a ?i] S' by (auto simp: user_store_plain)
  obtain y0 y2 y4 where y: "ys = [y0, y2, y4]" "reads_as ?cf ?F (ann_registered env) y0" "reads_as ?cf ?F (ann_changed env) y2"
    "reads_as ?cf ?F (ann_erased env) y4" using ys(3) by (auto simp: list_all2_Cons1)
  obtain u where u: "load_from_history user_ops user_apply user_events ys (set_id ?i new_user) = (None, u)"
    "u_name u = ''Ann''" "agg_version u = 3" "CHR ''@'' \<notin> set (u_email u)"
    using ann_forgotten(1) [OF y(2-4)] by (auto simp: y(1))
  have vis: "filter (visible (resolve_store_config [WithTenant ?a])) (demo_log_end env)
      = [ann_registered env, ann_changed env, catalog_added env, ann_erased env]"
    by (simp add: visible_def tenants_of ok)
  obtain zs where zs: "open_all ?cf (visible_log [WithTenant ?a] (pw_store w')) (pw_keys w') = Inr zs"
    "list_all2 (reads_as ?cf ?F) [ann_registered env, ann_changed env, catalog_added env, ann_erased env] zs"
    using sealed_log_open [OF log' assms(2), of "visible (resolve_store_config [WithTenant ?a])"] vis
    by (auto simp: seal_of_sel(2) user_store_plain)
  obtain z0 z2 z3 z4 where z: "zs = [z0, z2, z3, z4]" "reads_as ?cf ?F (ann_registered env) z0" "reads_as ?cf ?F (ann_changed env) z2"
    "reads_as ?cf ?F (catalog_added env) z3" "reads_as ?cf ?F (ann_erased env) z4" using zs(2) by (auto simp: list_all2_Cons1)
  from z(4) have "\<not> for_users z3" by (auto simp: reads_as_def seals_def catalog_added_def catalog_not_for_users)
  then obtain m where m: "rebuild_views_loop zs views_new = Inr m"
    "m ?i = Some \<lparr>uv_id = ?i, uv_email = ''[erased]'', uv_name = ''Ann'', uv_version = 3\<rparr>"
    using ann_forgotten(2,3) [OF z(2,3,5)] rebuild_views_loop_eq [of zs views_new] by (auto simp: z(1))
  show ?thesis
    using w'(1) ys(1,2) u m zs(1) by (auto simp: repo_load_def rebuild_views_def)
qed

section \<open>The program\<close>

text \<open>
  C6. The user demo, from its composition root to its last line, reports what it is written to show, wherever
  the worker is when it subscribes and when it stops to wait. The views the use cases return are the
  user's; tenant B has no such user; at rest the email is ciphertext while actor and metadata are as
  recorded; the wait ends exactly when the worker has dispatched the update, and then the query answers
  with the view that the use case returned; the report counts three events and two of tenant A; both
  tenants see the shared entry; and after the erasure the replayed user and the rebuilt read model keep
  the name and have nothing of the email.
\<close>

theorem user_demo_reports:
  assumes "crypto_ok c" "env_ok env" "pw_store w = mem_new" "pw_keys w = mem_keyring_new"
  shows "\<exists>r. user_demo c order env n1 n2 w = Inr r
    \<and> ur_registered r = \<lparr>uv_id = ue_user env, uv_email = ''ann@example.com'', uv_name = ''Ann'', uv_version = 1\<rparr>
    \<and> ur_isolated r
    \<and> ur_updated r = \<lparr>uv_id = ue_user env, uv_email = ''ann.new@example.com'', uv_name = ''Ann'', uv_version = 2\<rparr>
    \<and> email_sealed (ar_payload (ur_at_rest r)) \<and> ar_actor_id (ur_at_rest r) = ue_user env
    \<and> ar_actor_type (ur_at_rest r) = ''customer''
    \<and> ar_metadata (ur_at_rest r) = RawOk (JObj [''signup_channel'' \<mapsto> JStr ''web''])
    \<and> (ur_ready r \<longleftrightarrow> 3 \<le> n1 + n2) \<and> (ur_ready r \<longrightarrow> ur_view r = Some (ur_updated r))
    \<and> ur_counts r = (3, 2) \<and> ur_catalog r = (True, True)
    \<and> u_name (ur_forgotten r) = ''Ann'' \<and> agg_version (ur_forgotten r) = 3 \<and> CHR ''@'' \<notin> set (u_email (ur_forgotten r))
    \<and> ur_rebuilt r = Some \<lparr>uv_id = ue_user env, uv_email = ''[erased]'', uv_name = ''Ann'', uv_version = 3\<rparr>"
proof -
  let ?st = "user_ops_of c order"
  obtain w1 w2 w3 bob where ws:
    "register_ann ?st env w = (Inr \<lparr>uv_id = ue_user env, uv_email = ''ann@example.com'', uv_name = ''Ann'', uv_version = 1\<rparr>, w1)"
    "isolation ?st env w1 = Inr True" "register_bob ?st env w1 = (Inr bob, w2)"
    "change_ann ?st env w2 = (Inr \<lparr>uv_id = ue_user env, uv_email = ''ann.new@example.com'', uv_name = ''Ann'', uv_version = 2\<rparr>, w3)"
    and log: "user_log c order {} (demo_log env) w3"
    by (rule first_writes [OF assms(3,4,1,2)])
  obtain rest where rest: "read_at_rest env (pw_store w3) = Inr rest" "email_sealed (ar_payload rest)"
    "ar_actor_id rest = ue_user env" "ar_actor_type rest = ''customer''" "ar_metadata rest = signup_metadata"
    using at_rest_demo [OF log assms(2)] by blast
  let ?feed = "opened_prefix (user_store c order) (visible_log [] (pw_store w3)) (pw_keys w3)"
  obtain ready view where q: "wait_and_query (ue_user env) 2 (take n1 ?feed) (take n2 (drop n1 ?feed)) = (ready, view)" by force
  note qd = query_demo [OF log assms(1,2) q refl]
  note rep = report_demo [OF log assms(1,2)]
  obtain w4 where w4: "add_catalog_entry ?st env w3 = Inr w4" "user_log c order {} (demo_log env @ [catalog_added env]) w4"
    "sees_catalog_entry ?st env (ue_tenant_a env) w4 = Inr True" "sees_catalog_entry ?st env (ue_tenant_b env) w4 = Inr True"
    using catalog_demo [OF log assms(1,2)] by blast
  from erased_demo [OF w4(2) assms(1,2)] obtain w5 u m where w5: "forget_ann ?st env w4 = (None, w5)"
    "load_user ?st (ue_user env) [WithTenant (ue_tenant_a env)] w5 = Inr u" "u_name u = ''Ann''" "agg_version u = 3"
    "CHR ''@'' \<notin> set (u_email u)" "rebuild_views c order env w5 = Inr m"
    "m (ue_user env) = Some \<lparr>uv_id = ue_user env, uv_email = ''[erased]'', uv_name = ''Ann'', uv_version = 3\<rparr>" by blast
  have fin: "user_demo_end c order env w3 = Inr ((True, True), u, m (ue_user env))"
    by (simp add: user_demo_end_def w4(1,3,4) w5(1,2,6))
  show ?thesis
    unfolding user_demo_def Let_def ws prod.case sum.case user_view.simps rest(1) q rep fin
    by (rule exI, rule conjI [OF refl]) (use rest qd w5 in \<open>simp add: signup_metadata_def\<close>)
qed

definition sample_env :: user_env where
  "sample_env = \<lparr>ue_tenant_a = 1, ue_tenant_b = 2, ue_user = 3, ue_bob = 4, ue_bob_actor = 5, ue_catalog = 6, ue_admin = 7,
     ue_event = (\<lambda>n. 8 + of_nat n), ue_now = (\<lambda>n. 0)\<rparr>"

definition user_root :: user_world where
  "user_root = \<lparr>pw_store = mem_new, pw_keys = mem_keyring_new, pw_ledger = (), pw_rng = (\<lambda>_. 0), pw_clock = (\<lambda>_. 0)\<rparr>"

theorem user_demo_reports_witness:
  "\<exists>r. user_demo toy_crypto id sample_env 1 2 user_root = Inr r \<and> ur_ready r
    \<and> ur_view r = Some \<lparr>uv_id = 3, uv_email = ''ann.new@example.com'', uv_name = ''Ann'', uv_version = 2\<rparr>
    \<and> ur_rebuilt r = Some \<lparr>uv_id = 3, uv_email = ''[erased]'', uv_name = ''Ann'', uv_version = 3\<rparr>"
proof -
  have "env_ok sample_env" by (simp add: env_ok_def sample_env_def)
  moreover have "pw_store user_root = mem_new" "pw_keys user_root = mem_keyring_new" by (simp_all add: user_root_def)
  moreover have "ue_user sample_env = 3" by (simp add: sample_env_def)
  ultimately show ?thesis
    using user_demo_reports [OF toy_crypto_ok, of sample_env user_root id 1 2] by fastforce
qed

end
