(* ===== verification/Ledger_Statements.thy ===== *)
theory Ledger_Statements
  imports Ledger_Workers Read_Worker Mem_Reads
begin

text \<open>
  The read side of \<^verbatim>\<open>examples/ledger/main.go\<close>: the statement books, their projector, the worker of each
  organization, and the fixture that is posted. The contract \<open>read_model\<close> holds for the projector; with
  the posting loop of \<open>Ledger_Workers\<close> it gives what the demo checks at its end.
\<close>

section \<open>Statement books\<close>

record account_view =
  av_holder_name :: string
  av_balance :: i64

type_synonym statement_book = "uuid \<rightharpoonup> account_view"

definition new_statement_book :: statement_book where
  "new_statement_book = Map.empty"

definition book_upsert :: "uuid \<Rightarrow> account_view \<Rightarrow> statement_book \<Rightarrow> statement_book" where
  "book_upsert i v b = b(i \<mapsto> v)"

definition book_get :: "uuid \<Rightarrow> statement_book \<Rightarrow> account_view" where
  "book_get i b = (case b i of None \<Rightarrow> \<lparr>av_holder_name = [], av_balance = 0\<rparr> | Some v \<Rightarrow> v)"

text \<open>\<^verbatim>\<open>statementProjector.Handle\<close>. A payload that does not decode leaves the book as it was.\<close>

definition statement_project :: "domain_event \<Rightarrow> statement_book \<Rightarrow> error option \<times> statement_book" where
  "statement_project e b =
     (let cur = book_get (ev_aggregate_id e) b
      in if ev_name e = account_opened
         then (case account_unmarshal (ev_payload e) (AccountOpenedEvent [] [] 0) of
                 (None, AccountOpenedEvent n em bal) \<Rightarrow>
                   (None, book_upsert (ev_aggregate_id e)
                      (cur\<lparr>av_balance := bal,
                           av_holder_name := (if ev_pii_unrecoverable e then ''[erased]'' else n)\<rparr>) b)
               | (Some err, _) \<Rightarrow> (Some err, b)
               | _ \<Rightarrow> (None, b))
         else if ev_name e = transaction_recorded
         then (case account_unmarshal (ev_payload e) (TransactionRecordedEvent 0 []) of
                 (None, TransactionRecordedEvent amount d) \<Rightarrow>
                   (None, book_upsert (ev_aggregate_id e) (cur\<lparr>av_balance := av_balance cur + amount\<rparr>) b)
               | (Some err, _) \<Rightarrow> (Some err, b)
               | _ \<Rightarrow> (None, b))
         else if ev_name e = holder_erasure_requested then (None, book_upsert (ev_aggregate_id e) cur b)
         else (Some (ErrText ''ledger: unknown event''), b))"

text \<open>
  The worker of an organization: its dispatcher and the loop over the stream of its tenant-scoped
  store, here over the events that stream delivers.
\<close>

definition org_dispatcher :: "(statement_book \<times> notifier) dispatcher" where
  "org_dispatcher =
     subscribe_listener ''*'' notifier_listener
       (subscribe_listener all_account_events (on_fst (new_projector statement_project)) new_dispatcher)"

definition org_worker :: "domain_event list \<Rightarrow> statement_book \<times> notifier" where
  "org_worker es = dispatch_all org_dispatcher es (new_statement_book, new_notifier)"

section \<open>The fixture\<close>

record account_spec =
  as_id :: uuid
  as_org :: uuid
  as_org_name :: string
  as_holder_name :: string
  as_holder_email :: string

text \<open>\<open>eid\<close> is the event id \<^verbatim>\<open>uuid.New()\<close> makes; the date is 2026-01-01 in UTC.\<close>

definition tx_specs_for :: "account_spec \<Rightarrow> uuid \<Rightarrow> uuid \<Rightarrow> uuid \<Rightarrow> tx_spec list" where
  "tx_specs_for acc teller system eid =
     [\<lparr>ts_amount = 10000, ts_description = ''Mobile top-up'', ts_channel = ''mobile'',
       ts_actor = \<lparr>aa_id = as_id acc, aa_type = ''customer''\<rparr>, ts_opts = []\<rparr>,
      \<lparr>ts_amount = 5000, ts_description = ''Branch cash deposit'', ts_channel = ''branch'',
       ts_actor = \<lparr>aa_id = teller, aa_type = ''teller''\<rparr>, ts_opts = []\<rparr>,
      \<lparr>ts_amount = 500, ts_description = ''Interest accrual (Q1)'', ts_channel = ''batch'',
       ts_actor = \<lparr>aa_id = system, aa_type = ''system''\<rparr>,
       ts_opts = [WithOccurredAt (1767225600 * 10 ^ 9), WithEventID eid]\<rparr>]"

definition expected_balance_cents :: i64 where
  "expected_balance_cents = 10000 + 5000 + 500"

text \<open>The opening of an account by its goroutine.\<close>

definition open_fixture :: "'s event_store_ops \<Rightarrow> uuid \<Rightarrow> time \<Rightarrow> account_spec \<Rightarrow> 's \<Rightarrow> error option \<times> 's" where
  "open_fixture st new_id now acc s =
     (case account_open new_id now (as_holder_name acc) (as_holder_email acc) 0
             \<lparr>aa_id = as_id acc, aa_type = ''customer''\<rparr> (set_id (as_id acc) new_account) of
        (Some err, a) \<Rightarrow> (Some err, s)
      | (None, a) \<Rightarrow> (case repo_save st a [WithTenant (as_org acc)] s of (r, a', s') \<Rightarrow> (r, s')))"

section \<open>The contract of a read model holds\<close>

definition holder_erased :: "domain_event list \<Rightarrow> bool" where
  "holder_erased es \<longleftrightarrow> (\<exists>e \<in> set es. ev_name e = account_opened \<and> ev_pii_unrecoverable e)"

definition statement_of :: "domain_event list \<Rightarrow> account \<Rightarrow> account_view" where
  "statement_of es a =
     \<lparr>av_holder_name = (if holder_erased es then ''[erased]'' else ac_holder_name a),
      av_balance = ac_balance a\<rparr>"

definition account_agree :: "domain_event list \<Rightarrow> account \<Rightarrow> account_view option \<Rightarrow> bool" where
  "account_agree es a vo \<longleftrightarrow>
     (if es = [] then vo = None \<and> \<not> ac_opened a else ac_opened a \<and> vo = Some (statement_of es a))"

lemma holder_erased_snoc [simp]:
  "holder_erased (es @ [e]) \<longleftrightarrow> holder_erased es \<or> ev_name e = account_opened \<and> ev_pii_unrecoverable e"
  by (auto simp: holder_erased_def)

lemma account_unmarshal_shape:
  "account_unmarshal r (AccountOpenedEvent a b c) = (x, p) \<Longrightarrow> \<exists>a b c. p = AccountOpenedEvent a b c"
  "account_unmarshal r HolderErasureRequestedEvent = (x, p) \<Longrightarrow> p = HolderErasureRequestedEvent"
  by (cases r; auto split: json.splits prod.splits elim!: account_unmarshal.elims simp: Let_def)+

lemma account_step_cases:
  assumes "load_from_history account_ops account_apply account_events [e] a = (None, b)"
  obtains (opened) n em bal where "ev_name e = account_opened" "\<not> ac_opened a"
      "account_unmarshal (ev_payload e) (AccountOpenedEvent [] [] 0) = (None, AccountOpenedEvent n em bal)"
      "b = a\<lparr>ac_holder_name := n, ac_holder_email := em, ac_balance := bal, ac_opened := True,
             agg_version := ev_aggregate_version e\<rparr>"
    | (transaction) amount d where "ev_name e = transaction_recorded" "ac_opened a"
      "account_unmarshal (ev_payload e) (TransactionRecordedEvent 0 []) = (None, TransactionRecordedEvent amount d)"
      "b = a\<lparr>ac_balance := ac_balance a + amount, agg_version := ev_aggregate_version e\<rparr>"
    | (erasure) "ev_name e = holder_erasure_requested" "ac_opened a"
      "b = a\<lparr>agg_version := ev_aggregate_version e\<rparr>"
proof -
  obtain z p where z: "registry_factory account_events (ev_name e) = Some z"
    and p: "account_unmarshal (ev_payload e) z = (None, p)"
    and "fst (account_apply p a) = None" "b = set_version (ev_aggregate_version e) (snd (account_apply p a))"
    using assms by (auto split: option.splits prod.splits)
  then have ap: "fst (account_apply p a) = None \<and> b = set_version (ev_aggregate_version e) (snd (account_apply p a))"
    by simp
  from z consider "ev_name e = account_opened" "z = AccountOpenedEvent [] [] 0"
    | "ev_name e = transaction_recorded" "z = TransactionRecordedEvent 0 []"
    | "ev_name e = holder_erasure_requested" "z = HolderErasureRequestedEvent"
    by (auto simp: account_events_def registry_factory_register split: if_splits)
  then show thesis
  proof cases
    case 1
    from p obtain n em bal where "p = AccountOpenedEvent n em bal"
      unfolding 1 by (auto dest: account_unmarshal_shape)
    with 1 p ap show thesis by (intro opened) (auto simp: set_version_def split: if_splits)
  next
    case 2
    from p obtain amount d where "p = TransactionRecordedEvent amount d"
      unfolding 2 by (auto dest: account_unmarshal_tx)
    with 2 p ap show thesis by (intro transaction) (auto simp: set_version_def split: if_splits)
  next
    case 3
    from p have "p = HolderErasureRequestedEvent" unfolding 3 by (auto dest: account_unmarshal_shape)
    with 3 p ap show thesis by (intro erasure) (auto simp: set_version_def split: if_splits)
  qed
qed

lemma statement_project_step:
  assumes "account_agree es a (m (ev_aggregate_id e))" "agg_id a = ev_aggregate_id e"
    and "load_from_history account_ops account_apply account_events [e] a = (None, b)"
  shows "fst (statement_project e m) = None \<and> agg_id b = agg_id a
    \<and> account_agree (es @ [e]) b (snd (statement_project e m) (ev_aggregate_id e))"
  using assms(3)
proof (cases rule: account_step_cases)
  case (opened n em bal)
  then have "es = []" using assms(1) by (auto simp: account_agree_def split: if_splits)
  with opened assms(2) show ?thesis
    by (simp add: statement_project_def account_agree_def statement_of_def book_upsert_def holder_erased_def)
next
  case (transaction amount d)
  then have "m (ev_aggregate_id e) = Some (statement_of es a)"
    using assms(1) by (auto simp: account_agree_def split: if_splits)
  with transaction assms(2) show ?thesis
    by (simp add: statement_project_def account_agree_def statement_of_def book_upsert_def book_get_def
        account_event_names)
next
  case erasure
  then have "m (ev_aggregate_id e) = Some (statement_of es a)"
    using assms(1) by (auto simp: account_agree_def split: if_splits)
  with erasure assms(2) show ?thesis
    by (simp add: statement_project_def account_agree_def statement_of_def book_upsert_def book_get_def
        account_event_names)
qed

lemma statement_project_others:
  assumes "i \<noteq> ev_aggregate_id e"
  shows "snd (statement_project e m) i = m i"
proof -
  obtain x1 n em bal x2 amount d where
    "account_unmarshal (ev_payload e) (AccountOpenedEvent [] [] 0) = (x1, AccountOpenedEvent n em bal)"
    "account_unmarshal (ev_payload e) (TransactionRecordedEvent 0 []) = (x2, TransactionRecordedEvent amount d)"
    using account_unmarshal_shape(1) account_unmarshal_tx by (metis surj_pair)
  then show ?thesis
    using assms by (cases x1; cases x2) (simp_all add: statement_project_def book_upsert_def Let_def)
qed

lemma account_pattern:
  assumes "load_from_history account_ops account_apply account_events [e] a = (None, b)"
  shows "pattern_matches all_account_events (ev_name e)"
  using assms by (cases rule: account_step_cases)
    (simp_all add: all_account_events_def account_event_names pattern_matches_def cut_suffix_def has_prefix_def)

interpretation statements: read_model account_ops account_apply account_events new_account all_account_events
  statement_project "\<lambda>v. v" account_agree
proof unfold_locales
  fix es a b e and v :: statement_book
  assume "account_agree es a (v (ev_aggregate_id e))" "agg_id a = ev_aggregate_id e"
    "load_from_history account_ops account_apply account_events [e] a = (None, b)"
  then show "fst (statement_project e v) = None \<and> agg_id b = agg_id a
    \<and> account_agree (es @ [e]) b (snd (statement_project e v) (ev_aggregate_id e))"
    by (rule statement_project_step)
qed (simp_all add: statement_project_others account_agree_def new_account_def set_id_def account_pattern)

lemma org_wired: "wired all_account_events statement_project org_dispatcher"
proof -
  have "pattern_matches ''*'' name" for name by (simp add: pattern_matches_iff)
  then show ?thesis
    by (simp add: wired_def org_dispatcher_def subscribe_listener_def get_listeners_register
        new_dispatcher_def new_projector_def notifier_listener_def)
qed

lemma org_worker_caught_up:
  assumes "load_from_history account_ops account_apply account_events (filter (\<lambda>e. ev_aggregate_id e = i) es)
      (set_id i new_account) = (None, a)"
    and "filter (\<lambda>e. ev_aggregate_id e = i) es \<noteq> []"
    and "org_worker es = (book, n)" "notifier_subscribe i (agg_version a) n = (ch, n')"
  shows "book i = Some (statement_of (filter (\<lambda>e. ev_aggregate_id e = i) es) a) \<and> ch \<in> nt_closed n'"
proof -
  let ?e = "last (filter (\<lambda>e. ev_aggregate_id e = i) es)"
  have e: "?e \<in> set es" "ev_aggregate_id ?e = i" using last_in_set [OF assms(2)] by simp_all
  have v: "agg_version a \<le> ev_aggregate_version ?e" using replay_version [OF assms(1,2)] by simp
  have "new_statement_book i = None" by (simp add: new_statement_book_def)
  from statements.caught_up_subscribe [OF org_wired this assms(1) assms(3) [unfolded org_worker_def] e v assms(4)]
    assms(2)
  show ?thesis by (simp add: account_agree_def)
qed

section \<open>What the demo checks\<close>

lemma open_fixture_ok:
  assumes "open_fixture st new_id now acc s0 = (None, s)"
  obtains a1 a2 where "account_open new_id now (as_holder_name acc) (as_holder_email acc) 0
      \<lparr>aa_id = as_id acc, aa_type = ''customer''\<rparr> (set_id (as_id acc) new_account) = (None, a1)"
    "repo_save st a1 [WithTenant (as_org acc)] s0 = (None, a2, s)"
  using assms by (auto simp: open_fixture_def split: prod.splits option.splits)

text \<open>
  The ledger demo end to end: an account is opened, its three transactions are posted by racing
  workers, and the organization's worker goes through the log its tenant sees; then, in whatever
  order the workers ran, the account loads at version 4 with 155.00 on it, the statement shows the
  same balance, and a subscription to that version returns a closed channel.
\<close>

lemma demo_balances:
  assumes "mem_inv s0" "\<forall>t. ms_by_aggregate s0 (t, as_id acc) = []" "as_org acc \<noteq> global_tenant_id"
    and "open_fixture mem_ops new_id now acc s0 = (None, s)"
    and "(post_step mem_ops (as_id acc) [WithTenant (as_org acc)] (tx_specs_for acc teller system eid))\<^sup>*\<^sup>*
      (replicate 3 Loading, s) (ws, t)"
    and "\<nexists>c. post_step mem_ops (as_id acc) [WithTenant (as_org acc)] (tx_specs_for acc teller system eid) (ws, t) c"
    and "org_worker (visible_log [WithTenant (as_org acc)] t) = (book, n)"
    and "notifier_subscribe (as_id acc) 4 n = (ch, n')"
  shows "\<exists>a v. load_account mem_ops (as_id acc) [WithTenant (as_org acc)] t = Inr a \<and> agg_version a = 4
    \<and> ac_balance a = expected_balance_cents
    \<and> book (as_id acc) = Some v \<and> av_balance v = expected_balance_cents \<and> ch \<in> nt_closed n'"
proof -
  let ?i = "as_id acc" and ?opts = "[WithTenant (as_org acc)]" and ?txs = "tx_specs_for acc teller system eid"
  obtain a1 a2 where op: "account_open new_id now (as_holder_name acc) (as_holder_email acc) 0
      \<lparr>aa_id = as_id acc, aa_type = ''customer''\<rparr> (set_id ?i new_account) = (None, a1)"
    "repo_save mem_ops a1 ?opts s0 = (None, a2, s)" by (rule open_fixture_ok [OF assms(4)])
  have three: "list_all (tx_ok (\<lambda>_ _. True) ?i) ?txs" "length ?txs = 3"
    "sum_list (map ts_amount ?txs) = expected_balance_cents" "1 + length ?txs < 2 ^ 64"
    by (simp_all add: tx_specs_for_def expected_balance_cents_def tx_ok_def)
  have key: "scope_key ?opts ?i = (as_org acc, ?i)" by (simp add: scope_key_def)
  with assms(2) have empty: "mem_stream ?opts s0 ?i = []" by simp
  note batch = open_batch_fresh [OF op(1)]
  have inv: "mem_posting.pinv ?opts ?i ?txs 0 (as_holder_name acc, as_holder_email acc) 1 (replicate 3 Loading, s)"
    using mem_posting.post_inv_start [OF assms(1) empty op(1) batch op(2) three(1)] three(2) by simp
  note inv' = mem_posting.post_inv_steps [OF assms(5) inv three(4)]
  from mem_posting.post_stopped [OF inv' three(4) assms(6)] obtain a where a: "list_all is_posted ws" "mem_inv t"
    "at_history ?i (mem_stream ?opts t ?i) a" "load_account mem_ops ?i ?opts t = Inr a"
    "ac_balance a = expected_balance_cents" by (auto simp: three(3))
  have "length (mem_stream ?opts t ?i) = 4"
    using inv' a(1) three(2) by (simp add: post_inv_def filter_id_conv list_all_iff)
  with at_history_version [OF a(3)] have v4: "agg_version a = 4" by simp
  have glob: "(global_tenant_id, ?i) \<noteq> scope_key ?opts ?i" using assms(3) key by simp
  have "mem_commit (agg_uncommitted a1) (agg_version a1 - of_nat (length (agg_uncommitted a1))) ?opts s0
      = (None, es', s) \<Longrightarrow> ms_by_aggregate s (global_tenant_id, ?i) = ms_by_aggregate s0 (global_tenant_id, ?i)" for es'
    using mem_commit_fresh_ok [OF batch] glob account_open_recorded [OF op(1)] by fastforce
  then have "ms_by_aggregate s (global_tenant_id, ?i) = []"
    using repo_save_ok [OF op(2)] assms(2) account_open_recorded [OF op(1)] by fastforce
  then have "ms_by_aggregate t (global_tenant_id, ?i) = []"
    using mem_posting.post_steps_keep [OF assms(5) inv three(4), where rest = "ms_by_aggregate s"] glob by simp
  from visible_stream [OF _ this] a(2)
  have mine: "filter (\<lambda>e. ev_aggregate_id e = ?i) (visible_log ?opts t) = mem_stream ?opts t ?i"
    by (simp add: mem_inv_def key)
  have "mem_stream ?opts t ?i \<noteq> []" using a(3) by (simp add: at_history_def)
  with org_worker_caught_up [of ?i "visible_log ?opts t" a book n ch n'] at_history_load [OF a(3)] assms(7,8) mine v4
  show ?thesis using a(4,5) v4 by (simp add: statement_of_def)
qed

definition sample_account :: account_spec where
  "sample_account = \<lparr>as_id = 7, as_org = 5, as_org_name = ''Acme Corp'', as_holder_name = ''Alice Anderson'',
     as_holder_email = ''alice@acme.example''\<rparr>"

lemma sample_account_sel [simp]:
  "as_id sample_account = 7" "as_org sample_account = 5"
  "as_holder_name sample_account = ''Alice Anderson''" "as_holder_email sample_account = ''alice@acme.example''"
  by (simp_all add: sample_account_def)

theorem demo_balances_witness:
  "\<exists>t a book n v. load_account mem_ops 7 [WithTenant 5] t = Inr a \<and> agg_version a = 4
    \<and> org_worker (visible_log [WithTenant 5] t) = (book, n) \<and> book 7 = Some v \<and> av_balance v = 15500"
proof -
  let ?txs = "tx_specs_for sample_account 8 9 10" and ?opts = "[WithTenant 5]"
  obtain s where op: "open_fixture mem_ops 1 0 sample_account mem_new = (None, s)"
    by (simp add: open_fixture_def account_open_def account_actor_opts_def account_actor_is_set_def
        record_that_def set_id_def new_account_def repo_save_def mem_commit_eq mem_new_def
        current_version_def Let_def)
  have empty: "\<forall>t. ms_by_aggregate mem_new (t, as_id sample_account) = []" by (simp add: mem_new_def)
  obtain a1 a2 where "account_open 1 0 ''Alice Anderson'' ''alice@acme.example'' 0
      \<lparr>aa_id = 7, aa_type = ''customer''\<rparr> (set_id 7 new_account) = (None, a1)"
    "repo_save mem_ops a1 ?opts mem_new = (None, a2, s)"
    using open_fixture_ok [OF op] by (metis sample_account_sel)
  note op2 = this
  have inv: "mem_posting.pinv ?opts 7 ?txs 0 (''Alice Anderson'', ''alice@acme.example'') 1 (replicate 3 Loading, s)"
    using mem_posting.post_inv_start [OF mem_inv_new _ op2(1) open_batch_fresh [OF op2(1)] op2(2), of ?txs]
    by (simp add: tx_specs_for_def mem_new_def numeral_3_eq_3 tx_ok_def)
  have "1 + length ?txs < 2 ^ 64" by (simp add: tx_specs_for_def)
  from mem_posting.post_run_stops [OF inv this] obtain ws t where
    run: "(post_step mem_ops 7 ?opts ?txs)\<^sup>*\<^sup>* (replicate 3 Loading, s) (ws, t)" "\<nexists>c. post_step mem_ops 7 ?opts ?txs (ws, t) c"
    by (metis surj_pair)
  obtain book n where w: "org_worker (visible_log ?opts t) = (book, n)" by force
  obtain ch n' where c: "notifier_subscribe 7 4 n = (ch, n')" by force
  have "as_org sample_account \<noteq> global_tenant_id" by (simp add: global_tenant_id_def)
  from demo_balances [OF mem_inv_new empty this op, of 8 9 10 ws t book n ch n'] run w c
  obtain a v where "load_account mem_ops 7 ?opts t = Inr a" "agg_version a = 4" "book 7 = Some v"
    "av_balance v = expected_balance_cents" by auto
  moreover have "expected_balance_cents = 15500" by (simp add: expected_balance_cents_def)
  ultimately show ?thesis using w by metis
qed

end
