(* ===== verification/Pii_Live.thy ===== *)
theory Pii_Live
  imports Mem_Pii
begin

text \<open>
  The PII store of \<^verbatim>\<open>es/pii_store.go\<close> over a live store: when the keys of the ring can be used, sealing
  never fails, so that a commit on the current version succeeds and any other is refused with
  \<^verbatim>\<open>ErrConcurrencyConflict\<close>. Callers that reload and retry can work over it.
\<close>

definition usable_keys :: "(uuid \<Rightarrow> bytes option) \<Rightarrow> bool" where
  "usable_keys ks \<longleftrightarrow> (\<forall>p key. ks p = Some key \<longrightarrow> aes_key_ok key)"

locale live_pii_store =
  pii_store st opts sinv stream batch kr kinv keys cf + base_live: live_store st opts sinv stream batch
  for st :: "'s event_store_ops" and opts :: "store_option list" and sinv :: "'s \<Rightarrow> bool"
    and stream :: "'s \<Rightarrow> uuid \<Rightarrow> domain_event list" and batch :: "'s \<Rightarrow> uuid \<Rightarrow> domain_event list \<Rightarrow> bool"
    and kr :: "'k keyring_ops" and kinv :: "'k \<Rightarrow> bool" and keys :: "'k \<Rightarrow> uuid \<Rightarrow> bytes option"
    and cf :: "('p, 's, 'k, 'l) pii_config"
begin

abbreviation linv :: "('s, 'k, 'l) pii_world \<Rightarrow> bool" where
  "linv w \<equiv> pinv w \<and> usable_keys (keys (pw_keys w))"

text \<open>
  A commit of accepted events, by its three outcomes in one statement: the sealed events \<open>es1\<close> went to
  the store underneath, the ring is \<open>k\<close>, and nothing was shredded.
\<close>

lemma pii_commit_sealed:
  assumes "linv w" "pbatch w i es" "es \<noteq> []" "pii_commit cf es v opts w = (r, es', w')"
  obtains es1 q k where "seal_all cf es (pw_rng w, pw_keys w) = (None, es1, q, k)" "usable_keys (keys k)"
    "st_commit st es1 v opts (pw_store w) = (r, es', pw_store w')" "pw_keys w' = k" "pw_ledger w' = pw_ledger w"
    "pw_clock w' = pw_clock w"
proof -
  have inv: "pinv w" and us: "usable_keys (keys (pw_keys w))" using assms(1) by simp_all
  have fresh: "\<forall>e \<in> set es. pii_fresh cf e" using assms(2) by (simp add: pii_batch_def)
  obtain x es1 q k where sa: "seal_all cf es (pw_rng w, pw_keys w) = (x, es1, q, k)" by (metis prod_cases4)
  have "fst (seal_all cf es (pw_rng w, pw_keys w)) = None"
    using us fresh by (intro ring.seal_all_total [OF pinvD(3) [OF inv] _ cf_keys]) (simp_all add: usable_keys_def)
  with sa have x: "x = None" by simp
  note eff = ring.seal_all_effect [OF pinvD(3) [OF inv] sa cf_keys]
  note sb = seal_batch [OF inv assms(2) sa]
  have uk: "usable_keys (keys k)" unfolding usable_keys_def
  proof (intro allI impI)
    fix p key assume "keys k p = Some key"
    with eff have "keys (pw_keys w) p = Some key \<or> length key = 32" by blast
    with us show "aes_key_ok key" by (auto simp: usable_keys_def aes_key_ok_def)
  qed
  obtain y es2 s where c: "st_commit st es1 v opts (pw_store w) = (y, es2, s)" by (metis prod_cases3)
  have "es1 \<noteq> []" using sb(3) assms(3) by auto
  have "shred_all cf es2 u = (None, u)" if "y = None" for u
  proof -
    from base.commit_stores [OF pinvD(2) [OF inv] sb(2) \<open>es1 \<noteq> []\<close> c [unfolded that]]
    show ?thesis by (intro shred_sealed_noop [OF sb(5) [OF x] _ fresh]) blast
  qed
  with assms(4) sa c x have w': "r = y" "es' = es2" "w' = w\<lparr>pw_store := s, pw_keys := k, pw_rng := q\<rparr>"
    by (cases y; simp add: pii_commit_def cf_store)+
  show thesis by (rule that [of es1 q k]) (use sa x uk c w' in simp_all)
qed

lemma pstream_version:
  "pinv w \<Longrightarrow> current_version (pstream w i) = current_version (stream (pw_store w) i)"
  using current_version_opened [OF pinvD(4)] by (simp add: pii_stream_def)

lemma sealed_batch:
  assumes "pinv w" "pbatch w i es" "es \<noteq> []" "seal_all cf es (pw_rng w, pw_keys w) = (None, es1, q, k)"
  shows "batch (pw_store w) i es1" "es1 \<noteq> []"
  using seal_batch(2,3) [OF assms(1,2,4)] assms(3) by auto

end

sublocale live_pii_store \<subseteq> live: live_store "pii_store_ops cf" opts linv pstream pbatch
proof unfold_locales
  fix w i assume "linv w" "pstream w i \<noteq> []"
  then show "st_load (pii_store_ops cf) i opts w = Inr (pstream w i)" using pii.load_stream by blast
next
  fix w i es v r es' w'
  assume a: "linv w" "pbatch w i es" "es \<noteq> []" "st_commit (pii_store_ops cf) es v opts w = (r, es', w')"
    and cv: "current_version (pstream w i) \<noteq> v"
  from a(4) have c: "pii_commit cf es v opts w = (r, es', w')" by simp
  have "usable_keys (keys (pw_keys w'))" by (rule pii_commit_sealed [OF a(1-3) c]) simp
  with pii.commit_conflict [OF _ a(2-4) cv] a(1) show "r \<noteq> None \<and> linv w' \<and> pstream w' = pstream w" by blast
next
  fix w i es v es' w'
  assume a: "linv w" "pbatch w i es" "es \<noteq> []" "st_commit (pii_store_ops cf) es v opts w = (None, es', w')"
  from a(4) have c: "pii_commit cf es v opts w = (None, es', w')" by simp
  have "usable_keys (keys (pw_keys w'))" by (rule pii_commit_sealed [OF a(1-3) c]) simp
  with pii.commit_appends [OF _ a(2-4)] a(1)
  show "linv w' \<and> current_version (pstream w i) = v
      \<and> (\<exists>fs. pstream w' i = pstream w i @ fs \<and> map replay_view fs = map replay_view es)" by blast
next
  fix w i es v es' w' j
  assume "linv w" "pbatch w i es" "es \<noteq> []" "st_commit (pii_store_ops cf) es v opts w = (None, es', w')" "j \<noteq> i"
  then show "pstream w' j = pstream w j" using pii.commit_frame by blast
next
  fix w i es v r es' w'
  assume a: "linv w" "pbatch w i es" "es \<noteq> []" "st_commit (pii_store_ops cf) es v opts w = (r, es', w')"
  then have c: "pii_commit cf es v opts w = (r, es', w')" and inv: "pinv w" by simp_all
  obtain es1 q k where s: "seal_all cf es (pw_rng w, pw_keys w) = (None, es1, q, k)"
    "st_commit st es1 v opts (pw_store w) = (r, es', pw_store w')" by (rule pii_commit_sealed [OF a(1-3) c])
  note b = sealed_batch [OF inv a(2,3) s(1)]
  show "current_version (pstream w i) = v \<Longrightarrow> r = None"
    using base_live.commit_current [OF pinvD(2) [OF inv] b s(2)] pstream_version [OF inv] by simp
  show "current_version (pstream w i) \<noteq> v \<Longrightarrow> r = Some ErrConcurrencyConflict"
    using base_live.commit_stale [OF pinvD(2) [OF inv] b s(2)] pstream_version [OF inv] by simp
qed

end
