(* ===== verification/Ledger_Sealed.thy ===== *)
theory Ledger_Sealed
  imports Ledger_Statements Pii_Live
begin

text \<open>
  The store of \<^verbatim>\<open>examples/ledger/main.go\<close>: the PII store over the in-memory store, with the subjects' keys
  in a ring wrapped under a master key and with an erasure ledger. The posting loops of
  \<open>Ledger_Workers\<close> keep their theorems over it, since it is live and takes transactions as they are.
\<close>

section \<open>What is sealed and what erases\<close>

text \<open>Decoding keeps the kind of the payload, so what is declared depends on the event name alone.\<close>

lemma account_unmarshal_kind:
  "account_requests_erasure (snd (account_unmarshal r z)) = account_requests_erasure z"
  "account_pii_fields (snd (account_unmarshal r z)) = account_pii_fields z"
  by (cases "(r, z)" rule: account_unmarshal.cases; cases z; auto simp: Let_def split: prod.splits)+

abbreviation holder_fields :: "string list" where
  "holder_fields \<equiv> [''holder_name'', ''holder_email'']"

lemma account_declared:
  "ev_name e = account_opened \<Longrightarrow> declared account_ops account_events e = holder_fields"
  "ev_name e = transaction_recorded \<Longrightarrow> declared account_ops account_events e = []"
  "ev_name e = holder_erasure_requested \<Longrightarrow> declared account_ops account_events e = []"
  by (simp_all add: declared_def account_unmarshal_kind)

lemma erasing_account: "erasing account_ops account_events name \<Longrightarrow> name = holder_erasure_requested"
  by (auto simp: erasing_def account_unmarshal_kind account_events_def registry_factory_register split: if_splits)

lemma not_erasing_account [simp]:
  "\<not> erasing account_ops account_events account_opened"
  "\<not> erasing account_ops account_events transaction_recorded"
  using erasing_account [of account_opened] erasing_account [of transaction_recorded]
  by (auto simp: account_event_names)

section \<open>The composition root\<close>

type_synonym demo_ring = "mem_keyring wrapped_keyring"
type_synonym demo_world = "(mem_store, demo_ring, mem_ledger) pii_world"
type_synonym demo_config = "(account_payload, mem_store, demo_ring, mem_ledger) pii_config"

definition demo_keyring :: "(uuid list \<Rightarrow> uuid list) \<Rightarrow> demo_ring keyring_ops" where
  "demo_keyring order = wrapped_ops (mem_keyring_ops order)"

definition sealed_store :: "crypto \<Rightarrow> (uuid list \<Rightarrow> uuid list) \<Rightarrow> demo_config" where
  "sealed_store c order = with_erasure_ledger (mem_ledger_ops c)
     (new_pii_event_store mem_ops account_ops account_events c (demo_keyring order))"

lemma sealed_store_sel [simp]:
  "pc_store (sealed_store c order) = mem_ops" "pc_ops (sealed_store c order) = account_ops"
  "pc_registry (sealed_store c order) = account_events" "pc_crypto (sealed_store c order) = c"
  "pc_keys (sealed_store c order) = demo_keyring order"
  "pc_ledger (sealed_store c order) = Some (mem_ledger_ops c)"
  by (simp_all add: sealed_store_def with_erasure_ledger_def new_pii_event_store_def)

interpretation sealed: live_pii_store mem_ops opts mem_inv "mem_stream opts" "\<lambda>_. fresh_batch"
  "demo_keyring order" mem_wr_inv mem_wr_abs "sealed_store c order" for opts order c
  unfolding demo_keyring_def by unfold_locales (simp_all add: demo_keyring_def)

abbreviation sealed_inv :: "crypto \<Rightarrow> (uuid list \<Rightarrow> uuid list) \<Rightarrow> store_option list \<Rightarrow> demo_world \<Rightarrow> bool" where
  "sealed_inv c order opts w \<equiv>
     pii_inv (sealed_store c order) mem_inv (mem_stream opts) mem_wr_inv w \<and> usable_keys (mem_wr_abs (pw_keys w))"

abbreviation sealed_stream :: "crypto \<Rightarrow> (uuid list \<Rightarrow> uuid list) \<Rightarrow> store_option list \<Rightarrow> demo_world \<Rightarrow> uuid \<Rightarrow>
    domain_event list" where
  "sealed_stream c order opts \<equiv> pii_stream (sealed_store c order) (mem_stream opts)"

abbreviation sealed_batch :: "crypto \<Rightarrow> (uuid list \<Rightarrow> uuid list) \<Rightarrow> store_option list \<Rightarrow> demo_world \<Rightarrow> uuid \<Rightarrow>
    domain_event list \<Rightarrow> bool" where
  "sealed_batch c order opts \<equiv> pii_batch (sealed_store c order) (mem_stream opts) (\<lambda>_. fresh_batch) mem_wr_abs"

section \<open>Committing transactions\<close>

text \<open>A transaction of an account, as the log holds it: nothing in it is sealed.\<close>

definition raw_tx :: "uuid \<Rightarrow> domain_event \<Rightarrow> bool" where
  "raw_tx i e \<longleftrightarrow> ev_name e = transaction_recorded \<and> ev_pii_fields e = RawNil \<and> ev_pii_id e = Some i
     \<and> metadata_ok (ev_metadata e)"

abbreviation own_subject :: "uuid \<Rightarrow> uuid option \<Rightarrow> bool" where
  "own_subject i p \<equiv> p = Some i"

lemma tx_batch_sealed:
  assumes "tx_batch subj i es"
  shows "sealed_batch c order opts w i es" "seal_all (sealed_store c order) es (r, k) = (None, es, r, k)"
proof -
  have "\<not> seals account_ops account_events e" if "e \<in> set es" for e
    using that assms account_declared(2) [of e] by (auto simp: tx_batch_def list_all_iff seals_def)
  then show "sealed_batch c order opts w i es"
    using assms by (auto simp: tx_batch_def list_all_iff pii_batch_def pii_fresh_def fresh_batch_def)
  from \<open>\<And>e. e \<in> set es \<Longrightarrow> \<not> seals account_ops account_events e\<close>
  show "seal_all (sealed_store c order) es (r, k) = (None, es, r, k)"
    by (induction es) (simp_all add: seal_all_Cons seal_one_def del: seal_all.simps(2))
qed

text \<open>What is to be known of the world but for one account's stream, and of that stream.\<close>

definition only_posted :: "store_option list \<Rightarrow> (uuid \<times> uuid \<Rightarrow> domain_event list) \<Rightarrow> demo_ring \<Rightarrow>
    mem_ledger \<Rightarrow> domain_event list \<Rightarrow> uuid \<Rightarrow> demo_world \<Rightarrow> bool" where
  "only_posted opts rest k l pre i w \<longleftrightarrow>
     (\<forall>j. j \<noteq> scope_key opts i \<longrightarrow> ms_by_aggregate (pw_store w) j = rest j)
     \<and> pw_keys w = k \<and> pw_ledger w = l
     \<and> (\<exists>ts. mem_stream opts (pw_store w) i = pre @ ts \<and> list_all (raw_tx i) ts)"

lemma raw_tx_stored:
  assumes "tx_batch own_subject i es" "map stored_view es' = map stored_view es"
  shows "list_all (raw_tx i) es'"
  unfolding list_all_iff
proof
  fix e assume "e \<in> set es'"
  then have "stored_view e \<in> stored_view ` set es" using assms(2) by (metis imageI list.set_map)
  then obtain f where f: "f \<in> set es" "stored_view e = stored_view f" by blast
  with assms(1) have "raw_tx i f" by (auto simp: tx_batch_def list_all_iff raw_tx_def)
  then show "raw_tx i e" by (simp add: raw_tx_def stored_viewD [OF f(2)])
qed

lemma commit_only_posts:
  assumes inv: "sealed_inv c order opts w" and keep: "only_posted opts rest k l pre i w"
    and b: "tx_batch own_subject i es" "es \<noteq> []" and cm: "pii_commit (sealed_store c order) es v opts w = (r, es', w')"
  shows "only_posted opts rest k l pre i w'"
proof -
  note sb = tx_batch_sealed [OF b(1)]
  obtain es1 q k1 where c: "seal_all (sealed_store c order) es (pw_rng w, pw_keys w) = (None, es1, q, k1)"
    "mem_commit es1 v opts (pw_store w) = (r, es', pw_store w')" "pw_keys w' = k1" "pw_ledger w' = pw_ledger w"
    by (rule sealed.pii_commit_sealed [OF inv sb(1) b(2) cm]) simp
  with sb(2) have es1: "es1 = es" "k1 = pw_keys w" by simp_all
  have fb: "fresh_batch i es" using b(1) by (auto simp: tx_batch_def fresh_batch_def list_all_iff)
  show ?thesis
  proof (cases r)
    case (Some err)
    with c(2) es1 b(2) have "pw_store w' = pw_store w" using mem_commit_error by metis
    with keep c es1 show ?thesis by (simp add: only_posted_def)
  next
    case None
    with c(2) es1 have ok: "mem_commit es v opts (pw_store w) = (None, es', pw_store w')" by simp
    have "map stored_view es' = map stored_view es \<and> mem_stream opts (pw_store w') i = mem_stream opts (pw_store w) i @ es'"
      by (rule mem_commit_stores [OF fb b(2) ok])
    moreover have "pw_store w' = mem_extend (scope_key opts i) es' (pw_store w)"
      using mem_commit_fresh_ok [OF fb b(2) ok] by blast
    ultimately show ?thesis
      using keep c(3,4) es1 raw_tx_stored [OF b(1)] by (auto simp: only_posted_def)
  qed
qed

interpretation sealed_posting: posting "pii_store_ops (sealed_store c order)" opts "sealed_inv c order opts"
  "sealed_stream c order opts" "sealed_batch c order opts" own_subject "only_posted opts rest k l pre"
  for c order opts rest k l pre
proof (intro posting.intro posting_axioms.intro)
  show "repository account_ops account_apply account_events (pii_store_ops (sealed_store c order)) opts
      (sealed_inv c order opts) (sealed_stream c order opts) (sealed_batch c order opts)"
    by (intro repository.intro account.event_sourced_axioms sealed.live.event_store_axioms)
  show "live_store (pii_store_ops (sealed_store c order)) opts (sealed_inv c order opts)
      (sealed_stream c order opts) (sealed_batch c order opts)"
    by (rule sealed.live.live_store_axioms)
next
  fix w i es v r es' w'
  show "tx_batch own_subject i es \<Longrightarrow> sealed_batch c order opts w i es" by (rule tx_batch_sealed)
  assume "sealed_inv c order opts w" "only_posted opts rest k l pre i w" "tx_batch own_subject i es" "es \<noteq> []"
    "st_commit (pii_store_ops (sealed_store c order)) es v opts w = (r, es', w')"
  then show "only_posted opts rest k l pre i w'" using commit_only_posts by simp
qed

section \<open>Opening an account\<close>

text \<open>What is asked of a world on its own: every event of every stream opens.\<close>

definition world_ok :: "crypto \<Rightarrow> (uuid list \<Rightarrow> uuid list) \<Rightarrow> demo_world \<Rightarrow> bool" where
  "world_ok c order w \<longleftrightarrow> crypto_ok c \<and> mem_inv (pw_store w) \<and> mem_wr_inv (pw_keys w)
     \<and> usable_keys (mem_wr_abs (pw_keys w))
     \<and> (\<forall>k. \<forall>e \<in> set (ms_by_aggregate (pw_store w) k). openable (sealed_store c order) (pw_keys w) e)"

lemma world_ok_sealed: "world_ok c order w \<Longrightarrow> sealed_inv c order opts w"
  unfolding world_ok_def pii_inv_def sealed_store_sel by blast

lemma opened_same_keys:
  assumes "mem_wr_inv k" "mem_wr_inv k'"
    and "\<And>p. ev_pii_id e = Some p \<Longrightarrow> mem_wr_abs k' p = mem_wr_abs k p \<or> ev_pii_fields e = RawNil"
  shows "opened (sealed_store c order) k' e = opened (sealed_store c order) k e"
    "openable (sealed_store c order) k' e = openable (sealed_store c order) k e"
  using sealed.ring.open_new_keys [OF assms, of c order] by (simp_all add: opened_def openable_def)

text \<open>The event that opens an account, before it is sealed.\<close>

definition opened_by :: "account_spec \<Rightarrow> domain_event \<Rightarrow> bool" where
  "opened_by acc e \<longleftrightarrow> ev_name e = account_opened \<and> ev_pii_id e = Some (as_id acc)
     \<and> \<not> ev_pii_unrecoverable e \<and> ev_aggregate_version e = 1 \<and> metadata_ok (ev_metadata e)
     \<and> ev_payload e = RawOk (JObj [''holder_name'' \<mapsto> JStr (as_holder_name acc),
         ''holder_email'' \<mapsto> JStr (as_holder_email acc), ''opening_balance_cents'' \<mapsto> JNum 0])"

text \<open>The raw stream of an account: its sealed opening and its transactions.\<close>

definition account_log :: "crypto \<Rightarrow> (uuid \<Rightarrow> bytes option) \<Rightarrow> account_spec \<Rightarrow> domain_event list \<Rightarrow> bool" where
  "account_log c ks acc S \<longleftrightarrow> (\<exists>x e ts key. S = x # ts \<and> ks (as_id acc) = Some key
     \<and> sealed c key holder_fields e x \<and> opened_by acc e \<and> list_all (raw_tx (as_id acc)) ts)"

abbreviation account_opts :: "account_spec \<Rightarrow> store_option list" where
  "account_opts acc \<equiv> [WithTenant (as_org acc)]"

abbreviation account_key :: "account_spec \<Rightarrow> uuid \<times> uuid" where
  "account_key acc \<equiv> (as_org acc, as_id acc)"

lemma account_scope_key: "scope_key (account_opts acc) i = (as_org acc, i)"
  by (simp add: scope_key_def)

lemma account_log_subject:
  assumes "account_log c ks acc S" "x \<in> set S"
  shows "ev_pii_id x = Some (as_id acc)"
  using assms by (auto simp: account_log_def raw_tx_def list_all_iff opened_by_def dest!: sealed_frame)

lemma opened_by_batch:
  assumes "crypto_ok c" "opened_by acc e" "ev_aggregate_id e = as_id acc" "ev_tenant_id e = uuid_nil"
    and "ev_pii_fields e = RawNil"
    and "\<forall>j. \<forall>x \<in> set (ms_by_aggregate (pw_store w) j). ev_pii_id x = Some (as_id acc) \<longrightarrow> ev_pii_fields x = RawNil"
  shows "sealed_batch c order (account_opts acc) w (as_id acc) [e]" "seals account_ops account_events e"
proof -
  have "js_ok c (JStr s)" for s using assms(1) by (simp add: crypto_ok_def)
  moreover have d: "declared account_ops account_events e = holder_fields"
    using assms(2) account_declared(1) by (simp add: opened_by_def)
  moreover from assms(2) have "ev_pii_id e = Some (as_id acc)" "ev_name e = account_opened"
    "ev_payload e = RawOk (JObj [''holder_name'' \<mapsto> JStr (as_holder_name acc),
         ''holder_email'' \<mapsto> JStr (as_holder_email acc), ''opening_balance_cents'' \<mapsto> JNum 0])"
    by (simp_all add: opened_by_def)
  moreover have "no_old_seals ks (mem_stream (account_opts acc) (pw_store w)) e" for ks
    unfolding no_old_seals_def
  proof (intro allI impI ballI)
    fix p j x assume x: "ev_pii_id e = Some p" "x \<in> set (mem_stream (account_opts acc) (pw_store w) j)" "ev_pii_id x = Some p"
    with calculation(3) have "ev_pii_id x = Some (as_id acc)" by simp
    with assms(6) x(2) show "ev_pii_fields x = RawNil" by blast
  qed
  ultimately show "sealed_batch c order (account_opts acc) w (as_id acc) [e]"
    using assms(3-5) by (auto simp: pii_batch_def pii_fresh_def fresh_batch_def sealable_def)
  show "seals account_ops account_events e"
    using d assms(2) by (simp add: seals_def opened_by_def)
qed

lemma commit_opened:
  assumes ok: "world_ok c order w" and S: "ms_by_aggregate (pw_store w) (account_key acc) = []"
    and old: "\<forall>j. \<forall>x \<in> set (ms_by_aggregate (pw_store w) j). ev_pii_id x = Some (as_id acc) \<longrightarrow> ev_pii_fields x = RawNil"
    and e: "opened_by acc e" "ev_aggregate_id e = as_id acc" "ev_tenant_id e = uuid_nil" "ev_pii_fields e = RawNil"
    and cm: "pii_commit (sealed_store c order) [e] v (account_opts acc) w = (None, es', w')"
  shows "pw_ledger w' = pw_ledger w"
    "k \<noteq> account_key acc \<Longrightarrow> ms_by_aggregate (pw_store w') k = ms_by_aggregate (pw_store w) k"
    "p \<noteq> as_id acc \<Longrightarrow> mem_wr_abs (pw_keys w') p = mem_wr_abs (pw_keys w) p"
    "account_log c (mem_wr_abs (pw_keys w')) acc (ms_by_aggregate (pw_store w') (account_key acc))"
proof -
  let ?i = "as_id acc" and ?opts = "account_opts acc" and ?cf = "sealed_store c order"
  note inv = world_ok_sealed [OF ok, of ?opts]
  have co: "crypto_ok c" and rinv: "mem_wr_inv (pw_keys w)" and minv: "mem_inv (pw_store w)"
    using ok by (simp_all add: world_ok_def)
  note b = opened_by_batch [OF co e old]
  obtain es1 q k1 where c: "seal_all ?cf [e] (pw_rng w, pw_keys w) = (None, es1, q, k1)"
    "st_commit mem_ops es1 v ?opts (pw_store w) = (None, es', pw_store w')" "pw_keys w' = k1" "pw_ledger w' = pw_ledger w"
    by (rule sealed.pii_commit_sealed [OF inv b(1) _ cm]) simp
  note eff = sealed.ring.seal_all_effect [OF rinv c(1) sealed_store_sel(5)]
  obtain e1 key where e1: "es1 = [e1]" "mem_wr_abs k1 ?i = Some key" "sealed c key holder_fields e e1"
  proof -
    have "declared account_ops account_events e = holder_fields" "ev_pii_id e = Some ?i"
      using e(1) account_declared(1) by (simp_all add: opened_by_def)
    with eff b(2) that show thesis by (auto simp: list_all2_Cons1 seal_of_def)
  qed
  have fb: "fresh_batch ?i es1" using fresh_batch_cong [of es1 "[e]"] eff e(2,3) by (simp add: fresh_batch_def)
  have ne: "es1 \<noteq> []" by (simp add: e1(1))
  from mem_commit_stores [OF fb ne c(2) [unfolded mem_ops_sel]] e1(1) S
  obtain x where x: "ms_by_aggregate (pw_store w') (account_key acc) = [x]" "stored_view x = stored_view e1"
    by (auto simp: account_scope_key)
  from sealed_stored_view [OF e1(3) x(2)] obtain y where y: "sealed c key holder_fields y x"
    "stored_view y = stored_view e" by blast
  have "opened_by acc y" using e(1) by (simp add: opened_by_def stored_viewD [OF y(2)])
  with x(1) y(1) e1(2) show "account_log c (mem_wr_abs (pw_keys w')) acc (ms_by_aggregate (pw_store w') (account_key acc))"
    unfolding account_log_def c(3) by (metis list.pred_inject(1))
  show "pw_ledger w' = pw_ledger w" by (rule c(4))
  have "pw_store w' = mem_extend (account_key acc) es' (pw_store w)"
    using mem_commit_fresh_ok [OF fb ne, of v ?opts "pw_store w"] c(2) by (simp add: account_scope_key)
  then show "k \<noteq> account_key acc \<Longrightarrow> ms_by_aggregate (pw_store w') k = ms_by_aggregate (pw_store w) k" by simp
  show "mem_wr_abs (pw_keys w') p = mem_wr_abs (pw_keys w) p" if p: "p \<noteq> ?i"
  proof (cases "mem_wr_abs k1 p")
    case None
    have "mem_wr_abs (pw_keys w) \<subseteq>\<^sub>m mem_wr_abs k1" using eff by blast
    with None have "mem_wr_abs (pw_keys w) p = None" by (auto simp: map_le_def dom_def)
    with None c(3) show ?thesis by simp
  next
    case (Some key')
    have "ev_pii_id e \<noteq> Some p" using e(1) p by (simp add: opened_by_def)
    with Some eff have "mem_wr_abs (pw_keys w) p = Some key'" by auto
    with Some c(3) show ?thesis by simp
  qed
qed

text \<open>Events that were there open as before, when the keys they need did not change.\<close>

lemma world_ok_other:
  assumes ok: "world_ok c order w" and inv: "sealed_inv c order opts w'" "k = scope_key opts i"
    and frame: "\<forall>j. j \<noteq> k \<longrightarrow> ms_by_aggregate (pw_store w') j = ms_by_aggregate (pw_store w) j"
    and same: "\<And>j x p. j \<noteq> k \<Longrightarrow> x \<in> set (ms_by_aggregate (pw_store w) j) \<Longrightarrow> ev_pii_id x = Some p \<Longrightarrow>
      mem_wr_abs (pw_keys w') p = mem_wr_abs (pw_keys w) p \<or> ev_pii_fields x = RawNil"
  shows "world_ok c order w'"
proof -
  have ring: "mem_wr_inv (pw_keys w)" "mem_wr_inv (pw_keys w')" using ok inv(1) by (simp_all add: world_ok_def pii_inv_def)
  have "openable (sealed_store c order) (pw_keys w') x" if x: "x \<in> set (ms_by_aggregate (pw_store w') j)" for j x
  proof (cases "j = k")
    case True
    with x inv show ?thesis unfolding pii_inv_def by blast
  next
    case False
    with x frame have x': "x \<in> set (ms_by_aggregate (pw_store w) j)" by simp
    from opened_same_keys(2) [OF ring same [OF False x']] have
      "openable (sealed_store c order) (pw_keys w') x = openable (sealed_store c order) (pw_keys w) x" .
    moreover have "openable (sealed_store c order) (pw_keys w) x" using ok x' unfolding world_ok_def by blast
    ultimately show ?thesis by simp
  qed
  with inv(1) show ?thesis unfolding world_ok_def pii_inv_def sealed_store_sel by blast
qed

text \<open>
  The goroutine of an account opens it: the store takes the sealed event, the holder gets a key, and
  nothing else changes.
\<close>

lemma open_fixture_sealed:
  assumes ok: "world_ok c order w" and S: "ms_by_aggregate (pw_store w) (account_key acc) = []"
    and old: "\<forall>j. \<forall>x \<in> set (ms_by_aggregate (pw_store w) j). ev_pii_id x = Some (as_id acc) \<longrightarrow> ev_pii_fields x = RawNil"
    and names: "as_holder_name acc \<noteq> []" "as_holder_email acc \<noteq> []"
    and txs: "list_all (tx_ok own_subject (as_id acc)) txs"
    and opn: "open_fixture (pii_store_ops (sealed_store c order)) new_id now acc w = (r, w')"
  shows "r = None \<and> world_ok c order w' \<and> pw_ledger w' = pw_ledger w
    \<and> (\<forall>k. k \<noteq> account_key acc \<longrightarrow> ms_by_aggregate (pw_store w') k = ms_by_aggregate (pw_store w) k)
    \<and> (\<forall>p. p \<noteq> as_id acc \<longrightarrow> mem_wr_abs (pw_keys w') p = mem_wr_abs (pw_keys w) p)
    \<and> account_log c (mem_wr_abs (pw_keys w')) acc (ms_by_aggregate (pw_store w') (account_key acc))
    \<and> sealed_posting.pinv c order (account_opts acc) (as_id acc) txs 0 (as_holder_name acc, as_holder_email acc) 1
        (replicate (length txs) Loading, w')"
proof -
  let ?i = "as_id acc" and ?opts = "account_opts acc" and ?st = "pii_store_ops (sealed_store c order)"
  let ?z = "set_id ?i new_account" and ?ac = "\<lparr>aa_id = ?i, aa_type = ''customer''\<rparr>"
  note inv = world_ok_sealed [OF ok, of ?opts]
  have empty: "sealed_stream c order ?opts w ?i = []" using S by (simp add: pii_stream_def account_scope_key)
  have ap: "account_apply (AccountOpenedEvent (as_holder_name acc) (as_holder_email acc) 0) ?z
      = (None, ?z\<lparr>ac_holder_name := as_holder_name acc, ac_holder_email := as_holder_email acc,
           ac_balance := 0, ac_opened := True\<rparr>)" by (simp add: set_id_def new_account_def)
  have "fst (account_open new_id now (as_holder_name acc) (as_holder_email acc) 0 ?ac ?z) = None"
    by (rule account.record_that_accepted [OF ap, where i = new_id and t = now
        and opts = "[WithPiiID (agg_id ?z), WithEventVersion 1] @ account_actor_opts ?ac"])
      (simp add: account_open_def names)
  then obtain a1 where a1: "account_open new_id now (as_holder_name acc) (as_holder_email acc) 0 ?ac ?z = (None, a1)"
    by (metis prod.collapse)
  obtain e where e: "agg_uncommitted a1 = [e]" "agg_version a1 = 1" "ev_aggregate_id e = ?i" "ev_tenant_id e = uuid_nil"
    "ev_pii_fields e = RawNil" "opened_by acc e"
    by (rule account_open_recorded [OF a1]) (simp add: opened_by_def)
  have "crypto_ok c" using ok by (simp add: world_ok_def)
  note b = opened_by_batch [OF this e(6,3,4,5) old]
  obtain es' where cm: "pii_commit (sealed_store c order) [e] 0 ?opts w = (r, es', w')"
    using opn by (auto simp: open_fixture_def a1 repo_save_def e(1,2) split: prod.splits option.splits)
  have none: "r = None"
    using sealed.live.commit_current [OF inv b(1) _ _ , of 0 r es' w'] cm empty by (simp add: current_version_def)
  then obtain a2 where save: "repo_save ?st a1 ?opts w = (None, a2, w')"
    using opn by (auto simp: open_fixture_def a1 split: prod.splits)
  have "sealed_batch c order ?opts w ?i (agg_uncommitted a1)" using b(1) e(1) by simp
  from sealed_posting.post_inv_start [OF inv empty a1 this save txs]
  have start: "sealed_posting.pinv c order ?opts ?i txs 0 (as_holder_name acc, as_holder_email acc) 1
      (replicate (length txs) Loading, w')" .
  then have inv': "sealed_inv c order ?opts w'" by (simp add: post_inv_def)
  note op = commit_opened [OF ok S old e(6,3,4,5) cm [unfolded none]]
  have "world_ok c order w'"
  proof (rule world_ok_other [OF ok inv' account_scope_key [symmetric]])
    show "\<forall>j. j \<noteq> account_key acc \<longrightarrow> ms_by_aggregate (pw_store w') j = ms_by_aggregate (pw_store w) j"
      using op(2) by blast
    fix j x p assume x: "x \<in> set (ms_by_aggregate (pw_store w) j)" "ev_pii_id x = Some p"
    then show "mem_wr_abs (pw_keys w') p = mem_wr_abs (pw_keys w) p \<or> ev_pii_fields x = RawNil"
      using op(3) old by (cases "p = ?i") blast+
  qed
  with none op start show ?thesis by blast
qed

end
