(* ===== verification/Ledger_Run.thy ===== *)
theory Ledger_Run
  imports Ledger_Sealed
begin

text \<open>
  The concurrent part of \<^verbatim>\<open>main\<close> in \<^verbatim>\<open>examples/ledger/main.go\<close>: a goroutine per account, which opens the
  account and then starts one goroutine per transaction, all at once over the sealed store. A run is
  any interleaving; every run ends, and then every account is open with its transactions in its
  stream, and its holder's fields sealed under a key of its own.
\<close>

section \<open>Steps\<close>

datatype account_phase = Opening | Working "phase list"

text \<open>\<open>txs acc\<close> are the transactions of an account; an account that is open has as many workers.\<close>

inductive demo_step :: "'s event_store_ops \<Rightarrow> (account_spec \<Rightarrow> tx_spec list) \<Rightarrow> account_spec list \<Rightarrow>
    account_phase list \<times> 's \<Rightarrow> account_phase list \<times> 's \<Rightarrow> bool"
  for st :: "'s event_store_ops" and txs :: "account_spec \<Rightarrow> tx_spec list" and accs :: "account_spec list" where
  open_account: "j < length accs \<Longrightarrow> ps ! j = Opening \<Longrightarrow> open_fixture st new_id now (accs ! j) w = (None, w') \<Longrightarrow>
    demo_step st txs accs (ps, w) (ps[j := Working (replicate (length (txs (accs ! j))) Loading)], w')"
| work: "j < length accs \<Longrightarrow> ps ! j = Working ws \<Longrightarrow>
    post_step st (as_id (accs ! j)) (account_opts (accs ! j)) (txs (accs ! j)) (ws, w) (ws', w') \<Longrightarrow>
    demo_step st txs accs (ps, w) (ps[j := Working ws'], w')"

definition demo_txs :: "(uuid \<Rightarrow> uuid) \<Rightarrow> uuid \<Rightarrow> (uuid \<Rightarrow> uuid) \<Rightarrow> account_spec \<Rightarrow> tx_spec list" where
  "demo_txs teller system eid acc = tx_specs_for acc (teller (as_org acc)) system (eid (as_id acc))"

definition demo_start :: "account_spec list \<Rightarrow> 's \<Rightarrow> account_phase list \<times> 's" where
  "demo_start accs w = (replicate (length accs) Opening, w)"

text \<open>What the fixture has to be like: \<^verbatim>\<open>uuid.New()\<close> does not repeat itself.\<close>

definition fixtures_ok :: "(account_spec \<Rightarrow> tx_spec list) \<Rightarrow> account_spec list \<Rightarrow> bool" where
  "fixtures_ok txs accs \<longleftrightarrow> distinct (map as_id accs)
     \<and> (\<forall>acc \<in> set accs. as_holder_name acc \<noteq> [] \<and> as_holder_email acc \<noteq> []
          \<and> list_all (tx_ok own_subject (as_id acc)) (txs acc) \<and> 1 + length (txs acc) < 2 ^ 64)"

section \<open>The invariant\<close>

text \<open>The events of an account whose posting is under way are posted at the opened stream, sealed in the log.\<close>

abbreviation posting_inv :: "crypto \<Rightarrow> (uuid list \<Rightarrow> uuid list) \<Rightarrow> tx_spec list \<Rightarrow> account_spec \<Rightarrow>
    phase list \<times> demo_world \<Rightarrow> bool" where
  "posting_inv c order txs acc \<equiv> sealed_posting.pinv c order (account_opts acc) (as_id acc) txs 0
     (as_holder_name acc, as_holder_email acc) 1"

fun account_ok :: "crypto \<Rightarrow> (uuid list \<Rightarrow> uuid list) \<Rightarrow> demo_world \<Rightarrow> tx_spec list \<Rightarrow> account_spec \<Rightarrow>
    account_phase \<Rightarrow> bool" where
  "account_ok c order w txs acc Opening = (ms_by_aggregate (pw_store w) (account_key acc) = [])"
| "account_ok c order w txs acc (Working ws) =
     (account_log c (mem_wr_abs (pw_keys w)) acc (ms_by_aggregate (pw_store w) (account_key acc))
      \<and> posting_inv c order txs acc (ws, w))"

definition demo_inv :: "crypto \<Rightarrow> (uuid list \<Rightarrow> uuid list) \<Rightarrow> (account_spec \<Rightarrow> tx_spec list) \<Rightarrow> account_spec list \<Rightarrow>
    account_phase list \<times> demo_world \<Rightarrow> bool" where
  "demo_inv c order txs accs s \<longleftrightarrow> (case s of (ps, w) \<Rightarrow>
     length ps = length accs \<and> world_ok c order w \<and> pw_ledger w = []
     \<and> (\<forall>k. k \<notin> account_key ` set accs \<longrightarrow> ms_by_aggregate (pw_store w) k = [])
     \<and> (\<forall>j < length accs. account_ok c order w (txs (accs ! j)) (accs ! j) (ps ! j)))"

lemma demo_invD:
  assumes "demo_inv c order txs accs (ps, w)"
  shows "length ps = length accs" "world_ok c order w" "pw_ledger w = []"
    "k \<notin> account_key ` set accs \<Longrightarrow> ms_by_aggregate (pw_store w) k = []"
    "j < length accs \<Longrightarrow> account_ok c order w (txs (accs ! j)) (accs ! j) (ps ! j)"
  using assms unfolding demo_inv_def by blast+

lemma demo_invI:
  assumes "length ps = length accs" "world_ok c order w" "pw_ledger w = []"
    and "\<And>k. k \<notin> account_key ` set accs \<Longrightarrow> ms_by_aggregate (pw_store w) k = []"
    and "\<And>j. j < length accs \<Longrightarrow> account_ok c order w (txs (accs ! j)) (accs ! j) (ps ! j)"
  shows "demo_inv c order txs accs (ps, w)"
  using assms unfolding demo_inv_def by blast

lemma account_ok_subject:
  "account_ok c order w txs acc ph \<Longrightarrow> x \<in> set (ms_by_aggregate (pw_store w) (account_key acc)) \<Longrightarrow>
   ev_pii_id x = Some (as_id acc)"
  by (cases ph) (auto dest: account_log_subject)

lemma demo_inv_subject:
  assumes "demo_inv c order txs accs (ps, w)" "x \<in> set (ms_by_aggregate (pw_store w) k)"
  shows "ev_pii_id x = Some (snd k)"
proof -
  have "k \<in> account_key ` set accs" using assms(2) demo_invD(4) [OF assms(1), of k] by fastforce
  then obtain j where j: "j < length accs" "k = account_key (accs ! j)" by (auto simp: in_set_conv_nth)
  with account_ok_subject [OF demo_invD(5) [OF assms(1) j(1)]] assms(2) show ?thesis by simp
qed

text \<open>What happens to other accounts does not touch an account.\<close>

lemma account_ok_frame:
  assumes acc: "account_ok c order w txs acc ph" and ok: "world_ok c order w" "world_ok c order w'"
    and same: "ms_by_aggregate (pw_store w') (account_key acc) = ms_by_aggregate (pw_store w) (account_key acc)"
      "mem_wr_abs (pw_keys w') (as_id acc) = mem_wr_abs (pw_keys w) (as_id acc)"
  shows "account_ok c order w' txs acc ph"
proof (cases ph)
  case Opening
  with acc same(1) show ?thesis by simp
next
  case (Working ws)
  have ring: "mem_wr_inv (pw_keys w)" "mem_wr_inv (pw_keys w')" using ok by (simp_all add: world_ok_def)
  have log: "account_log c (mem_wr_abs (pw_keys w')) acc (ms_by_aggregate (pw_store w') (account_key acc))"
    using acc Working same by (simp add: account_log_def)
  have "opened (sealed_store c order) (pw_keys w') x = opened (sealed_store c order) (pw_keys w) x"
    if "x \<in> set (ms_by_aggregate (pw_store w) (account_key acc))" for x
    using same(2) account_ok_subject [OF acc that] by (intro opened_same_keys(1) [OF ring]) simp
  then have "sealed_stream c order (account_opts acc) w' (as_id acc) = sealed_stream c order (account_opts acc) w (as_id acc)"
    by (simp add: pii_stream_def account_scope_key same(1))
  with acc Working log world_ok_sealed [OF ok(2)] show ?thesis by (simp add: post_inv_def)
qed

lemma distinct_accounts:
  assumes "fixtures_ok txs accs" "j < length accs" "l < length accs" "j \<noteq> l"
  shows "as_id (accs ! j) \<noteq> as_id (accs ! l)" "account_key (accs ! l) \<noteq> account_key (accs ! j)"
proof -
  show "as_id (accs ! j) \<noteq> as_id (accs ! l)"
    using assms by (metis distinct_conv_nth fixtures_ok_def length_map nth_map)
  then show "account_key (accs ! l) \<noteq> account_key (accs ! j)" by simp
qed

lemma demo_inv_update:
  assumes inv: "demo_inv c order txs accs (ps, w)" and fx: "fixtures_ok txs accs" and j: "j < length accs"
    and ok: "world_ok c order w'" "pw_ledger w' = pw_ledger w" "account_ok c order w' (txs (accs ! j)) (accs ! j) ph"
    and frame: "\<forall>k. k \<noteq> account_key (accs ! j) \<longrightarrow> ms_by_aggregate (pw_store w') k = ms_by_aggregate (pw_store w) k"
      "\<forall>p. p \<noteq> as_id (accs ! j) \<longrightarrow> mem_wr_abs (pw_keys w') p = mem_wr_abs (pw_keys w) p"
  shows "demo_inv c order txs accs (ps[j := ph], w')"
proof -
  have "account_ok c order w' (txs (accs ! l)) (accs ! l) (ps[j := ph] ! l)" if l: "l < length accs" for l
  proof (cases "l = j")
    case True
    with ok(3) demo_invD(1) [OF inv] j show ?thesis by simp
  next
    case False
    note d = distinct_accounts [OF fx l j False]
    have "account_ok c order w' (txs (accs ! l)) (accs ! l) (ps ! l)"
      using d frame by (intro account_ok_frame [OF demo_invD(5) [OF inv l] demo_invD(2) [OF inv] ok(1)]) blast+
    with False show ?thesis by simp
  qed
  moreover have "ms_by_aggregate (pw_store w') k = []" if "k \<notin> account_key ` set accs" for k
  proof -
    have "k \<noteq> account_key (accs ! j)" using that j by (auto simp: image_iff)
    with frame(1) have "ms_by_aggregate (pw_store w') k = ms_by_aggregate (pw_store w) k" by blast
    with demo_invD(4) [OF inv that] show ?thesis by simp
  qed
  ultimately show ?thesis using demo_invD(1,3) [OF inv] ok(1,2) by (intro demo_invI) simp_all
qed

section \<open>Steps keep it\<close>

text \<open>A posting step, seen from the raw log.\<close>

lemma post_step_raw:
  assumes inv: "posting_inv c order txs acc (ws, w)" "1 + length txs < 2 ^ 64"
    and log: "account_log c (mem_wr_abs (pw_keys w)) acc (ms_by_aggregate (pw_store w) (account_key acc))"
    and ok: "world_ok c order w"
    and step: "post_step (pii_store_ops (sealed_store c order)) (as_id acc) (account_opts acc) txs (ws, w) (ws', w')"
  shows "posting_inv c order txs acc (ws', w')" "pw_keys w' = pw_keys w" "pw_ledger w' = pw_ledger w"
    "\<forall>k. k \<noteq> account_key acc \<longrightarrow> ms_by_aggregate (pw_store w') k = ms_by_aggregate (pw_store w) k"
    "account_log c (mem_wr_abs (pw_keys w')) acc (ms_by_aggregate (pw_store w') (account_key acc))"
    "world_ok c order w'"
proof -
  let ?key = "account_key acc"
  show inv': "posting_inv c order txs acc (ws', w')" by (rule sealed_posting.post_inv_step [OF inv step])
  have "only_posted (account_opts acc) (ms_by_aggregate (pw_store w)) (pw_keys w) (pw_ledger w)
      (ms_by_aggregate (pw_store w) ?key) (as_id acc) w" by (simp add: only_posted_def account_scope_key)
  with sealed_posting.post_step_keeps [OF inv step, where rest = "ms_by_aggregate (pw_store w)"]
  have "only_posted (account_opts acc) (ms_by_aggregate (pw_store w)) (pw_keys w) (pw_ledger w)
      (ms_by_aggregate (pw_store w) ?key) (as_id acc) w'" by simp
  then obtain ts where k: "pw_keys w' = pw_keys w" "pw_ledger w' = pw_ledger w"
    and frame: "\<forall>k. k \<noteq> ?key \<longrightarrow> ms_by_aggregate (pw_store w') k = ms_by_aggregate (pw_store w) k"
    and ts: "ms_by_aggregate (pw_store w') ?key = ms_by_aggregate (pw_store w) ?key @ ts" "list_all (raw_tx (as_id acc)) ts"
    unfolding only_posted_def account_scope_key by blast
  show "pw_keys w' = pw_keys w" "pw_ledger w' = pw_ledger w" by (fact k)+
  show "\<forall>k. k \<noteq> ?key \<longrightarrow> ms_by_aggregate (pw_store w') k = ms_by_aggregate (pw_store w) k" by (fact frame)
  from log obtain x e us key where "ms_by_aggregate (pw_store w) ?key = x # us" "mem_wr_abs (pw_keys w) (as_id acc) = Some key"
    "sealed c key holder_fields e x" "opened_by acc e" "list_all (raw_tx (as_id acc)) us" unfolding account_log_def by blast
  with ts show "account_log c (mem_wr_abs (pw_keys w')) acc (ms_by_aggregate (pw_store w') ?key)"
    unfolding account_log_def k(1) ts(1) by auto
  have inv2: "sealed_inv c order (account_opts acc) w'" using inv' by (simp add: post_inv_def)
  show "world_ok c order w'"
    by (rule world_ok_other [OF ok inv2 account_scope_key [symmetric] frame]) (simp add: k)
qed

lemma fixtures_okD:
  assumes "fixtures_ok txs accs" "j < length accs"
  shows "as_holder_name (accs ! j) \<noteq> []" "as_holder_email (accs ! j) \<noteq> []"
    "list_all (tx_ok own_subject (as_id (accs ! j))) (txs (accs ! j))" "1 + length (txs (accs ! j)) < 2 ^ 64"
  using assms unfolding fixtures_ok_def by (metis nth_mem)+

text \<open>An account that is still to be opened can be, whatever the others do.\<close>

lemma demo_open:
  assumes inv: "demo_inv c order txs accs (ps, w)" and fx: "fixtures_ok txs accs" and j: "j < length accs" "ps ! j = Opening"
    and opn: "open_fixture (pii_store_ops (sealed_store c order)) new_id now (accs ! j) w = (r, w')"
  shows "r = None \<and> demo_inv c order txs accs (ps[j := Working (replicate (length (txs (accs ! j))) Loading)], w')"
proof -
  let ?acc = "accs ! j"
  have empty: "ms_by_aggregate (pw_store w) (account_key ?acc) = []" using demo_invD(5) [OF inv j(1)] j(2) by simp
  have old: "\<forall>k. \<forall>x \<in> set (ms_by_aggregate (pw_store w) k). ev_pii_id x = Some (as_id ?acc) \<longrightarrow> ev_pii_fields x = RawNil"
  proof (intro allI ballI impI)
    fix k x assume x: "x \<in> set (ms_by_aggregate (pw_store w) k)" "ev_pii_id x = Some (as_id ?acc)"
    with demo_inv_subject [OF inv x(1)] have "snd k = as_id ?acc" by simp
    moreover have "k \<in> account_key ` set accs" using demo_invD(4) [OF inv, of k] x(1) by fastforce
    ultimately obtain l where l: "l < length accs" "k = account_key (accs ! l)" "as_id (accs ! l) = as_id ?acc"
      by (auto simp: in_set_conv_nth)
    then have "l = j" using distinct_accounts(1) [OF fx l(1) j(1)] by blast
    with l(2) empty x(1) show "ev_pii_fields x = RawNil" by simp
  qed
  note f = fixtures_okD [OF fx j(1)]
  from open_fixture_sealed [OF demo_invD(2) [OF inv] empty old f(1-3) opn]
  show ?thesis by (intro conjI demo_inv_update [OF inv fx j(1)]) auto
qed

lemma demo_inv_step:
  assumes "demo_step (pii_store_ops (sealed_store c order)) txs accs s s'"
    and fx: "fixtures_ok txs accs" and inv: "demo_inv c order txs accs s"
  shows "demo_inv c order txs accs s'"
  using assms(1) inv
proof (induction rule: demo_step.induct)
  case (open_account j ps new_id now w w')
  from demo_open [OF open_account(4) fx open_account(1-3)] show ?case by blast
next
  case (work j ps ws w ws' w')
  from demo_invD(5) [OF work(4,1)] work(2)
  have acc: "account_log c (mem_wr_abs (pw_keys w)) (accs ! j) (ms_by_aggregate (pw_store w) (account_key (accs ! j)))"
    "posting_inv c order (txs (accs ! j)) (accs ! j) (ws, w)" by simp_all
  note r = post_step_raw [OF acc(2) fixtures_okD(4) [OF fx work(1)] acc(1) demo_invD(2) [OF work(4)] work(3)]
  show ?case
    using r by (intro demo_inv_update [OF work(4) fx work(1)]) simp_all
qed

lemma demo_inv_steps:
  "(demo_step (pii_store_ops (sealed_store c order)) txs accs)\<^sup>*\<^sup>* s s' \<Longrightarrow> fixtures_ok txs accs \<Longrightarrow>
   demo_inv c order txs accs s \<Longrightarrow> demo_inv c order txs accs s'"
  by (induction rule: rtranclp_induct) (auto intro: demo_inv_step)

section \<open>Every run ends with everything posted\<close>

definition all_posted :: "account_phase \<Rightarrow> bool" where
  "all_posted ph \<longleftrightarrow> (case ph of Opening \<Rightarrow> False | Working ws \<Rightarrow> list_all is_posted ws)"

lemma demo_stopped:
  assumes inv: "demo_inv c order txs accs (ps, w)" and fx: "fixtures_ok txs accs"
    and stop: "\<nexists>s. demo_step (pii_store_ops (sealed_store c order)) txs accs (ps, w) s" and j: "j < length accs"
  shows "all_posted (ps ! j)"
proof (cases "ps ! j")
  case Opening
  obtain r w' where opn: "open_fixture (pii_store_ops (sealed_store c order)) 0 0 (accs ! j) w = (r, w')" by force
  with demo_open [OF inv fx j Opening] have "r = None" by blast
  with opn have "open_fixture (pii_store_ops (sealed_store c order)) 0 0 (accs ! j) w = (None, w')" by simp
  from demo_step.open_account [OF j Opening this] stop show ?thesis by blast
next
  case (Working ws)
  with demo_invD(5) [OF inv j] have "posting_inv c order (txs (accs ! j)) (accs ! j) (ws, w)" by simp
  from sealed_posting.post_progress [OF this fixtures_okD(4) [OF fx j]] demo_step.work [OF j Working] stop
  have "list_all is_posted ws" unfolding list_all_length by (metis surj_pair)
  with Working show ?thesis by (simp add: all_posted_def)
qed

text \<open>
  The measure of one account's posting, summed up over the accounts; an opening comes before all of it.
  Whether an account in a worker's hands is outdated shows in the raw stream as well.
\<close>

fun workers :: "account_phase \<Rightarrow> phase list" where
  "workers Opening = []"
| "workers (Working ws) = ws"

definition demo_measure :: "account_spec list \<Rightarrow>
    ((account_phase list \<times> demo_world) \<times> (account_phase list \<times> demo_world)) set" where
  "demo_measure accs = measures
     [\<lambda>(ps, w). \<Sum>l < length accs. if ps ! l = Opening then 1 else 0,
      \<lambda>(ps, w). \<Sum>l < length accs. length (filter (\<lambda>ph. \<not> is_posted ph) (workers (ps ! l))),
      \<lambda>(ps, w). \<Sum>l < length accs. length (filter (stale (ms_by_aggregate (pw_store w) (account_key (accs ! l)))) (workers (ps ! l))),
      \<lambda>(ps, w). \<Sum>l < length accs. length (filter is_loading (workers (ps ! l)))]"

lemma sum_at_less:
  fixes f g :: "nat \<Rightarrow> nat"
  assumes "\<And>l. l < n \<Longrightarrow> l \<noteq> j \<Longrightarrow> f l = g l" "j < n" "f j < g j"
  shows "(\<Sum>l < n. f l) < (\<Sum>l < n. g l)"
proof (rule sum_strict_mono_ex1)
  show "\<forall>l \<in> {..<n}. f l \<le> g l"
  proof
    fix l assume "l \<in> {..<n}"
    with assms(1) [of l] assms(3) show "f l \<le> g l" by (cases "l = j") simp_all
  qed
  show "\<exists>l \<in> {..<n}. f l < g l" using assms(2,3) by auto
qed simp

lemma sum_at_eq:
  fixes f g :: "nat \<Rightarrow> nat"
  assumes "\<And>l. l < n \<Longrightarrow> l \<noteq> j \<Longrightarrow> f l = g l" "f j = g j"
  shows "(\<Sum>l < n. f l) = (\<Sum>l < n. g l)"
proof (rule sum.cong [OF refl])
  fix l assume "l \<in> {..<n}"
  with assms(1) [of l] assms(2) show "f l = g l" by (cases "l = j") simp_all
qed

lemma stale_raw:
  assumes "world_ok c order w"
  shows "stale (sealed_stream c order (account_opts acc) w (as_id acc)) = stale (ms_by_aggregate (pw_store w) (account_key acc))"
proof -
  have "current_version (sealed_stream c order (account_opts acc) w (as_id acc))
      = current_version (ms_by_aggregate (pw_store w) (account_key acc))"
    using sealed.pstream_version [of c order "account_opts acc" w "as_id acc"] world_ok_sealed [OF assms, of "account_opts acc"]
    by (simp add: account_scope_key)
  then show ?thesis by (simp add: stale_def fun_eq_iff split: phase.split)
qed

lemma demo_step_decreases:
  assumes "demo_step (pii_store_ops (sealed_store c order)) txs accs s s'"
    and fx: "fixtures_ok txs accs" and inv: "demo_inv c order txs accs s"
  shows "(s', s) \<in> demo_measure accs"
  using assms(1) inv
proof (induction rule: demo_step.induct)
  case (open_account j ps new_id now w w')
  have len: "length ps = length accs" by (rule demo_invD(1) [OF open_account(4)])
  let ?ps = "ps[j := Working (replicate (length (txs (accs ! j))) Loading)]"
  have "(\<Sum>l < length accs. if ?ps ! l = Opening then 1 else 0) < (\<Sum>l < length accs. if ps ! l = Opening then (1 :: nat) else 0)"
    using open_account(1,2) len by (intro sum_at_less [where j = j]) simp_all
  then show ?case by (simp add: demo_measure_def)
next
  case (work j ps ws w ws' w')
  note inv = work(4)
  have len: "length ps = length accs" by (rule demo_invD(1) [OF inv])
  from demo_invD(5) [OF inv work(1)] work(2)
  have acc: "account_log c (mem_wr_abs (pw_keys w)) (accs ! j) (ms_by_aggregate (pw_store w) (account_key (accs ! j)))"
    "posting_inv c order (txs (accs ! j)) (accs ! j) (ws, w)" by simp_all
  note r = post_step_raw [OF acc(2) fixtures_okD(4) [OF fx work(1)] acc(1) demo_invD(2) [OF inv] work(3)]
  have frame: "ms_by_aggregate (pw_store w') (account_key (accs ! l)) = ms_by_aggregate (pw_store w) (account_key (accs ! l))"
    if "l < length accs" "l \<noteq> j" for l
    using r(4) distinct_accounts(2) [OF fx work(1) that(1)] that(2) by blast
  let ?S = "\<lambda>w l. stale (ms_by_aggregate (pw_store w) (account_key (accs ! l)))"
  have "((ws', w'), (ws, w)) \<in> post_measure (sealed_stream c order (account_opts (accs ! j))) (as_id (accs ! j))"
    by (rule sealed_posting.post_step_decreases [OF acc(2) fixtures_okD(4) [OF fx work(1)] work(3)])
  then consider (post) "length (filter (\<lambda>ph. \<not> is_posted ph) ws') < length (filter (\<lambda>ph. \<not> is_posted ph) ws)"
    | (stale) "length (filter (\<lambda>ph. \<not> is_posted ph) ws') = length (filter (\<lambda>ph. \<not> is_posted ph) ws)"
        "length (filter (?S w' j) ws') < length (filter (?S w j) ws)"
    | (load) "length (filter (\<lambda>ph. \<not> is_posted ph) ws') = length (filter (\<lambda>ph. \<not> is_posted ph) ws)"
        "length (filter (?S w' j) ws') = length (filter (?S w j) ws)"
        "length (filter is_loading ws') < length (filter is_loading ws)"
    unfolding post_measure_def by (auto simp: stale_raw [OF demo_invD(2) [OF inv]] stale_raw [OF r(6)])
  moreover have opens: "(\<Sum>l < length accs. if ps[j := Working ws'] ! l = Opening then 1 else 0)
      = (\<Sum>l < length accs. if ps ! l = Opening then (1 :: nat) else 0)"
    using work(1,2) len by (intro sum_at_eq [where j = j]) simp_all
  note lt = sum_at_less [where j = j and n = "length accs", OF _ work(1)]
    and eq = sum_at_eq [where j = j and n = "length accs"]
  show ?case
    using calculation
  proof cases
    case post
    have "(\<Sum>l < length accs. length (filter (\<lambda>ph. \<not> is_posted ph) (workers (ps[j := Working ws'] ! l))))
        < (\<Sum>l < length accs. length (filter (\<lambda>ph. \<not> is_posted ph) (workers (ps ! l))))"
      using post work(1,2) len by (intro lt) simp_all
    with opens show ?thesis by (simp add: demo_measure_def)
  next
    case stale
    have "(\<Sum>l < length accs. length (filter (\<lambda>ph. \<not> is_posted ph) (workers (ps[j := Working ws'] ! l))))
        = (\<Sum>l < length accs. length (filter (\<lambda>ph. \<not> is_posted ph) (workers (ps ! l))))"
      using stale work(1,2) len by (intro eq) simp_all
    moreover have "(\<Sum>l < length accs. length (filter (?S w' l) (workers (ps[j := Working ws'] ! l))))
        < (\<Sum>l < length accs. length (filter (?S w l) (workers (ps ! l))))"
      using stale work(1,2) len frame by (intro lt) simp_all
    ultimately show ?thesis using opens by (simp add: demo_measure_def)
  next
    case load
    have "(\<Sum>l < length accs. length (filter (\<lambda>ph. \<not> is_posted ph) (workers (ps[j := Working ws'] ! l))))
        = (\<Sum>l < length accs. length (filter (\<lambda>ph. \<not> is_posted ph) (workers (ps ! l))))"
      using load work(1,2) len by (intro eq) simp_all
    moreover have "(\<Sum>l < length accs. length (filter (?S w' l) (workers (ps[j := Working ws'] ! l))))
        = (\<Sum>l < length accs. length (filter (?S w l) (workers (ps ! l))))"
      using load work(1,2) len frame by (intro eq) simp_all
    moreover have "(\<Sum>l < length accs. length (filter is_loading (workers (ps[j := Working ws'] ! l))))
        < (\<Sum>l < length accs. length (filter is_loading (workers (ps ! l))))"
      using load work(1,2) len by (intro lt) simp_all
    ultimately show ?thesis using opens by (simp add: demo_measure_def)
  qed
qed

section \<open>The composition root\<close>

text \<open>The world \<^verbatim>\<open>main\<close> starts in; \<^verbatim>\<open>kek:v1\<close> and \<^verbatim>\<open>kek:v2\<close> as bytes.\<close>

definition kek_label :: "byte \<Rightarrow> bytes" where
  "kek_label v = [107, 101, 107, 58, 118, 48 + v]"

definition new_kek :: "crypto \<Rightarrow> byte \<Rightarrow> error + key_wrapper" where
  "new_kek c v = new_aes_gcm_wrapper c (replicate 32 v) (kek_label v)"

definition demo_root :: "crypto \<Rightarrow> rng \<Rightarrow> (nat \<Rightarrow> time) \<Rightarrow> error + demo_world" where
  "demo_root c q clk = (case new_kek c 1 of
       Inl err \<Rightarrow> Inl err
     | Inr kek1 \<Rightarrow> Inr \<lparr>pw_store = mem_new, pw_keys = \<lparr>wr_keys = mem_keyring_new, wr_wrapper = kek1\<rparr>,
         pw_ledger = [], pw_rng = q, pw_clock = clk\<rparr>)"

lemma new_kek_ok: "crypto_ok c \<Longrightarrow> \<exists>w. new_kek c v = Inr w \<and> wrapper_ok w"
  using aes_wrapper_ok [of c "replicate 32 v" "kek_label v"]
  by (simp add: new_kek_def new_aes_gcm_wrapper_def aes_key_ok_def kek_label_def Let_def)

lemma demo_root_inv:
  assumes "crypto_ok c"
  shows "\<exists>w. demo_root c q clk = Inr w \<and> demo_inv c order txs accs (demo_start accs w)"
proof -
  from new_kek_ok [OF assms] obtain kek where kek: "new_kek c 1 = Inr kek" "wrapper_ok kek" by blast
  let ?w = "\<lparr>pw_store = mem_new, pw_keys = \<lparr>wr_keys = mem_keyring_new, wr_wrapper = kek\<rparr>,
         pw_ledger = [], pw_rng = q, pw_clock = clk\<rparr>"
  have "world_ok c order ?w"
    using assms kek(2) mem_inv_new
    by (simp add: world_ok_def wr_inv_def mem_keyring_inv_def mem_keyring_new_def mem_new_def usable_keys_def wr_abs_def)
  then have "demo_inv c order txs accs (demo_start accs ?w)"
    unfolding demo_start_def by (intro demo_invI) (simp_all add: mem_new_def)
  with kek(1) show ?thesis by (simp add: demo_root_def)
qed

text \<open>A run of the goroutines cannot go on for ever, and can always go on to its end.\<close>

lemma wf_demo_measure: "wf (demo_measure accs)"
  by (simp add: demo_measure_def)

lemma demo_run_stops:
  assumes "fixtures_ok txs accs" "demo_inv c order txs accs s"
  shows "\<exists>s'. (demo_step (pii_store_ops (sealed_store c order)) txs accs)\<^sup>*\<^sup>* s s'
    \<and> (\<nexists>u. demo_step (pii_store_ops (sealed_store c order)) txs accs s' u)"
  by (rule runs_stop [of "demo_measure accs" "demo_inv c order txs accs"])
    (use assms wf_demo_measure demo_inv_step demo_step_decreases in blast)+

lemma no_infinite_demo_run:
  assumes "fixtures_ok txs accs" "demo_inv c order txs accs (run 0)"
    and "\<forall>k. demo_step (pii_store_ops (sealed_store c order)) txs accs (run k) (run (Suc k))"
  shows False
  by (rule no_infinite_run [of "demo_measure accs" "demo_inv c order txs accs"
        "demo_step (pii_store_ops (sealed_store c order)) txs accs" run])
    (use assms wf_demo_measure demo_inv_step demo_step_decreases in blast)+

section \<open>What a run leaves behind\<close>

lemma demo_txs_simps [simp]:
  "length (demo_txs teller system eid acc) = 3"
  "sum_list (map ts_amount (demo_txs teller system eid acc)) = expected_balance_cents"
  by (simp_all add: demo_txs_def tx_specs_for_def expected_balance_cents_def)

lemma demo_fixtures_ok:
  assumes "distinct (map as_id accs)" "\<forall>acc \<in> set accs. as_holder_name acc \<noteq> [] \<and> as_holder_email acc \<noteq> []"
  shows "fixtures_ok (demo_txs teller system eid) accs"
  using assms by (simp add: fixtures_ok_def) (simp add: demo_txs_def tx_specs_for_def tx_ok_def)

text \<open>An account whose workers are done.\<close>

lemma account_posted:
  assumes inv: "demo_inv c order txs accs (ps, w)" and fx: "fixtures_ok txs accs" and j: "j < length accs"
    and posted: "all_posted (ps ! j)"
  obtains a where
    "at_history (as_id (accs ! j)) (sealed_stream c order (account_opts (accs ! j)) w (as_id (accs ! j))) a"
    "load_account (pii_store_ops (sealed_store c order)) (as_id (accs ! j)) (account_opts (accs ! j)) w = Inr a"
    "ac_balance a = sum_list (map ts_amount (txs (accs ! j)))"
    "holder a = (as_holder_name (accs ! j), as_holder_email (accs ! j))"
    "agg_version a = of_nat (1 + length (txs (accs ! j)))"
    "length (ms_by_aggregate (pw_store w) (account_key (accs ! j))) = 1 + length (txs (accs ! j))"
    "account_log c (mem_wr_abs (pw_keys w)) (accs ! j) (ms_by_aggregate (pw_store w) (account_key (accs ! j)))"
proof -
  let ?acc = "accs ! j"
  obtain ws where ws: "ps ! j = Working ws" "list_all is_posted ws"
    using posted by (auto simp: all_posted_def split: account_phase.splits)
  with demo_invD(5) [OF inv j] have
    log: "account_log c (mem_wr_abs (pw_keys w)) ?acc (ms_by_aggregate (pw_store w) (account_key ?acc))"
    and pinv: "posting_inv c order (txs ?acc) ?acc (ws, w)" by simp_all
  let ?S = "sealed_stream c order (account_opts ?acc) w (as_id ?acc)"
  from pinv ws(2) obtain b where b: "at_history (as_id ?acc) ?S b" "ac_balance b = 0 + posted_total (txs ?acc) ws"
    "holder b = (as_holder_name ?acc, as_holder_email ?acc)" "length ?S = 1 + length (txs ?acc)"
    "length ws = length (txs ?acc)" "sealed_inv c order (account_opts ?acc) w"
    by (auto simp: post_inv_def filter_id_conv list_all_iff)
  moreover have "posted_total (txs ?acc) ws = sum_list (map ts_amount (txs ?acc))"
    using posted_total_all [OF b(5) [symmetric] ws(2)] .
  moreover have "length ?S = length (ms_by_aggregate (pw_store w) (account_key ?acc))"
    by (simp add: pii_stream_def account_scope_key)
  ultimately show thesis
    using that [of b] log sealed_posting.load_account_at_history [OF b(6,1)] at_history_version [OF b(1)] by simp
qed

text \<open>
  C5. The concurrent part of the ledger demo: a goroutine per account opens it and starts a goroutine per
  transaction, all at once over the PII store with its wrapped key ring. No interleaving goes on for ever;
  and when nothing can go on, every account has its opening and its three transactions, its holder's
  fields are sealed at rest under the holder's own key, and it loads at version 4 with 155.00 on it and
  with the holder's name and address.
\<close>

theorem demo_run_posts:
  fixes order :: "uuid list \<Rightarrow> uuid list" and teller eid :: "uuid \<Rightarrow> uuid" and system :: uuid
  assumes "crypto_ok c" "demo_root c q clk = Inr w0" "distinct (map as_id accs)"
    and "\<forall>acc \<in> set accs. as_holder_name acc \<noteq> [] \<and> as_holder_email acc \<noteq> []"
  defines "step \<equiv> demo_step (pii_store_ops (sealed_store c order)) (demo_txs teller system eid) accs"
  shows "\<not> (\<exists>run. run 0 = demo_start accs w0 \<and> (\<forall>k. step (run k) (run (Suc k))))
    \<and> (\<forall>ps w. step\<^sup>*\<^sup>* (demo_start accs w0) (ps, w) \<and> (\<nexists>s. step (ps, w) s) \<longrightarrow>
         (\<forall>acc \<in> set accs.
            account_log c (mem_wr_abs (pw_keys w)) acc (ms_by_aggregate (pw_store w) (account_key acc))
            \<and> length (ms_by_aggregate (pw_store w) (account_key acc)) = 4
            \<and> (\<exists>a. load_account (pii_store_ops (sealed_store c order)) (as_id acc) (account_opts acc) w = Inr a
                 \<and> agg_version a = 4 \<and> ac_balance a = expected_balance_cents
                 \<and> holder a = (as_holder_name acc, as_holder_email acc))))"
proof -
  note fx = demo_fixtures_ok [OF assms(3,4), of teller system eid]
  have start: "demo_inv c order (demo_txs teller system eid) accs (demo_start accs w0)"
    using demo_root_inv [OF assms(1)] assms(2) by (metis sum.inject(2))
  have "account_log c (mem_wr_abs (pw_keys w)) acc (ms_by_aggregate (pw_store w) (account_key acc))
      \<and> length (ms_by_aggregate (pw_store w) (account_key acc)) = 4
      \<and> (\<exists>a. load_account (pii_store_ops (sealed_store c order)) (as_id acc) (account_opts acc) w = Inr a
           \<and> agg_version a = 4 \<and> ac_balance a = expected_balance_cents
           \<and> holder a = (as_holder_name acc, as_holder_email acc))"
    if "step\<^sup>*\<^sup>* (demo_start accs w0) (ps, w)" "\<nexists>s. step (ps, w) s" "acc \<in> set accs" for ps w acc
  proof -
    from that(3) obtain j where j: "j < length accs" "acc = accs ! j" by (auto simp: in_set_conv_nth)
    have inv: "demo_inv c order (demo_txs teller system eid) accs (ps, w)"
      using demo_inv_steps [OF that(1) [unfolded step_def] fx start] .
    from account_posted [OF inv fx j(1) demo_stopped [OF inv fx that(2) [unfolded step_def] j(1)]]
    show ?thesis using j(2) by (auto simp: eval_nat_numeral)
  qed
  then show ?thesis using no_infinite_demo_run [OF fx] start unfolding step_def by metis
qed

definition sample_accounts :: "account_spec list" where
  "sample_accounts = [sample_account,
     \<lparr>as_id = 8, as_org = 6, as_org_name = ''Globex Inc'', as_holder_name = ''Dave Diaz'',
       as_holder_email = ''dave@globex.example''\<rparr>]"

theorem demo_run_posts_witness:
  "\<exists>w0 ps w a. demo_root toy_crypto (\<lambda>_. 0) (\<lambda>_. 0) = Inr w0
    \<and> (demo_step (pii_store_ops (sealed_store toy_crypto id)) (demo_txs id 9 id) sample_accounts)\<^sup>*\<^sup>*
        (demo_start sample_accounts w0) (ps, w)
    \<and> load_account (pii_store_ops (sealed_store toy_crypto id)) 7 [WithTenant 5] w = Inr a \<and> ac_balance a = 15500"
proof -
  let ?step = "demo_step (pii_store_ops (sealed_store toy_crypto id)) (demo_txs id 9 id) sample_accounts"
  have ok: "distinct (map as_id sample_accounts)"
    "\<forall>acc \<in> set sample_accounts. as_holder_name acc \<noteq> [] \<and> as_holder_email acc \<noteq> []"
    by (simp_all add: sample_accounts_def)
  from demo_root_inv [OF toy_crypto_ok, of "\<lambda>_. 0" "\<lambda>_. 0" id "demo_txs id 9 id" sample_accounts] obtain w0
    where w0: "demo_root toy_crypto (\<lambda>_. 0) (\<lambda>_. 0) = Inr w0"
      "demo_inv toy_crypto id (demo_txs id 9 id) sample_accounts (demo_start sample_accounts w0)" by blast
  from demo_run_stops [OF demo_fixtures_ok [OF ok] w0(2)] obtain ps w
    where run: "?step\<^sup>*\<^sup>* (demo_start sample_accounts w0) (ps, w)" "\<nexists>s. ?step (ps, w) s" by (metis surj_pair)
  have "sample_account \<in> set sample_accounts" by (simp add: sample_accounts_def)
  moreover note conjunct2 [OF demo_run_posts [OF toy_crypto_ok w0(1) ok, of id id 9 id], rule_format, OF conjI, OF run]
  ultimately obtain a where "load_account (pii_store_ops (sealed_store toy_crypto id)) (as_id sample_account)
      (account_opts sample_account) w = Inr a" "ac_balance a = expected_balance_cents" by blast
  then have "load_account (pii_store_ops (sealed_store toy_crypto id)) 7 [WithTenant 5] w = Inr a"
    "ac_balance a = expected_balance_cents" by simp_all
  with w0(1) run(1) show ?thesis by (auto simp: expected_balance_cents_def)
qed

end
