(* ===== verification/Ledger_Demo.thy ===== *)
theory Ledger_Demo
  imports Ledger_Run Es_Export
begin

text \<open>
  The rest of \<^verbatim>\<open>main\<close> in \<^verbatim>\<open>examples/ledger/main.go\<close>, after its goroutines have been waited for: the fact that
  is shared by all tenants, the erasure of the first holder, the rotation of the master key, the read model
  that is rebuilt, the reports and the list of checks that the program ends with. The theorem that they
  all pass is in \<open>Ledger_Checks\<close>.
\<close>

section \<open>The fixture\<close>

text \<open>What \<^verbatim>\<open>uuid.New\<close> and \<^verbatim>\<open>time.Now\<close> answer in \<^verbatim>\<open>main\<close>.\<close>

record demo_env =
  dm_org_a :: uuid
  dm_org_b :: uuid
  dm_account :: "nat \<Rightarrow> uuid"
  dm_teller_a :: uuid
  dm_teller_b :: uuid
  dm_system :: uuid
  dm_interest :: "uuid \<Rightarrow> uuid"
  dm_fact_event :: uuid
  dm_fact_aggregate :: uuid
  dm_fact_time :: time
  dm_admin :: uuid
  dm_erasure_event :: uuid
  dm_erasure_time :: time
  dm_export_time :: "uuid \<Rightarrow> time"

definition demo_accounts :: "demo_env \<Rightarrow> account_spec list" where
  "demo_accounts env =
     [\<lparr>as_id = dm_account env 0, as_org = dm_org_a env, as_org_name = ''Acme Corp'',
       as_holder_name = ''Alice Anderson'', as_holder_email = ''alice@acme.example''\<rparr>,
      \<lparr>as_id = dm_account env 1, as_org = dm_org_a env, as_org_name = ''Acme Corp'',
       as_holder_name = ''Bob Baker'', as_holder_email = ''bob@acme.example''\<rparr>,
      \<lparr>as_id = dm_account env 2, as_org = dm_org_a env, as_org_name = ''Acme Corp'',
       as_holder_name = ''Carol Chen'', as_holder_email = ''carol@acme.example''\<rparr>,
      \<lparr>as_id = dm_account env 3, as_org = dm_org_b env, as_org_name = ''Globex Inc'',
       as_holder_name = ''Dave Diaz'', as_holder_email = ''dave@globex.example''\<rparr>,
      \<lparr>as_id = dm_account env 4, as_org = dm_org_b env, as_org_name = ''Globex Inc'',
       as_holder_name = ''Erin Evans'', as_holder_email = ''erin@globex.example''\<rparr>,
      \<lparr>as_id = dm_account env 5, as_org = dm_org_b env, as_org_name = ''Globex Inc'',
       as_holder_name = ''Frank Fisher'', as_holder_email = ''frank@globex.example''\<rparr>]"

definition teller_by_org :: "demo_env \<Rightarrow> uuid \<Rightarrow> uuid" where
  "teller_by_org env org =
     (case [dm_org_a env \<mapsto> dm_teller_a env, dm_org_b env \<mapsto> dm_teller_b env] org of
        None \<Rightarrow> uuid_nil | Some t \<Rightarrow> t)"

definition other_org :: "demo_env \<Rightarrow> account_spec \<Rightarrow> uuid" where
  "other_org env acc = (if as_org acc = dm_org_b env then dm_org_a env else dm_org_b env)"

section \<open>Writes after the goroutines\<close>

definition global_fact :: "demo_env \<Rightarrow> domain_event" where
  "global_fact env = zero_event\<lparr>ev_id := dm_fact_event env, ev_aggregate_id := dm_fact_aggregate env,
     ev_aggregate_version := 1, ev_version := 1, ev_name := ''platform.exchange_rate_updated'',
     ev_payload := RawOk (JObj [''usd_to_eur'' \<mapsto> JDec ''0.92'']), ev_occurred_at := dm_fact_time env\<rparr>"

definition commit_fact :: "'s event_store_ops \<Rightarrow> demo_env \<Rightarrow> 's \<Rightarrow> error + 's" where
  "commit_fact st env w =
     (case st_commit st [global_fact env] 0 [] w of
        (Some err, es, w') \<Rightarrow> Inl err
      | (None, es, w') \<Rightarrow> Inr w')"

definition erase_holder :: "'s event_store_ops \<Rightarrow> demo_env \<Rightarrow> account_spec \<Rightarrow> 's \<Rightarrow> error + 's" where
  "erase_holder st env acc w =
     (case load_account st (as_id acc) (account_opts acc) w of
        Inl err \<Rightarrow> Inl err
      | Inr a \<Rightarrow>
          (case account_request_erasure (dm_erasure_event env) (dm_erasure_time env)
                  \<lparr>aa_id = dm_admin env, aa_type = ''admin''\<rparr> a of
             (Some err, a1) \<Rightarrow> Inl err
           | (None, a1) \<Rightarrow>
               (case repo_save st a1 (account_opts acc) w of
                  (Some err, a2, w') \<Rightarrow> Inl err
                | (None, a2, w') \<Rightarrow> Inr w')))"

text \<open>The loads of \<^verbatim>\<open>finalByAccount\<close>.\<close>

fun load_finals :: "'s event_store_ops \<Rightarrow> account_spec list \<Rightarrow> 's \<Rightarrow> error + (uuid \<Rightarrow> account option)" where
  "load_finals st [] w = Inr Map.empty"
| "load_finals st (acc # accs) w =
     (case load_account st (as_id acc) (account_opts acc) w of
        Inl err \<Rightarrow> Inl err
      | Inr a \<Rightarrow> map_sum id (\<lambda>m. [as_id acc \<mapsto> a] ++ m) (load_finals st accs w))"

text \<open>A wait for the read model of an account, when its channel is closed before the two seconds are over.\<close>

definition read_model_ready :: "(uuid \<Rightarrow> account option) \<Rightarrow> account_spec \<Rightarrow> notifier \<Rightarrow> bool" where
  "read_model_ready finals acc n \<longleftrightarrow>
     (case finals (as_id acc) of
        None \<Rightarrow> False
      | Some a \<Rightarrow> (let (ch, n') = notifier_subscribe (as_id acc) (agg_version a) n in ch \<in> nt_closed n'))"

definition rotate_kek :: "crypto \<Rightarrow> (uuid list \<Rightarrow> uuid list) \<Rightarrow> demo_world \<Rightarrow> error + demo_world" where
  "rotate_kek c order w =
     (case new_kek c 2 of
        Inl err \<Rightarrow> Inl err
      | Inr kek2 \<Rightarrow>
          (case wr_rotate (mem_keyring_ops order) kek2 (pw_rng w, pw_keys w) of
             (Some err, r, k) \<Rightarrow> Inl err
           | (None, r, k) \<Rightarrow> Inr (w\<lparr>pw_keys := k, pw_rng := r\<rparr>)))"

section \<open>Checks\<close>

text \<open>
  \<^verbatim>\<open>check\<close> counts, and ends the program at the first condition that does not hold. A list of checks
  answers with how many it made.
\<close>

fun run_checks :: "(string \<times> bool) list \<Rightarrow> error + nat" where
  "run_checks [] = Inr 0"
| "run_checks ((msg, ok) # cs) = (if ok then map_sum id Suc (run_checks cs) else Inl (ErrText msg))"

fun all_of :: "(error + nat) list \<Rightarrow> error + nat" where
  "all_of [] = Inr 0"
| "all_of (x # xs) = (case x of Inl err \<Rightarrow> Inl err | Inr n \<Rightarrow> map_sum id (\<lambda>m. n + m) (all_of xs))"

definition check_loaded :: "'s event_store_ops \<Rightarrow> bool \<Rightarrow> account_spec \<Rightarrow> 's \<Rightarrow> error + nat" where
  "check_loaded st erased acc w =
     (case load_account st (as_id acc) (account_opts acc) w of
        Inl err \<Rightarrow> Inl (ErrText ''Repository.Load succeeds'')
      | Inr a \<Rightarrow> run_checks
          [(''Repository.Load succeeds'', True),
           (''balance'', ac_balance a = expected_balance_cents),
           if erased then (''holder name is unrecoverable ciphertext after erasure'', ac_holder_name a \<noteq> as_holder_name acc)
           else (''holder name/email decrypt correctly'',
             ac_holder_name a = as_holder_name acc \<and> ac_holder_email a = as_holder_email acc)])"

definition check_isolated :: "'s event_store_ops \<Rightarrow> demo_env \<Rightarrow> account_spec \<Rightarrow> 's \<Rightarrow> error + nat" where
  "check_isolated st env acc w = run_checks
     [(''invisible under the other organization's tenant scope'',
       case load_account st (as_id acc) [WithTenant (other_org env acc)] w of
         Inl err \<Rightarrow> errors_is err ErrAggregateNotFound | Inr a \<Rightarrow> False)]"

definition want_raw_count :: "bool \<Rightarrow> nat" where
  "want_raw_count erased = (if erased then 5 else 4)"

text \<open>Decoding into the struct with only \<^verbatim>\<open>holder_name\<close>.\<close>

definition decode_raw_open :: "raw \<Rightarrow> error option \<times> string" where
  "decode_raw_open r =
     (case unmarshal_map r of
        Inl err \<Rightarrow> (Some err, [])
      | Inr None \<Rightarrow> (None, [])
      | Inr (Some m) \<Rightarrow> struct_field unmarshal_string m ''holder_name'' [])"

definition check_raw :: "bool \<Rightarrow> account_spec \<Rightarrow> mem_store \<Rightarrow> error + nat" where
  "check_raw erased acc s =
     (case mem_load (as_id acc) (account_opts acc) s of
        Inl err \<Rightarrow> Inl (ErrText ''raw store holds exactly'')
      | Inr es \<Rightarrow> all_of
          [run_checks [(''raw store holds exactly'', length es = want_raw_count erased)],
           run_checks (map (\<lambda>i. (''aggregate_version'', ev_aggregate_version (es ! i) = of_nat (i + 1))) [0..<length es]),
           (case es of
              [] \<Rightarrow> Inl (Panic ''index out of range'')
            | e # _ \<Rightarrow> run_checks
                [(''first event is AccountOpened'', ev_name e = account_opened),
                 (''raw AccountOpened payload unmarshals cleanly'', fst (decode_raw_open (ev_payload e)) = None),
                 (''raw payload's holder_name is ciphertext'', snd (decode_raw_open (ev_payload e)) \<noteq> as_holder_name acc)])])"

type_synonym pii_lookup_fn = "uuid \<Rightarrow> store_option list \<Rightarrow> error + domain_event list"

definition exported_name :: "domain_event \<Rightarrow> string" where
  "exported_name e = (case account_unmarshal (ev_payload e) (AccountOpenedEvent [] [] 0) of
     (r, AccountOpenedEvent n em b) \<Rightarrow> n | _ \<Rightarrow> [])"

definition check_export :: "pii_lookup_fn \<Rightarrow> bool \<Rightarrow> account_spec \<Rightarrow> error + nat" where
  "check_export lookup erased acc =
     (case export_subject lookup (as_id acc) (account_opts acc) of
        Inl err \<Rightarrow> Inl (ErrText ''subject export succeeds'')
      | Inr x \<Rightarrow>
          (case se_aggregates x of
             [h] \<Rightarrow>
               (case ah_events h of
                  e # es \<Rightarrow> run_checks
                    [(''subject export succeeds'', True),
                     (''subject export holds exactly 1 aggregate stream'', length (e # es) = want_raw_count erased),
                     (''exported AccountOpened payload unmarshals cleanly'',
                       fst (account_unmarshal (ev_payload e) (AccountOpenedEvent [] [] 0)) = None),
                     if erased then (''exported holder identity is flagged unrecoverable'',
                       ev_pii_unrecoverable e \<and> exported_name e \<noteq> as_holder_name acc)
                     else (''exported holder identity decrypts cleanly'',
                       \<not> ev_pii_unrecoverable e \<and> exported_name e = as_holder_name acc)]
                | [] \<Rightarrow> Inl (ErrText ''subject export holds exactly 1 aggregate stream''))
           | _ \<Rightarrow> Inl (ErrText ''subject export holds exactly 1 aggregate stream'')))"

text \<open>
  \<^verbatim>\<open>json.Unmarshal\<close> of the document into \<^verbatim>\<open>decoded\<close>: the subject, and per stream the flag of each event.
  \<open>parse\<close> is the text form of a UUID read back, which a third-party package does.
\<close>

fun decode_all :: "(json \<Rightarrow> error + 'a) \<Rightarrow> json list \<Rightarrow> error + 'a list" where
  "decode_all f [] = Inr []"
| "decode_all f (j # js) =
     (case f j of
        Inl err \<Rightarrow> Inl err
      | Inr x \<Rightarrow> map_sum id (\<lambda>xs. x # xs) (decode_all f js))"

fun decode_slice :: "(json \<Rightarrow> error + 'a) \<Rightarrow> json \<Rightarrow> error + 'a list" where
  "decode_slice f (JArr js) = decode_all f js"
| "decode_slice f JNull = Inr []"
| "decode_slice f _ = Inl ErrJson"

fun decode_flag :: "json \<Rightarrow> error + bool" where
  "decode_flag (JObj m) =
     (case m ''pii_unrecoverable'' of
        None \<Rightarrow> Inr False
      | Some JNull \<Rightarrow> Inr False
      | Some (JBool b) \<Rightarrow> Inr b
      | _ \<Rightarrow> Inl ErrJson)"
| "decode_flag JNull = Inr False"
| "decode_flag _ = Inl ErrJson"

fun decode_aggregate :: "json \<Rightarrow> error + bool list" where
  "decode_aggregate (JObj m) = (case m ''events'' of None \<Rightarrow> Inr [] | Some j \<Rightarrow> decode_slice decode_flag j)"
| "decode_aggregate JNull = Inr []"
| "decode_aggregate _ = Inl ErrJson"

fun decode_uuid :: "(string \<Rightarrow> uuid option) \<Rightarrow> json option \<Rightarrow> error + uuid" where
  "decode_uuid parse (Some (JStr s)) = (case parse s of None \<Rightarrow> Inl ErrJson | Some u \<Rightarrow> Inr u)"
| "decode_uuid parse None = Inr uuid_nil"
| "decode_uuid parse (Some JNull) = Inr uuid_nil"
| "decode_uuid parse _ = Inl ErrJson"

fun decode_document :: "(string \<Rightarrow> uuid option) \<Rightarrow> json \<Rightarrow> error + uuid \<times> bool list list" where
  "decode_document parse (JObj m) =
     (case decode_uuid parse (m ''pii_id'') of
        Inl err \<Rightarrow> Inl err
      | Inr u \<Rightarrow> map_sum id (\<lambda>bs. (u, bs))
          (case m ''aggregates'' of None \<Rightarrow> Inr [] | Some j \<Rightarrow> decode_slice decode_aggregate j))"
| "decode_document parse JNull = Inr (uuid_nil, [])"
| "decode_document parse _ = Inl ErrJson"

definition check_document :: "dsar_codec \<Rightarrow> (string \<Rightarrow> uuid option) \<Rightarrow> time \<Rightarrow> pii_lookup_fn \<Rightarrow> bool \<Rightarrow>
    account_spec \<Rightarrow> error + nat" where
  "check_document cd parse now lookup erased acc =
     (case export_json cd now lookup (as_id acc) (account_opts acc) of
        Inl err \<Rightarrow> Inl (ErrText ''DSAR JSON export succeeds'')
      | Inr j \<Rightarrow>
          (case decode_document parse j of
             Inl err \<Rightarrow> Inl (ErrText ''DSAR JSON export decodes cleanly'')
           | Inr (p, aggs) \<Rightarrow>
               (case aggs of
                  [b # bs] \<Rightarrow> run_checks
                    [(''DSAR JSON export succeeds'', True), (''DSAR JSON export decodes cleanly'', True),
                     (''DSAR JSON export's pii_id is the account id'', p = as_id acc),
                     (''DSAR JSON export holds the same events'', length (b # bs) = want_raw_count erased),
                     (''DSAR JSON export's pii_unrecoverable matches erasure status'', b = erased)]
                | _ \<Rightarrow> Inl (ErrText ''DSAR JSON export holds the same events''))))"

definition check_statement :: "(uuid \<Rightarrow> statement_book) \<Rightarrow> demo_env \<Rightarrow> account_spec \<Rightarrow> error + nat" where
  "check_statement books env acc = run_checks
     [(''async statement shows the same balance'',
       case books (as_org acc) (as_id acc) of None \<Rightarrow> False | Some v \<Rightarrow> av_balance v = expected_balance_cents),
      (''does not appear in the other organization's statement book'',
       books (other_org env acc) (as_id acc) = None)]"

text \<open>The body of the loop over the accounts.\<close>

definition check_account :: "crypto \<Rightarrow> (uuid list \<Rightarrow> uuid list) \<Rightarrow> dsar_codec \<Rightarrow> (string \<Rightarrow> uuid option) \<Rightarrow>
    demo_env \<Rightarrow> (uuid \<Rightarrow> statement_book) \<Rightarrow> uuid \<Rightarrow> demo_world \<Rightarrow> account_spec \<Rightarrow> error + nat" where
  "check_account c order cd parse env books erased_id w acc =
     (let st = pii_store_ops (sealed_store c order); erased = (as_id acc = erased_id);
          lookup = (\<lambda>p opts. pii_fetch_by_pii_id (sealed_store c order) p opts w)
      in all_of
           [check_loaded st erased acc w,
            check_isolated st env acc w,
            check_raw erased acc (pw_store w),
            check_export lookup erased acc,
            check_document cd parse (dm_export_time env (as_id acc)) lookup erased acc,
            check_statement books env acc])"

section \<open>The rebuilt read model\<close>

definition rebuilt_dispatcher :: "statement_book dispatcher" where
  "rebuilt_dispatcher = subscribe_listener all_account_events (new_projector statement_project) new_dispatcher"

fun rebuild_loop :: "domain_event list \<Rightarrow> statement_book \<Rightarrow> error + statement_book" where
  "rebuild_loop [] b = Inr b"
| "rebuild_loop (e # es) b =
     (case dispatch rebuilt_dispatcher e b of
        (Some err, started, b') \<Rightarrow> Inl err
      | (None, started, b') \<Rightarrow> rebuild_loop es b')"

text \<open>
  The stream of a tenant-scoped store delivers the opened events its tenant sees, when the two seconds that
  \<^verbatim>\<open>main\<close> gives it are enough.
\<close>

definition rebuild_book :: "crypto \<Rightarrow> (uuid list \<Rightarrow> uuid list) \<Rightarrow> uuid \<Rightarrow> demo_world \<Rightarrow> error + statement_book" where
  "rebuild_book c order org w =
     (case open_all (sealed_store c order) (visible_log [WithTenant org] (pw_store w)) (pw_keys w) of
        Inl err \<Rightarrow> Inl err
      | Inr es \<Rightarrow> rebuild_loop es new_statement_book)"

definition check_rebuilt :: "statement_book \<Rightarrow> uuid \<Rightarrow> account_spec \<Rightarrow> error + nat" where
  "check_rebuilt b erased_id acc =
     (case b (as_id acc) of
        None \<Rightarrow> Inl (ErrText ''rebuilt-from-scratch statement still shows the correct balance'')
      | Some v \<Rightarrow> run_checks
          [(''rebuilt-from-scratch statement still shows the correct balance'', av_balance v = expected_balance_cents),
           if as_id acc = erased_id then (''rebuilt statement shows the placeholder'', av_holder_name v = ''[erased]'')
           else (''rebuilt statement still shows the real name'', av_holder_name v = as_holder_name acc)])"

section \<open>The erasure, the shared fact and the counts\<close>

definition verify_erasure :: "crypto \<Rightarrow> (uuid list \<Rightarrow> uuid list) \<Rightarrow> demo_world \<Rightarrow> uuid \<Rightarrow>
    erasure_proof option \<times> error option" where
  "verify_erasure c order w p = erasure_verify c (mem_ledger_entries (pw_ledger w))
     (\<lambda>q. kr_get (demo_keyring order) q (pw_keys w))
     (\<lambda>q. pii_fetch_by_pii_id (sealed_store c order) q [] w) p"

definition check_proof :: "erasure_proof \<Rightarrow> error + nat" where
  "check_proof pr = run_checks
     [(''erasure proof cites at least one ledger record'', length (ep_erasures pr) \<ge> 1),
      (''erasure proof confirms the key is gone from the keyring'', ep_key_forgotten pr),
      (''erasure proof confirms every PII-bearing event is unrecoverable'', ep_events_unrecoverable pr)]"

definition check_never_erased :: "erasure_proof option \<times> error option \<Rightarrow> error + nat" where
  "check_never_erased r = run_checks
     [(''erasure verification correctly fails'', case snd r of None \<Rightarrow> False | Some err \<Rightarrow> errors_is err ErrNoErasureRecord)]"

definition check_fact :: "'s event_store_ops \<Rightarrow> demo_env \<Rightarrow> 's \<Rightarrow> error + nat" where
  "check_fact st env w = run_checks
     [(''Acme's tenant-scoped store can see the shared exchange-rate fact'',
       \<not> isl (st_load (tenant_scoped (dm_org_a env) st) (dm_fact_aggregate env) [] w)),
      (''Globex's tenant-scoped store can see the same shared exchange-rate fact'',
       \<not> isl (st_load (tenant_scoped (dm_org_b env) st) (dm_fact_aggregate env) [] w))]"

definition check_counts :: "domain_event list \<Rightarrow> domain_event list \<Rightarrow> domain_event list \<Rightarrow> error + nat" where
  "check_counts org_a org_b all = run_checks
     [(''Acme's tenant-scoped report'', length org_a = 3 + 9 + 1 + 1),
      (''Globex's tenant-scoped report'', length org_b = 3 + 9 + 1),
      (''es.WithAllTenants report'', length all = (3 + 9 + 1) + (3 + 9) + 1)]"

section \<open>The program\<close>

text \<open>
  What \<^verbatim>\<open>main\<close> writes, up to the waits for the read models; and what it does after them. \<open>books org\<close> is
  the statement book of an organization's worker. The answer is the number of checks that passed.
\<close>

definition demo_writes :: "crypto \<Rightarrow> (uuid list \<Rightarrow> uuid list) \<Rightarrow> demo_env \<Rightarrow> demo_world \<Rightarrow>
    error + demo_world \<times> (uuid \<Rightarrow> account option)" where
  "demo_writes c order env w =
     (let st = pii_store_ops (sealed_store c order)
      in case commit_fact st env w of
           Inl err \<Rightarrow> Inl err
         | Inr w1 \<Rightarrow>
             (case erase_holder st env (hd (demo_accounts env)) w1 of
                Inl err \<Rightarrow> Inl err
              | Inr w2 \<Rightarrow> map_sum id (\<lambda>finals. (w2, finals)) (load_finals st (demo_accounts env) w2)))"

definition demo_audit :: "crypto \<Rightarrow> (uuid list \<Rightarrow> uuid list) \<Rightarrow> dsar_codec \<Rightarrow> (string \<Rightarrow> uuid option) \<Rightarrow>
    demo_env \<Rightarrow> (uuid \<Rightarrow> statement_book) \<Rightarrow> demo_world \<Rightarrow> error + nat" where
  "demo_audit c order cd parse env books w0 =
     (let st = pii_store_ops (sealed_store c order); accs = demo_accounts env;
          erased_id = as_id (accs ! 0)
      in case rotate_kek c order w0 of
           Inl err \<Rightarrow> Inl err
         | Inr w \<Rightarrow>
      (case verify_erasure c order w erased_id of
           (pr, Some err) \<Rightarrow> Inl err
         | (None, None) \<Rightarrow> Inl (Panic ''nil pointer dereference'')
         | (Some pr, None) \<Rightarrow>
      (case rebuild_book c order (dm_org_a env) w of
           Inl err \<Rightarrow> Inl err
         | Inr b \<Rightarrow>
      (case (st_fetch_after st 0 10000 [WithAllTenants] w,
             st_fetch_after (tenant_scoped (dm_org_a env) st) 0 10000 [] w,
             st_fetch_after (tenant_scoped (dm_org_b env) st) 0 10000 [] w,
             mem_load erased_id (account_opts (accs ! 0)) (pw_store w)) of
           (Inr all, Inr org_a, Inr org_b, Inr raw_erased) \<Rightarrow>
             all_of (map (check_account c order cd parse env books erased_id w) accs
               @ map (check_rebuilt b erased_id) (filter (\<lambda>acc. as_org acc = dm_org_a env) accs)
               @ [check_proof pr, check_never_erased (verify_erasure c order w (as_id (accs ! 1))),
                  check_fact st env w, check_counts org_a org_b all])
         | _ \<Rightarrow> Inl (ErrText ''report'')))))"

end
