(* ===== verification/Ledger_Final.thy ===== *)
theory Ledger_Final
  imports Ledger_Demo
begin

text \<open>
  The state that \<^verbatim>\<open>main\<close> of \<^verbatim>\<open>examples/ledger/main.go\<close> has when it starts to check: what the goroutines left,
  the shared fact, the erasure of one holder and the rotation of the master key. \<open>demo_state\<close> describes it,
  and each of these writes succeeds and leads from one such state to the next.
\<close>

section \<open>Replaying the rest of a stream\<close>

text \<open>Once an account is open, what follows in its stream does the same to any open account.\<close>

lemma replay_rest:
  assumes "load_from_history account_ops account_apply account_events es a = (None, b)" "ac_opened a"
  shows "ac_opened b \<and> holder b = holder a \<and> (\<forall>e \<in> set es. ev_name e \<noteq> account_opened)
    \<and> (\<forall>a'. ac_opened a' \<longrightarrow> (\<exists>b'. load_from_history account_ops account_apply account_events es a' = (None, b')
         \<and> ac_opened b' \<and> holder b' = holder a' \<and> ac_balance b' - ac_balance a' = ac_balance b - ac_balance a))"
  using assms
proof (induction es arbitrary: a)
  case (Cons e es)
  obtain r a1 where step: "load_from_history account_ops account_apply account_events [e] a = (r, a1)" by force
  have "load_from_history account_ops account_apply account_events ([e] @ es) a = (None, b)" using Cons.prems(1) by simp
  with step have r: "r = None" and rest: "load_from_history account_ops account_apply account_events es a1 = (None, b)"
    unfolding load_from_history_append by (auto split: option.splits)
  have "ac_opened a1 \<and> holder a1 = holder a \<and> ev_name e \<noteq> account_opened
    \<and> (\<forall>a'. ac_opened a' \<longrightarrow> (\<exists>b'. load_from_history account_ops account_apply account_events [e] a' = (None, b')
         \<and> ac_opened b' \<and> holder b' = holder a' \<and> ac_balance b' - ac_balance a' = ac_balance a1 - ac_balance a))"
    using step [unfolded r]
  proof (cases rule: account_step_cases)
    case (transaction amount d)
    then have "ev_name e \<noteq> account_opened" by (simp add: account_event_names)
    with transaction Cons.prems(2) show ?thesis by (auto simp: holder_def set_version_def)
  next
    case erasure
    then have "snd (account_unmarshal (ev_payload e) HolderErasureRequestedEvent) = HolderErasureRequestedEvent"
      using account_unmarshal_shape(2) by (metis prod.collapse)
    moreover have "fst (account_unmarshal (ev_payload e) HolderErasureRequestedEvent) = None"
      using step [unfolded r] erasure(1) by (auto split: prod.splits option.splits)
    ultimately have "account_unmarshal (ev_payload e) HolderErasureRequestedEvent = (None, HolderErasureRequestedEvent)"
      by (metis prod.collapse)
    moreover have "ev_name e \<noteq> account_opened" using erasure(1) by (simp add: account_event_names)
    ultimately show ?thesis using erasure Cons.prems(2) by (auto simp: holder_def set_version_def)
  qed (use Cons.prems(2) in simp)
  note one = this
  note ih = Cons.IH [OF rest conjunct1 [OF one]]
  show ?case
  proof (intro conjI allI impI)
    fix a' :: account
    assume "ac_opened a'"
    with one obtain b1 where b1: "load_from_history account_ops account_apply account_events [e] a' = (None, b1)"
      "ac_opened b1" "holder b1 = holder a'" "ac_balance b1 - ac_balance a' = ac_balance a1 - ac_balance a" by blast
    with ih obtain b' where b': "load_from_history account_ops account_apply account_events es b1 = (None, b')"
      "ac_opened b'" "holder b' = holder b1" "ac_balance b' - ac_balance b1 = ac_balance b - ac_balance a1" by blast
    have "load_from_history account_ops account_apply account_events (e # es) a' = (None, b')"
      using load_from_history_append [of account_ops account_apply account_events "[e]" es a'] b1(1) b'(1) by simp
    moreover have "ac_balance b' - ac_balance a'
        = (ac_balance b' - ac_balance b1) + (ac_balance b1 - ac_balance a')" by simp
    then have "ac_balance b' - ac_balance a' = ac_balance b - ac_balance a" unfolding b1(4) b'(4) by simp
    ultimately show "\<exists>b'. load_from_history account_ops account_apply account_events (e # es) a' = (None, b')
         \<and> ac_opened b' \<and> holder b' = holder a' \<and> ac_balance b' - ac_balance a' = ac_balance b - ac_balance a"
      using b1(3) b'(2,3) by auto
  qed (use one ih in auto)
qed simp

lemma replay_payloads:
  "load_from_history account_ops account_apply account_events es a = (None, b) \<Longrightarrow> e \<in> set es \<Longrightarrow> ev_payload e \<noteq> RawBad"
proof (induction es arbitrary: a)
  case (Cons x es)
  obtain r a1 where "load_from_history account_ops account_apply account_events [x] a = (r, a1)" by force
  moreover have "load_from_history account_ops account_apply account_events ([x] @ es) a = (None, b)" using Cons.prems(1) by simp
  ultimately have "load_from_history account_ops account_apply account_events [x] a = (None, a1)"
    "load_from_history account_ops account_apply account_events es a1 = (None, b)"
    unfolding load_from_history_append by (auto split: option.splits)
  with Cons show ?case by (auto split: option.splits prod.splits)
qed simp

section \<open>What the opening is at rest\<close>

lemma sealed_opening:
  assumes "sealed c key holder_fields e x" "opened_by acc e"
  obtains m n em where "ev_payload x = RawOk (JObj m)" "m ''holder_name'' = Some (JStr n)"
    "m ''holder_email'' = Some (JStr em)" "m ''opening_balance_cents'' = Some (JNum 0)" "CHR '' '' \<notin> set n"
    "x = e\<lparr>ev_payload := RawOk (JObj m), ev_pii_fields := RawOk (manifest_json holder_fields)\<rparr>"
proof -
  let ?m = "[''holder_name'' \<mapsto> JStr (as_holder_name acc),
         ''holder_email'' \<mapsto> JStr (as_holder_email acc), ''opening_balance_cents'' \<mapsto> JNum 0]"
  have "ev_payload e = RawOk (JObj ?m)" using assms(2) by (simp add: opened_by_def)
  from sealed_payload [OF assms(1) this] obtain m r r'
    where m: "seal_fields c key holder_fields (Some ?m) r = (Inr (Some m), r')"
      "x = e\<lparr>ev_payload := RawOk (JObj m), ev_pii_fields := RawOk (manifest_json holder_fields)\<rparr>" .
  have "m ''opening_balance_cents'' = Some (JNum 0)" using seal_fields_other [OF m(1), of "''opening_balance_cents''"] by simp
  moreover obtain j1 where j1: "m ''holder_name'' = Some j1" "cipher_text c key j1"
    using seal_fields_cipher [OF m(1), of "''holder_name''"] by auto
  moreover obtain j2 where j2: "m ''holder_email'' = Some j2" "cipher_text c key j2"
    using seal_fields_cipher [OF m(1), of "''holder_email''"] by auto
  moreover obtain b1 b2 where "j1 = JStr (b64_encode b1)" "j2 = JStr (b64_encode b2)"
    using j1(2) j2(2) by (auto simp: cipher_text_def)
  ultimately show thesis using that [of m "b64_encode b1" "b64_encode b2"] m(2) b64_encode_no_space by simp
qed

lemma opened_decodes:
  assumes "m ''holder_name'' = Some (JStr n)" "m ''holder_email'' = Some (JStr em)"
    and "m ''opening_balance_cents'' = Some (JNum 0)"
  shows "account_unmarshal (RawOk (JObj m)) (AccountOpenedEvent [] [] 0) = (None, AccountOpenedEvent n em 0)"
  using assms by (simp add: struct_field_def unmarshal_i64_def)

section \<open>The state\<close>

text \<open>
  An account of which everything is posted. \<open>ks0\<close> are the keys the subjects were given; \<open>erased\<close> tells
  whether the holder has been forgotten.
\<close>

definition plain_event :: "uuid \<Rightarrow> domain_event \<Rightarrow> bool" where
  "plain_event i e \<longleftrightarrow> ev_pii_fields e = RawNil \<and> ev_pii_id e = Some i \<and> metadata_ok (ev_metadata e)"

definition closed_log :: "crypto \<Rightarrow> bytes \<Rightarrow> account_spec \<Rightarrow> domain_event list \<Rightarrow> bool" where
  "closed_log c key acc S \<longleftrightarrow> versions_from 0 S \<and> (\<exists>x e ts. S = x # ts \<and> sealed c key holder_fields e x \<and> opened_by acc e
     \<and> list_all (plain_event (as_id acc)) ts)"

abbreviation account_stream :: "demo_world \<Rightarrow> account_spec \<Rightarrow> domain_event list" where
  "account_stream w acc \<equiv> ms_by_aggregate (pw_store w) (account_key acc)"

abbreviation opened_stream :: "crypto \<Rightarrow> (uuid list \<Rightarrow> uuid list) \<Rightarrow> demo_world \<Rightarrow> account_spec \<Rightarrow> domain_event list" where
  "opened_stream c order w acc \<equiv> map (opened (sealed_store c order) (pw_keys w)) (account_stream w acc)"

definition account_done :: "crypto \<Rightarrow> (uuid list \<Rightarrow> uuid list) \<Rightarrow> (uuid \<Rightarrow> bytes option) \<Rightarrow> demo_world \<Rightarrow> bool \<Rightarrow>
    account_spec \<Rightarrow> bool" where
  "account_done c order ks0 w erased acc \<longleftrightarrow>
     length (account_stream w acc) = want_raw_count erased
     \<and> (\<exists>key. ks0 (as_id acc) = Some key \<and> closed_log c key acc (account_stream w acc)
          \<and> mem_wr_abs (pw_keys w) (as_id acc) = (if erased then None else Some key))
     \<and> (\<exists>a. load_from_history account_ops account_apply account_events (opened_stream c order w acc)
             (set_id (as_id acc) new_account) = (None, a)
          \<and> ac_opened a \<and> ac_balance a = expected_balance_cents)"

definition demo_state :: "crypto \<Rightarrow> (uuid list \<Rightarrow> uuid list) \<Rightarrow> (uuid \<Rightarrow> bytes option) \<Rightarrow> account_spec list \<Rightarrow>
    (uuid \<times> uuid) set \<Rightarrow> uuid set \<Rightarrow> demo_world \<Rightarrow> bool" where
  "demo_state c order ks0 accs others erased w \<longleftrightarrow> world_ok c order w
     \<and> (\<forall>k. k \<notin> others \<union> account_key ` set accs \<longrightarrow> ms_by_aggregate (pw_store w) k = [])
     \<and> (\<forall>acc \<in> set accs. account_done c order ks0 w (as_id acc \<in> erased) acc)"

lemma demo_stateD:
  assumes "demo_state c order ks0 accs others erased w"
  shows "world_ok c order w" "k \<notin> others \<union> account_key ` set accs \<Longrightarrow> ms_by_aggregate (pw_store w) k = []"
    "acc \<in> set accs \<Longrightarrow> account_done c order ks0 w (as_id acc \<in> erased) acc"
  using assms unfolding demo_state_def by blast+

lemma world_okD:
  assumes "world_ok c order w"
  shows "crypto_ok c" "mem_inv (pw_store w)" "mem_wr_inv (pw_keys w)" "usable_keys (mem_wr_abs (pw_keys w))"
    "e \<in> set (ms_by_aggregate (pw_store w) k) \<Longrightarrow> openable (sealed_store c order) (pw_keys w) e"
  using assms unfolding world_ok_def by blast+

lemma versions_from_versions:
  "map ev_aggregate_version xs = map ev_aggregate_version ys \<Longrightarrow> versions_from v xs = versions_from v ys"
proof (induction xs arbitrary: ys v)
  case (Cons x xs)
  then obtain y zs where "ys = y # zs" "ev_aggregate_version x = ev_aggregate_version y"
    "map ev_aggregate_version xs = map ev_aggregate_version zs" by (cases ys) auto
  with Cons.IH [of zs "v + 1"] show ?case by simp
qed simp

lemma opened_stream_versions:
  assumes "world_ok c order w"
  shows "map ev_aggregate_version (opened_stream c order w acc) = map ev_aggregate_version (account_stream w acc)"
  using world_okD(5) [OF assms] by (simp add: opened_version)

lemma closed_log_subject:
  assumes "closed_log c key acc S" "x \<in> set S"
  shows "ev_pii_id x = Some (as_id acc) \<and> metadata_ok (ev_metadata x)"
  using assms by (auto simp: closed_log_def plain_event_def list_all_iff opened_by_def dest!: sealed_frame)

lemma account_done_frame:
  assumes acc: "account_done c order ks0 w er acc" and ok: "world_ok c order w" "world_ok c order w'"
    and same: "account_stream w' acc = account_stream w acc"
      "mem_wr_abs (pw_keys w') (as_id acc) = mem_wr_abs (pw_keys w) (as_id acc)"
  shows "account_done c order ks0 w' er acc"
proof -
  obtain key where "closed_log c key acc (account_stream w acc)" using acc by (auto simp: account_done_def)
  note subj = closed_log_subject [OF this]
  have "opened (sealed_store c order) (pw_keys w') x = opened (sealed_store c order) (pw_keys w) x"
    if "x \<in> set (account_stream w acc)" for x
    using same(2) subj [OF that] by (intro opened_same_keys(1) world_okD(3) [OF ok(1)] world_okD(3) [OF ok(2)]) simp
  then have "opened_stream c order w' acc = opened_stream c order w acc" unfolding same(1) by (intro map_cong refl)
  with acc same show ?thesis unfolding account_done_def by metis
qed

section \<open>When the goroutines are done\<close>

lemma demo_state_start:
  assumes inv: "demo_inv c order (demo_txs teller system eid) accs (ps, w)"
    and names: "distinct (map as_id accs)" "\<forall>acc \<in> set accs. as_holder_name acc \<noteq> [] \<and> as_holder_email acc \<noteq> []"
    and stop: "\<nexists>s. demo_step (pii_store_ops (sealed_store c order)) (demo_txs teller system eid) accs (ps, w) s"
  shows "demo_state c order (mem_wr_abs (pw_keys w)) accs {} {} w"
proof -
  note fx = demo_fixtures_ok [OF names, of teller system eid]
  have "account_done c order (mem_wr_abs (pw_keys w)) w False acc" if "acc \<in> set accs" for acc
  proof -
    from that obtain j where j: "j < length accs" "acc = accs ! j" by (auto simp: in_set_conv_nth)
    obtain a where a: "at_history (as_id acc) (opened_stream c order w acc) a"
      "ac_balance a = expected_balance_cents" "length (account_stream w acc) = 4"
      "account_log c (mem_wr_abs (pw_keys w)) acc (account_stream w acc)"
      using account_posted [OF inv fx j(1) demo_stopped [OF inv fx stop j(1)]] j(2)
      by (simp add: pii_stream_def account_scope_key eval_nat_numeral) metis
    have "versions_from 0 (account_stream w acc)"
      using at_history_stream [OF a(1)] versions_from_versions [OF opened_stream_versions [OF demo_invD(2) [OF inv], of acc]]
      by simp
    moreover have "list_all (raw_tx i) ts \<Longrightarrow> list_all (plain_event i) ts" for i ts
      by (auto simp: raw_tx_def plain_event_def list_all_iff)
    ultimately have "\<exists>key. mem_wr_abs (pw_keys w) (as_id acc) = Some key \<and> closed_log c key acc (account_stream w acc)"
      using a(4) unfolding account_log_def closed_log_def by blast
    moreover have "ac_opened a" using a(1) by (simp add: at_history_def)
    ultimately show ?thesis
      using a(2,3) at_history_load [OF a(1)] unfolding account_done_def want_raw_count_def by auto
  qed
  with demo_invD(2,4) [OF inv] show ?thesis by (simp add: demo_state_def)
qed

section \<open>The shared fact\<close>

lemma global_fact_sel [simp]:
  "ev_aggregate_id (global_fact env) = dm_fact_aggregate env" "ev_tenant_id (global_fact env) = uuid_nil"
  "ev_pii_id (global_fact env) = None" "ev_name (global_fact env) = ''platform.exchange_rate_updated''"
  "ev_pii_fields (global_fact env) = RawNil"
  by (simp_all add: global_fact_def zero_event_def)

abbreviation fact_key :: "demo_env \<Rightarrow> uuid \<times> uuid" where
  "fact_key env \<equiv> (global_tenant_id, dm_fact_aggregate env)"

lemma not_erasing_fact: "\<not> erasing account_ops account_events ''platform.exchange_rate_updated''"
  using erasing_account by (force simp: account_event_names)

lemma fact_committed:
  assumes st: "demo_state c order ks0 accs {} {} w" and new: "fact_key env \<notin> account_key ` set accs"
  shows "\<exists>w1 g. commit_fact (pii_store_ops (sealed_store c order)) env w = Inr w1
    \<and> demo_state c order ks0 accs {fact_key env} {} w1 \<and> pw_ledger w1 = pw_ledger w
    \<and> ms_by_aggregate (pw_store w1) (fact_key env) = [g] \<and> stored_view g = stored_view (global_fact env)"
proof -
  let ?cf = "sealed_store c order" and ?f = "global_fact env" and ?key = "fact_key env"
  note ok = demo_stateD(1) [OF st]
  have empty: "ms_by_aggregate (pw_store w) ?key = []" using demo_stateD(2) [OF st] new by simp
  have fb: "fresh_batch (dm_fact_aggregate env) [?f]" by (simp add: fresh_batch_def)
  have key: "commit_key [] [?f] = ?key"
    using fresh_batch_key [OF fb, of "[]"] by (simp add: scope_key_def resolve_store_config_def global_tenant_id_def)
  then obtain g s where cm: "mem_commit [?f] 0 [] (pw_store w) = (None, [g], s)" "s = mem_extend ?key [g] (pw_store w)"
    "stored_view g = stored_view ?f"
    using empty by (simp add: mem_commit_eq current_version_def Let_def)
  have "\<not> seals account_ops account_events ?f" by (simp add: seals_def)
  then have seal: "seal_all ?cf [?f] rk = (None, [?f], rk)" for rk
    by (cases rk) (simp add: seal_all_Cons seal_one_def del: seal_all.simps(2))
  have "shred_all ?cf [g] u = (None, u)" for u
    using stored_viewD(1) [OF cm(3)] not_erasing_fact by (intro shred_all_noop) simp
  with cm(1) seal have w1: "commit_fact (pii_store_ops ?cf) env w = Inr (w\<lparr>pw_store := s\<rparr>)"
    by (simp add: commit_fact_def pii_commit_def del: seal_all.simps shred_all.simps)
  let ?w1 = "w\<lparr>pw_store := s\<rparr>"
  have "openable ?cf (pw_keys w) g" using stored_viewD(5) [OF cm(3)] by (simp add: openable_def open_untouched)
  moreover have "mem_inv s" using mem_inv_commit [OF world_okD(2) [OF ok] fb cm(1)] .
  ultimately have ok1: "world_ok c order ?w1"
    using ok empty by (simp add: world_ok_def cm(2))
  have "account_done c order ks0 ?w1 False acc" if "acc \<in> set accs" for acc
  proof (rule account_done_frame [OF _ ok ok1])
    show "account_done c order ks0 w False acc" using demo_stateD(3) [OF st that] by simp
    have "account_key acc \<noteq> ?key" using new that by (auto simp: image_iff)
    then show "account_stream ?w1 acc = account_stream w acc" by (simp add: cm(2))
  qed simp
  with ok1 demo_stateD(2) [OF st] have "demo_state c order ks0 accs {?key} {} ?w1"
    unfolding demo_state_def by (simp add: cm(2))
  with w1 cm(2,3) empty show ?thesis by auto
qed

section \<open>Loading an account\<close>

lemma account_done_opened:
  assumes "account_done c order ks0 w er acc" and ok: "world_ok c order w"
  obtains a where "load_account (pii_store_ops (sealed_store c order)) (as_id acc) (account_opts acc) w = Inr a"
    "load_from_history account_ops account_apply account_events (opened_stream c order w acc) (set_id (as_id acc) new_account) = (None, a)"
    "ac_opened a" "ac_balance a = expected_balance_cents" "agg_version a = of_nat (want_raw_count er)"
    "agg_id a = as_id acc" "agg_uncommitted a = []"
    "current_version (account_stream w acc) = of_nat (want_raw_count er)"
proof -
  let ?S = "opened_stream c order w acc"
  from assms(1) obtain a key where a: "load_from_history account_ops account_apply account_events ?S (set_id (as_id acc) new_account) = (None, a)"
    "ac_opened a" "ac_balance a = expected_balance_cents" "length (account_stream w acc) = want_raw_count er"
    "closed_log c key acc (account_stream w acc)" by (auto simp: account_done_def)
  have ne: "?S \<noteq> []" using a(4) by (auto simp: want_raw_count_def split: if_splits)
  have v: "versions_from 0 (account_stream w acc)" using a(5) by (simp add: closed_log_def)
  then have vs: "versions_from 0 ?S" using versions_from_versions [OF opened_stream_versions [OF ok]] by blast
  have "st_load (pii_store_ops (sealed_store c order)) (as_id acc) (account_opts acc) w = Inr ?S"
    using sealed.live.load_stream [OF world_ok_sealed [OF ok], of "account_opts acc" "as_id acc"] ne
    by (simp add: pii_stream_def account_scope_key)
  with a(1) ne have "load_account (pii_store_ops (sealed_store c order)) (as_id acc) (account_opts acc) w = Inr a"
    by (simp add: repo_load_def)
  moreover have "agg_version a = of_nat (want_raw_count er)"
    using replay_version [OF a(1) ne] versions_from_last [OF vs ne] a(4) by simp
  moreover have "current_version (account_stream w acc) = of_nat (want_raw_count er)"
    using current_version_from [OF v] ne a(4) by simp
  moreover have "agg_id a = as_id acc \<and> agg_uncommitted a = []"
    using account.load_from_history_frame [OF a(1)] by (simp add: set_id_def)
  ultimately show thesis using that a(1-3) by blast
qed

section \<open>The erasure\<close>

lemma erasure_recorded:
  assumes "ac_opened a" "agg_uncommitted a = []"
  obtains a1 e where "account_request_erasure new_id now actor a = (None, a1)"
    "agg_uncommitted a1 = [e]" "agg_version a1 = agg_version a + 1" "ev_aggregate_id e = agg_id a"
    "ev_tenant_id e = uuid_nil" "ev_name e = holder_erasure_requested" "ev_aggregate_version e = agg_version a + 1"
    "ev_payload e = RawOk (JObj Map.empty)" "ev_pii_fields e = RawNil" "ev_pii_id e = Some (agg_id a)"
    "metadata_ok (ev_metadata e)"
proof -
  let ?opts = "[WithPiiID (agg_id a)] @ account_actor_opts actor"
  have ap: "account_apply HolderErasureRequestedEvent a = (None, a)" using assms(1) by simp
  have rec: "account_request_erasure new_id now actor a = account_record new_id now HolderErasureRequestedEvent ?opts a"
    using assms(1) by (simp add: account_request_erasure_def)
  show thesis
  proof (rule account.record_that_accepted [OF ap, where i = new_id and t = now and opts = ?opts and j = "JObj Map.empty"])
    fix e
    assume e: "account_record new_id now HolderErasureRequestedEvent ?opts a = (None, a
          \<lparr>agg_version := agg_version a + 1, agg_uncommitted := agg_uncommitted a @ [e]\<rparr>)"
      "ev_aggregate_version e = agg_version a + 1" "ev_aggregate_id e = agg_id a" "ev_tenant_id e = uuid_nil"
      "ev_name e = po_event_name account_ops HolderErasureRequestedEvent"
      "po_marshal account_ops HolderErasureRequestedEvent = Inr (JObj Map.empty) \<Longrightarrow> ev_payload e = RawOk (JObj Map.empty)"
      "ev_pii_fields e = RawNil" "ev_pii_id e = pii_option ?opts None" "metadata_ok (ev_metadata e)"
    show thesis
      by (rule that [of "a\<lparr>agg_version := agg_version a + 1, agg_uncommitted := agg_uncommitted a @ [e]\<rparr>" e])
        (use rec e assms(2) in simp_all)
  qed
qed

lemma erasure_committed:
  assumes ok: "world_ok c order w" and v: "current_version (account_stream w acc) = v"
    and e: "ev_aggregate_id e = as_id acc" "ev_tenant_id e = uuid_nil" "ev_name e = holder_erasure_requested"
      "ev_pii_fields e = RawNil" "ev_pii_id e = Some (as_id acc)"
  obtains e' w' r where "pii_commit (sealed_store c order) [e] v (account_opts acc) w = (None, [e'], w')"
    "stored_view e' = stored_view e" "pw_store w' = mem_extend (account_key acc) [e'] (pw_store w)"
    "mem_inv (pw_store w')" "mem_wr_inv (pw_keys w')"
    "mem_wr_abs (pw_keys w') = (mem_wr_abs (pw_keys w))(as_id acc := None)"
    "pw_ledger w' = pw_ledger w @ [r]" "sr_pii_id r = as_id acc"
    "mem_ledger_inv c (pw_ledger w) \<longrightarrow> mem_ledger_inv c (pw_ledger w')"
proof -
  let ?cf = "sealed_store c order" and ?opts = "account_opts acc" and ?p = "as_id acc"
  have "\<not> seals account_ops account_events e" using e(3) account_declared(3) by (simp add: seals_def)
  then have seal: "seal_all ?cf [e] rk = (None, [e], rk)" for rk
    by (cases rk) (simp add: seal_all_Cons seal_one_def del: seal_all.simps(2))
  have fb: "fresh_batch ?p [e]" using e(1,2) by (simp add: fresh_batch_def)
  then have key: "commit_key ?opts [e] = account_key acc" using fresh_batch_key [OF fb] by (simp add: account_scope_key)
  with v obtain e' s where cm: "mem_commit [e] v ?opts (pw_store w) = (None, [e'], s)"
    "s = mem_extend (account_key acc) [e'] (pw_store w)" "stored_view e' = stored_view e"
    by (simp add: mem_commit_eq Let_def)
  obtain p where p: "payload_for ?cf e' = Some p" "account_requests_erasure p"
    using stored_viewD(1) [OF cm(3)] e(3) account_unmarshal_kind(1) by (auto simp: payload_for_def)
  obtain k where k: "wr_forget (mem_keyring_ops order) ?p (pw_keys w) = (None, k)" "mem_wr_inv k"
    "mem_wr_abs k = (mem_wr_abs (pw_keys w))(?p := None)"
    by (rule mem_wrapped.wr_forget_eq [OF world_okD(3) [OF ok]])
  obtain x l where ap: "mem_ledger_append c ?p (pw_clock w 0) (ev_global_id e') (pw_ledger w) = (x, l)" by force
  then obtain r where l: "x = None" "l = pw_ledger w @ [r]" "sr_pii_id r = ?p" by (auto simp: mem_ledger_append_def Let_def)
  let ?w = "w\<lparr>pw_store := s, pw_keys := k, pw_ledger := l, pw_clock := \<lambda>n. pw_clock w (Suc n)\<rparr>"
  have "pii_forget (demo_keyring order) ?p (pw_keys w) = (None, k)" using k(1) by (simp add: pii_forget_def demo_keyring_def)
  moreover have "ev_pii_id e' = Some ?p" using stored_viewD(5) [OF cm(3)] e(5) by simp
  ultimately have "shred_all ?cf [e'] (w\<lparr>pw_store := s\<rparr>) = (None, ?w)" using p ap l(1) by simp
  with seal cm(1) have "pii_commit ?cf [e] v ?opts w = (None, [e'], ?w)"
    by (simp add: pii_commit_def del: seal_all.simps shred_all.simps)
  moreover have "mem_inv s" using mem_inv_commit [OF world_okD(2) [OF ok] fb cm(1)] .
  moreover have "mem_ledger_inv c (pw_ledger w) \<longrightarrow> mem_ledger_inv c l" using mem_ledger_append_valid [OF _ ap] by blast
  ultimately show thesis using that [of e' ?w r] cm(2,3) k(2,3) l by simp
qed

text \<open>Without its key a sealed opening still opens, to ciphertext and marked.\<close>

lemma opened_marked:
  assumes "sealed c key holder_fields e x" "opened_by acc e" "mem_wr_inv k" "mem_wr_abs k (as_id acc) = None"
  shows "pii_open c (demo_keyring order) x k = Inr (x\<lparr>ev_pii_unrecoverable := True\<rparr>)"
proof (rule open_sealed_forgotten [OF assms(1)])
  show "ev_pii_id e = Some (as_id acc)" using assms(2) by (simp add: opened_by_def)
  show "kr_get (demo_keyring order) (as_id acc) k = Inr None"
    using mem_wrapped.wr_get_eq [OF assms(3), of order] assms(4) by (simp add: demo_keyring_def)
qed simp

text \<open>With its key it opens to what was recorded.\<close>

lemma opened_restored:
  assumes "crypto_ok c" "sealed c key holder_fields e x" "opened_by acc e" "mem_wr_inv k" "mem_wr_abs k (as_id acc) = Some key"
  shows "pii_open c (demo_keyring order) x k = Inr (e\<lparr>ev_pii_fields := RawOk (manifest_json holder_fields)\<rparr>)"
proof (rule open_sealed [OF assms(1,2)])
  have "js_ok c (JStr s)" for s using assms(1) by (simp add: crypto_ok_def)
  then show "sealable c holder_fields e" using assms(3) by (auto simp: sealable_def opened_by_def)
  show "ev_pii_id e = Some (as_id acc)" using assms(3) by (simp add: opened_by_def)
  show "kr_get (demo_keyring order) (as_id acc) k = Inr (Some key)"
    using mem_wrapped.wr_get_eq [OF assms(4), of order] assms(5) by (simp add: demo_keyring_def)
qed

lemma opened_plain: "plain_event i x \<Longrightarrow> pii_open c kr x k = Inr x"
  by (simp add: plain_event_def open_untouched)

text \<open>The head of an account's stream, at rest and opened.\<close>

definition opened_head :: "bool \<Rightarrow> domain_event \<Rightarrow> domain_event \<Rightarrow> domain_event" where
  "opened_head marked e x =
     (if marked then x\<lparr>ev_pii_unrecoverable := True\<rparr> else e\<lparr>ev_pii_fields := RawOk (manifest_json holder_fields)\<rparr>)"

lemma opens_to_head:
  assumes "crypto_ok c" "sealed c key holder_fields e x" "opened_by acc e" "mem_wr_inv k"
    and "mem_wr_abs k (as_id acc) = (if marked then None else Some key)"
  shows "pii_open c (demo_keyring order) x k = Inr (opened_head marked e x)"
  using opened_marked [OF assms(2-4)] opened_restored [OF assms(1-4)] assms(5) by (simp add: opened_head_def)

lemma opened_stream_cases:
  assumes "account_done c order ks0 w er acc" and ok: "world_ok c order w"
  obtains x e ts key where "account_stream w acc = x # ts" "ks0 (as_id acc) = Some key"
    "sealed c key holder_fields e x" "opened_by acc e" "list_all (plain_event (as_id acc)) ts"
    "opened_stream c order w acc = opened_head er e x # ts"
proof -
  from assms(1) obtain key x e ts where a: "ks0 (as_id acc) = Some key" "account_stream w acc = x # ts"
    "sealed c key holder_fields e x" "opened_by acc e" "list_all (plain_event (as_id acc)) ts"
    "mem_wr_abs (pw_keys w) (as_id acc) = (if er then None else Some key)"
    unfolding account_done_def closed_log_def by blast
  have "opened (sealed_store c order) (pw_keys w) x = opened_head er e x"
    using opens_to_head [OF world_okD(1) [OF ok] a(3,4) world_okD(3) [OF ok] a(6)] by (simp add: opened_def)
  moreover have "map (opened (sealed_store c order) (pw_keys w)) ts = ts"
    using a(5) by (intro map_idI) (auto simp: opened_def list_all_iff opened_plain)
  ultimately show thesis using that a by simp
qed

text \<open>What the head decodes to, and what an account that was opened by it is called.\<close>

lemma head_decodes:
  assumes "sealed c key holder_fields e x" "opened_by acc e"
  obtains n em where "ev_name (opened_head marked e x) = account_opened"
    "account_unmarshal (ev_payload (opened_head marked e x)) (AccountOpenedEvent [] [] 0) = (None, AccountOpenedEvent n em 0)"
    "ev_pii_unrecoverable (opened_head marked e x) = marked" "ev_aggregate_version (opened_head marked e x) = 1"
    "if marked then CHR '' '' \<notin> set n else n = as_holder_name acc \<and> em = as_holder_email acc"
    "metadata_ok (ev_metadata (opened_head marked e x))"
proof -
  obtain m n em where m: "ev_payload x = RawOk (JObj m)" "m ''holder_name'' = Some (JStr n)"
    "m ''holder_email'' = Some (JStr em)" "m ''opening_balance_cents'' = Some (JNum 0)" "CHR '' '' \<notin> set n"
    "x = e\<lparr>ev_payload := RawOk (JObj m), ev_pii_fields := RawOk (manifest_json holder_fields)\<rparr>"
    by (rule sealed_opening [OF assms])
  note e = assms(2) [unfolded opened_by_def]
  show thesis
  proof (cases marked)
    case True
    have "ev_name (opened_head marked e x) = account_opened" "ev_payload (opened_head marked e x) = RawOk (JObj m)"
      "ev_pii_unrecoverable (opened_head marked e x)" "ev_aggregate_version (opened_head marked e x) = 1"
      "metadata_ok (ev_metadata (opened_head marked e x))"
      using e True m(1) by (simp_all add: opened_head_def) (simp_all add: m(6))
    with True opened_decodes [OF m(2-4)] m(5) that [of n em] show thesis by simp
  next
    case False
    then show thesis
      using e that [of "as_holder_name acc" "as_holder_email acc"]
      by (simp add: opened_head_def struct_field_def unmarshal_i64_def)
  qed
qed

lemma replay_head:
  assumes "ev_name h = account_opened"
    and "account_unmarshal (ev_payload h) (AccountOpenedEvent [] [] 0) = (None, AccountOpenedEvent n em 0)"
  obtains b where "load_from_history account_ops account_apply account_events (h # ts) (set_id i new_account)
      = load_from_history account_ops account_apply account_events ts b"
    "ac_opened b" "holder b = (n, em)" "ac_balance b = 0"
proof -
  let ?b = "set_version (ev_aggregate_version h) ((set_id i new_account)\<lparr>ac_holder_name := n, ac_holder_email := em,
    ac_balance := 0, ac_opened := True\<rparr>)"
  show thesis
    using assms by (intro that [of ?b]) (simp_all add: set_id_def new_account_def set_version_def holder_def)
qed

lemma replay_erasure:
  assumes "ac_opened b" "ev_name e = holder_erasure_requested" "ev_payload e = RawOk (JObj Map.empty)"
  shows "load_from_history account_ops account_apply account_events [e] b = (None, set_version (ev_aggregate_version e) b)"
  using assms by simp

text \<open>An account whose holder has been forgotten, when the erasure is behind its stream.\<close>

lemma account_done_erased:
  assumes acc: "account_done c order ks0 w False acc" and ok: "world_ok c order w" "world_ok c order w'"
    and S: "account_stream w' acc = account_stream w acc @ [e']" "mem_wr_abs (pw_keys w') (as_id acc) = None"
    and e': "plain_event (as_id acc) e'" "ev_name e' = holder_erasure_requested" "ev_payload e' = RawOk (JObj Map.empty)"
      "ev_aggregate_version e' = 5"
  shows "account_done c order ks0 w' True acc"
proof -
  obtain x e ts key where st: "account_stream w acc = x # ts" "ks0 (as_id acc) = Some key"
    "sealed c key holder_fields e x" "opened_by acc e" "list_all (plain_event (as_id acc)) ts"
    "opened_stream c order w acc = opened_head False e x # ts" by (rule opened_stream_cases [OF acc ok(1)])
  have len: "length (account_stream w acc) = 4" using acc by (simp add: account_done_def want_raw_count_def)
  have "versions_from 0 (account_stream w acc)" using acc by (auto simp: account_done_def closed_log_def)
  then have vs: "versions_from 0 (account_stream w' acc)" using len e'(4) by (simp add: S(1) versions_from_append)
  have log: "closed_log c key acc (account_stream w' acc)"
    using vs st(1,3-5) e'(1) unfolding closed_log_def S(1) by auto
  have "opened (sealed_store c order) (pw_keys w') x = opened_head True e x"
    using opens_to_head [OF world_okD(1) [OF ok(1)] st(3,4) world_okD(3) [OF ok(2)], of True order] S(2) by (simp add: opened_def)
  moreover have "map (opened (sealed_store c order) (pw_keys w')) (ts @ [e']) = ts @ [e']"
    using st(5) e'(1) by (intro map_idI) (auto simp: opened_def list_all_iff opened_plain)
  ultimately have os: "opened_stream c order w' acc = opened_head True e x # ts @ [e']" by (simp add: S(1) st(1))
  let ?z = "set_id (as_id acc) new_account"
  let ?load = "load_from_history account_ops account_apply account_events"
  obtain a where a: "?load (opened_stream c order w acc) ?z = (None, a)" "ac_balance a = expected_balance_cents"
    using acc by (auto simp: account_done_def)
  obtain n em where h: "ev_name (opened_head False e x) = account_opened"
    "account_unmarshal (ev_payload (opened_head False e x)) (AccountOpenedEvent [] [] 0) = (None, AccountOpenedEvent n em 0)"
    by (rule head_decodes [OF st(3,4), of False])
  obtain b where b: "?load (opened_head False e x # ts) ?z = ?load ts b" "ac_opened b" "ac_balance b = 0"
    by (rule replay_head [OF h])
  obtain n' em' where h': "ev_name (opened_head True e x) = account_opened"
    "account_unmarshal (ev_payload (opened_head True e x)) (AccountOpenedEvent [] [] 0) = (None, AccountOpenedEvent n' em' 0)"
    by (rule head_decodes [OF st(3,4), of True])
  obtain b' where b': "?load (opened_head True e x # ts @ [e']) ?z = ?load (ts @ [e']) b'" "ac_opened b'" "ac_balance b' = 0"
    by (rule replay_head [OF h'])
  have "?load ts b = (None, a)" using a(1) b(1) st(6) by simp
  from replay_rest [OF this b(2)] b'(2) obtain a' where a': "?load ts b' = (None, a')" "ac_opened a'"
    "ac_balance a' - ac_balance b' = ac_balance a - ac_balance b" by blast
  then have "ac_balance a' = expected_balance_cents" using a(2) b(3) b'(3) by simp
  moreover have "?load (opened_stream c order w' acc) ?z = (None, set_version (ev_aggregate_version e') a')"
    using b'(1) replay_erasure [OF a'(2) e'(2,3)] load_from_history_continue [OF a'(1), of "[e']"] by (simp add: os)
  ultimately show ?thesis
    using a'(2) st(2) log len S unfolding account_done_def by (auto simp: want_raw_count_def set_version_def)
qed

text \<open>Streams that are not of an account hold nothing that is bound to a subject.\<close>

definition unbound :: "(uuid \<times> uuid) set \<Rightarrow> demo_world \<Rightarrow> bool" where
  "unbound others w \<longleftrightarrow> (\<forall>k \<in> others. \<forall>x \<in> set (ms_by_aggregate (pw_store w) k). ev_pii_id x = None)"

lemma stream_subject:
  assumes "demo_state c order ks0 accs others er w" "unbound others w"
    and "x \<in> set (ms_by_aggregate (pw_store w) k)" "ev_pii_id x = Some p"
  obtains acc where "acc \<in> set accs" "k = account_key acc" "p = as_id acc"
proof -
  have "k \<notin> others" using assms(2-4) by (auto simp: unbound_def)
  moreover have "ms_by_aggregate (pw_store w) k \<noteq> []" using assms(3) by auto
  ultimately have "k \<in> account_key ` set accs" using demo_stateD(2) [OF assms(1), of k] by blast
  then obtain acc where acc: "acc \<in> set accs" "k = account_key acc" by auto
  obtain key where "closed_log c key acc (account_stream w acc)"
    using demo_stateD(3) [OF assms(1) acc(1)] by (auto simp: account_done_def)
  with closed_log_subject [of c key acc _ x] assms(3,4) acc have "p = as_id acc" by simp
  with acc that show thesis by blast
qed

lemma holder_erased_ok:
  assumes st: "demo_state c order ks0 accs others {} w" and acc: "acc \<in> set accs" and dist: "distinct (map as_id accs)"
    and ub: "unbound others w" and new: "account_key acc \<notin> others"
  shows "\<exists>w2 r. erase_holder (pii_store_ops (sealed_store c order)) env acc w = Inr w2
    \<and> demo_state c order ks0 accs others {as_id acc} w2
    \<and> (\<forall>k. k \<noteq> account_key acc \<longrightarrow> ms_by_aggregate (pw_store w2) k = ms_by_aggregate (pw_store w) k)
    \<and> pw_ledger w2 = pw_ledger w @ [r] \<and> sr_pii_id r = as_id acc
    \<and> (mem_ledger_inv c (pw_ledger w) \<longrightarrow> mem_ledger_inv c (pw_ledger w2))"
proof -
  let ?st = "pii_store_ops (sealed_store c order)" and ?cf = "sealed_store c order"
  let ?actor = "\<lparr>aa_id = dm_admin env, aa_type = ''admin''\<rparr>"
  note ok = demo_stateD(1) [OF st]
  have done1: "account_done c order ks0 w False acc" using demo_stateD(3) [OF st acc] by simp
  obtain a where a: "load_account ?st (as_id acc) (account_opts acc) w = Inr a" "ac_opened a"
    "agg_version a = 4" "agg_id a = as_id acc" "agg_uncommitted a = []" "current_version (account_stream w acc) = 4"
    by (rule account_done_opened [OF done1 ok]) (simp add: want_raw_count_def)
  obtain a1 e where e: "account_request_erasure (dm_erasure_event env) (dm_erasure_time env) ?actor a = (None, a1)"
    "agg_uncommitted a1 = [e]" "agg_version a1 = agg_version a + 1" "ev_aggregate_id e = agg_id a"
    "ev_tenant_id e = uuid_nil" "ev_name e = holder_erasure_requested" "ev_aggregate_version e = agg_version a + 1"
    "ev_payload e = RawOk (JObj Map.empty)" "ev_pii_fields e = RawNil" "ev_pii_id e = Some (agg_id a)"
    "metadata_ok (ev_metadata e)" by (rule erasure_recorded [OF a(2,5)])
  obtain e' w2 r where cm: "pii_commit ?cf [e] 4 (account_opts acc) w = (None, [e'], w2)"
    "stored_view e' = stored_view e" "pw_store w2 = mem_extend (account_key acc) [e'] (pw_store w)"
    "mem_inv (pw_store w2)" "mem_wr_inv (pw_keys w2)"
    "mem_wr_abs (pw_keys w2) = (mem_wr_abs (pw_keys w))(as_id acc := None)"
    "pw_ledger w2 = pw_ledger w @ [r]" "sr_pii_id r = as_id acc"
    "mem_ledger_inv c (pw_ledger w) \<longrightarrow> mem_ledger_inv c (pw_ledger w2)"
    by (rule erasure_committed [OF ok a(6) e(4) [unfolded a(4)] e(5,6,9) e(10) [unfolded a(4)]])
  have run: "erase_holder ?st env acc w = Inr w2"
    using a(1,3) e(1,2,3) cm(1) by (simp add: erase_holder_def repo_save_def)
  have frame: "\<forall>k. k \<noteq> account_key acc \<longrightarrow> ms_by_aggregate (pw_store w2) k = ms_by_aggregate (pw_store w) k"
    by (simp add: cm(3))
  note v = stored_viewD [OF cm(2)]
  have plain: "plain_event (as_id acc) e'" using e a(4) by (simp add: plain_event_def v)
  obtain x d ts key where S: "account_stream w acc = x # ts" "sealed c key holder_fields d x" "opened_by acc d"
    "list_all (plain_event (as_id acc)) ts" by (rule opened_stream_cases [OF done1 ok])
  have mine: "openable ?cf (pw_keys w2) y" if "y \<in> set (account_stream w2 acc)" for y
  proof -
    have "y = x \<or> plain_event (as_id acc) y" using that S(1,4) plain by (auto simp: cm(3) list_all_iff)
    then show ?thesis
      using opened_marked [OF S(2,3) cm(5)] cm(6) by (auto simp: openable_def opened_plain)
  qed
  have other: "openable ?cf (pw_keys w2) y" if y: "y \<in> set (ms_by_aggregate (pw_store w) k)" "k \<noteq> account_key acc" for y k
  proof -
    have "mem_wr_abs (pw_keys w2) p = mem_wr_abs (pw_keys w) p" if p: "ev_pii_id y = Some p" for p
    proof -
      obtain acc' where "acc' \<in> set accs" "k = account_key acc'" "p = as_id acc'"
        by (rule stream_subject [OF st ub y(1) p])
      moreover from this have "acc' \<noteq> acc" using y(2) by blast
      ultimately have "p \<noteq> as_id acc" using dist acc by (metis distinct_map inj_onD)
      then show ?thesis by (simp add: cm(6))
    qed
    with opened_same_keys(2) [OF world_okD(3) [OF ok] cm(5), of y c order] world_okD(5) [OF ok y(1)] show ?thesis by blast
  qed
  have uk: "usable_keys (mem_wr_abs (pw_keys w2))" using world_okD(4) [OF ok] by (simp add: usable_keys_def cm(6))
  have "openable ?cf (pw_keys w2) y" if "y \<in> set (ms_by_aggregate (pw_store w2) k)" for y k
    using mine [of y] other [of y k] that frame by (cases "k = account_key acc") auto
  with world_okD(1) [OF ok] cm(4,5) uk have ok2: "world_ok c order w2" unfolding world_ok_def by blast
  have "account_done c order ks0 w2 (as_id acc' \<in> {as_id acc}) acc'" if acc': "acc' \<in> set accs" for acc'
  proof (cases "acc' = acc")
    case True
    have "account_done c order ks0 w2 True acc"
      by (rule account_done_erased [OF done1 ok ok2 _ _ plain]) (use e a(3) in \<open>simp_all add: cm(3,6) v\<close>)
    with True show ?thesis by simp
  next
    case False
    then have ne: "as_id acc' \<noteq> as_id acc" using dist acc acc' by (metis distinct_map inj_onD)
    have "account_done c order ks0 w2 False acc'"
      by (rule account_done_frame [OF _ ok ok2]) (use ne demo_stateD(3) [OF st acc'] in \<open>simp_all add: cm(3,6)\<close>)
    with ne show ?thesis by simp
  qed
  moreover have "ms_by_aggregate (pw_store w2) k = []" if "k \<notin> others \<union> account_key ` set accs" for k
  proof -
    have "k \<noteq> account_key acc" using that acc by auto
    with demo_stateD(2) [OF st that] show ?thesis by (simp add: cm(3))
  qed
  ultimately have "demo_state c order ks0 accs others {as_id acc} w2" using ok2 unfolding demo_state_def by blast
  with run frame cm(7-9) show ?thesis by blast
qed

section \<open>The rotation\<close>

lemma kek_rotated:
  assumes st: "demo_state c order ks0 accs others er w" and "ranges order"
  shows "\<exists>w3. rotate_kek c order w = Inr w3 \<and> demo_state c order ks0 accs others er w3
    \<and> pw_store w3 = pw_store w \<and> pw_ledger w3 = pw_ledger w
    \<and> new_kek c 2 = Inr (wr_wrapper (pw_keys w3))"
proof -
  note ok = demo_stateD(1) [OF st]
  obtain kek where kek: "new_kek c 2 = Inr kek" "wrapper_ok kek" using new_kek_ok [OF world_okD(1) [OF ok]] by blast
  have inv: "wr_inv (\<lambda>k. mem_keyring_inv k \<and> ranges order) map_of (pw_keys w)"
    using world_okD(3) [OF ok] assms(2) by (simp add: wr_inv_def)
  from mem_listing.rotate_ok [OF inv kek(2), of "pw_rng w"] obtain r k
    where rot: "wr_rotate (mem_keyring_ops order) kek (pw_rng w, pw_keys w) = (None, r, k)"
      "wr_inv (\<lambda>k. mem_keyring_inv k \<and> ranges order) map_of k" "mem_wr_abs k = mem_wr_abs (pw_keys w)" "wr_wrapper k = kek"
    by blast
  let ?w = "w\<lparr>pw_keys := k, pw_rng := r\<rparr>"
  have ring: "mem_wr_inv k" using rot(2) by (simp add: wr_inv_def)
  have ok3: "world_ok c order ?w"
    using world_okD [OF ok] ring rot(3) opened_same_keys(2) [OF world_okD(3) [OF ok] ring, of _ c order]
    unfolding world_ok_def by simp
  have "account_done c order ks0 ?w (as_id acc \<in> er) acc" if "acc \<in> set accs" for acc
    by (rule account_done_frame [OF demo_stateD(3) [OF st that] ok ok3]) (simp_all add: rot(3))
  with ok3 demo_stateD(2) [OF st] have "demo_state c order ks0 accs others er ?w" by (simp add: demo_state_def)
  with rot(1,4) kek(1) show ?thesis by (simp add: rotate_kek_def)
qed

end
