(* ===== verification/Ledger_Checks.thy ===== *)
theory Ledger_Checks
  imports Ledger_Final
begin

text \<open>
  The checks at the end of \<^verbatim>\<open>main\<close> in \<^verbatim>\<open>examples/ledger/main.go\<close> pass, after every interleaving of its
  goroutines: each check of \<open>Ledger_Demo\<close> on the states of \<open>Ledger_Final\<close>, and then all of them.
\<close>

section \<open>Counting checks\<close>

lemma run_checks_pass: "list_all snd cs \<Longrightarrow> run_checks cs = Inr (length cs)"
  by (induction cs rule: run_checks.induct) simp_all

lemma all_of_pass: "list_all2 (\<lambda>x n. x = Inr n) xs ns \<Longrightarrow> all_of xs = Inr (sum_list ns)"
  by (induction rule: list_all2_induct) simp_all

section \<open>What the checks find\<close>

definition audit_state :: "crypto \<Rightarrow> (uuid list \<Rightarrow> uuid list) \<Rightarrow> (uuid \<Rightarrow> bytes option) \<Rightarrow> demo_env \<Rightarrow>
    account_spec list \<Rightarrow> uuid set \<Rightarrow> demo_world \<Rightarrow> bool" where
  "audit_state c order ks0 env accs er w \<longleftrightarrow> demo_state c order ks0 accs {fact_key env} er w
     \<and> (\<exists>g. ms_by_aggregate (pw_store w) (fact_key env) = [g] \<and> stored_view g = stored_view (global_fact env))
     \<and> distinct (map as_id accs)
     \<and> (\<forall>acc \<in> set accs. as_id acc \<noteq> dm_fact_aggregate env \<and> as_org acc \<noteq> global_tenant_id
          \<and> CHR '' '' \<in> set (as_holder_name acc))"

lemma audit_stateD:
  assumes "audit_state c order ks0 env accs er w"
  shows "world_ok c order w" "demo_state c order ks0 accs {fact_key env} er w" "distinct (map as_id accs)"
    "acc \<in> set accs \<Longrightarrow> account_done c order ks0 w (as_id acc \<in> er) acc"
    "acc \<in> set accs \<Longrightarrow> as_id acc \<noteq> dm_fact_aggregate env"
    "acc \<in> set accs \<Longrightarrow> as_org acc \<noteq> global_tenant_id"
    "acc \<in> set accs \<Longrightarrow> CHR '' '' \<in> set (as_holder_name acc)"
    "unbound {fact_key env} w"
  using assms by (auto simp: audit_state_def demo_state_def unbound_def dest: stored_viewD)

text \<open>Outside of its tenant, and of the shared one, an account has no events.\<close>

lemma audit_empty:
  assumes "audit_state c order ks0 env accs er w" "acc \<in> set accs" "org \<noteq> as_org acc"
  shows "ms_by_aggregate (pw_store w) (org, as_id acc) = []"
proof (rule demo_stateD(2) [OF audit_stateD(2) [OF assms(1)]])
  have "(org, as_id acc) \<noteq> fact_key env" using audit_stateD(5) [OF assms(1,2)] by simp
  moreover have "(org, as_id acc) \<noteq> account_key acc'" if "acc' \<in> set accs" for acc'
    using that assms(2,3) audit_stateD(3) [OF assms(1)] by (metis distinct_map inj_onD prod.inject)
  ultimately show "(org, as_id acc) \<notin> {fact_key env} \<union> account_key ` set accs" by blast
qed

lemma check_loaded_passes:
  assumes au: "audit_state c order ks0 env accs er w" and acc: "acc \<in> set accs"
  shows "check_loaded (pii_store_ops (sealed_store c order)) (as_id acc \<in> er) acc w = Inr 3"
proof -
  let ?er = "as_id acc \<in> er"
  note ok = audit_stateD(1) [OF au] and d = audit_stateD(4) [OF au acc]
  obtain a where a: "load_account (pii_store_ops (sealed_store c order)) (as_id acc) (account_opts acc) w = Inr a"
    "load_from_history account_ops account_apply account_events (opened_stream c order w acc) (set_id (as_id acc) new_account) = (None, a)"
    "ac_balance a = expected_balance_cents" by (rule account_done_opened [OF d ok])
  obtain x e ts key where S: "sealed c key holder_fields e x" "opened_by acc e"
    "opened_stream c order w acc = opened_head ?er e x # ts" by (rule opened_stream_cases [OF d ok])
  obtain n em where h: "ev_name (opened_head ?er e x) = account_opened"
    "account_unmarshal (ev_payload (opened_head ?er e x)) (AccountOpenedEvent [] [] 0) = (None, AccountOpenedEvent n em 0)"
    "if ?er then CHR '' '' \<notin> set n else n = as_holder_name acc \<and> em = as_holder_email acc"
    by (rule head_decodes [OF S(1,2), of ?er])
  obtain b where b: "load_from_history account_ops account_apply account_events (opened_head ?er e x # ts) (set_id (as_id acc) new_account)
      = load_from_history account_ops account_apply account_events ts b" "ac_opened b" "holder b = (n, em)"
    by (rule replay_head [OF h(1,2)])
  have "load_from_history account_ops account_apply account_events ts b = (None, a)" using a(2) b(1) S(3) by simp
  from replay_rest [OF this b(2)] b(3) have "holder a = (n, em)" by simp
  with h(3) audit_stateD(7) [OF au acc] have "if ?er then ac_holder_name a \<noteq> as_holder_name acc
      else ac_holder_name a = as_holder_name acc \<and> ac_holder_email a = as_holder_email acc"
    by (auto simp: holder_def)
  with a(1,3) show ?thesis by (simp add: check_loaded_def)
qed

lemma check_isolated_passes:
  assumes au: "audit_state c order ks0 env accs er w" and acc: "acc \<in> set accs" and "other_org env acc \<noteq> as_org acc"
  shows "check_isolated (pii_store_ops (sealed_store c order)) env acc w = Inr 1"
proof -
  have "ms_by_aggregate (pw_store w) (other_org env acc, as_id acc) = []"
    "ms_by_aggregate (pw_store w) (global_tenant_id, as_id acc) = []"
    using audit_empty [OF au acc] assms(3) audit_stateD(6) [OF au acc] by metis+
  then have "mem_load (as_id acc) [WithTenant (other_org env acc)] (pw_store w) = Inl ErrAggregateNotFound"
    by (simp add: mem_load_def resolve_store_config_def Let_def)
  then show ?thesis by (simp add: check_isolated_def repo_load_def pii_load_def)
qed

lemma versions_from_nth: "versions_from v es \<Longrightarrow> i < length es \<Longrightarrow> ev_aggregate_version (es ! i) = v + of_nat (i + 1)"
proof (induction es arbitrary: v i)
  case (Cons e es)
  then show ?case by (cases i) (auto simp: algebra_simps)
qed simp

lemma check_raw_passes:
  assumes au: "audit_state c order ks0 env accs er w" and acc: "acc \<in> set accs"
  shows "check_raw (as_id acc \<in> er) acc (pw_store w) = Inr (4 + want_raw_count (as_id acc \<in> er))"
proof -
  let ?S = "account_stream w acc" and ?er = "as_id acc \<in> er"
  note ok = audit_stateD(1) [OF au] and d = audit_stateD(4) [OF au acc]
  obtain x e ts key where S: "?S = x # ts" "sealed c key holder_fields e x" "opened_by acc e"
    by (rule opened_stream_cases [OF d ok])
  have len: "length ?S = want_raw_count ?er" and v: "versions_from 0 ?S"
    using d by (auto simp: account_done_def closed_log_def)
  have load: "mem_load (as_id acc) (account_opts acc) (pw_store w) = Inr ?S"
    using S(1) by (simp add: mem_load_def resolve_store_config_def Let_def)
  obtain m n em where m: "ev_payload x = RawOk (JObj m)" "m ''holder_name'' = Some (JStr n)" "CHR '' '' \<notin> set n"
    "x = e\<lparr>ev_payload := RawOk (JObj m), ev_pii_fields := RawOk (manifest_json holder_fields)\<rparr>"
    by (rule sealed_opening [OF S(2,3)])
  have "decode_raw_open (ev_payload x) = (None, n)" using m(1,2) by (simp add: decode_raw_open_def)
  moreover have "n \<noteq> as_holder_name acc" using m(3) audit_stateD(7) [OF au acc] by auto
  moreover have "ev_name x = account_opened" using S(3) by (subst m(4)) (simp add: opened_by_def)
  moreover have "run_checks (map (\<lambda>i. (msg, ev_aggregate_version (?S ! i) = of_nat (i + 1))) [0..<length ?S]) = Inr (length ?S)" for msg
    using versions_from_nth [OF v] by (subst run_checks_pass) (auto simp: list_all_iff)
  ultimately show ?thesis unfolding check_raw_def load sum.case using len S(1) by (simp del: upt_Suc)
qed

section \<open>The subject's file\<close>

lemma keyed_stream: "mem_keyed s \<Longrightarrow> ms_by_aggregate s k = filter (\<lambda>e. aggregate_key e = k) (ms_all s)"
  unfolding mem_keyed_def by blast

text \<open>The lookup by subject finds exactly the account's stream, and opens it.\<close>

lemma subject_events:
  assumes au: "audit_state c order ks0 env accs er w" and acc: "acc \<in> set accs" and "opts = [] \<or> opts = account_opts acc"
  shows "filter (\<lambda>x. ev_pii_id x = Some (as_id acc)) (visible_log opts (pw_store w)) = account_stream w acc"
proof -
  note d = audit_stateD(4) [OF au acc] and st = audit_stateD(2) [OF au]
  have keyed: "mem_keyed (pw_store w)" using world_okD(2) [OF audit_stateD(1) [OF au]] by (simp add: mem_inv_def)
  obtain key where log: "closed_log c key acc (account_stream w acc)" using d by (auto simp: account_done_def)
  have mem: "x \<in> set (ms_by_aggregate (pw_store w) (aggregate_key x))" if "x \<in> set (ms_all (pw_store w))" for x
    using that by (simp add: keyed_stream [OF keyed])
  have "visible (resolve_store_config opts) x \<and> ev_pii_id x = Some (as_id acc) \<longleftrightarrow> aggregate_key x = account_key acc"
    if x: "x \<in> set (ms_all (pw_store w))" for x
  proof
    assume p: "visible (resolve_store_config opts) x \<and> ev_pii_id x = Some (as_id acc)"
    obtain acc' where acc': "acc' \<in> set accs" "aggregate_key x = account_key acc'" "as_id acc = as_id acc'"
      by (rule stream_subject [OF st audit_stateD(8) [OF au] mem [OF x] conjunct2 [OF p]])
    then have "acc' = acc" using audit_stateD(3) [OF au] acc by (metis distinct_map inj_onD)
    with acc'(2) show "aggregate_key x = account_key acc" by simp
  next
    assume k: "aggregate_key x = account_key acc"
    with mem [OF x] closed_log_subject [OF log] have "ev_pii_id x = Some (as_id acc)" by simp
    moreover have "visible (resolve_store_config opts) x"
      using k assms(3) by (auto simp: visible_def resolve_store_config_def aggregate_key_def)
    ultimately show "visible (resolve_store_config opts) x \<and> ev_pii_id x = Some (as_id acc)" by simp
  qed
  then have "filter (\<lambda>x. ev_pii_id x = Some (as_id acc)) (visible_log opts (pw_store w))
      = filter (\<lambda>x. aggregate_key x = account_key acc) (ms_all (pw_store w))"
    unfolding filter_filter by (intro filter_cong) auto
  then show ?thesis by (simp add: keyed_stream [OF keyed])
qed

lemma subject_lookup:
  assumes au: "audit_state c order ks0 env accs er w" and acc: "acc \<in> set accs" and "opts = [] \<or> opts = account_opts acc"
  shows "pii_fetch_by_pii_id (sealed_store c order) (as_id acc) opts w = Inr (opened_stream c order w acc)"
proof -
  note ok = audit_stateD(1) [OF au]
  have log: "mem_log_inv (pw_store w)" using world_okD(2) [OF ok] by (simp add: mem_inv_def)
  have "account_stream w acc \<noteq> []"
    using audit_stateD(4) [OF au acc] by (auto simp: account_done_def want_raw_count_def split: if_splits)
  with subject_events [OF au acc assms(3)] have "mem_fetch_by_pii_id (as_id acc) opts (pw_store w) = Inr (account_stream w acc)"
    by (simp add: mem_fetch_by_pii_id_eq [OF log])
  moreover have "open_all (sealed_store c order) (account_stream w acc) (pw_keys w) = Inr (opened_stream c order w acc)"
    using world_okD(5) [OF ok] by (intro open_all_openable)
  ultimately show ?thesis by (simp add: pii_fetch_by_pii_id_def)
qed

text \<open>All of it is one stream.\<close>

lemma first_keys_same:
  "es \<noteq> [] \<Longrightarrow> \<forall>e \<in> set es. aggregate_key e = k \<Longrightarrow> first_keys es = [k]"
proof (induction es rule: rev_induct)
  case (snoc e es)
  have "aggregate_key e \<in> aggregate_key ` set es" if "es \<noteq> []"
  proof -
    from that obtain x where "x \<in> set es" by (cases es) auto
    with snoc.prems(2) show ?thesis by force
  qed
  with snoc show ?case by (cases "es = []") (simp_all add: first_keys_snoc, simp add: first_keys_def)
qed simp

lemma opened_keys:
  assumes "audit_state c order ks0 env accs er w" "e \<in> set (opened_stream c order w acc)"
  shows "aggregate_key e = account_key acc"
proof -
  note ok = audit_stateD(1) [OF assms(1)]
  from assms(2) obtain x where x: "x \<in> set (account_stream w acc)" "e = opened (sealed_store c order) (pw_keys w) x" by auto
  have "mem_keyed (pw_store w)" using world_okD(2) [OF ok] by (simp add: mem_inv_def)
  with x(1) have "aggregate_key x = account_key acc" by (simp add: keyed_stream)
  moreover have "aggregate_key e = aggregate_key x"
    using openable_opened [OF world_okD(5) [OF ok x(1)]] x(2) by (auto simp: aggregate_key_def dest: open_frame)
  ultimately show ?thesis by simp
qed

lemma account_export:
  assumes au: "audit_state c order ks0 env accs er w" and acc: "acc \<in> set accs"
  shows "export_subject (\<lambda>p opts. pii_fetch_by_pii_id (sealed_store c order) p opts w) (as_id acc) (account_opts acc)
    = Inr \<lparr>se_pii_id = as_id acc, se_aggregates = [\<lparr>ah_tenant_id = as_org acc, ah_aggregate_id = as_id acc,
        ah_events = opened_stream c order w acc\<rparr>]\<rparr>"
proof -
  let ?S = "opened_stream c order w acc"
  have ne: "?S \<noteq> []" using audit_stateD(4) [OF au acc] by (auto simp: account_done_def want_raw_count_def split: if_splits)
  have keys: "\<forall>e \<in> set ?S. aggregate_key e = account_key acc" using opened_keys [OF au] by blast
  have "filter (\<lambda>e. aggregate_key e = account_key acc) ?S = ?S" using keys by (intro filter_True) blast
  then have "map (history_of ?S) (first_keys ?S) = [\<lparr>ah_tenant_id = as_org acc, ah_aggregate_id = as_id acc, ah_events = ?S\<rparr>]"
    by (simp add: first_keys_same [OF ne keys] history_of_def)
  with subject_lookup [OF au acc, of "account_opts acc"] show ?thesis
    by (simp add: export_subject_def export_loop_eq)
qed

lemma check_export_passes:
  assumes au: "audit_state c order ks0 env accs er w" and acc: "acc \<in> set accs"
  shows "check_export (\<lambda>p opts. pii_fetch_by_pii_id (sealed_store c order) p opts w) (as_id acc \<in> er) acc = Inr 4"
proof -
  let ?er = "as_id acc \<in> er"
  note ok = audit_stateD(1) [OF au] and d = audit_stateD(4) [OF au acc]
  obtain x e ts key where S: "account_stream w acc = x # ts" "sealed c key holder_fields e x" "opened_by acc e"
    "opened_stream c order w acc = opened_head ?er e x # ts" by (rule opened_stream_cases [OF d ok])
  obtain n em where h: "account_unmarshal (ev_payload (opened_head ?er e x)) (AccountOpenedEvent [] [] 0) = (None, AccountOpenedEvent n em 0)"
    "ev_pii_unrecoverable (opened_head ?er e x) = ?er"
    "if ?er then CHR '' '' \<notin> set n else n = as_holder_name acc \<and> em = as_holder_email acc"
    by (rule head_decodes [OF S(2,3), of ?er])
  have "length (opened_head ?er e x # ts) = want_raw_count ?er" using d S(1) by (simp add: account_done_def)
  with account_export [OF au acc] h audit_stateD(7) [OF au acc] show ?thesis
    by (auto simp: check_export_def S(4) exported_name_def)
qed

section \<open>The document\<close>

text \<open>Decoding the document gives the subject and the flags of the export it was made from.\<close>

lemma marshal_struct_lookup: "marshal_struct fs = Inr m \<Longrightarrow> m k = map_option projr (map_of fs k)"
proof (induction fs arbitrary: m rule: marshal_struct.induct)
  case (2 k' v fs)
  then show ?case by (auto split: sum.splits)
qed simp

lemma decode_all_marshal:
  assumes "marshal_all f ds = Inr js" "\<And>d j. d \<in> set ds \<Longrightarrow> f d = Inr j \<Longrightarrow> g j = Inr (h d)"
  shows "decode_all g js = Inr (map h ds)"
  using assms
proof (induction ds arbitrary: js)
  case (Cons d ds)
  then obtain j ks where j: "f d = Inr j" "marshal_all f ds = Inr ks" "js = j # ks" by (auto split: sum.splits)
  from Cons.IH [OF j(2)] Cons.prems(2) have "decode_all g ks = Inr (map h ds)" by simp
  moreover from Cons.prems(2) [of d j] j(1) have "g j = Inr (h d)" by simp
  ultimately show ?case by (simp add: j(3))
qed simp

lemma decode_slice_marshal:
  assumes "marshal_slice f ds = Inr j" "\<And>d j. d \<in> set ds \<Longrightarrow> f d = Inr j \<Longrightarrow> g j = Inr (h d)"
  shows "decode_slice g j = Inr (map h ds)"
  using assms decode_all_marshal [of f ds _ g h] by (auto simp: marshal_slice_def split: sum.splits if_splits)

lemma decode_marshal_event:
  assumes "marshal_event_doc cd d = Inr j"
  shows "decode_flag j = Inr (de_pii_unrecoverable d)"
proof -
  have "\<exists>fs. marshal_event_doc cd d = map_sum id JObj (marshal_struct fs)
    \<and> map_of fs ''pii_unrecoverable'' = Some (Inr (JBool (de_pii_unrecoverable d)))"
    unfolding marshal_event_doc_def by (rule exI, rule conjI, rule refl) (cases "de_actor d"; simp add: map_add_def)
  then obtain fs where fs: "marshal_event_doc cd d = map_sum id JObj (marshal_struct fs)"
    "map_of fs ''pii_unrecoverable'' = Some (Inr (JBool (de_pii_unrecoverable d)))" by blast
  with assms obtain m where m: "j = JObj m" "marshal_struct fs = Inr m" by (cases "marshal_struct fs") auto
  with fs(2) marshal_struct_lookup [OF m(2), of "''pii_unrecoverable''"] show ?thesis by simp
qed

lemma decode_marshal_aggregate:
  assumes "marshal_aggregate_doc cd d = Inr j"
  shows "decode_aggregate j = Inr (map de_pii_unrecoverable (dg_events d))"
proof -
  from assms obtain m evs where m: "j = JObj m" "m ''events'' = Some evs"
    "marshal_slice (marshal_event_doc cd) (dg_events d) = Inr evs"
    by (auto simp: marshal_aggregate_doc_def split: sum.splits)
  from decode_slice_marshal [OF m(3) decode_marshal_event] m(1,2) show ?thesis by simp
qed

lemma document_roundtrip:
  assumes "marshal_response_doc cd (dsar_response t x) = Inr j" "\<And>u. parse (dc_uuid cd u) = Some u"
  shows "decode_document parse j = Inr (se_pii_id x, map (\<lambda>h. map ev_pii_unrecoverable (ah_events h)) (se_aggregates x))"
proof -
  from assms(1) obtain m aggs where m: "j = JObj m" "m ''pii_id'' = Some (JStr (dc_uuid cd (se_pii_id x)))" "m ''aggregates'' = Some aggs"
    "marshal_slice (marshal_aggregate_doc cd) (dr_aggregates (dsar_response t x)) = Inr aggs"
    by (auto simp: marshal_response_doc_def dsar_response_def split: sum.splits)
  from decode_slice_marshal [OF m(4) decode_marshal_aggregate] m(1-3) assms(2) show ?thesis
    by (simp add: dsar_response_def dsar_event_def comp_def)
qed

lemma check_document_passes:
  assumes au: "audit_state c order ks0 env accs er w" and acc: "acc \<in> set accs"
    and cd: "\<And>u. parse (dc_uuid cd u) = Some u" "dc_time cd now \<noteq> None"
      "\<forall>x \<in> set (ms_all (pw_store w)). dc_time cd (ev_occurred_at x) \<noteq> None"
  shows "check_document cd parse now (\<lambda>p opts. pii_fetch_by_pii_id (sealed_store c order) p opts w) (as_id acc \<in> er) acc = Inr 5"
proof -
  let ?er = "as_id acc \<in> er" and ?S = "opened_stream c order w acc"
    and ?lookup = "\<lambda>p opts. pii_fetch_by_pii_id (sealed_store c order) p opts w"
  note ok = audit_stateD(1) [OF au] and d = audit_stateD(4) [OF au acc]
  have keyed: "mem_keyed (pw_store w)" using world_okD(2) [OF ok] by (simp add: mem_inv_def)
  obtain a where a: "load_from_history account_ops account_apply account_events ?S (set_id (as_id acc) new_account) = (None, a)"
    using d by (auto simp: account_done_def)
  obtain key where log: "closed_log c key acc (account_stream w acc)" using d by (auto simp: account_done_def)
  have "dc_time cd (ev_occurred_at y) \<noteq> None \<and> ev_payload y \<noteq> RawBad \<and> ev_metadata y \<noteq> RawBad" if y: "y \<in> set ?S" for y
  proof -
    from y obtain x where x: "x \<in> set (account_stream w acc)" "y = opened (sealed_store c order) (pw_keys w) x" by auto
    obtain p u where "y = x\<lparr>ev_payload := p, ev_pii_unrecoverable := u\<rparr>"
      using openable_opened [OF world_okD(5) [OF ok x(1)]] x(2) by (auto dest: open_frame)
    moreover have "metadata_ok (ev_metadata x)" using closed_log_subject [OF log x(1)] by simp
    moreover have "x \<in> set (ms_all (pw_store w))" using x(1) by (simp add: keyed_stream [OF keyed])
    ultimately show ?thesis using cd(3) replay_payloads [OF a y] by auto
  qed
  moreover have "?lookup (as_id acc) (account_opts acc) = Inr ?S" using subject_lookup [OF au acc] by simp
  ultimately have "\<exists>j. export_json cd now ?lookup (as_id acc) (account_opts acc) = Inr j"
    unfolding export_json_total using cd(2) by blast
  then obtain j where j: "export_json cd now ?lookup (as_id acc) (account_opts acc) = Inr j" by blast
  then have doc: "decode_document parse j = Inr (as_id acc, [map ev_pii_unrecoverable ?S])"
    using document_roundtrip [of cd now _ j parse, OF _ cd(1)] by (simp add: export_json_def account_export [OF au acc])
  obtain x e ts key where S: "account_stream w acc = x # ts" "sealed c key holder_fields e x" "opened_by acc e"
    "?S = opened_head ?er e x # ts" by (rule opened_stream_cases [OF d ok])
  obtain n em where "ev_pii_unrecoverable (opened_head ?er e x) = ?er" by (rule head_decodes [OF S(2,3), of ?er])
  moreover have "Suc (length ts) = want_raw_count ?er" using d S(1) by (simp add: account_done_def)
  ultimately show ?thesis using j doc by (simp add: check_document_def S(4))
qed

end
