(* ===== verification/Ledger_Reports.thy ===== *)
theory Ledger_Reports
  imports Ledger_Checks
begin

text \<open>
  The checks of \<^verbatim>\<open>main\<close> in \<^verbatim>\<open>examples/ledger/main.go\<close> that span accounts: the proof of the erasure, the
  fact that tenants share, the counts, and the read model that is rebuilt after the erasure.
\<close>

section \<open>The proof of an erasure\<close>

lemma erasure_proved:
  assumes au: "audit_state c order ks0 env accs er w" and acc: "acc \<in> set accs" "as_id acc \<in> er"
    and ledger: "mem_ledger_inv c (pw_ledger w)" "\<exists>r \<in> set (pw_ledger w). sr_pii_id r = as_id acc"
  shows "\<exists>pr. verify_erasure c order w (as_id acc) = (Some pr, None) \<and> check_proof pr = Inr 3"
proof -
  note ok = audit_stateD(1) [OF au] and d = audit_stateD(4) [OF au acc(1)]
  let ?rs = "filter (\<lambda>r. sr_pii_id r = as_id acc) (pw_ledger w)"
  obtain x e ts k0 where S: "sealed c k0 holder_fields e x" "opened_by acc e" "list_all (plain_event (as_id acc)) ts"
    "opened_stream c order w acc = opened_head True e x # ts"
    by (rule opened_stream_cases [OF d ok]) (use acc(2) in simp)
  have key: "mem_wr_abs (pw_keys w) (as_id acc) = None" using d acc(2) by (auto simp: account_done_def)
  have "kr_get (demo_keyring order) (as_id acc) (pw_keys w) = Inr None"
    using mem_wrapped.wr_get_eq [OF world_okD(3) [OF ok], of order] key by (simp add: demo_keyring_def)
  moreover have "list_all (\<lambda>e. \<not> (raw_present (ev_pii_fields e) \<and> \<not> ev_pii_unrecoverable e)) (opened_stream c order w acc)"
    using S(3) unfolding S(4) by (auto simp: opened_head_def list_all_iff plain_event_def)
  moreover have "?rs \<noteq> []" using ledger(2) by (auto simp: filter_empty_conv)
  ultimately have "verify_erasure c order w (as_id acc) = (Some \<lparr>ep_subject = as_id acc, ep_erasures = ?rs,
      ep_key_forgotten = True, ep_events_unrecoverable = True\<rparr>, None)"
    unfolding verify_erasure_def mem_ledger_entries_def
    using ledger(1) subject_lookup [OF au acc(1), of "[]"]
    by (intro erasure_verify_success) (simp_all add: mem_ledger_inv_def)
  moreover have "1 \<le> length ?rs" using \<open>?rs \<noteq> []\<close> by (simp add: Suc_leI)
  ultimately show ?thesis by (simp add: check_proof_def)
qed

lemma never_erased_fails:
  assumes "mem_ledger_inv c (pw_ledger w)" "\<forall>r \<in> set (pw_ledger w). sr_pii_id r \<noteq> p"
  shows "check_never_erased (verify_erasure c order w p) = Inr 1"
proof -
  have "filter (\<lambda>r. sr_pii_id r = p) (pw_ledger w) = []" using assms(2) by (simp add: filter_empty_conv)
  with assms(1) show ?thesis
    by (simp add: check_never_erased_def verify_erasure_def erasure_verify_def mem_ledger_inv_def
        mem_ledger_entries_def Let_def)
qed

section \<open>The shared fact\<close>

lemma check_fact_passes:
  assumes au: "audit_state c order ks0 env accs er w"
    and orgs: "dm_org_a env \<noteq> global_tenant_id" "dm_org_b env \<noteq> global_tenant_id"
  shows "check_fact (pii_store_ops (sealed_store c order)) env w = Inr 2"
proof -
  let ?f = "dm_fact_aggregate env"
  obtain g where g: "ms_by_aggregate (pw_store w) (fact_key env) = [g]" "stored_view g = stored_view (global_fact env)"
    using au by (auto simp: audit_state_def)
  have opened: "open_all (sealed_store c order) [g] (pw_keys w) = Inr [g]"
    using stored_viewD(5) [OF g(2)] by (simp add: open_untouched)
  have "pii_load (sealed_store c order) ?f [WithTenant org] w = Inr [g]" if org: "org \<in> {dm_org_a env, dm_org_b env}" for org
  proof -
    have "(org, ?f) \<notin> {fact_key env} \<union> account_key ` set accs" using orgs org audit_stateD(5) [OF au] by fastforce
    with demo_stateD(2) [OF audit_stateD(2) [OF au]] have "ms_by_aggregate (pw_store w) (org, ?f) = []" by blast
    then have "mem_load ?f [WithTenant org] (pw_store w) = Inr [g]"
      by (simp add: mem_load_def resolve_store_config_def Let_def g(1))
    with opened show ?thesis by (simp add: pii_load_def del: open_all.simps)
  qed
  then show ?thesis by (simp add: check_fact_def ts_load_def with_tenant_def)
qed

section \<open>The counts\<close>

lemma length_by_keys:
  "distinct ks \<Longrightarrow> (\<forall>x \<in> set xs. P x \<longrightarrow> f x \<in> set ks)
    \<Longrightarrow> length (filter P xs) = (\<Sum>k\<leftarrow>ks. length (filter (\<lambda>x. P x \<and> f x = k) xs))"
proof (induction xs)
  case (Cons x xs)
  then have ih: "length (filter P xs) = (\<Sum>k\<leftarrow>ks. length (filter (\<lambda>x. P x \<and> f x = k) xs))" by simp
  show ?case
  proof (cases "P x")
    case True
    have one: "(\<Sum>k\<leftarrow>ks. (if f x = k then 1 else 0)) = (1 :: nat)"
      using Cons.prems(1,2) True sum_list_distinct_conv_sum_set [OF Cons.prems(1), of "\<lambda>k. if f x = k then 1 else (0 :: nat)"]
      by simp
    have "(\<Sum>k\<leftarrow>ks. length (filter (\<lambda>x. P x \<and> f x = k) (x # xs)))
        = (\<Sum>k\<leftarrow>ks. length (filter (\<lambda>x. P x \<and> f x = k) xs) + (if f x = k then 1 else 0))"
      using True by (intro arg_cong [where f = sum_list] map_cong) simp_all
    also have "\<dots> = Suc (length (filter P xs))" unfolding sum_list_addf one ih by simp
    finally show ?thesis using True by simp
  next
    case False
    with ih show ?thesis by simp
  qed
qed simp

definition sees :: "store_option list \<Rightarrow> uuid \<times> uuid \<Rightarrow> bool" where
  "sees opts k \<longleftrightarrow> (case scope_of opts of None \<Rightarrow> True | Some t \<Rightarrow> fst k = t \<or> fst k = global_tenant_id)"

lemma visible_length:
  assumes au: "audit_state c order ks0 env accs er w"
  shows "length (visible_log opts (pw_store w)) = (if sees opts (fact_key env) then 1 else 0)
    + (\<Sum>acc\<leftarrow>accs. if sees opts (account_key acc) then want_raw_count (as_id acc \<in> er) else 0)"
proof -
  let ?s = "pw_store w" and ?ks = "fact_key env # map account_key accs"
  have keyed: "mem_keyed ?s" using world_okD(2) [OF audit_stateD(1) [OF au]] by (simp add: mem_inv_def)
  have vis: "visible (resolve_store_config opts) x \<longleftrightarrow> sees opts (aggregate_key x)" for x
    by (auto simp: visible_def sees_def aggregate_key_def split: option.splits)
  have mem: "aggregate_key x \<in> set ?ks" if "x \<in> set (ms_all ?s)" for x
  proof -
    have "ms_by_aggregate ?s (aggregate_key x) \<noteq> []" using that by (auto simp: keyed_stream [OF keyed] filter_empty_conv)
    with demo_stateD(2) [OF audit_stateD(2) [OF au], of "aggregate_key x"] show ?thesis by auto
  qed
  have "inj_on account_key (set accs)" using audit_stateD(3) [OF au] by (auto simp: inj_on_def distinct_map)
  moreover have "fact_key env \<notin> account_key ` set accs" using audit_stateD(5) [OF au] by fastforce
  ultimately have dist: "distinct ?ks" using audit_stateD(3) [OF au] by (simp add: distinct_map)
  have each: "length (filter (\<lambda>x. visible (resolve_store_config opts) x \<and> aggregate_key x = k) (ms_all ?s))
      = (if sees opts k then length (ms_by_aggregate ?s k) else 0)" for k
    unfolding keyed_stream [OF keyed] vis by (auto intro!: arg_cong [where f = length] filter_cong simp: filter_empty_conv)
  have "length (visible_log opts ?s) = (\<Sum>k\<leftarrow>?ks. if sees opts k then length (ms_by_aggregate ?s k) else 0)"
    using length_by_keys [OF dist, of "ms_all ?s" "visible (resolve_store_config opts)" aggregate_key] mem
    unfolding each by blast
  moreover have "length (ms_by_aggregate ?s (fact_key env)) = 1" using au by (auto simp: audit_state_def)
  moreover have "length (account_stream w acc) = want_raw_count (as_id acc \<in> er)" if "acc \<in> set accs" for acc
    using audit_stateD(4) [OF au that] by (simp add: account_done_def)
  then have "(\<Sum>acc\<leftarrow>accs. if sees opts (account_key acc) then length (account_stream w acc) else 0)
      = (\<Sum>acc\<leftarrow>accs. if sees opts (account_key acc) then want_raw_count (as_id acc \<in> er) else 0)"
    by (intro arg_cong [where f = sum_list] map_cong) simp_all
  ultimately show ?thesis by (simp add: comp_def)
qed

text \<open>A report of at most as many events as the tenant sees is all of them, opened.\<close>

lemma report_all:
  assumes "world_ok c order w" "length (ms_all (pw_store w)) < 2 ^ 64" "length (visible_log opts (pw_store w)) \<le> 10000"
  shows "pii_fetch_after (sealed_store c order) 0 10000 opts w
    = Inr (map (opened (sealed_store c order) (pw_keys w)) (visible_log opts (pw_store w)))"
proof -
  have inv: "mem_feed_inv (pw_store w)" using world_okD(2) [OF assms(1)] assms(2) by (simp add: mem_feed_inv_def mem_inv_def)
  have keyed: "mem_keyed (pw_store w)" using world_okD(2) [OF assms(1)] by (simp add: mem_inv_def)
  have "after 0 (visible_log opts (pw_store w)) = visible_log opts (pw_store w)"
    unfolding after_def by (intro filter_True) (auto intro: mem_feed_positive [OF inv])
  then have "mem_fetch_after 0 10000 opts (pw_store w) = Inr (visible_log opts (pw_store w))"
    using assms(3) by (simp add: mem_fetch_after_eq)
  moreover have "open_all (sealed_store c order) (visible_log opts (pw_store w)) (pw_keys w)
      = Inr (map (opened (sealed_store c order) (pw_keys w)) (visible_log opts (pw_store w)))"
    using world_okD(5) [OF assms(1)] by (intro open_all_openable) (auto simp: keyed_stream [OF keyed])
  ultimately show ?thesis by (simp add: pii_fetch_after_def)
qed

section \<open>The rebuilt read model\<close>

lemma rebuilt_dispatch:
  "dispatch rebuilt_dispatcher e b =
     (if pattern_matches all_account_events (ev_name e) then (fst (statement_project e b), [], snd (statement_project e b))
      else (None, [], b))"
  unfolding dispatch_eq
  by (simp add: rebuilt_dispatcher_def subscribe_listener_def get_listeners_register new_dispatcher_def new_projector_def
      split: prod.split option.split)

lemma rebuild_loop_append:
  "rebuild_loop (es @ fs) b = (case rebuild_loop es b of Inl err \<Rightarrow> Inl err | Inr b' \<Rightarrow> rebuild_loop fs b')"
  by (induction es b rule: rebuild_loop.induct) (auto split: prod.split option.split)

text \<open>\<open>I\<close> are the accounts whose events the projector is to see.\<close>

lemma rebuild_loop_agrees:
  assumes "\<forall>i \<in> I. \<exists>a. load_from_history account_ops account_apply account_events
      (filter (\<lambda>e. ev_aggregate_id e = i) es) (set_id i new_account) = (None, a)"
    and "\<forall>e \<in> set es. ev_aggregate_id e \<in> I \<or> \<not> pattern_matches all_account_events (ev_name e)"
  shows "\<exists>b. rebuild_loop es new_statement_book = Inr b \<and> (\<forall>i \<in> I. \<forall>a. load_from_history account_ops account_apply account_events
      (filter (\<lambda>e. ev_aggregate_id e = i) es) (set_id i new_account) = (None, a)
      \<longrightarrow> agg_id a = i \<and> account_agree (filter (\<lambda>e. ev_aggregate_id e = i) es) a (b i))"
  using assms
proof (induction es rule: rev_induct)
  case Nil
  then show ?case by (auto simp: new_statement_book_def statements.agree_new set_id_def account_agree_def new_account_def)
next
  case (snoc e es)
  let ?load = "load_from_history account_ops account_apply account_events"
    and ?mine = "\<lambda>i es. filter (\<lambda>e. ev_aggregate_id e = i) es"
  have pre: "\<exists>a. ?load (?mine i es) (set_id i new_account) = (None, a)" if "i \<in> I" for i
    using bspec [OF snoc.prems(1) that] by (auto simp: load_from_history_append split: prod.splits option.splits if_splits)
  with snoc obtain b where b: "rebuild_loop es new_statement_book = Inr b"
    "\<forall>i \<in> I. \<forall>a. ?load (?mine i es) (set_id i new_account) = (None, a) \<longrightarrow> agg_id a = i \<and> account_agree (?mine i es) a (b i)"
    by auto
  show ?case
  proof (cases "ev_aggregate_id e \<in> I")
    case False
    with snoc.prems(2) have "\<not> pattern_matches all_account_events (ev_name e)" by simp
    with False b show ?thesis by (auto simp: rebuild_loop_append rebuilt_dispatch)
  next
    case True
    let ?j = "ev_aggregate_id e"
    from pre [OF True] obtain a where a: "?load (?mine ?j es) (set_id ?j new_account) = (None, a)" by blast
    with bspec [OF snoc.prems(1) True] obtain a' where a': "?load [e] a = (None, a')"
      by (auto simp: load_from_history_append split: prod.splits option.splits)
    from b(2) True a have ag: "agg_id a = ?j" "account_agree (?mine ?j es) a (b ?j)" by simp_all
    have step: "fst (statement_project e b) = None \<and> agg_id a' = agg_id a
        \<and> account_agree (?mine ?j es @ [e]) a' (snd (statement_project e b) ?j)"
      using ag a' by (intro statement_project_step)
    have "pattern_matches all_account_events (ev_name e)" by (rule account_pattern [OF a'])
    with step have "rebuild_loop (es @ [e]) new_statement_book = Inr (snd (statement_project e b))"
      by (simp add: rebuild_loop_append b(1) rebuilt_dispatch)
    moreover have "agg_id x = i \<and> account_agree (?mine i (es @ [e])) x (snd (statement_project e b) i)"
      if "i \<in> I" "?load (?mine i (es @ [e])) (set_id i new_account) = (None, x)" for i x
    proof (cases "i = ?j")
      case True
      with that(2) a a' have "x = a'" by (simp add: load_from_history_append)
      with True step ag show ?thesis by simp
    next
      case False
      with that b(2) statement_project_others [OF False, of b] show ?thesis by simp
    qed
    ultimately show ?thesis by blast
  qed
qed

text \<open>What a tenant sees of its account, opened, is the account's stream.\<close>

lemma opened_frame:
  assumes "openable cf k x"
  obtains p u where "opened cf k x = x\<lparr>ev_payload := p, ev_pii_unrecoverable := u\<rparr>"
  using openable_opened [OF assms] by (auto dest: open_frame)

lemma tenant_stream:
  assumes au: "audit_state c order ks0 env accs er w" and acc: "acc \<in> set accs"
  shows "filter (\<lambda>e. ev_aggregate_id e = as_id acc) (visible_log [WithTenant (as_org acc)] (pw_store w)) = account_stream w acc"
  using visible_stream [of "pw_store w" "as_id acc" "as_org acc"] audit_empty [OF au acc, of global_tenant_id]
    audit_stateD(6) [OF au acc] world_okD(2) [OF audit_stateD(1) [OF au]] by (simp add: mem_inv_def)

lemma tenant_sees:
  assumes au: "audit_state c order ks0 env accs er w" and x: "x \<in> set (visible_log [WithTenant org] (pw_store w))"
  shows "(\<exists>acc \<in> set accs. as_org acc = org \<and> ev_aggregate_id x = as_id acc)
    \<or> \<not> pattern_matches all_account_events (ev_name x)"
proof -
  have "mem_keyed (pw_store w)" using world_okD(2) [OF audit_stateD(1) [OF au]] by (simp add: mem_inv_def)
  then have mem: "x \<in> set (ms_by_aggregate (pw_store w) (aggregate_key x))" using x by (simp add: keyed_stream)
  then have "aggregate_key x \<in> {fact_key env} \<union> account_key ` set accs"
    using demo_stateD(2) [OF audit_stateD(2) [OF au], of "aggregate_key x"] by fastforce
  then consider "aggregate_key x = fact_key env" | acc where "acc \<in> set accs" "aggregate_key x = account_key acc" by blast
  then show ?thesis
  proof cases
    case 1
    with au mem have "ev_name x = ''platform.exchange_rate_updated''" by (auto simp: audit_state_def dest: stored_viewD)
    then show ?thesis by (simp add: all_account_events_def pattern_matches_def cut_suffix_def has_prefix_def)
  next
    case 2
    then have "as_org acc = org"
      using x audit_stateD(6) [OF au] by (auto simp: aggregate_key_def visible_def resolve_store_config_def)
    with 2 show ?thesis by (auto simp: aggregate_key_def)
  qed
qed

end
