(* ===== verification/Ledger_Live.thy ===== *)
theory Ledger_Live
  imports Ledger_Reports
begin

text \<open>
  The read models that \<^verbatim>\<open>main\<close> in \<^verbatim>\<open>examples/ledger/main.go\<close> checks: the book that is rebuilt after the
  erasure, and the books of the workers that ran all along.
\<close>

section \<open>What a book shows of an account\<close>

text \<open>Whether the opening was read before or after the holder was forgotten is seen in the name only.\<close>

lemma head_statement:
  assumes d: "account_done c order ks0 w er acc"
    and S: "sealed c key holder_fields e x" "opened_by acc e" "opened_stream c order w acc = opened_head er e x # ts"
  shows "\<exists>a. load_from_history account_ops account_apply account_events (opened_head m e x # ts) (set_id (as_id acc) new_account) = (None, a)
    \<and> statement_of (opened_head m e x # ts) a
        = \<lparr>av_holder_name = (if m then ''[erased]'' else as_holder_name acc), av_balance = expected_balance_cents\<rparr>"
proof -
  let ?load = "load_from_history account_ops account_apply account_events" and ?z = "set_id (as_id acc) new_account"
  obtain a where a: "?load (opened_head er e x # ts) ?z = (None, a)" "ac_balance a = expected_balance_cents"
    using d by (auto simp: account_done_def S(3))
  obtain n em where h: "ev_name (opened_head er e x) = account_opened"
    "account_unmarshal (ev_payload (opened_head er e x)) (AccountOpenedEvent [] [] 0) = (None, AccountOpenedEvent n em 0)"
    by (rule head_decodes [OF S(1,2), of er])
  obtain b where b: "?load (opened_head er e x # ts) ?z = ?load ts b" "ac_opened b" "ac_balance b = 0"
    by (rule replay_head [OF h])
  obtain n' em' where h': "ev_name (opened_head m e x) = account_opened"
    "account_unmarshal (ev_payload (opened_head m e x)) (AccountOpenedEvent [] [] 0) = (None, AccountOpenedEvent n' em' 0)"
    "ev_pii_unrecoverable (opened_head m e x) = m"
    "if m then CHR '' '' \<notin> set n' else n' = as_holder_name acc \<and> em' = as_holder_email acc"
    by (rule head_decodes [OF S(1,2), of m])
  obtain b' where b': "?load (opened_head m e x # ts) ?z = ?load ts b'" "ac_opened b'" "holder b' = (n', em')" "ac_balance b' = 0"
    by (rule replay_head [OF h'(1,2)])
  have "?load ts b = (None, a)" using a(1) b(1) by simp
  note rest = replay_rest [OF this b(2)]
  with b'(2) obtain a' where a': "?load ts b' = (None, a')" "holder a' = holder b'"
    "ac_balance a' - ac_balance b' = ac_balance a - ac_balance b" by blast
  have "holder_erased (opened_head m e x # ts) \<longleftrightarrow> m"
    using rest h'(1,3) by (auto simp: holder_erased_def)
  with a'(2,3) a(2) b(3) b'(1,3,4) a'(1) h'(4) show ?thesis
    by (auto simp: statement_of_def holder_def)
qed

section \<open>The rebuilt book\<close>

lemma rebuilt_passes:
  assumes au: "audit_state c order ks0 env accs {p} w"
  shows "\<exists>b. rebuild_book c order org w = Inr b \<and> (\<forall>acc \<in> set accs. as_org acc = org \<longrightarrow> check_rebuilt b p acc = Inr 2)"
proof -
  let ?cf = "sealed_store c order" and ?log = "visible_log [WithTenant org] (pw_store w)"
  let ?es = "map (opened ?cf (pw_keys w)) ?log" and ?I = "as_id ` {acc \<in> set accs. as_org acc = org}"
  let ?load = "load_from_history account_ops account_apply account_events"
  note ok = audit_stateD(1) [OF au]
  have keyed: "mem_keyed (pw_store w)" using world_okD(2) [OF ok] by (simp add: mem_inv_def)
  have op: "openable ?cf (pw_keys w) x" if "x \<in> set ?log" for x
    using that world_okD(5) [OF ok, of x "aggregate_key x"] by (simp add: keyed_stream [OF keyed])
  have same: "ev_aggregate_id (opened ?cf (pw_keys w) x) = ev_aggregate_id x \<and> ev_name (opened ?cf (pw_keys w) x) = ev_name x"
    if "x \<in> set ?log" for x by (rule opened_frame [OF op [OF that]]) simp
  have mine: "filter (\<lambda>e. ev_aggregate_id e = as_id acc) ?es = opened_stream c order w acc"
    if "acc \<in> set accs" "as_org acc = org" for acc
  proof -
    have "filter (\<lambda>e. ev_aggregate_id e = as_id acc) ?es
        = map (opened ?cf (pw_keys w)) (filter (\<lambda>e. ev_aggregate_id e = as_id acc) ?log)"
      unfolding filter_map comp_def using same by (intro arg_cong [where f = "map _"] filter_cong) simp_all
    with tenant_stream [OF au that(1)] that(2) show ?thesis by simp
  qed
  have stmt: "\<exists>a. ?load (opened_stream c order w acc) (set_id (as_id acc) new_account) = (None, a)
      \<and> statement_of (opened_stream c order w acc) a = \<lparr>av_holder_name = (if as_id acc = p then ''[erased]'' else as_holder_name acc),
          av_balance = expected_balance_cents\<rparr>" if "acc \<in> set accs" for acc
  proof -
    note d = audit_stateD(4) [OF au that]
    obtain x e ts key where S: "sealed c key holder_fields e x" "opened_by acc e"
      "opened_stream c order w acc = opened_head (as_id acc \<in> {p}) e x # ts" by (rule opened_stream_cases [OF d ok])
    from head_statement [OF d S, of "as_id acc \<in> {p}"] show ?thesis unfolding S(3) by simp
  qed
  have open_ok: "open_all ?cf ?log (pw_keys w) = Inr ?es" using op by (intro open_all_openable)
  have loads: "\<forall>i \<in> ?I. \<exists>a. ?load (filter (\<lambda>e. ev_aggregate_id e = i) ?es) (set_id i new_account) = (None, a)"
    using mine stmt by fastforce
  have "\<forall>e \<in> set ?es. ev_aggregate_id e \<in> ?I \<or> \<not> pattern_matches all_account_events (ev_name e)"
    using same tenant_sees [OF au, of _ org] by fastforce
  from rebuild_loop_agrees [OF loads this] obtain b where b: "rebuild_loop ?es new_statement_book = Inr b"
    "\<forall>i \<in> ?I. \<forall>a. ?load (filter (\<lambda>e. ev_aggregate_id e = i) ?es) (set_id i new_account) = (None, a)
      \<longrightarrow> agg_id a = i \<and> account_agree (filter (\<lambda>e. ev_aggregate_id e = i) ?es) a (b i)"
    by (elim exE conjE)
  have "check_rebuilt b p acc = Inr 2" if acc: "acc \<in> set accs" "as_org acc = org" for acc
  proof -
    from stmt [OF acc(1)] obtain a where a: "?load (opened_stream c order w acc) (set_id (as_id acc) new_account) = (None, a)"
      "statement_of (opened_stream c order w acc) a = \<lparr>av_holder_name = (if as_id acc = p then ''[erased]'' else as_holder_name acc),
          av_balance = expected_balance_cents\<rparr>" by blast
    have "as_id acc \<in> ?I" using acc by blast
    note bspec [OF b(2) this, rule_format, unfolded mine [OF acc], OF a(1)]
    then have "account_agree (opened_stream c order w acc) a (b (as_id acc))" by (rule conjunct2)
    moreover have "opened_stream c order w acc \<noteq> []"
      using audit_stateD(4) [OF au acc(1)] by (auto simp: account_done_def want_raw_count_def split: if_splits)
    ultimately have "b (as_id acc) = Some (statement_of (opened_stream c order w acc) a)" by (simp add: account_agree_def)
    with a(2) show ?thesis by (simp add: check_rebuilt_def)
  qed
  with b(1) open_ok show ?thesis by (auto simp: rebuild_book_def)
qed

section \<open>The workers' books\<close>

text \<open>
  An event as a worker's stream delivered it: opened with a ring of some moment, in which its subject has
  the key it was given or has been forgotten.
\<close>

definition delivered :: "crypto \<Rightarrow> (uuid list \<Rightarrow> uuid list) \<Rightarrow> (uuid \<Rightarrow> bytes option) \<Rightarrow> domain_event \<Rightarrow> domain_event \<Rightarrow> bool" where
  "delivered c order ks0 x y \<longleftrightarrow> (\<exists>k. mem_wr_inv k
     \<and> (\<forall>p. ev_pii_id x = Some p \<longrightarrow> mem_wr_abs k p = None \<or> mem_wr_abs k p = ks0 p)
     \<and> pii_open c (demo_keyring order) x k = Inr y)"

text \<open>What the notifier of a worker has seen, and when a subscription is answered at once.\<close>

lemma last_projected_seen:
  assumes "wired pat proj d" "dispatch_all d es (v0, new_notifier) = (v, n)"
  shows "notifier_inv n \<and> (nt_last_projected n i = 0
    \<or> (\<exists>e \<in> set es. ev_aggregate_id e = i \<and> ev_aggregate_version e = nt_last_projected n i))"
  using assms(2)
proof (induction es arbitrary: v n rule: rev_induct)
  case Nil
  then show ?case using notifier_inv_new by (auto simp: new_notifier_def)
next
  case (snoc e es)
  obtain v1 n1 where one: "dispatch_all d es (v0, new_notifier) = (v1, n1)" by force
  obtain r started where two: "dispatch d e (v1, n1) = (r, started, v, n)"
    using snoc.prems by (auto simp: dispatch_all_append one split: prod.splits)
  note ih = snoc.IH [OF one]
  from dispatch_wired [OF assms(1) conjunct1 [OF ih] two] ih have "n = n1 \<or> notified e n1 n"
    by (auto split: if_splits)
  then show ?case
  proof
    assume "notified e n1 n"
    then have "notifier_inv n" "nt_last_projected n i = (if i = ev_aggregate_id e
        then max (nt_last_projected n1 i) (ev_aggregate_version e) else nt_last_projected n1 i)"
      by (simp_all add: notified_def)
    with ih show ?thesis by (auto simp: max_def split: if_splits)
  qed (use ih in auto)
qed

lemma subscribe_ready:
  "notifier_inv n \<Longrightarrow> notifier_subscribe i u n = (ch, n') \<Longrightarrow> ch \<in> nt_closed n' \<Longrightarrow> u \<le> nt_last_projected n i"
  by (auto simp: notifier_subscribe_def notifier_inv_def Let_def split: if_splits)

lemma list_all2_filter:
  "list_all2 R xs ys \<Longrightarrow> (\<And>x y. R x y \<Longrightarrow> P x \<longleftrightarrow> Q y) \<Longrightarrow> list_all2 R (filter P xs) (filter Q ys)"
  by (induction rule: list_all2_induct) auto

lemma delivered_frame: "delivered c order ks0 x y \<Longrightarrow> ev_aggregate_id y = ev_aggregate_id x \<and> ev_aggregate_version y = ev_aggregate_version x"
  by (auto simp: delivered_def dest!: open_frame)

lemma list_all2_source: "list_all2 R xs ys \<Longrightarrow> y \<in> set ys \<Longrightarrow> \<exists>x \<in> set xs. R x y"
  by (induction rule: list_all2_induct) auto

text \<open>A stream that is delivered in full.\<close>

lemma delivered_stream:
  assumes S: "sealed c key holder_fields e x" "opened_by acc e" "list_all (plain_event (as_id acc)) ts"
    and ok: "crypto_ok c" and ks0: "ks0 (as_id acc) = Some key" and del: "list_all2 (delivered c order ks0) (x # ts) ds"
  obtains m where "ds = opened_head m e x # ts"
proof -
  from del obtain y ys where ds: "ds = y # ys" "delivered c order ks0 x y" "list_all2 (delivered c order ks0) ts ys"
    by (auto simp: list_all2_Cons1)
  from ds(2) obtain k where k: "mem_wr_inv k" "mem_wr_abs k (as_id acc) = None \<or> mem_wr_abs k (as_id acc) = Some key"
    "pii_open c (demo_keyring order) x k = Inr y"
    using S(1,2) unfolding delivered_def ks0 [symmetric] by (auto simp: opened_by_def dest!: sealed_frame)
  have "y = opened_head (mem_wr_abs k (as_id acc) = None) e x"
    using opens_to_head [OF ok S(1,2) k(1), of "mem_wr_abs k (as_id acc) = None" order] k(2,3) by auto
  moreover have "ys = ts"
    using ds(3) S(3) by (induction rule: list_all2_induct) (auto simp: delivered_def opened_plain)
  ultimately show thesis using that ds(1) by blast
qed

text \<open>The worker has seen all of the account that it was waited for.\<close>

lemma waited_for:
  assumes v: "versions_from 0 es" "length es \<le> 5" and xs: "xs @ ys = es"
    and e: "e \<in> set xs" "of_nat (length es) \<le> ev_aggregate_version e"
  shows "xs = es"
proof -
  from e(1) obtain i where i: "i < length xs" "e = xs ! i" by (auto simp: in_set_conv_nth)
  then have "es ! i = e" "i < length es" using xs by (auto simp: nth_append)
  with versions_from_nth [OF v(1)] have "ev_aggregate_version e = of_nat (i + 1)" by (metis add_0)
  moreover have "unat (of_nat n :: u64) = n" if "n \<le> 5" for n using that by (simp add: unat_of_nat_u64)
  ultimately have "length es \<le> i + 1" using e(2) v(2) \<open>i < length es\<close> by (simp add: word_le_nat_alt del: of_nat_Suc of_nat_add)
  moreover have "length es = length xs + length ys" using xs by (metis length_append)
  ultimately have "length ys = 0" using i(1) by linarith
  with xs show ?thesis by simp
qed

lemma live_statement:
  assumes au: "audit_state c order ks0 env accs er w" and acc: "acc \<in> set accs"
    and log: "xs @ ys = visible_log [WithTenant (as_org acc)] (pw_store w)" "list_all2 (delivered c order ks0) xs ds"
    and run: "org_worker ds = (b, n)"
    and wait: "notifier_subscribe (as_id acc) (of_nat (want_raw_count (as_id acc \<in> er))) n = (ch, n')" "ch \<in> nt_closed n'"
  shows "\<exists>v. b (as_id acc) = Some v \<and> av_balance v = expected_balance_cents"
proof -
  let ?mine = "filter (\<lambda>e. ev_aggregate_id e = as_id acc)"
  note ok = audit_stateD(1) [OF au] and d = audit_stateD(4) [OF au acc]
  obtain x e ts key where S: "account_stream w acc = x # ts" "ks0 (as_id acc) = Some key"
    "sealed c key holder_fields e x" "opened_by acc e" "list_all (plain_event (as_id acc)) ts"
    "opened_stream c order w acc = opened_head (as_id acc \<in> er) e x # ts" by (rule opened_stream_cases [OF d ok])
  have all: "?mine xs @ ?mine ys = account_stream w acc"
    unfolding tenant_stream [OF au acc, symmetric] log(1) [symmetric] by simp
  have mine: "list_all2 (delivered c order ks0) (?mine xs) (?mine ds)"
    by (rule list_all2_filter [OF log(2)]) (simp add: delivered_frame)
  have len: "length (account_stream w acc) = want_raw_count (as_id acc \<in> er)" and vs: "versions_from 0 (account_stream w acc)"
    using d by (auto simp: account_done_def closed_log_def)
  have five: "length (account_stream w acc) \<le> 5" unfolding len by (simp add: want_raw_count_def)
  note seen = last_projected_seen [OF org_wired run [unfolded org_worker_def], of "as_id acc"]
  have last: "of_nat (length (account_stream w acc)) \<le> nt_last_projected n (as_id acc)"
    using subscribe_ready [OF conjunct1 [OF seen] wait] len by simp
  then have "nt_last_projected n (as_id acc) \<noteq> 0" unfolding len by (auto simp: want_raw_count_def split: if_splits)
  with seen obtain y where y: "y \<in> set (?mine ds)" "ev_aggregate_version y = nt_last_projected n (as_id acc)" by auto
  from list_all2_source [OF mine y(1)] obtain z where z: "z \<in> set (?mine xs)" "delivered c order ks0 z y" by blast
  have "of_nat (length (account_stream w acc)) \<le> ev_aggregate_version z"
    using delivered_frame [OF z(2)] last y(2) by simp
  from waited_for [OF vs five all z(1) this] have "?mine xs = x # ts" unfolding S(1) .
  from delivered_stream [OF S(3-5) world_okD(1) [OF ok] S(2) mine [unfolded this]]
  obtain m where m: "?mine ds = opened_head m e x # ts" .
  from head_statement [OF d S(3,4,6), of m] obtain a where a:
    "load_from_history account_ops account_apply account_events (?mine ds) (set_id (as_id acc) new_account) = (None, a)"
    "statement_of (?mine ds) a = \<lparr>av_holder_name = (if m then ''[erased]'' else as_holder_name acc),
       av_balance = expected_balance_cents\<rparr>" unfolding m by blast
  obtain ch2 n2 where sub: "notifier_subscribe (as_id acc) (agg_version a) n = (ch2, n2)" by force
  have "?mine ds \<noteq> []" using m by simp
  from org_worker_caught_up [OF a(1) this run sub] a(2) show ?thesis by simp
qed

lemma no_leak:
  assumes au: "audit_state c order ks0 env accs er w" and acc: "acc \<in> set accs" and org: "org \<noteq> as_org acc"
    and log: "xs @ ys = visible_log [WithTenant org] (pw_store w)" "list_all2 (delivered c order ks0) xs ds"
    and run: "org_worker ds = (b, n)"
  shows "b (as_id acc) = None"
proof -
  let ?mine = "filter (\<lambda>e. ev_aggregate_id e = as_id acc)"
  have "?mine (visible_log [WithTenant org] (pw_store w)) = []"
    using visible_stream [of "pw_store w" "as_id acc" org] audit_empty [OF au acc, of global_tenant_id] audit_empty [OF au acc org]
      audit_stateD(6) [OF au acc] world_okD(2) [OF audit_stateD(1) [OF au]] by (simp add: mem_inv_def)
  then have "?mine xs = []" unfolding log(1) [symmetric] filter_append by blast
  moreover have "list_all2 (delivered c order ks0) (?mine xs) (?mine ds)"
    by (rule list_all2_filter [OF log(2)]) (simp add: delivered_frame)
  ultimately have mine: "?mine ds = []" by simp
  have none: "new_statement_book (as_id acc) = None" by (simp add: new_statement_book_def)
  have "load_from_history account_ops account_apply account_events (?mine ds) (set_id (as_id acc) new_account)
      = (None, set_id (as_id acc) new_account)" unfolding mine by simp
  from statements.caught_up [OF org_wired notifier_inv_new none this run [unfolded org_worker_def]]
  show ?thesis by (simp add: mine account_agree_def)
qed

end
