(* ===== verification/Ledger_Program.thy ===== *)
theory Ledger_Program
  imports Ledger_Live
begin

text \<open>
  \<^verbatim>\<open>main\<close> of \<^verbatim>\<open>examples/ledger/main.go\<close> from its composition root to the line that says that all checks
  passed, put together from the theories before.
\<close>

section \<open>The fixture\<close>

text \<open>\<^verbatim>\<open>uuid.New\<close> answers with new identifiers, and never with the nil one.\<close>

definition env_ok :: "demo_env \<Rightarrow> bool" where
  "env_ok env \<longleftrightarrow> distinct (map (dm_account env) [0..<6]) \<and> dm_org_a env \<noteq> dm_org_b env
     \<and> dm_org_a env \<noteq> global_tenant_id \<and> dm_org_b env \<noteq> global_tenant_id
     \<and> dm_fact_aggregate env \<notin> set (map (dm_account env) [0..<6])"

lemma demo_account_ids: "map as_id (demo_accounts env) = map (dm_account env) [0..<6]"
  by (simp add: demo_accounts_def upt_rec numeral_eq_Suc)

lemma demo_accounts_ok:
  assumes "env_ok env"
  shows "distinct (map as_id (demo_accounts env))"
    "\<forall>acc \<in> set (demo_accounts env). as_holder_name acc \<noteq> [] \<and> as_holder_email acc \<noteq> []"
    "acc \<in> set (demo_accounts env) \<Longrightarrow> as_id acc \<noteq> dm_fact_aggregate env"
    "acc \<in> set (demo_accounts env) \<Longrightarrow> as_org acc \<in> {dm_org_a env, dm_org_b env}"
    "acc \<in> set (demo_accounts env) \<Longrightarrow> CHR '' '' \<in> set (as_holder_name acc)"
    "acc \<in> set (demo_accounts env) \<Longrightarrow> other_org env acc \<noteq> as_org acc"
proof -
  show "distinct (map as_id (demo_accounts env))" using assms unfolding demo_account_ids env_ok_def by blast
  show "\<forall>acc \<in> set (demo_accounts env). as_holder_name acc \<noteq> [] \<and> as_holder_email acc \<noteq> []"
    by (simp add: demo_accounts_def)
  have "as_id acc \<in> set (map as_id (demo_accounts env))" if "acc \<in> set (demo_accounts env)" using that by simp
  then show "acc \<in> set (demo_accounts env) \<Longrightarrow> as_id acc \<noteq> dm_fact_aggregate env"
    using assms unfolding demo_account_ids env_ok_def by metis
  show "acc \<in> set (demo_accounts env) \<Longrightarrow> as_org acc \<in> {dm_org_a env, dm_org_b env}"
    "acc \<in> set (demo_accounts env) \<Longrightarrow> CHR '' '' \<in> set (as_holder_name acc)"
    by (auto simp: demo_accounts_def)
  show "acc \<in> set (demo_accounts env) \<Longrightarrow> other_org env acc \<noteq> as_org acc"
    using assms by (auto simp: demo_accounts_def other_org_def env_ok_def)
qed

lemma demo_accounts_org:
  "env_ok env \<Longrightarrow> acc \<in> set (demo_accounts env) \<Longrightarrow> as_org acc \<noteq> global_tenant_id"
  using demo_accounts_ok(4) by (fastforce simp: env_ok_def)

lemma first_account: "hd (demo_accounts env) = demo_accounts env ! 0" "demo_accounts env ! 0 \<in> set (demo_accounts env)"
  "as_id (demo_accounts env ! 0) = dm_account env 0" "as_id (demo_accounts env ! 1) = dm_account env 1"
  "demo_accounts env ! 1 \<in> set (demo_accounts env)"
  by (simp_all add: demo_accounts_def)

section \<open>The writes\<close>

lemma load_finals_ok:
  assumes "\<And>acc. acc \<in> set accs \<Longrightarrow> \<exists>a. load_account st (as_id acc) (account_opts acc) w = Inr a \<and> P acc a"
    and "distinct (map as_id accs)"
  shows "\<exists>m. load_finals st accs w = Inr m \<and> dom m = as_id ` set accs \<and> (\<forall>acc \<in> set accs. \<exists>a. m (as_id acc) = Some a \<and> P acc a)"
  using assms
proof (induction accs)
  case (Cons acc accs)
  then obtain m where m: "load_finals st accs w = Inr m" "dom m = as_id ` set accs"
    "\<forall>acc \<in> set accs. \<exists>a. m (as_id acc) = Some a \<and> P acc a" by auto
  from Cons.prems(1) [of acc] obtain a where a: "load_account st (as_id acc) (account_opts acc) w = Inr a" "P acc a" by auto
  have none: "m (as_id acc) = None" using m(2) Cons.prems(2) by (auto simp: domIff)
  have "\<exists>b. ([as_id acc \<mapsto> a] ++ m) (as_id acc') = Some b \<and> P acc' b" if "acc' \<in> set (acc # accs)" for acc'
  proof (cases "acc' = acc")
    case True
    with a(2) none show ?thesis by (simp add: map_add_def)
  next
    case False
    with that have "acc' \<in> set accs" by simp
    with m(3) obtain b where "m (as_id acc') = Some b" "P acc' b" by blast
    then show ?thesis by (simp add: map_add_def)
  qed
  with a(1) m(1,2) show ?case by auto
qed simp

lemma demo_writes_ok:
  assumes env: "env_ok env" and inv: "demo_inv c order (demo_txs teller system eid) (demo_accounts env) (ps, w)"
    and stop: "\<nexists>s. demo_step (pii_store_ops (sealed_store c order)) (demo_txs teller system eid) (demo_accounts env) (ps, w) s"
  obtains w2 finals r where "demo_writes c order env w = Inr (w2, finals)"
    "audit_state c order (mem_wr_abs (pw_keys w)) env (demo_accounts env) {dm_account env 0} w2"
    "mem_ledger_inv c (pw_ledger w2)" "pw_ledger w2 = [r]" "sr_pii_id r = dm_account env 0"
    "\<forall>acc \<in> set (demo_accounts env). \<exists>a. finals (as_id acc) = Some a
       \<and> agg_version a = of_nat (want_raw_count (as_id acc \<in> {dm_account env 0}))"
proof -
  let ?accs = "demo_accounts env" and ?ks0 = "mem_wr_abs (pw_keys w)" and ?st = "pii_store_ops (sealed_store c order)"
    and ?acc = "demo_accounts env ! 0"
  note a = demo_accounts_ok [OF env]
  note st0 = demo_state_start [OF inv a(1,2) stop]
  have key: "fact_key env \<notin> account_key ` set ?accs" using a(3) by fastforce
  obtain w1 g where w1: "commit_fact ?st env w = Inr w1" "demo_state c order ?ks0 ?accs {fact_key env} {} w1"
    "pw_ledger w1 = pw_ledger w" "ms_by_aggregate (pw_store w1) (fact_key env) = [g]"
    "stored_view g = stored_view (global_fact env)" using fact_committed [OF st0 key] by blast
  have ub: "unbound {fact_key env} w1" using stored_viewD(5) [OF w1(5)] by (simp add: unbound_def w1(4))
  have ne: "account_key ?acc \<notin> {fact_key env}" using a(3) [OF first_account(2)] by simp
  obtain w2 r where w2: "erase_holder ?st env ?acc w1 = Inr w2" "demo_state c order ?ks0 ?accs {fact_key env} {as_id ?acc} w2"
    "\<forall>k. k \<noteq> account_key ?acc \<longrightarrow> ms_by_aggregate (pw_store w2) k = ms_by_aggregate (pw_store w1) k"
    "pw_ledger w2 = pw_ledger w1 @ [r]" "sr_pii_id r = as_id ?acc" "mem_ledger_inv c (pw_ledger w1) \<longrightarrow> mem_ledger_inv c (pw_ledger w2)"
    using holder_erased_ok [OF w1(2) first_account(2) a(1) ub ne, of env] by blast
  have "ms_by_aggregate (pw_store w2) (fact_key env) = [g]" using w2(3) ne w1(4) by (metis insertI1)
  with w2(2) w1(5) a(1,3,5) demo_accounts_org [OF env]
  have au: "audit_state c order ?ks0 env ?accs {dm_account env 0} w2" by (auto simp: audit_state_def first_account)
  have "\<exists>a. load_account ?st (as_id acc) (account_opts acc) w2 = Inr a
      \<and> agg_version a = of_nat (want_raw_count (as_id acc \<in> {dm_account env 0}))" if "acc \<in> set ?accs" for acc
    using account_done_opened [OF audit_stateD(4) [OF au that] audit_stateD(1) [OF au]] by metis
  from load_finals_ok [OF this a(1)] obtain m where m: "load_finals ?st ?accs w2 = Inr m"
    "\<forall>acc \<in> set ?accs. \<exists>a. m (as_id acc) = Some a \<and> agg_version a = of_nat (want_raw_count (as_id acc \<in> {dm_account env 0}))"
    by blast
  have "pw_ledger w1 = []" using w1(3) demo_invD(3) [OF inv] by simp
  with that [of w2 m r] au m w1(1) w2(1,4-6) mem_ledger_inv_new [of c] show thesis
    by (simp add: demo_writes_def first_account)
qed

section \<open>The checks\<close>

text \<open>
  The books of the workers when the waits for them are over: each has dispatched what its stream delivered
  of the log, and its notifier has answered for every account of its organization. That this takes less
  than two seconds is assumed.
\<close>

definition books_ready :: "crypto \<Rightarrow> (uuid list \<Rightarrow> uuid list) \<Rightarrow> (uuid \<Rightarrow> bytes option) \<Rightarrow> demo_env \<Rightarrow>
    (uuid \<Rightarrow> account option) \<Rightarrow> demo_world \<Rightarrow> (uuid \<Rightarrow> statement_book) \<Rightarrow> bool" where
  "books_ready c order ks0 env finals w books \<longleftrightarrow> (\<forall>org \<in> {dm_org_a env, dm_org_b env}. \<exists>xs ys ds n.
     xs @ ys = visible_log [WithTenant org] (pw_store w) \<and> list_all2 (delivered c order ks0) xs ds
     \<and> org_worker ds = (books org, n)
     \<and> (\<forall>acc \<in> set (demo_accounts env). as_org acc = org \<longrightarrow> read_model_ready finals acc n))"

definition times_render :: "dsar_codec \<Rightarrow> demo_env \<Rightarrow> demo_world \<Rightarrow> bool" where
  "times_render cd env w \<longleftrightarrow> (\<forall>p. dc_time cd (dm_export_time env p) \<noteq> None)
     \<and> (\<forall>x \<in> set (ms_all (pw_store w)). dc_time cd (ev_occurred_at x) \<noteq> None)"

lemma check_statement_passes:
  assumes au: "audit_state c order ks0 env accs er w" and acc: "acc \<in> set accs" "acc \<in> set (demo_accounts env)" and env: "env_ok env"
    and books: "books_ready c order ks0 env finals w books"
    and final: "\<exists>a. finals (as_id acc) = Some a \<and> agg_version a = of_nat (want_raw_count (as_id acc \<in> er))"
  shows "check_statement books env acc = Inr 2"
proof -
  from final obtain a where a: "finals (as_id acc) = Some a" "agg_version a = of_nat (want_raw_count (as_id acc \<in> er))" by blast
  note orgs = demo_accounts_ok(4,6) [OF env acc(2)]
  from books [unfolded books_ready_def, rule_format, OF orgs(1)] obtain xs ys ds n where
    own: "xs @ ys = visible_log [WithTenant (as_org acc)] (pw_store w)" "list_all2 (delivered c order ks0) xs ds"
    "org_worker ds = (books (as_org acc), n)" "read_model_ready finals acc n" using acc(2) by blast
  obtain ch n' where sub: "notifier_subscribe (as_id acc) (of_nat (want_raw_count (as_id acc \<in> er))) n = (ch, n')" by force
  with own(4) a have "ch \<in> nt_closed n'" by (simp add: read_model_ready_def)
  from live_statement [OF au acc(1) own(1-3) sub this] obtain v
    where v: "books (as_org acc) (as_id acc) = Some v" "av_balance v = expected_balance_cents" by blast
  have "other_org env acc \<in> {dm_org_a env, dm_org_b env}" by (simp add: other_org_def)
  from books [unfolded books_ready_def, rule_format, OF this] obtain xs' ys' ds' n'' where
    other: "xs' @ ys' = visible_log [WithTenant (other_org env acc)] (pw_store w)" "list_all2 (delivered c order ks0) xs' ds'"
    "org_worker ds' = (books (other_org env acc), n'')" by blast
  from no_leak [OF au acc(1) orgs(2) other] v show ?thesis by (simp add: check_statement_def)
qed

lemma check_account_passes:
  assumes au: "audit_state c order ks0 env (demo_accounts env) {p} w" and acc: "acc \<in> set (demo_accounts env)" and env: "env_ok env"
    and books: "books_ready c order ks0 env finals w books"
    and final: "\<exists>a. finals (as_id acc) = Some a \<and> agg_version a = of_nat (want_raw_count (as_id acc \<in> {p}))"
    and cd: "\<And>u. parse (dc_uuid cd u) = Some u" "times_render cd env w"
  shows "check_account c order cd parse env books p w acc = Inr (19 + want_raw_count (as_id acc = p))"
proof -
  note stmt = check_statement_passes [OF au acc acc env books final]
  have "dc_time cd (dm_export_time env (as_id acc)) \<noteq> None" "\<forall>x \<in> set (ms_all (pw_store w)). dc_time cd (ev_occurred_at x) \<noteq> None"
    using cd(2) by (simp_all add: times_render_def)
  note doc = check_document_passes [OF au acc cd(1) this]
  show ?thesis
    using check_loaded_passes [OF au acc] check_isolated_passes [OF au acc demo_accounts_ok(6) [OF env acc]]
      check_raw_passes [OF au acc] check_export_passes [OF au acc] doc stmt
    by (simp add: check_account_def Let_def)
qed

lemma audit_state_same:
  assumes "audit_state c order ks0 env accs er w" "demo_state c order ks0 accs {fact_key env} er w'" "pw_store w' = pw_store w"
  shows "audit_state c order ks0 env accs er w'"
  using assms by (simp add: audit_state_def)

lemma demo_wants:
  assumes env: "env_ok env"
  shows "map (\<lambda>acc. (as_org acc, want_raw_count (as_id acc \<in> {dm_account env 0}))) (demo_accounts env)
    = [(dm_org_a env, 5), (dm_org_a env, 4), (dm_org_a env, 4), (dm_org_b env, 4), (dm_org_b env, 4), (dm_org_b env, 4)]"
proof -
  have "dm_account env i \<noteq> dm_account env 0" if "0 < i" "i < 6" for i
  proof -
    have "distinct (map (dm_account env) [0..<6])" using env by (simp add: env_ok_def)
    from this [unfolded distinct_conv_nth, rule_format, of i 0] that show ?thesis by simp
  qed
  from this [of 1] this [of 2] this [of 3] this [of 4] this [of 5]
  show ?thesis by (simp add: demo_accounts_def want_raw_count_def)
qed

lemma demo_counts:
  assumes env: "env_ok env" and au: "audit_state c order ks0 env (demo_accounts env) {dm_account env 0} w"
  shows "length (ms_all (pw_store w)) = 26"
    "length (visible_log [WithTenant (dm_org_a env)] (pw_store w)) = 14"
    "length (visible_log [WithTenant (dm_org_b env)] (pw_store w)) = 13"
proof -
  let ?want = "\<lambda>acc. want_raw_count (as_id acc \<in> {dm_account env 0})"
  note wants = demo_wants [OF env]
  have len: "length (visible_log opts (pw_store w)) = (if sees opts (fact_key env) then 1 else 0)
      + (\<Sum>(t, n)\<leftarrow>map (\<lambda>acc. (as_org acc, ?want acc)) (demo_accounts env). if sees opts (t, uuid_nil) then n else 0)" for opts
  proof -
    have "sees opts (account_key acc) = sees opts (as_org acc, uuid_nil)" for acc
      by (cases "scope_of opts") (simp_all add: sees_def)
    then show ?thesis unfolding visible_length [OF au] by (simp add: comp_def cong: if_cong)
  qed
  have orgs: "dm_org_a env \<noteq> dm_org_b env" "dm_org_b env \<noteq> dm_org_a env" "dm_org_a env \<noteq> global_tenant_id" "dm_org_b env \<noteq> global_tenant_id"
    using env by (auto simp: env_ok_def)
  show "length (visible_log [WithTenant (dm_org_a env)] (pw_store w)) = 14"
    "length (visible_log [WithTenant (dm_org_b env)] (pw_store w)) = 13"
    unfolding len wants by (simp_all add: sees_def resolve_store_config_def orgs)
  have "length (ms_all (pw_store w)) = length (visible_log [] (pw_store w))" by (simp add: resolve_store_config_def visible_def)
  then show "length (ms_all (pw_store w)) = 26" unfolding len wants by (simp add: sees_def resolve_store_config_def)
qed

lemma reports_ok:
  assumes env: "env_ok env" and au: "audit_state c order ks0 env (demo_accounts env) {dm_account env 0} w"
  obtains all org_a org_b where
    "st_fetch_after (pii_store_ops (sealed_store c order)) 0 10000 [WithAllTenants] w = Inr all"
    "st_fetch_after (tenant_scoped (dm_org_a env) (pii_store_ops (sealed_store c order))) 0 10000 [] w = Inr org_a"
    "st_fetch_after (tenant_scoped (dm_org_b env) (pii_store_ops (sealed_store c order))) 0 10000 [] w = Inr org_b"
    "check_counts org_a org_b all = Inr 3"
proof -
  note n = demo_counts [OF env au] and ok = audit_stateD(1) [OF au]
  have all: "visible_log [WithAllTenants] (pw_store w) = ms_all (pw_store w)" by (simp add: resolve_store_config_def visible_def)
  have few: "length (ms_all (pw_store w)) < 2 ^ 64" "length (visible_log [WithAllTenants] (pw_store w)) \<le> 10000"
    "length (visible_log [WithTenant (dm_org_a env)] (pw_store w)) \<le> 10000"
    "length (visible_log [WithTenant (dm_org_b env)] (pw_store w)) \<le> 10000" unfolding all n by simp_all
  note r = report_all [OF ok few(1)]
  let ?open = "map (opened (sealed_store c order) (pw_keys w))" and ?s = "pw_store w"
  have "check_counts (?open (visible_log [WithTenant (dm_org_a env)] ?s)) (?open (visible_log [WithTenant (dm_org_b env)] ?s))
      (?open (visible_log [WithAllTenants] ?s)) = Inr 3" unfolding check_counts_def length_map all n by simp
  with that r [OF few(2)] r [OF few(3)] r [OF few(4)] show thesis by (simp add: ts_fetch_after_def with_tenant_def)
qed

text \<open>Everything that \<^verbatim>\<open>main\<close> checks.\<close>

lemma demo_audit_passes:
  assumes env: "env_ok env" and "ranges order" and au: "audit_state c order ks0 env (demo_accounts env) {dm_account env 0} w"
    and ledger: "mem_ledger_inv c (pw_ledger w)" "pw_ledger w = [r]" "sr_pii_id r = dm_account env 0"
    and final: "\<forall>acc \<in> set (demo_accounts env). \<exists>a. finals (as_id acc) = Some a
      \<and> agg_version a = of_nat (want_raw_count (as_id acc \<in> {dm_account env 0}))"
    and books: "books_ready c order ks0 env finals w books"
    and cd: "\<And>u. parse (dc_uuid cd u) = Some u" "times_render cd env w"
  shows "demo_audit c order cd parse env books w = Inr 154"
proof -
  let ?accs = "demo_accounts env" and ?p = "dm_account env 0" and ?st = "pii_store_ops (sealed_store c order)"
  obtain w3 where w3: "rotate_kek c order w = Inr w3" "demo_state c order ks0 ?accs {fact_key env} {?p} w3"
    "pw_store w3 = pw_store w" "pw_ledger w3 = pw_ledger w"
    using kek_rotated [OF audit_stateD(2) [OF au] assms(2)] by blast
  note au3 = audit_state_same [OF au w3(2,3)]
  have ledger3: "mem_ledger_inv c (pw_ledger w3)" using ledger(1) w3(4) by simp
  have first: "?accs ! 0 \<in> set ?accs" "as_id (?accs ! 0) \<in> {?p}" "\<exists>r \<in> set (pw_ledger w3). sr_pii_id r = as_id (?accs ! 0)"
    using first_account(2,3) ledger(2,3) w3(4) by simp_all
  from erasure_proved [OF au3 first(1,2) ledger3 first(3)] obtain pr where
    pr: "verify_erasure c order w3 ?p = (Some pr, None)" "check_proof pr = Inr 3" using first_account(3) by auto
  have "distinct (map (dm_account env) [0..<6])" using env by (simp add: env_ok_def)
  from this [unfolded distinct_conv_nth, rule_format, of 0 1] have "?p \<noteq> dm_account env 1" by simp
  then have never: "check_never_erased (verify_erasure c order w3 (dm_account env 1)) = Inr 1"
    using ledger(2,3) w3(4) by (intro never_erased_fails [OF ledger3]) simp
  obtain b where b: "rebuild_book c order (dm_org_a env) w3 = Inr b"
    "\<forall>acc \<in> set ?accs. as_org acc = dm_org_a env \<longrightarrow> check_rebuilt b ?p acc = Inr 2"
    using rebuilt_passes [OF au3] by blast
  obtain all org_a org_b where rep: "st_fetch_after ?st 0 10000 [WithAllTenants] w3 = Inr all"
    "st_fetch_after (tenant_scoped (dm_org_a env) ?st) 0 10000 [] w3 = Inr org_a"
    "st_fetch_after (tenant_scoped (dm_org_b env) ?st) 0 10000 [] w3 = Inr org_b"
    "check_counts org_a org_b all = Inr 3" by (rule reports_ok [OF env au3])
  have raw: "mem_load ?p (account_opts (?accs ! 0)) (pw_store w3) = Inr (account_stream w3 (?accs ! 0))"
    using audit_stateD(4) [OF au3 first(1)] first_account(3)
    by (auto simp: account_done_def mem_load_def resolve_store_config_def Let_def want_raw_count_def split: if_splits)
  have fact: "check_fact ?st env w3 = Inr 2" using env by (intro check_fact_passes [OF au3]) (simp_all add: env_ok_def)
  have books3: "books_ready c order ks0 env finals w3 books" using books w3(3) by (simp add: books_ready_def)
  have times3: "times_render cd env w3" using cd(2) w3(3) by (simp add: times_render_def)
  have accounts: "check_account c order cd parse env books ?p w3 acc = Inr (19 + want_raw_count (as_id acc = ?p))" if "acc \<in> set ?accs" for acc
    by (rule check_account_passes [OF au3 that env books3 bspec [OF final that] cd(1) times3])
  let ?checks = "map (check_account c order cd parse env books ?p w3) ?accs
      @ map (check_rebuilt b ?p) (filter (\<lambda>acc. as_org acc = dm_org_a env) ?accs)
      @ [check_proof pr, check_never_erased (verify_erasure c order w3 (dm_account env 1)), check_fact ?st env w3, check_counts org_a org_b all]"
  have "list_all2 (\<lambda>x n. x = Inr n) ?checks (map (\<lambda>acc. 19 + want_raw_count (as_id acc = ?p)) ?accs
      @ map (\<lambda>acc. 2) (filter (\<lambda>acc. as_org acc = dm_org_a env) ?accs) @ [3, 1, 2, 3])"
    using accounts b(2) pr(2) never fact rep(4)
    by (intro list_all2_appendI) (auto simp: list_all2_map1 list_all2_map2 list_all2_same)
  note all_of_pass [OF this]
  moreover have "demo_audit c order cd parse env books w = all_of ?checks"
    using w3(1) pr(1) b(1) rep(1-3) raw by (simp add: demo_audit_def Let_def first_account first_account(4) [unfolded One_nat_def] del: all_of.simps)
  moreover have "(\<Sum>acc\<leftarrow>?accs. 19 + want_raw_count (as_id acc = ?p)) + 2 * length (filter (\<lambda>acc. as_org acc = dm_org_a env) ?accs) = 145"
  proof -
    have "(\<Sum>acc\<leftarrow>?accs. 19 + want_raw_count (as_id acc = ?p))
        = (\<Sum>(t, n)\<leftarrow>map (\<lambda>acc. (as_org acc, want_raw_count (as_id acc \<in> {?p}))) ?accs. 19 + n)" by (simp add: comp_def)
    moreover have "length (filter (\<lambda>acc. as_org acc = dm_org_a env) ?accs) = 3" using env by (auto simp: demo_accounts_def env_ok_def)
    ultimately show ?thesis unfolding demo_wants [OF env] by simp
  qed
  ultimately show ?thesis by (simp add: sum_list_triv)
qed

section \<open>The program\<close>

text \<open>A worker that has dispatched the whole log it sees, with the keys of this moment, is ready.\<close>

lemma logged_openable:
  assumes "world_ok c order w" "x \<in> set (ms_all (pw_store w))"
  shows "openable (sealed_store c order) (pw_keys w) x \<and> x \<in> set (ms_by_aggregate (pw_store w) (aggregate_key x))"
proof -
  have "mem_keyed (pw_store w)" using world_okD(2) [OF assms(1)] by (simp add: mem_inv_def)
  then have "x \<in> set (ms_by_aggregate (pw_store w) (aggregate_key x))" using assms(2) by (simp add: keyed_stream)
  with world_okD(5) [OF assms(1)] show ?thesis by blast
qed

lemma delivered_now:
  assumes au: "audit_state c order ks0 env accs er w" and x: "x \<in> set (ms_all (pw_store w))"
  shows "delivered c order ks0 x (opened (sealed_store c order) (pw_keys w) x)"
proof -
  note ok = audit_stateD(1) [OF au]
  note mem = logged_openable [OF ok x]
  have "mem_wr_abs (pw_keys w) p = None \<or> mem_wr_abs (pw_keys w) p = ks0 p" if p: "ev_pii_id x = Some p" for p
  proof -
    obtain acc where acc: "acc \<in> set accs" "p = as_id acc"
      by (rule stream_subject [OF audit_stateD(2,8) [OF au] conjunct2 [OF mem] p])
    from audit_stateD(4) [OF au acc(1)] show ?thesis
      by (cases "as_id acc \<in> er") (auto simp: account_done_def acc(2))
  qed
  with openable_opened [OF conjunct1 [OF mem]] world_okD(3) [OF ok] show ?thesis by (auto simp: delivered_def)
qed

lemma books_ready_exist:
  assumes env: "env_ok env" and au: "audit_state c order ks0 env (demo_accounts env) er w"
    and final: "\<forall>acc \<in> set (demo_accounts env). \<exists>a. finals (as_id acc) = Some a
      \<and> agg_version a = of_nat (want_raw_count (as_id acc \<in> er))"
  shows "\<exists>books. books_ready c order ks0 env finals w books"
proof -
  let ?cf = "sealed_store c order"
  let ?ds = "\<lambda>org. map (opened ?cf (pw_keys w)) (visible_log [WithTenant org] (pw_store w))"
  note ok = audit_stateD(1) [OF au]
  have ready: "read_model_ready finals acc (snd (org_worker (?ds (as_org acc))))" if acc: "acc \<in> set (demo_accounts env)" for acc
  proof -
    note d = audit_stateD(4) [OF au acc]
    obtain a where a: "load_from_history account_ops account_apply account_events (opened_stream c order w acc) (set_id (as_id acc) new_account) = (None, a)"
      "agg_version a = of_nat (want_raw_count (as_id acc \<in> er))" by (rule account_done_opened [OF d ok])
    obtain b n where run: "org_worker (?ds (as_org acc)) = (b, n)" by force
    obtain ch n' where sub: "notifier_subscribe (as_id acc) (agg_version a) n = (ch, n')" by force
    have "filter (\<lambda>e. ev_aggregate_id e = as_id acc) (?ds (as_org acc))
        = map (opened ?cf (pw_keys w)) (filter (\<lambda>e. ev_aggregate_id e = as_id acc) (visible_log [WithTenant (as_org acc)] (pw_store w)))"
      unfolding filter_map comp_def
      by (intro arg_cong [where f = "map _"] filter_cong refl) (auto elim: opened_frame [OF conjunct1 [OF logged_openable [OF ok]]])
    then have mine: "filter (\<lambda>e. ev_aggregate_id e = as_id acc) (?ds (as_org acc)) = opened_stream c order w acc"
      using tenant_stream [OF au acc] by simp
    have "filter (\<lambda>e. ev_aggregate_id e = as_id acc) (?ds (as_org acc)) \<noteq> []"
      unfolding mine using d by (auto simp: account_done_def want_raw_count_def split: if_splits)
    from org_worker_caught_up [OF a(1) [folded mine] this run sub] have "ch \<in> nt_closed n'" by blast
    with run sub a(2) bspec [OF final acc] show ?thesis by (auto simp: read_model_ready_def)
  qed
  have "books_ready c order ks0 env finals w (\<lambda>org. fst (org_worker (?ds org)))"
    unfolding books_ready_def
  proof
    fix org
    have "list_all2 (delivered c order ks0) (visible_log [WithTenant org] (pw_store w)) (?ds org)"
      using delivered_now [OF au] by (auto simp: list_all2_map2 list_all2_same)
    moreover have "org_worker (?ds org) = (fst (org_worker (?ds org)), snd (org_worker (?ds org)))" by simp
    moreover have "\<forall>acc \<in> set (demo_accounts env). as_org acc = org \<longrightarrow> read_model_ready finals acc (snd (org_worker (?ds org)))"
      using ready by blast
    ultimately show "\<exists>xs ys ds n. xs @ ys = visible_log [WithTenant org] (pw_store w) \<and> list_all2 (delivered c order ks0) xs ds
        \<and> org_worker ds = (fst (org_worker (?ds org)), n)
        \<and> (\<forall>acc \<in> set (demo_accounts env). as_org acc = org \<longrightarrow> read_model_ready finals acc n)"
      by (metis append_Nil2)
  qed
  then show ?thesis by blast
qed

text \<open>
  C4. The ledger demo, from its composition root to its last line: whatever the interleaving of the six
  accounts' goroutines, once they are done the shared fact, the erasure of the first holder and the loads
  that follow succeed; and when the organizations' workers have answered for every account, the rotation,
  the erasure proof and the reports succeed and all of the 154 checks that follow hold: balances, names,
  tenant isolation, ciphertext at rest, gapless versions, the subject files and their documents, live and
  rebuilt statements, the proof of the erasure, and the counts.
\<close>

theorem demo_checks_pass:
  fixes order :: "uuid list \<Rightarrow> uuid list" and teller eid :: "uuid \<Rightarrow> uuid" and system :: uuid
  assumes "crypto_ok c" "ranges order" "env_ok env" "demo_root c q clk = Inr w0"
    and "(demo_step (pii_store_ops (sealed_store c order)) (demo_txs (teller_by_org env) (dm_system env) (dm_interest env))
      (demo_accounts env))\<^sup>*\<^sup>* (demo_start (demo_accounts env) w0) (ps, w)"
    and "\<nexists>s. demo_step (pii_store_ops (sealed_store c order)) (demo_txs (teller_by_org env) (dm_system env) (dm_interest env))
      (demo_accounts env) (ps, w) s"
  shows "\<exists>w1 finals. demo_writes c order env w = Inr (w1, finals)
    \<and> (\<exists>books. books_ready c order (mem_wr_abs (pw_keys w)) env finals w1 books)
    \<and> (\<forall>books cd parse. books_ready c order (mem_wr_abs (pw_keys w)) env finals w1 books
         \<and> (\<forall>u. parse (dc_uuid cd u) = Some u) \<and> times_render cd env w1
         \<longrightarrow> demo_audit c order cd parse env books w1 = Inr 154)"
proof -
  note a = demo_accounts_ok [OF assms(3)]
  note fx = demo_fixtures_ok [OF a(1,2), of "teller_by_org env" "dm_system env" "dm_interest env"]
  have "demo_inv c order (demo_txs (teller_by_org env) (dm_system env) (dm_interest env)) (demo_accounts env)
      (demo_start (demo_accounts env) w0)" using demo_root_inv [OF assms(1)] assms(4) by (metis sum.inject(2))
  from demo_writes_ok [OF assms(3) demo_inv_steps [OF assms(5) fx this] assms(6)] obtain w1 finals r where
    w1: "demo_writes c order env w = Inr (w1, finals)"
    "audit_state c order (mem_wr_abs (pw_keys w)) env (demo_accounts env) {dm_account env 0} w1"
    "mem_ledger_inv c (pw_ledger w1)" "pw_ledger w1 = [r]" "sr_pii_id r = dm_account env 0"
    "\<forall>acc \<in> set (demo_accounts env). \<exists>a. finals (as_id acc) = Some a
       \<and> agg_version a = of_nat (want_raw_count (as_id acc \<in> {dm_account env 0}))" .
  from w1(1) books_ready_exist [OF assms(3) w1(2,6)] demo_audit_passes [OF assms(3,2) w1(2-6)] show ?thesis by blast
qed

definition sample_env :: demo_env where
  "sample_env = \<lparr>dm_org_a = 100, dm_org_b = 101, dm_account = (\<lambda>n. of_nat (n + 1)), dm_teller_a = 110, dm_teller_b = 111,
     dm_system = 112, dm_interest = (\<lambda>i. i + 200), dm_fact_event = 120, dm_fact_aggregate = 121, dm_fact_time = 5,
     dm_admin = 113, dm_erasure_event = 122, dm_erasure_time = 6, dm_export_time = (\<lambda>_. 7)\<rparr>"

theorem demo_checks_pass_witness:
  "\<exists>w w1 finals books. demo_writes toy_crypto id sample_env w = Inr (w1, finals)
    \<and> demo_audit toy_crypto id sample_codec (\<lambda>s. Some (of_nat (length s))) sample_env books w1 = Inr 154"
proof -
  let ?txs = "demo_txs (teller_by_org sample_env) (dm_system sample_env) (dm_interest sample_env)"
  let ?step = "demo_step (pii_store_ops (sealed_store toy_crypto id)) ?txs (demo_accounts sample_env)"
  have env: "env_ok sample_env" unfolding env_ok_def demo_account_ids [symmetric]
    by (simp add: demo_accounts_def sample_env_def global_tenant_id_def)
  from demo_root_inv [OF toy_crypto_ok, of "\<lambda>_. 0" "\<lambda>_. 0" id ?txs "demo_accounts sample_env"] obtain w0
    where w0: "demo_root toy_crypto (\<lambda>_. 0) (\<lambda>_. 0) = Inr w0"
      "demo_inv toy_crypto id ?txs (demo_accounts sample_env) (demo_start (demo_accounts sample_env) w0)" by blast
  from demo_run_stops [OF demo_fixtures_ok [OF demo_accounts_ok(1,2) [OF env]] w0(2)] obtain ps w
    where run: "?step\<^sup>*\<^sup>* (demo_start (demo_accounts sample_env) w0) (ps, w)" "\<nexists>s. ?step (ps, w) s" by (metis surj_pair)
  from demo_checks_pass [OF toy_crypto_ok ranges_id env w0(1) run] obtain w1 finals books where
    w1: "demo_writes toy_crypto id sample_env w = Inr (w1, finals)"
    "books_ready toy_crypto id (mem_wr_abs (pw_keys w)) sample_env finals w1 books"
    "\<forall>cd parse. (\<forall>u. parse (dc_uuid cd u) = Some u) \<and> times_render cd sample_env w1
       \<longrightarrow> demo_audit toy_crypto id cd parse sample_env books w1 = Inr 154" by blast
  have "times_render sample_codec sample_env w1" by (simp add: times_render_def sample_codec_def)
  with w1(3) [rule_format, of "\<lambda>s. Some (of_nat (length s))" sample_codec]
  have "demo_audit toy_crypto id sample_codec (\<lambda>s. Some (of_nat (length s))) sample_env books w1 = Inr 154"
    by (simp add: sample_codec_def)
  with w1(1) show ?thesis by blast
qed

end
