(* ===== verification/Pg_Sql.thy ===== *)
theory Pg_Sql
  imports Es_Event "HOL-Library.Monad_Syntax"
begin

text \<open>
  The statements of \<^verbatim>\<open>es/pgstore/eventstore.go\<close> and the rows they carry. The code builds a statement
  as text next to a slice of arguments; here it is a value of \<open>pg_stmt\<close>, whose text is \<open>stmt_text\<close>,
  next to a list of \<open>pg_value\<close>. The theory shows that the two stay in step, and that a row written by
  the insert is read back by the scan.
\<close>

section \<open>Values and statements\<close>

datatype pg_value =
    VNull
  | VUuid uuid
  | VU64 u64
  | VInt int
  | VText string
  | VJson raw
  | VBytes bytes
  | VTime time
  | VBool bool

text \<open>A condition names a column and the positions of its arguments.\<close>

datatype pg_cond = CEq string nat | CGt string nat | CIn string nat nat

record select_stmt =
  sl_columns :: "string list"
  sl_conds :: "pg_cond list"
  sl_order :: string
  sl_limit :: "nat option"

datatype pg_stmt =
    SelectEvents select_stmt
  | SelectVersion "pg_cond list"
  | InsertEvent "string list"
  | SetTenant
  | ClearTenant
  | LockAggregate
  | SelectCheckpoint
  | UpsertCheckpoint
  | SelectKey
  | UpsertKey
  | DeleteKey
  | ListKeys
  | LockShreds
  | SelectLastShred
  | InsertShred
  | ListShreds
  | TryAdvisoryLock
  | AdvisoryUnlock
  | Ddl string

text \<open>\<^verbatim>\<open>strconv.Itoa\<close> of a natural number, and \<^verbatim>\<open>placeholder\<close>.\<close>

fun itoa :: "nat \<Rightarrow> string" where
  "itoa n = (if n < 10 then [''0123456789'' ! n] else itoa (n div 10) @ [''0123456789'' ! (n mod 10)])"

definition pg_placeholder :: "nat \<Rightarrow> string" where
  "pg_placeholder n = ''$'' @ itoa n"

text \<open>\<^verbatim>\<open>strings.Join\<close>\<close>

fun join_strings :: "string \<Rightarrow> string list \<Rightarrow> string" where
  "join_strings sep [] = []"
| "join_strings sep [s] = s"
| "join_strings sep (s # t # ss) = s @ sep @ join_strings sep (t # ss)"

fun cond_text :: "pg_cond \<Rightarrow> string" where
  "cond_text (CEq c n) = c @ '' = '' @ pg_placeholder n"
| "cond_text (CGt c n) = c @ '' > '' @ pg_placeholder n"
| "cond_text (CIn c n m) = c @ '' IN ('' @ pg_placeholder n @ '', '' @ pg_placeholder m @ '')''"

text \<open>The text of the statements that the code puts together from pieces.\<close>

fun stmt_text :: "pg_stmt \<Rightarrow> string" where
  "stmt_text (SelectEvents q) =
     ''SELECT '' @ join_strings '', '' (sl_columns q) @ '' FROM events WHERE ''
       @ join_strings '' AND '' (map cond_text (sl_conds q)) @ '' ORDER BY '' @ sl_order q @ '' ASC''
       @ (case sl_limit q of None \<Rightarrow> [] | Some n \<Rightarrow> '' LIMIT '' @ pg_placeholder n)"
| "stmt_text (SelectVersion cs) =
     ''SELECT COALESCE(MAX(aggregate_version), 0) FROM events WHERE '' @ join_strings '' AND '' (map cond_text cs)"
| "stmt_text (InsertEvent cols) =
     ''INSERT INTO events ('' @ join_strings '', '' cols @ '') VALUES (''
       @ join_strings '', '' (map pg_placeholder [1..<Suc (length cols)]) @ '') RETURNING global_id''"
| "stmt_text SetTenant = ''SELECT set_config('' @ [CHR 0x27] @ ''app.tenant_id'' @ [CHR 0x27] @ '', $1, true)''"
| "stmt_text ClearTenant = ''SELECT set_config('' @ [CHR 0x27] @ ''app.tenant_id'' @ [CHR 0x27] @ '', ''
       @ [CHR 0x27, CHR 0x27] @ '', true)''"
| "stmt_text LockAggregate = ''SELECT pg_advisory_xact_lock(hashtext($1))''"
| "stmt_text SelectCheckpoint = ''SELECT last_global_id FROM checkpoints WHERE name = $1''"
| "stmt_text SelectKey = ''SELECT key FROM pii_keys WHERE pii_id = $1''"
| "stmt_text DeleteKey = ''DELETE FROM pii_keys WHERE pii_id = $1''"
| "stmt_text ListKeys = ''SELECT pii_id FROM pii_keys''"
| "stmt_text SelectLastShred = ''SELECT hash FROM pii_shreds ORDER BY id DESC LIMIT 1''"
| "stmt_text LockShreds = ''SELECT pg_advisory_xact_lock(hashtext('' @ [CHR 0x27] @ ''pii_shreds'' @ [CHR 0x27] @ ''))''"
| "stmt_text TryAdvisoryLock = ''SELECT pg_try_advisory_lock(hashtext($1))''"
| "stmt_text AdvisoryUnlock = ''SELECT pg_advisory_unlock(hashtext($1))''"
| "stmt_text UpsertCheckpoint = ''INSERT INTO checkpoints (name, last_global_id) VALUES ($1, $2) ON CONFLICT (name) DO UPDATE SET last_global_id = EXCLUDED.last_global_id''"
| "stmt_text UpsertKey = ''INSERT INTO pii_keys (pii_id, key) VALUES ($1, $2) ON CONFLICT (pii_id) DO UPDATE SET key = EXCLUDED.key''"
| "stmt_text InsertShred = ''INSERT INTO pii_shreds (pii_id, erased_at, origin_global_id, prev_hash, hash) VALUES ($1, $2, $3, $4, $5)''"
| "stmt_text ListShreds = ''SELECT pii_id, erased_at, origin_global_id, prev_hash, hash FROM pii_shreds ORDER BY id ASC''"
| "stmt_text (Ddl s) = s"

text \<open>The positions a statement refers to, in the order they are written.\<close>

fun cond_params :: "pg_cond \<Rightarrow> nat list" where
  "cond_params (CEq c n) = [n]"
| "cond_params (CGt c n) = [n]"
| "cond_params (CIn c n m) = [n, m]"

fun stmt_params :: "pg_stmt \<Rightarrow> nat list" where
  "stmt_params (SelectEvents q) =
     concat (map cond_params (sl_conds q)) @ (case sl_limit q of None \<Rightarrow> [] | Some n \<Rightarrow> [n])"
| "stmt_params (SelectVersion cs) = concat (map cond_params cs)"
| "stmt_params (InsertEvent cols) = [1..<Suc (length cols)]"
| "stmt_params SetTenant = [1]"
| "stmt_params LockAggregate = [1]"
| "stmt_params SelectCheckpoint = [1]"
| "stmt_params UpsertCheckpoint = [1, 2]"
| "stmt_params SelectKey = [1]"
| "stmt_params UpsertKey = [1, 2]"
| "stmt_params DeleteKey = [1]"
| "stmt_params InsertShred = [1, 2, 3, 4, 5]"
| "stmt_params TryAdvisoryLock = [1]"
| "stmt_params AdvisoryUnlock = [1]"
| "stmt_params _ = []"

section \<open>The store and its columns\<close>

record pg_store =
  pg_actor_tracking :: bool
  pg_pii_tracking :: bool

datatype pg_option = WithActorTracking | WithPiiTracking

fun apply_pg_option :: "pg_option \<Rightarrow> pg_store \<Rightarrow> pg_store" where
  "apply_pg_option WithActorTracking s = s\<lparr>pg_actor_tracking := True\<rparr>"
| "apply_pg_option WithPiiTracking s = s\<lparr>pg_pii_tracking := True\<rparr>"

definition pg_new :: "pg_option list \<Rightarrow> pg_store" where
  "pg_new opts = fold apply_pg_option opts \<lparr>pg_actor_tracking = False, pg_pii_tracking = False\<rparr>"

definition pg_columns :: "pg_store \<Rightarrow> string list" where
  "pg_columns st =
     [''global_id'', ''id'', ''tenant_id'', ''aggregate_id'', ''aggregate_version'', ''version'', ''name'',
      ''payload'', ''metadata'']
     @ (if pg_actor_tracking st then [''actor_id'', ''actor_type''] else [])
     @ (if pg_pii_tracking st then [''pii_id'', ''pii_fields''] else [])
     @ [''occurred_at'']"

definition pg_insert_columns :: "pg_store \<Rightarrow> string list" where
  "pg_insert_columns st =
     [''id'', ''tenant_id'', ''aggregate_id'', ''aggregate_version'', ''version'', ''name'', ''payload'', ''metadata'']
     @ (if pg_actor_tracking st then [''actor_id'', ''actor_type''] else [])
     @ (if pg_pii_tracking st then [''pii_id'', ''pii_fields''] else [])
     @ [''occurred_at'']"

fun null_raw_message :: "raw \<Rightarrow> pg_value" where
  "null_raw_message RawNil = VNull"
| "null_raw_message r = VJson r"

definition null_uuid :: "uuid option \<Rightarrow> pg_value" where
  "null_uuid u = (case u of None \<Rightarrow> VNull | Some i \<Rightarrow> VUuid i)"

definition null_string :: "string option \<Rightarrow> pg_value" where
  "null_string s = (case s of None \<Rightarrow> VNull | Some t \<Rightarrow> VText t)"

definition pg_insert_values :: "pg_store \<Rightarrow> domain_event \<Rightarrow> pg_value list" where
  "pg_insert_values st e =
     [VUuid (ev_id e), VUuid (ev_tenant_id e), VUuid (ev_aggregate_id e), VU64 (ev_aggregate_version e),
      VInt (ev_version e), VText (ev_name e), VJson (ev_payload e), null_raw_message (ev_metadata e)]
     @ (if pg_actor_tracking st then [null_uuid (ev_actor_id e), null_string (ev_actor_type e)] else [])
     @ (if pg_pii_tracking st then [null_uuid (ev_pii_id e), null_raw_message (ev_pii_fields e)] else [])
     @ [VTime (ev_occurred_at e)]"

section \<open>The queries\<close>

text \<open>Every read that is scoped to a tenant also sees the global one.\<close>

definition scope_reads :: "store_config \<Rightarrow> pg_cond list \<times> pg_value list \<Rightarrow> pg_cond list \<times> pg_value list" where
  "scope_reads cfg q =
     (case q of (conds, args) \<Rightarrow>
      case cfg_tenant_id cfg of
        None \<Rightarrow> (conds, args)
      | Some t \<Rightarrow> (conds @ [CIn ''tenant_id'' (length args + 1) (length args + 2)],
                   args @ [VUuid t, VUuid global_tenant_id]))"

definition pg_load_query :: "pg_store \<Rightarrow> uuid \<Rightarrow> store_option list \<Rightarrow> pg_stmt \<times> pg_value list" where
  "pg_load_query st i opts =
     (let (conds, args) = scope_reads (resolve_store_config opts) ([CEq ''aggregate_id'' 1], [VUuid i])
      in (SelectEvents \<lparr>sl_columns = pg_columns st, sl_conds = conds, sl_order = ''aggregate_version'',
            sl_limit = None\<rparr>, args))"

definition pg_fetch_query :: "pg_store \<Rightarrow> u64 \<Rightarrow> int \<Rightarrow> store_option list \<Rightarrow> pg_stmt \<times> pg_value list" where
  "pg_fetch_query st last_id limit opts =
     (let (conds, args0) = scope_reads (resolve_store_config opts) ([CGt ''global_id'' 1], [VU64 last_id]);
          args = args0 @ [VInt limit]
      in (SelectEvents \<lparr>sl_columns = pg_columns st, sl_conds = conds, sl_order = ''global_id'',
            sl_limit = Some (length args)\<rparr>, args))"

definition pg_pii_query :: "pg_store \<Rightarrow> uuid \<Rightarrow> store_option list \<Rightarrow> pg_stmt \<times> pg_value list" where
  "pg_pii_query st p opts =
     (let (conds, args) = scope_reads (resolve_store_config opts) ([CEq ''pii_id'' 1], [VUuid p])
      in (SelectEvents \<lparr>sl_columns = pg_columns st, sl_conds = conds, sl_order = ''global_id'',
            sl_limit = None\<rparr>, args))"

definition pg_version_query :: "store_config \<Rightarrow> uuid \<Rightarrow> pg_stmt \<times> pg_value list" where
  "pg_version_query cfg i =
     (let conds = [CEq ''aggregate_id'' 1]; args = [VUuid i]
      in case cfg_tenant_id cfg of
           None \<Rightarrow> (SelectVersion conds, args)
         | Some t \<Rightarrow> (SelectVersion (conds @ [CEq ''tenant_id'' (length args + 1)]), args @ [VUuid t]))"

definition pg_insert_query :: "pg_store \<Rightarrow> domain_event \<Rightarrow> pg_stmt \<times> pg_value list" where
  "pg_insert_query st e = (InsertEvent (pg_insert_columns st), pg_insert_values st e)"

definition in_step :: "pg_stmt \<times> pg_value list \<Rightarrow> bool" where
  "in_step qa \<longleftrightarrow> stmt_params (fst qa) = [1..<Suc (length (snd qa))]"

lemma upt_small: "[1..<Suc 1] = [1]" "[1..<Suc 2] = [1, 2]" "[1..<Suc 3] = [1, 2, 3]" "[1..<Suc 4] = [1, 2, 3, 4]"
  by (simp_all add: upt_rec)

lemma read_queries_in_step:
  "in_step (pg_load_query st i opts)" "in_step (pg_fetch_query st g limit opts)"
  "in_step (pg_pii_query st i opts)" "in_step (pg_version_query (resolve_store_config opts) i)"
  by (cases "cfg_tenant_id (resolve_store_config opts)";
      simp add: in_step_def pg_load_query_def pg_fetch_query_def pg_pii_query_def pg_version_query_def scope_reads_def
        eval_nat_numeral)+

lemma length_pg_insert: "length (pg_insert_columns st) = length (pg_insert_values st e)"
  by (simp add: pg_insert_columns_def pg_insert_values_def)

lemma insert_query_in_step: "in_step (pg_insert_query st e)"
  by (simp only: in_step_def pg_insert_query_def fst_conv snd_conv stmt_params.simps length_pg_insert [of st e])

lemma pg_columns_insert: "pg_columns st = ''global_id'' # pg_insert_columns st"
  by (simp add: pg_columns_def pg_insert_columns_def)

text \<open>
  Statements and arguments stay in step, for every combination of options of the store and of the
  call: the placeholders of each query the store builds are \<^verbatim>\<open>$1\<close>, \<^verbatim>\<open>$2\<close>, ... up to the number of its
  arguments, each once; the insert names as many columns as it has values, and a select reads the
  global id and then those columns, in that order.
\<close>

lemma placeholders_in_step:
  "in_step (pg_load_query st i opts) \<and> in_step (pg_fetch_query st g limit opts) \<and> in_step (pg_pii_query st i opts)
   \<and> in_step (pg_version_query (resolve_store_config opts) i) \<and> in_step (pg_insert_query st e)
   \<and> length (pg_insert_columns st) = length (pg_insert_values st e)
   \<and> pg_columns st = ''global_id'' # pg_insert_columns st"
  using read_queries_in_step insert_query_in_step length_pg_insert pg_columns_insert by simp

text \<open>Two of the texts, as a check of the rendering.\<close>

lemma load_query_text:
  "stmt_text (fst (pg_load_query (pg_new []) i [WithTenant t])) =
     ''SELECT global_id, id, tenant_id, aggregate_id, aggregate_version, version, name, payload, metadata, ''
     @ ''occurred_at FROM events WHERE aggregate_id = $1 AND tenant_id IN ($2, $3) ORDER BY aggregate_version ASC''"
  by (simp add: pg_load_query_def scope_reads_def pg_new_def pg_columns_def pg_placeholder_def)

lemma insert_query_text:
  "stmt_text (fst (pg_insert_query (pg_new [WithPiiTracking]) e)) =
     ''INSERT INTO events (id, tenant_id, aggregate_id, aggregate_version, version, name, payload, metadata, ''
     @ ''pii_id, pii_fields, occurred_at) VALUES ($1, $2, $3, $4, $5, $6, $7, $8, $9, $10, $11) RETURNING global_id''"
  by (simp add: pg_insert_query_def pg_new_def pg_insert_columns_def pg_placeholder_def upt_rec)

section \<open>Rows\<close>

type_synonym pg_row = "string \<Rightarrow> pg_value"

text \<open>
  The row an insert leaves: the database gives the global id and rounds a time to its own resolution;
  a column that is not named is null. (\<^verbatim>\<open>JSONB\<close> keeps a document as a value, as the model does; it may
  respell a number that is no integer, which the model does not follow.)
\<close>

fun stored_value :: "(time \<Rightarrow> time) \<Rightarrow> pg_value \<Rightarrow> pg_value" where
  "stored_value rnd (VTime t) = VTime (rnd t)"
| "stored_value rnd v = v"

definition inserted_row :: "(time \<Rightarrow> time) \<Rightarrow> string list \<Rightarrow> pg_value list \<Rightarrow> u64 \<Rightarrow> pg_row" where
  "inserted_row rnd cols vals g c =
     (if c = ''global_id'' then VU64 g
      else case map_of (zip cols vals) c of None \<Rightarrow> VNull | Some v \<Rightarrow> stored_value rnd v)"

text \<open>What \<^verbatim>\<open>Scan\<close> accepts for a destination of each type.\<close>

fun as_u64 :: "pg_value \<Rightarrow> u64 option" where
  "as_u64 (VU64 n) = Some n"
| "as_u64 _ = None"

fun as_uuid :: "pg_value \<Rightarrow> uuid option" where
  "as_uuid (VUuid u) = Some u"
| "as_uuid _ = None"

fun as_int :: "pg_value \<Rightarrow> int option" where
  "as_int (VInt i) = Some i"
| "as_int _ = None"

fun as_text :: "pg_value \<Rightarrow> string option" where
  "as_text (VText t) = Some t"
| "as_text _ = None"

fun as_time :: "pg_value \<Rightarrow> time option" where
  "as_time (VTime t) = Some t"
| "as_time _ = None"

fun as_raw :: "pg_value \<Rightarrow> raw option" where
  "as_raw VNull = Some RawNil"
| "as_raw (VJson r) = Some r"
| "as_raw _ = None"

fun as_null_uuid :: "pg_value \<Rightarrow> uuid option option" where
  "as_null_uuid VNull = Some None"
| "as_null_uuid v = map_option Some (as_uuid v)"

fun as_null_text :: "pg_value \<Rightarrow> string option option" where
  "as_null_text VNull = Some None"
| "as_null_text v = map_option Some (as_text v)"

definition scan_row :: "pg_store \<Rightarrow> pg_value list \<Rightarrow> domain_event option" where
  "scan_row st vals =
     (if length vals \<noteq> 10 + (if pg_actor_tracking st then 2 else 0) + (if pg_pii_tracking st then 2 else 0) then None
      else do {
        g \<leftarrow> as_u64 (vals ! 0);
        i \<leftarrow> as_uuid (vals ! 1);
        t \<leftarrow> as_uuid (vals ! 2);
        a \<leftarrow> as_uuid (vals ! 3);
        av \<leftarrow> as_u64 (vals ! 4);
        v \<leftarrow> as_int (vals ! 5);
        n \<leftarrow> as_text (vals ! 6);
        p \<leftarrow> as_raw (vals ! 7);
        md \<leftarrow> as_raw (vals ! 8);
        let rest = drop 9 vals;
        (aid, aty) \<leftarrow> (if pg_actor_tracking st
          then do { x \<leftarrow> as_null_uuid (rest ! 0); y \<leftarrow> as_null_text (rest ! 1); Some (x, y) } else Some (None, None));
        let rest = (if pg_actor_tracking st then drop 2 rest else rest);
        (pid, pf) \<leftarrow> (if pg_pii_tracking st
          then do { x \<leftarrow> as_null_uuid (rest ! 0); y \<leftarrow> as_raw (rest ! 1); Some (x, y) } else Some (None, RawNil));
        let rest = (if pg_pii_tracking st then drop 2 rest else rest);
        oa \<leftarrow> as_time (rest ! 0);
        Some (zero_event\<lparr>ev_global_id := g, ev_id := i, ev_tenant_id := t, ev_aggregate_id := a,
          ev_aggregate_version := av, ev_version := v, ev_name := n, ev_payload := p, ev_metadata := md,
          ev_actor_id := aid, ev_actor_type := aty, ev_pii_id := pid, ev_pii_fields := pf, ev_occurred_at := oa\<rparr>)
      })"

definition scan_event :: "pg_store \<Rightarrow> pg_value list \<Rightarrow> error + domain_event" where
  "scan_event st vals =
     (case scan_row st vals of
        None \<Rightarrow> Inl (ErrWrap ''pgstore: scan event'' (ErrText ''sql: Scan error''))
      | Some e \<Rightarrow> Inr e)"

text \<open>The fields a store without the tracking options refuses to drop silently.\<close>

definition actor_tracked :: "pg_store \<Rightarrow> domain_event \<Rightarrow> bool" where
  "actor_tracked st e \<longleftrightarrow> pg_actor_tracking st \<or> \<not> (ev_actor_id e \<noteq> None \<or> ev_actor_type e \<noteq> None)"

definition pii_tracked :: "pg_store \<Rightarrow> domain_event \<Rightarrow> bool" where
  "pii_tracked st e \<longleftrightarrow> pg_pii_tracking st \<or> \<not> (ev_pii_id e \<noteq> None \<or> raw_present (ev_pii_fields e))"

text \<open>An event as the table keeps it: with its global id, its time rounded, and no mark of its own.\<close>

definition stored_event :: "(time \<Rightarrow> time) \<Rightarrow> u64 \<Rightarrow> domain_event \<Rightarrow> domain_event" where
  "stored_event rnd g e = e\<lparr>ev_global_id := g, ev_occurred_at := rnd (ev_occurred_at e), ev_pii_unrecoverable := False\<rparr>"

definition event_row :: "(time \<Rightarrow> time) \<Rightarrow> pg_store \<Rightarrow> u64 \<Rightarrow> domain_event \<Rightarrow> pg_row" where
  "event_row rnd st g e = inserted_row rnd (pg_insert_columns st) (pg_insert_values st e) g"

lemma as_null_simps [simp]:
  "as_raw (null_raw_message r) = Some r" "as_null_uuid (null_uuid u) = Some u" "as_null_text (null_string t) = Some t"
  by (cases r; simp) (auto simp: null_uuid_def null_string_def split: option.split)

lemma stored_null [simp]:
  "stored_value rnd (null_raw_message r) = null_raw_message r" "stored_value rnd (null_uuid u) = null_uuid u"
  "stored_value rnd (null_string t) = null_string t"
  by (cases r; simp) (auto simp: null_uuid_def null_string_def split: option.split)

lemma row_columns:
  "map (event_row rnd st g e) (pg_columns st) = VU64 g # map (stored_value rnd) (pg_insert_values st e)"
  by (cases "pg_actor_tracking st"; cases "pg_pii_tracking st")
    (simp_all add: event_row_def inserted_row_def pg_columns_def pg_insert_columns_def pg_insert_values_def)

lemma scan_stored:
  assumes "actor_tracked st e" "pii_tracked st e"
  shows "scan_event st (map (event_row rnd st g e) (pg_columns st)) = Inr (stored_event rnd g e)"
  unfolding row_columns using assms
  by (cases "pg_actor_tracking st"; cases "pg_pii_tracking st")
    (auto simp: scan_event_def scan_row_def pg_insert_values_def stored_event_def zero_event_def
      actor_tracked_def pii_tracked_def raw_present_def)

end
