(* ===== verification/Pg_Store.thy ===== *)
theory Pg_Store
  imports Pg_Sql Event_Feed "HOL-Library.Multiset"
begin

text \<open>
  The operations of \<^verbatim>\<open>pgstore.Store\<close> over a database that is a parameter: the record \<open>pg_db\<close> holds the
  calls of \<^verbatim>\<open>database/sql\<close> the code makes, and \<open>pg_behaves\<close> states what the code relies on of Postgres,
  by way of a \<open>view\<close> of the database: the committed rows of the table \<^verbatim>\<open>events\<close> and those a
  transaction has inserted. Any call may fail.
\<close>

section \<open>The database\<close>

text \<open>
  \<open>db_query\<close> gives the rows and what \<^verbatim>\<open>rows.Err()\<close> says after the last; a query for one row that has none
  fails with \<open>ErrNoRows\<close>. The transaction a call has open is part of the state \<open>'d\<close>.
\<close>

record 'd pg_db =
  db_exec :: "pg_stmt \<Rightarrow> pg_value list \<Rightarrow> 'd \<Rightarrow> error option \<times> 'd"
  db_query :: "pg_stmt \<Rightarrow> pg_value list \<Rightarrow> 'd \<Rightarrow> error + pg_value list list \<times> error option"
  db_query_row :: "pg_stmt \<Rightarrow> pg_value list \<Rightarrow> 'd \<Rightarrow> error + pg_value list"
  db_begin :: "'d \<Rightarrow> error option \<times> 'd"
  tx_exec :: "pg_stmt \<Rightarrow> pg_value list \<Rightarrow> 'd \<Rightarrow> error option \<times> 'd"
  tx_query_row :: "pg_stmt \<Rightarrow> pg_value list \<Rightarrow> 'd \<Rightarrow> (error + pg_value list) \<times> 'd"
  tx_commit :: "'d \<Rightarrow> error option \<times> 'd"
  tx_rollback :: "'d \<Rightarrow> error option \<times> 'd"

section \<open>Commit\<close>

text \<open>The deferred rollback: \<^verbatim>\<open>ErrTxDone\<close> is expected, any other failure is folded into the result.\<close>

definition close_tx :: "'d pg_db \<Rightarrow> string \<Rightarrow> error option \<Rightarrow> 'd \<Rightarrow> error option \<times> 'd" where
  "close_tx db msg err d =
     (case tx_rollback db d of
        (None, d') \<Rightarrow> (err, d')
      | (Some rb, d') \<Rightarrow>
          if errors_is rb ErrTxDone then (err, d')
          else (case err of
                  Some e \<Rightarrow> (Some (ErrWrap ''additionally, rollback failed'' e), d')
                | None \<Rightarrow> (Some (ErrWrap msg rb), d')))"

fun pg_insert_loop :: "pg_store \<Rightarrow> 'd pg_db \<Rightarrow> domain_event list \<Rightarrow> 'd \<Rightarrow>
    error option \<times> domain_event list \<times> 'd" where
  "pg_insert_loop st db [] d = (None, [], d)"
| "pg_insert_loop st db (e # es) d =
     (let (q, args) = pg_insert_query st e
      in case tx_query_row db q args d of
           (Inl err, d1) \<Rightarrow> (Some (ErrWrap ''pgstore: insert event'' err), e # es, d1)
         | (Inr vals, d1) \<Rightarrow>
             (case (if length vals = 1 then as_u64 (vals ! 0) else None) of
                None \<Rightarrow> (Some (ErrWrap ''pgstore: insert event'' (ErrText ''sql: Scan error'')), e # es, d1)
              | Some g \<Rightarrow>
                  (case pg_insert_loop st db es d1 of
                     (r, es', d2) \<Rightarrow> (r, e\<lparr>ev_global_id := g\<rparr> # es', d2))))"

definition pg_set_tenant :: "'d pg_db \<Rightarrow> store_config \<Rightarrow> 'd \<Rightarrow> error option \<times> 'd" where
  "pg_set_tenant db cfg d =
     (case cfg_tenant_id cfg of
        Some t \<Rightarrow>
          (case tx_exec db SetTenant [VUuid t] d of
             (Some err, d') \<Rightarrow> (Some (ErrWrap ''pgstore: set tenant context'' err), d')
           | (None, d') \<Rightarrow> (None, d'))
      | None \<Rightarrow>
          if cfg_all_tenants cfg
          then (case tx_exec db ClearTenant [] d of
                  (Some err, d') \<Rightarrow> (Some (ErrWrap ''pgstore: clear tenant context'' err), d')
                | (None, d') \<Rightarrow> (None, d'))
          else (None, d))"

definition pg_read_version :: "'d pg_db \<Rightarrow> store_config \<Rightarrow> uuid \<Rightarrow> 'd \<Rightarrow> (error + u64) \<times> 'd" where
  "pg_read_version db cfg i d =
     (let (q, args) = pg_version_query cfg i
      in case tx_query_row db q args d of
           (Inl err, d') \<Rightarrow> (Inl (ErrWrap ''pgstore: read current version'' err), d')
         | (Inr vals, d') \<Rightarrow>
             (case (if length vals = 1 then as_u64 (vals ! 0) else None) of
                None \<Rightarrow> (Inl (ErrWrap ''pgstore: read current version'' (ErrText ''sql: Scan error'')), d')
              | Some v \<Rightarrow> (Inr v, d')))"

text \<open>What runs between \<^verbatim>\<open>BeginTx\<close> and the deferred function.\<close>

definition pg_commit_body :: "pg_store \<Rightarrow> 'd pg_db \<Rightarrow> store_config \<Rightarrow> uuid \<Rightarrow> domain_event list \<Rightarrow> u64 \<Rightarrow> 'd \<Rightarrow>
    error option \<times> domain_event list \<times> 'd" where
  "pg_commit_body st db cfg i es expected d =
     (case pg_set_tenant db cfg d of
        (Some err, d1) \<Rightarrow> (Some err, es, d1)
      | (None, d1) \<Rightarrow>
     (case tx_exec db LockAggregate [VUuid i] d1 of
        (Some err, d2) \<Rightarrow> (Some (ErrWrap ''pgstore: advisory lock'' err), es, d2)
      | (None, d2) \<Rightarrow>
     (case pg_read_version db cfg i d2 of
        (Inl err, d3) \<Rightarrow> (Some err, es, d3)
      | (Inr current, d3) \<Rightarrow>
          if current \<noteq> expected then (Some ErrConcurrencyConflict, es, d3)
          else (case pg_insert_loop st db es d3 of
                  (Some err, es', d4) \<Rightarrow> (Some err, es', d4)
                | (None, es', d4) \<Rightarrow>
                    (case tx_commit db d4 of
                       (Some err, d5) \<Rightarrow> (Some (ErrWrap ''pgstore: commit tx'' err), es', d5)
                     | (None, d5) \<Rightarrow> (None, es', d5))))))"

definition pg_commit :: "pg_store \<Rightarrow> 'd pg_db \<Rightarrow> domain_event list \<Rightarrow> u64 \<Rightarrow> store_option list \<Rightarrow> 'd \<Rightarrow>
    error option \<times> domain_event list \<times> 'd" where
  "pg_commit st db es expected opts d =
     (if es = [] then (None, es, d)
      else
        let i = ev_aggregate_id (hd es); cfg = resolve_store_config opts; es1 = map (stamp_tenant cfg) es
        in if \<not> list_all (actor_tracked st) es1
           then (Some (ErrText ''pgstore: event carries an actor but this Store was not built with WithActorTracking''), es1, d)
           else if \<not> list_all (pii_tracked st) es1
           then (Some (ErrText ''pgstore: event carries a PiiID but this Store was not built with WithPiiTracking''), es1, d)
           else case db_begin db d of
                  (Some err, d1) \<Rightarrow> (Some (ErrWrap ''pgstore: begin tx'' err), es1, d1)
                | (None, d1) \<Rightarrow>
                    (case pg_commit_body st db cfg i es1 expected d1 of
                       (r, es2, d2) \<Rightarrow>
                         (case close_tx db ''pgstore: rollback'' r d2 of (r', d3) \<Rightarrow> (r', es2, d3))))"

section \<open>Reads\<close>

fun scan_events :: "pg_store \<Rightarrow> pg_value list list \<Rightarrow> error + domain_event list" where
  "scan_events st [] = Inr []"
| "scan_events st (vals # rows) =
     (case scan_event st vals of
        Inl err \<Rightarrow> Inl err
      | Inr e \<Rightarrow> map_sum id (\<lambda>es. e # es) (scan_events st rows))"

text \<open>\<^verbatim>\<open>scanEvents\<close> with the query before it: the rows are scanned before \<^verbatim>\<open>rows.Err()\<close> is asked.\<close>

definition pg_select :: "pg_store \<Rightarrow> 'd pg_db \<Rightarrow> string \<Rightarrow> pg_stmt \<times> pg_value list \<Rightarrow> 'd \<Rightarrow> error + domain_event list" where
  "pg_select st db msg qa d =
     (case db_query db (fst qa) (snd qa) d of
        Inl err \<Rightarrow> Inl (ErrWrap msg err)
      | Inr (rows, rows_err) \<Rightarrow>
          (case scan_events st rows of
             Inl err \<Rightarrow> Inl err
           | Inr es \<Rightarrow> (case rows_err of Some err \<Rightarrow> Inl err | None \<Rightarrow> Inr es)))"

definition pg_load :: "pg_store \<Rightarrow> 'd pg_db \<Rightarrow> uuid \<Rightarrow> store_option list \<Rightarrow> 'd \<Rightarrow> error + domain_event list" where
  "pg_load st db i opts d =
     (case pg_select st db ''pgstore: load'' (pg_load_query st i opts) d of
        Inl err \<Rightarrow> Inl err
      | Inr es \<Rightarrow> if es = [] then Inl ErrAggregateNotFound else Inr es)"

definition pg_fetch_after :: "pg_store \<Rightarrow> 'd pg_db \<Rightarrow> u64 \<Rightarrow> int \<Rightarrow> store_option list \<Rightarrow> 'd \<Rightarrow>
    error + domain_event list" where
  "pg_fetch_after st db last_id limit opts d =
     pg_select st db ''pgstore: fetch after'' (pg_fetch_query st last_id limit opts) d"

definition pg_fetch_by_pii_id :: "pg_store \<Rightarrow> 'd pg_db \<Rightarrow> uuid \<Rightarrow> store_option list \<Rightarrow> 'd \<Rightarrow>
    error + domain_event list" where
  "pg_fetch_by_pii_id st db p opts d =
     (if \<not> pg_pii_tracking st
      then Inl (ErrText ''pgstore: FetchByPiiID needs the Store to be built with WithPiiTracking'')
      else case pg_select st db ''pgstore: fetch by pii id'' (pg_pii_query st p opts) d of
             Inl err \<Rightarrow> Inl err
           | Inr es \<Rightarrow> if es = [] then Inl ErrSubjectNotFound else Inr es)"

text \<open>The checkpoints.\<close>

definition pg_get_checkpoint :: "'d pg_db \<Rightarrow> string \<Rightarrow> 'd \<Rightarrow> error + u64" where
  "pg_get_checkpoint db name d =
     (case db_query_row db SelectCheckpoint [VText name] d of
        Inl err \<Rightarrow> if errors_is err ErrNoRows then Inr 0 else Inl (ErrWrap ''pgstore: get checkpoint'' err)
      | Inr vals \<Rightarrow>
          (case (if length vals = 1 then as_u64 (vals ! 0) else None) of
             None \<Rightarrow> Inl (ErrWrap ''pgstore: get checkpoint'' (ErrText ''sql: Scan error''))
           | Some v \<Rightarrow> Inr v))"

definition pg_save_checkpoint :: "'d pg_db \<Rightarrow> string \<Rightarrow> u64 \<Rightarrow> 'd \<Rightarrow> error option \<times> 'd" where
  "pg_save_checkpoint db name last_id d =
     (case db_exec db UpsertCheckpoint [VText name, VU64 last_id] d of
        (Some err, d') \<Rightarrow> (Some (ErrWrap ''pgstore: save checkpoint'' err), d')
      | (None, d') \<Rightarrow> (None, d'))"

section \<open>What is relied on of Postgres\<close>

record pg_view =
  pv_events :: "pg_row list"
  pv_pending :: "pg_row list option"

fun row_holds :: "pg_value list \<Rightarrow> pg_row \<Rightarrow> pg_cond \<Rightarrow> bool" where
  "row_holds args r (CEq c n) \<longleftrightarrow> r c = args ! (n - 1)"
| "row_holds args r (CGt c n) \<longleftrightarrow>
     (case (as_u64 (r c), as_u64 (args ! (n - 1))) of (Some x, Some y) \<Rightarrow> y < x | _ \<Rightarrow> False)"
| "row_holds args r (CIn c n m) \<longleftrightarrow> r c \<in> {args ! (n - 1), args ! (m - 1)}"

definition matching :: "pg_cond list \<Rightarrow> pg_value list \<Rightarrow> pg_row list \<Rightarrow> pg_row list" where
  "matching cs args rows = filter (\<lambda>r. list_all (row_holds args r) cs) rows"

definition col_u64 :: "string \<Rightarrow> pg_row \<Rightarrow> u64" where
  "col_u64 c r = (case as_u64 (r c) of None \<Rightarrow> 0 | Some n \<Rightarrow> n)"

text \<open>\<^verbatim>\<open>COALESCE(MAX(aggregate_version), 0)\<close>\<close>

definition max_version :: "pg_row list \<Rightarrow> u64" where
  "max_version rows = fold max (map (col_u64 ''aggregate_version'') rows) 0"

text \<open>A transaction starts with nothing inserted; a failed start leaves none.\<close>

definition begin_ok :: "'d pg_db \<Rightarrow> ('d \<Rightarrow> pg_view) \<Rightarrow> bool" where
  "begin_ok db view \<longleftrightarrow> (\<forall>d r d'. db_begin db d = (r, d') \<longrightarrow>
     view d' = \<lparr>pv_events = pv_events (view d), pv_pending = (if r = None then Some [] else None)\<rparr>)"

text \<open>The session variable and the advisory lock change no row.\<close>

definition exec_ok :: "'d pg_db \<Rightarrow> ('d \<Rightarrow> pg_view) \<Rightarrow> bool" where
  "exec_ok db view \<longleftrightarrow> (\<forall>s args d. s \<in> {SetTenant, ClearTenant, LockAggregate} \<longrightarrow>
     view (snd (tx_exec db s args d)) = view d)"

definition version_ok :: "'d pg_db \<Rightarrow> ('d \<Rightarrow> pg_view) \<Rightarrow> bool" where
  "version_ok db view \<longleftrightarrow> (\<forall>cs args d p r d'. pv_pending (view d) = Some p \<longrightarrow>
     tx_query_row db (SelectVersion cs) args d = (r, d') \<longrightarrow>
     view d' = view d
     \<and> (\<forall>vals. r = Inr vals \<longrightarrow> vals = [VU64 (max_version (matching cs args (pv_events (view d) @ p)))]))"

text \<open>
  An insert that succeeds gives a global id beyond every one there is (the column is \<^verbatim>\<open>BIGSERIAL\<close>) and
  keeps \<^verbatim>\<open>UNIQUE (aggregate_id, aggregate_version)\<close>; one that fails inserts nothing.
\<close>

definition same_version :: "pg_row \<Rightarrow> pg_row \<Rightarrow> bool" where
  "same_version r q \<longleftrightarrow> r ''aggregate_id'' = q ''aggregate_id'' \<and> r ''aggregate_version'' = q ''aggregate_version''"

definition insert_ok :: "'d pg_db \<Rightarrow> ('d \<Rightarrow> pg_view) \<Rightarrow> (time \<Rightarrow> time) \<Rightarrow> bool" where
  "insert_ok db view rnd \<longleftrightarrow> (\<forall>cols args d p r d'. pv_pending (view d) = Some p \<longrightarrow>
     tx_query_row db (InsertEvent cols) args d = (r, d') \<longrightarrow>
     (\<forall>err. r = Inl err \<longrightarrow> view d' = view d)
     \<and> (\<forall>vals. r = Inr vals \<longrightarrow> (\<exists>g. vals = [VU64 g]
          \<and> view d' = (view d)\<lparr>pv_pending := Some (p @ [inserted_row rnd cols args g])\<rparr>
          \<and> (\<forall>q \<in> set (pv_events (view d) @ p). col_u64 ''global_id'' q < g
               \<and> \<not> same_version q (inserted_row rnd cols args g)))))"

text \<open>A commit that reports an error may have happened all the same; the transaction is over either way.\<close>

definition commit_ok :: "'d pg_db \<Rightarrow> ('d \<Rightarrow> pg_view) \<Rightarrow> bool" where
  "commit_ok db view \<longleftrightarrow> (\<forall>d p r d'. pv_pending (view d) = Some p \<longrightarrow> tx_commit db d = (r, d') \<longrightarrow>
     pv_pending (view d') = None
     \<and> (pv_events (view d') = pv_events (view d) @ p \<or> r \<noteq> None \<and> pv_events (view d') = pv_events (view d)))"

definition rollback_ok :: "'d pg_db \<Rightarrow> ('d \<Rightarrow> pg_view) \<Rightarrow> bool" where
  "rollback_ok db view \<longleftrightarrow> (\<forall>d r d'. tx_rollback db d = (r, d') \<longrightarrow>
     view d' = \<lparr>pv_events = pv_events (view d), pv_pending = None\<rparr>
     \<and> (pv_pending (view d) = None \<longrightarrow> r = Some ErrTxDone))"

text \<open>\<^verbatim>\<open>ORDER BY\<close> sorts by one column and leaves the order of equal rows open.\<close>

definition select_ok :: "'d pg_db \<Rightarrow> ('d \<Rightarrow> pg_view) \<Rightarrow> bool" where
  "select_ok db view \<longleftrightarrow> (\<forall>q args d vals. db_query db (SelectEvents q) args d = Inr (vals, None) \<longrightarrow>
     (\<exists>rs. mset rs = mset (matching (sl_conds q) args (pv_events (view d)))
        \<and> sorted (map (col_u64 (sl_order q)) rs)
        \<and> vals = map (\<lambda>r. map r (sl_columns q))
            (case sl_limit q of None \<Rightarrow> rs
             | Some n \<Rightarrow> take (case as_int (args ! (n - 1)) of None \<Rightarrow> 0 | Some l \<Rightarrow> nat l) rs)))"

definition pg_behaves :: "'d pg_db \<Rightarrow> ('d \<Rightarrow> pg_view) \<Rightarrow> (time \<Rightarrow> time) \<Rightarrow> bool" where
  "pg_behaves db view rnd \<longleftrightarrow> begin_ok db view \<and> exec_ok db view \<and> version_ok db view \<and> insert_ok db view rnd
     \<and> commit_ok db view \<and> rollback_ok db view \<and> select_ok db view"

lemma insert_okD:
  assumes "insert_ok db view rnd" "pv_pending (view d) = Some p"
    and "tx_query_row db (InsertEvent cols) args d = (r, d')"
  shows "r = Inl err \<Longrightarrow> view d' = view d"
    and "r = Inr vals \<Longrightarrow> \<exists>g. vals = [VU64 g]
          \<and> view d' = (view d)\<lparr>pv_pending := Some (p @ [inserted_row rnd cols args g])\<rparr>
          \<and> (\<forall>q \<in> set (pv_events (view d) @ p). col_u64 ''global_id'' q < g
               \<and> \<not> same_version q (inserted_row rnd cols args g))"
  using assms unfolding insert_ok_def by blast+

end
