(* ===== verification/Pg_Commit.thy ===== *)
theory Pg_Commit
  imports Pg_Store
begin

text \<open>
  What a commit to Postgres does to the table, for any database that behaves as \<open>pg_behaves\<close> says: all
  of the events or none, refused on a version mismatch, and never for an aggregate id that another
  tenant already uses.
\<close>

section \<open>The insert loop\<close>

definition rows_of :: "(time \<Rightarrow> time) \<Rightarrow> pg_store \<Rightarrow> domain_event list \<Rightarrow> pg_row list" where
  "rows_of rnd st es = map (\<lambda>e. event_row rnd st (ev_global_id e) e) es"

lemma rows_of_simps [simp]:
  "rows_of rnd st [] = []"
  "rows_of rnd st (e # es) = event_row rnd st (ev_global_id e) e # rows_of rnd st es"
  "rows_of rnd st (es @ fs) = rows_of rnd st es @ rows_of rnd st fs"
  by (simp_all add: rows_of_def)

lemma event_row_renumbered [simp]: "event_row rnd st g (e\<lparr>ev_global_id := h\<rparr>) = event_row rnd st g e"
  by (simp add: event_row_def pg_insert_values_def)

lemma event_row_sel [simp]:
  "event_row rnd st g e ''global_id'' = VU64 g"
  "event_row rnd st g e ''aggregate_id'' = VUuid (ev_aggregate_id e)"
  "event_row rnd st g e ''tenant_id'' = VUuid (ev_tenant_id e)"
  "event_row rnd st g e ''aggregate_version'' = VU64 (ev_aggregate_version e)"
  by (simp_all add: event_row_def inserted_row_def pg_insert_columns_def pg_insert_values_def)

lemma event_row_pii: "pg_pii_tracking st \<Longrightarrow> event_row rnd st g e ''pii_id'' = null_uuid (ev_pii_id e)"
  by (simp add: event_row_def inserted_row_def pg_insert_columns_def pg_insert_values_def)

text \<open>The fields the store writes back to the caller's events are the global ids only.\<close>

definition renumbered :: "domain_event list \<Rightarrow> domain_event list \<Rightarrow> bool" where
  "renumbered es fs \<longleftrightarrow> map (\<lambda>e. e\<lparr>ev_global_id := 0\<rparr>) es = map (\<lambda>e. e\<lparr>ev_global_id := 0\<rparr>) fs"

lemma renumbered_refl [simp]: "renumbered es es"
  by (simp add: renumbered_def)

lemma renumbered_Cons: "renumbered es fs \<Longrightarrow> renumbered (e # es) (e\<lparr>ev_global_id := g\<rparr> # fs)"
  by (simp add: renumbered_def)

lemma pg_insert_loop_view:
  assumes "insert_ok db view rnd" "pv_pending (view d) = Some p"
    and "pg_insert_loop st db es d = (r, es', d')"
  shows "\<exists>fs. view d' = (view d)\<lparr>pv_pending := Some (p @ fs)\<rparr> \<and> renumbered es es'
    \<and> (r = None \<longrightarrow> fs = rows_of rnd st es'
         \<and> sorted_wrt (<) (map ev_global_id es')
         \<and> (\<forall>q \<in> set (pv_events (view d) @ p). \<forall>e \<in> set es'. col_u64 ''global_id'' q < ev_global_id e
              \<and> \<not> same_version q (event_row rnd st (ev_global_id e) e)))"
  using assms(2,3)
proof (induction es arbitrary: d p r es')
  case (Cons e es)
  obtain q args where q: "pg_insert_query st e = (q, args)" by force
  then have qa: "q = InsertEvent (pg_insert_columns st)" "args = pg_insert_values st e"
    by (simp_all add: pg_insert_query_def)
  obtain x d1 where x: "tx_query_row db q args d = (x, d1)" by force
  show ?case
  proof (cases x)
    case (Inl err)
    from insert_okD(1) [OF assms(1) Cons.prems(1) x [unfolded qa(1)] Inl] have "view d1 = view d" .
    with Cons.prems q x Inl show ?thesis by (intro exI [of _ "[]"]) auto
  next
    case (Inr vals)
    from insert_okD(2) [OF assms(1) Cons.prems(1) x [unfolded qa(1)] Inr] obtain g where g: "vals = [VU64 g]"
      "view d1 = (view d)\<lparr>pv_pending := Some (p @ [event_row rnd st g e])\<rparr>"
      "\<forall>q \<in> set (pv_events (view d) @ p). col_u64 ''global_id'' q < g \<and> \<not> same_version q (event_row rnd st g e)"
      unfolding qa(2) event_row_def by blast
    obtain es1 where rest: "pg_insert_loop st db es d1 = (r, es1, d')" "es' = e\<lparr>ev_global_id := g\<rparr> # es1"
      using Cons.prems(2) q x Inr g(1) by (auto split: prod.splits)
    have pend: "pv_pending (view d1) = Some (p @ [event_row rnd st g e])" using g(2) by simp
    from Cons.IH [OF pend rest(1)] g(2) obtain fs where fs:
      "view d' = (view d)\<lparr>pv_pending := Some (p @ event_row rnd st g e # fs)\<rparr>" "renumbered es es1"
      "r = None \<Longrightarrow> fs = rows_of rnd st es1 \<and> sorted_wrt (<) (map ev_global_id es1)
        \<and> (\<forall>q \<in> set (pv_events (view d) @ p @ [event_row rnd st g e]). \<forall>e \<in> set es1.
             col_u64 ''global_id'' q < ev_global_id e \<and> \<not> same_version q (event_row rnd st (ev_global_id e) e))"
      by auto
    have id: "col_u64 ''global_id'' (event_row rnd st g e) = g" by (simp add: col_u64_def)
    show ?thesis
      using fs g(3) id rest(2) renumbered_Cons [OF fs(2), of e g]
      by (intro exI [of _ "event_row rnd st g e # fs"]) auto
  qed
qed simp

section \<open>Commit\<close>

text \<open>The version the commit checks: the highest of the aggregate, within the tenant if there is one.\<close>

definition table_version :: "store_config \<Rightarrow> uuid \<Rightarrow> pg_row list \<Rightarrow> u64" where
  "table_version cfg i rows =
     max_version (filter (\<lambda>r. r ''aggregate_id'' = VUuid i
       \<and> (case cfg_tenant_id cfg of None \<Rightarrow> True | Some t \<Rightarrow> r ''tenant_id'' = VUuid t)) rows)"

lemma pg_read_version_view:
  assumes "version_ok db view" "pv_pending (view d) = Some p" "pg_read_version db cfg i d = (r, d')"
  shows "view d' = view d \<and> (\<forall>v. r = Inr v \<longrightarrow> v = table_version cfg i (pv_events (view d) @ p))"
proof -
  obtain q args where q: "pg_version_query cfg i = (q, args)" by force
  obtain cs where cs: "q = SelectVersion cs"
    and m: "matching cs args rows = filter (\<lambda>r. r ''aggregate_id'' = VUuid i
       \<and> (case cfg_tenant_id cfg of None \<Rightarrow> True | Some t \<Rightarrow> r ''tenant_id'' = VUuid t)) rows" for rows
    using q by (cases "cfg_tenant_id cfg") (auto simp: pg_version_query_def matching_def)
  obtain x d1 where x: "tx_query_row db q args d = (x, d1)" by force
  from assms(1,2) x cs have v: "view d1 = view d"
    and vals: "\<forall>vals. x = Inr vals \<longrightarrow> vals = [VU64 (max_version (matching cs args (pv_events (view d) @ p)))]"
    unfolding version_ok_def by blast+
  show ?thesis
    using assms(3) q x v vals by (cases x) (auto simp: pg_read_version_def table_version_def m)
qed

lemma pg_set_tenant_view:
  "exec_ok db view \<Longrightarrow> pg_set_tenant db cfg d = (r, d') \<Longrightarrow> view d' = view d"
  by (auto simp: pg_set_tenant_def exec_ok_def split: option.splits prod.splits if_splits) (metis snd_conv)+

text \<open>
  The table after a commit that took effect: the events behind what was there, numbered upwards beyond
  every row, none with the id and version of a row there is, on the version that was expected.
\<close>

definition appended :: "(time \<Rightarrow> time) \<Rightarrow> pg_store \<Rightarrow> store_config \<Rightarrow> uuid \<Rightarrow> u64 \<Rightarrow> domain_event list \<Rightarrow>
    pg_row list \<Rightarrow> pg_row list \<Rightarrow> bool" where
  "appended rnd st cfg i v es rows rows' \<longleftrightarrow> rows' = rows @ rows_of rnd st es \<and> table_version cfg i rows = v
     \<and> sorted_wrt (<) (map ev_global_id es)
     \<and> (\<forall>q \<in> set rows. \<forall>e \<in> set es. col_u64 ''global_id'' q < ev_global_id e
          \<and> \<not> same_version q (event_row rnd st (ev_global_id e) e))"

text \<open>The transaction before the deferred function runs.\<close>

lemma pg_commit_body_view:
  assumes ok: "pg_behaves db view rnd" and "pv_pending (view d) = Some []"
    and "pg_commit_body st db cfg i es v d = (r, es', d')"
  shows "renumbered es es'
    \<and> (pv_events (view d') = pv_events (view d)
       \<or> pv_pending (view d') = None \<and> appended rnd st cfg i v es' (pv_events (view d)) (pv_events (view d')))
    \<and> (r = None \<longrightarrow> pv_pending (view d') = None
         \<and> appended rnd st cfg i v es' (pv_events (view d)) (pv_events (view d')))"
proof -
  from ok have ok': "exec_ok db view" "version_ok db view" "insert_ok db view rnd" "commit_ok db view"
    by (simp_all add: pg_behaves_def)
  obtain r1 d1 where s1: "pg_set_tenant db cfg d = (r1, d1)" by force
  obtain r2 d2 where s2: "tx_exec db LockAggregate [VUuid i] d1 = (r2, d2)" by force
  obtain r3 d3 where s3: "pg_read_version db cfg i d2 = (r3, d3)" by force
  obtain r4 es4 d4 where s4: "pg_insert_loop st db es d3 = (r4, es4, d4)" by (metis prod_cases3)
  obtain r5 d5 where s5: "tx_commit db d4 = (r5, d5)" by force
  note body = assms(3) [unfolded pg_commit_body_def s1 prod.case]
  have v1: "view d1 = view d" using pg_set_tenant_view [OF ok'(1) s1] .
  have v2: "view d2 = view d" using ok'(1) s2 v1 unfolding exec_ok_def by (metis insertCI snd_conv)
  with assms(2) have p2: "pv_pending (view d2) = Some []" by simp
  from pg_read_version_view [OF ok'(2) p2 s3] have v3: "view d3 = view d"
    and cur: "\<forall>x. r3 = Inr x \<longrightarrow> x = table_version cfg i (pv_events (view d))" by (simp_all add: v2)
  with assms(2) have p3: "pv_pending (view d3) = Some []" by simp
  from pg_insert_loop_view [OF ok'(3) p3 s4] v3 obtain fs where
    v4: "view d4 = (view d)\<lparr>pv_pending := Some fs\<rparr>" "renumbered es es4"
      "r4 = None \<longrightarrow> fs = rows_of rnd st es4 \<and> sorted_wrt (<) (map ev_global_id es4)
         \<and> (\<forall>q \<in> set (pv_events (view d)). \<forall>e \<in> set es4. col_u64 ''global_id'' q < ev_global_id e
              \<and> \<not> same_version q (event_row rnd st (ev_global_id e) e))" by auto
  have p4: "pv_pending (view d4) = Some fs" using v4(1) by simp
  from ok'(4) p4 s5 have v5: "pv_pending (view d5) = None"
    "pv_events (view d5) = pv_events (view d) @ fs \<or> r5 \<noteq> None \<and> pv_events (view d5) = pv_events (view d)"
    unfolding commit_ok_def using v4(1) by fastforce+
  consider (early) "\<exists>err. r = Some err" "es' = es" "view d' = view d"
    | (insert) err where "r3 = Inr v" "r4 = Some err" "r = Some err" "es' = es4" "d' = d4"
    | (commit) "r3 = Inr v" "r4 = None" "es' = es4" "d' = d5" "r = None \<longleftrightarrow> r5 = None"
    using body s2 s3 s4 s5 v1 v2 v3
    by (auto simp: s1 split: option.splits sum.splits prod.splits if_splits)
  then show ?thesis
  proof cases
    case early
    then show ?thesis by auto
  next
    case insert
    with v4 cur show ?thesis by auto
  next
    case commit
    with v4 v5 cur show ?thesis by (auto simp: appended_def)
  qed
qed

lemma close_tx_view:
  assumes "rollback_ok db view" "close_tx db msg r d = (r', d')"
  shows "pv_events (view d') = pv_events (view d) \<and> (r' = None \<longrightarrow> r = None)
    \<and> (pv_pending (view d) = None \<longrightarrow> r' = r)"
proof -
  obtain x d1 where x: "tx_rollback db d = (x, d1)" by force
  with assms(1) have "pv_events (view d1) = pv_events (view d)" "pv_pending (view d) = None \<longrightarrow> x = Some ErrTxDone"
    unfolding rollback_ok_def by (metis pg_view.select_convs(1), metis)
  with assms(2) x show ?thesis by (auto simp: close_tx_def split: option.splits if_splits)
qed

lemma pg_commit_view:
  assumes ok: "pg_behaves db view rnd" and "es \<noteq> []" "pg_commit st db es v opts d = (r, es', d')"
  defines "cfg \<equiv> resolve_store_config opts" and "i \<equiv> ev_aggregate_id (hd es)"
  shows "renumbered (map (stamp_tenant cfg) es) es'
    \<and> (pv_events (view d') = pv_events (view d) \<or> appended rnd st cfg i v es' (pv_events (view d)) (pv_events (view d')))
    \<and> (r = None \<longrightarrow> appended rnd st cfg i v es' (pv_events (view d)) (pv_events (view d')))"
proof -
  let ?es = "map (stamp_tenant cfg) es"
  from ok have ok': "begin_ok db view" "rollback_ok db view" by (simp_all add: pg_behaves_def)
  note c = assms(3) [unfolded pg_commit_def Let_def, folded cfg_def i_def]
  show ?thesis
  proof (cases "list_all (actor_tracked st) ?es \<and> list_all (pii_tracked st) ?es")
    case False
    with c assms(2) show ?thesis by (auto split: if_splits)
  next
    case True
    obtain r1 d1 where s1: "db_begin db d = (r1, d1)" by force
    obtain r2 es2 d2 where s2: "pg_commit_body st db cfg i ?es v d1 = (r2, es2, d2)" by (metis prod_cases3)
    obtain r3 d3 where s3: "close_tx db ''pgstore: rollback'' r2 d2 = (r3, d3)" by force
    from ok'(1) s1 have v1: "view d1 = \<lparr>pv_events = pv_events (view d), pv_pending = (if r1 = None then Some [] else None)\<rparr>"
      unfolding begin_ok_def by blast
    show ?thesis
    proof (cases r1)
      case (Some err)
      with True c s1 assms(2) v1 show ?thesis by auto
    next
      case None
      then have "pv_pending (view d1) = Some []" using v1 by simp
      note body = pg_commit_body_view [OF ok this s2]
      have "r = r3" "es' = es2" "d' = d3" using True c s1 s2 s3 None assms(2) by auto
      with body close_tx_view [OF ok'(2) s3] v1 show ?thesis by auto
    qed
  qed
qed

text \<open>
  C20. A commit to Postgres is all or nothing, and optimistic: whatever call to the database fails and
  wherever, the table is afterwards the old one or the old one with all of the events behind it,
  and the latter only if the version that was expected was the highest of the aggregate; a commit
  that reports success did append.
\<close>

theorem pg_commit_all_or_nothing:
  assumes "pg_behaves db view rnd" "es \<noteq> []" "pg_commit st db es v opts d = (r, es', d')"
  defines "cfg \<equiv> resolve_store_config opts" and "i \<equiv> ev_aggregate_id (hd es)"
  shows "(pv_events (view d') = pv_events (view d) \<or> pv_events (view d') = pv_events (view d) @ rows_of rnd st es')
    \<and> (table_version cfg i (pv_events (view d)) \<noteq> v \<longrightarrow> r \<noteq> None \<and> pv_events (view d') = pv_events (view d))
    \<and> (r = None \<longrightarrow> pv_events (view d') = pv_events (view d) @ rows_of rnd st es' \<and> length es' = length es)"
proof -
  have "length es' = length es" if "renumbered (map (stamp_tenant cfg) es) es'"
    using that by (auto simp: renumbered_def dest: map_eq_imp_length_eq)
  with pg_commit_view [OF assms(1-3)] show ?thesis unfolding appended_def cfg_def i_def by auto
qed

lemma renumbered_in:
  assumes "renumbered es fs" "e \<in> set es"
  shows "\<exists>f \<in> set fs. f\<lparr>ev_global_id := 0\<rparr> = e\<lparr>ev_global_id := 0\<rparr>"
proof -
  have "e\<lparr>ev_global_id := 0\<rparr> \<in> set (map (\<lambda>e. e\<lparr>ev_global_id := 0\<rparr>) fs)"
    using assms unfolding renumbered_def by (metis image_eqI list.set_map)
  then show ?thesis by auto
qed

text \<open>
  The index \<^verbatim>\<open>UNIQUE (aggregate_id, aggregate_version)\<close> leaves the tenant out: while the table holds a row
  of an id and version, of whatever tenant, a commit of an event with them fails and appends nothing.
\<close>

lemma id_and_version_taken:
  assumes "pg_behaves db view rnd" "pg_commit st db es v opts d = (r, es', d')"
    and "q \<in> set (pv_events (view d))" "e \<in> set es"
    and "q ''aggregate_id'' = VUuid (ev_aggregate_id e)" "q ''aggregate_version'' = VU64 (ev_aggregate_version e)"
  shows "r \<noteq> None \<and> pv_events (view d') = pv_events (view d)"
proof -
  let ?cfg = "resolve_store_config opts"
  have "es \<noteq> []" using assms(4) by auto
  note c = pg_commit_view [OF assms(1) this assms(2)]
  have "\<not> appended rnd st ?cfg (ev_aggregate_id (hd es)) v es' (pv_events (view d)) (pv_events (view d'))"
  proof
    assume a: "appended rnd st ?cfg (ev_aggregate_id (hd es)) v es' (pv_events (view d)) (pv_events (view d'))"
    have "stamp_tenant ?cfg e \<in> set (map (stamp_tenant ?cfg) es)" using assms(4) by simp
    from renumbered_in [OF _ this] c obtain f where f: "f \<in> set es'"
      "f\<lparr>ev_global_id := 0\<rparr> = (stamp_tenant ?cfg e)\<lparr>ev_global_id := 0\<rparr>" by blast
    from arg_cong [OF f(2), of ev_aggregate_id] arg_cong [OF f(2), of ev_aggregate_version]
    have "ev_aggregate_id f = ev_aggregate_id e" "ev_aggregate_version f = ev_aggregate_version e" by simp_all
    with assms(5,6) have "same_version q (event_row rnd st (ev_global_id f) f)" by (simp add: same_version_def)
    with a assms(3) f(1) show False unfolding appended_def by blast
  qed
  with c show ?thesis by blast
qed

lemma table_version_none:
  assumes "cfg_tenant_id cfg = Some t" "\<forall>q \<in> set rows. q ''aggregate_id'' = VUuid i \<longrightarrow> q ''tenant_id'' \<noteq> VUuid t"
  shows "table_version cfg i rows = 0"
proof -
  have "filter (\<lambda>r. r ''aggregate_id'' = VUuid i \<and> r ''tenant_id'' = VUuid t) rows = []"
    using assms(2) by (auto simp: filter_empty_conv)
  then show ?thesis by (simp add: table_version_def assms(1) max_version_def)
qed

text \<open>
  C31. An aggregate id belongs to the tenant that used it first. Say the table holds version 1 of the id,
  of another tenant, and no row of the id for the tenant \<open>t\<close>. Then a commit under \<open>t\<close> of events of that
  id, numbered on from the expected version as \<^verbatim>\<open>Repository.Save\<close> numbers them, fails and appends
  nothing, whatever version is expected: a new aggregate passes the version check and then meets the
  unique index. (A caller that numbers its events in another way, from 2 where it expects 0, does get
  through, as in the repository's own test; the in-memory store keys its streams by tenant and
  accepts both.)
\<close>

theorem first_tenant_owns_id:
  assumes "pg_behaves db view rnd" "pg_commit st db es v opts d = (r, es', d')"
    and first: "q \<in> set (pv_events (view d))" "q ''aggregate_id'' = VUuid i" "q ''aggregate_version'' = VU64 1"
    and second: "cfg_tenant_id (resolve_store_config opts) = Some t"
      "\<forall>q \<in> set (pv_events (view d)). q ''aggregate_id'' = VUuid i \<longrightarrow> q ''tenant_id'' \<noteq> VUuid t"
    and batch: "es \<noteq> []" "\<forall>e \<in> set es. ev_aggregate_id e = i" "ev_aggregate_version (hd es) = v + 1"
  shows "r \<noteq> None \<and> pv_events (view d') = pv_events (view d)"
proof (cases "v = 0")
  case True
  then show ?thesis
    using id_and_version_taken [OF assms(1,2) first(1), of "hd es"] first(2,3) batch by simp
next
  case False
  then have "\<not> appended rnd st (resolve_store_config opts) (ev_aggregate_id (hd es)) v es' (pv_events (view d)) (pv_events (view d'))"
    using table_version_none [OF second] batch(1,2) by (auto simp: appended_def)
  then show ?thesis using pg_commit_view [OF assms(1) batch(1) assms(2)] by blast
qed

section \<open>A database that behaves\<close>

text \<open>A table in memory, to show that the assumptions can be met.\<close>

definition fresh_id :: "pg_row list \<Rightarrow> u64" where
  "fresh_id rows = fold max (map (col_u64 ''global_id'') rows) 0 + 1"

definition sample_insert :: "string list \<Rightarrow> pg_value list \<Rightarrow> pg_view \<Rightarrow> (error + pg_value list) \<times> pg_view" where
  "sample_insert cols args d =
     (case pv_pending d of
        None \<Rightarrow> (Inl ErrTxDone, d)
      | Some p \<Rightarrow>
          let g = fresh_id (pv_events d @ p); row = inserted_row (\<lambda>t. t) cols args g
          in if list_ex (\<lambda>q. \<not> col_u64 ''global_id'' q < g \<or> same_version q row) (pv_events d @ p)
             then (Inl (ErrText ''pq: duplicate key value''), d)
             else (Inr [VU64 g], d\<lparr>pv_pending := Some (p @ [row])\<rparr>))"

definition sample_select :: "select_stmt \<Rightarrow> pg_value list \<Rightarrow> pg_view \<Rightarrow> pg_value list list" where
  "sample_select q args d =
     (let rs = sort_key (col_u64 (sl_order q)) (matching (sl_conds q) args (pv_events d))
      in map (\<lambda>r. map r (sl_columns q))
           (case sl_limit q of None \<Rightarrow> rs
            | Some n \<Rightarrow> take (case as_int (args ! (n - 1)) of None \<Rightarrow> 0 | Some l \<Rightarrow> nat l) rs))"

definition sample_pg :: "pg_view pg_db" where
  "sample_pg = \<lparr>
     db_exec = (\<lambda>s args d. (None, d)),
     db_query = (\<lambda>s args d. case s of SelectEvents q \<Rightarrow> Inr (sample_select q args d, None) | _ \<Rightarrow> Inr ([], None)),
     db_query_row = (\<lambda>s args d. Inl ErrNoRows),
     db_begin = (\<lambda>d. (None, d\<lparr>pv_pending := Some []\<rparr>)),
     tx_exec = (\<lambda>s args d. (None, d)),
     tx_query_row = (\<lambda>s args d. case s of
         SelectVersion cs \<Rightarrow> (case pv_pending d of None \<Rightarrow> (Inl ErrTxDone, d)
           | Some p \<Rightarrow> (Inr [VU64 (max_version (matching cs args (pv_events d @ p)))], d))
       | InsertEvent cols \<Rightarrow> sample_insert cols args d
       | _ \<Rightarrow> (Inl ErrNoRows, d)),
     tx_commit = (\<lambda>d. case pv_pending d of None \<Rightarrow> (Some ErrTxDone, d)
       | Some p \<Rightarrow> (None, \<lparr>pv_events = pv_events d @ p, pv_pending = None\<rparr>)),
     tx_rollback = (\<lambda>d. case pv_pending d of None \<Rightarrow> (Some ErrTxDone, d) | Some p \<Rightarrow> (None, d\<lparr>pv_pending := None\<rparr>))\<rparr>"

lemma sample_pg_sel [simp]:
  "db_begin sample_pg d = (None, d\<lparr>pv_pending := Some []\<rparr>)"
  "tx_exec sample_pg s args d = (None, d)"
  "tx_query_row sample_pg (SelectVersion cs) args d = (case pv_pending d of None \<Rightarrow> (Inl ErrTxDone, d)
     | Some p \<Rightarrow> (Inr [VU64 (max_version (matching cs args (pv_events d @ p)))], d))"
  "tx_query_row sample_pg (InsertEvent cols) args d = sample_insert cols args d"
  "tx_commit sample_pg d = (case pv_pending d of None \<Rightarrow> (Some ErrTxDone, d)
     | Some p \<Rightarrow> (None, \<lparr>pv_events = pv_events d @ p, pv_pending = None\<rparr>))"
  "tx_rollback sample_pg d = (case pv_pending d of None \<Rightarrow> (Some ErrTxDone, d) | Some p \<Rightarrow> (None, d\<lparr>pv_pending := None\<rparr>))"
  "db_query sample_pg (SelectEvents q) args d = Inr (sample_select q args d, None)"
  by (simp_all add: sample_pg_def)

lemma sample_insert_ok: "insert_ok sample_pg (\<lambda>d. d) (\<lambda>t. t)"
  unfolding insert_ok_def sample_pg_sel
  by (auto simp: sample_insert_def Let_def list_ex_iff split: if_splits)

lemma sample_select_ok: "select_ok sample_pg (\<lambda>d. d)"
  unfolding select_ok_def sample_pg_sel sample_select_def Let_def
proof (intro allI impI)
  fix q args vals and d :: pg_view
  let ?rs = "sort_key (col_u64 (sl_order q)) (matching (sl_conds q) args (pv_events d))"
  let ?page = "\<lambda>rs. map (\<lambda>r. map r (sl_columns q)) (case sl_limit q of None \<Rightarrow> rs
    | Some n \<Rightarrow> take (case as_int (args ! (n - 1)) of None \<Rightarrow> 0 | Some l \<Rightarrow> nat l) rs)"
  assume "(Inr (?page ?rs, None) :: error + _) = Inr (vals, None)"
  then show "\<exists>rs. mset rs = mset (matching (sl_conds q) args (pv_events d))
      \<and> sorted (map (col_u64 (sl_order q)) rs) \<and> vals = ?page rs"
    by (intro exI [of _ ?rs]) simp
qed

lemma sample_pg_behaves: "pg_behaves sample_pg (\<lambda>d. d) (\<lambda>t. t)"
  using sample_insert_ok sample_select_ok
  by (auto simp: pg_behaves_def begin_ok_def exec_ok_def version_ok_def commit_ok_def rollback_ok_def
      split: option.splits)

lemma sample_commit_ok:
  "\<exists>es' d'. pg_commit (pg_new []) sample_pg [sample_event 0 7 1] 0 [WithTenant 5]
      \<lparr>pv_events = [], pv_pending = None\<rparr> = (None, es', d')"
  by (simp add: pg_commit_def pg_commit_body_def pg_set_tenant_def pg_read_version_def pg_version_query_def
      pg_insert_query_def sample_insert_def close_tx_def actor_tracked_def pii_tracked_def stamp_tenant_def
      sample_event_def zero_event_def max_version_def matching_def Let_def)

theorem pg_commit_all_or_nothing_witness:
  "\<exists>es' d'. pg_commit (pg_new []) sample_pg [sample_event 0 7 1] 0 [WithTenant 5]
      \<lparr>pv_events = [], pv_pending = None\<rparr> = (None, es', d') \<and> length (pv_events d') = 1"
proof -
  obtain es' d' where c: "pg_commit (pg_new []) sample_pg [sample_event 0 7 1] 0 [WithTenant 5]
      \<lparr>pv_events = [], pv_pending = None\<rparr> = (None, es', d')" using sample_commit_ok by blast
  from pg_commit_all_or_nothing [OF sample_pg_behaves _ c]
  have "pv_events d' = rows_of (\<lambda>t. t) (pg_new []) es'" "length es' = 1" by simp_all
  with c show ?thesis by (auto simp: rows_of_def)
qed

theorem first_tenant_owns_id_witness:
  "\<exists>r es' d d'. length (pv_events d) = 1
    \<and> pg_commit (pg_new []) sample_pg [sample_event 0 7 1] 0 [WithTenant 6] d = (r, es', d')
    \<and> r \<noteq> None \<and> pv_events d' = pv_events d"
proof -
  let ?d = "\<lparr>pv_events = [event_row (\<lambda>t. t) (pg_new []) 1 (sample_event 5 7 1)], pv_pending = None\<rparr>"
  obtain r es' d' where c: "pg_commit (pg_new []) sample_pg [sample_event 0 7 1] 0 [WithTenant 6] ?d = (r, es', d')"
    by (metis prod_cases3)
  let ?q = "event_row (\<lambda>t. t) (pg_new []) 1 (sample_event 5 7 1)"
  have "cfg_tenant_id (resolve_store_config [WithTenant 6]) = Some 6" by simp
  from first_tenant_owns_id [OF sample_pg_behaves c, of ?q 7 6]
  have "r \<noteq> None \<and> pv_events d' = pv_events ?d" by (simp add: sample_event_def)
  with c show ?thesis by (intro exI [of _ r] exI [of _ es'] exI [of _ ?d] exI [of _ d']) simp
qed

text \<open>
  What the repository's test does: the second tenant numbers its first event 2 and expects 0, and the
  commit succeeds.
\<close>

lemma skipped_number_accepted:
  "\<exists>es' d'. pg_commit (pg_new []) sample_pg [sample_event 0 7 2] 0 [WithTenant 6]
      \<lparr>pv_events = [event_row (\<lambda>t. t) (pg_new []) 1 (sample_event 5 7 1)], pv_pending = None\<rparr> = (None, es', d')"
  by (simp add: pg_commit_def pg_commit_body_def pg_set_tenant_def pg_read_version_def pg_version_query_def
      pg_insert_query_def sample_insert_def close_tx_def actor_tracked_def pii_tracked_def stamp_tenant_def
      sample_event_def zero_event_def max_version_def matching_def Let_def same_version_def fresh_id_def col_u64_def
      inserted_row_def pg_insert_columns_def pg_insert_values_def)

end
