(* ===== verification/Pg_Reads.thy ===== *)
theory Pg_Reads
  imports Pg_Commit Es_Store
begin

text \<open>
  The reads of \<^verbatim>\<open>pgstore.Store\<close> against the in-memory store: over the same log they answer the same,
  except for an aggregate id that several tenants share. Then \<^verbatim>\<open>StreamAll\<close>: it delivers the log as
  long as rows become visible in the order of their global ids, and loses a row that does not.
\<close>

section \<open>Selecting from a table that holds a log\<close>

lemma matching_rows_of:
  "matching cs args (rows_of rnd st es) =
     rows_of rnd st (filter (\<lambda>e. list_all (row_holds args (event_row rnd st (ev_global_id e) e)) cs) es)"
  by (induction es) (simp_all add: matching_def)

text \<open>An event that the table keeps as it is: its time has the resolution of the column.\<close>

definition settled :: "(time \<Rightarrow> time) \<Rightarrow> pg_store \<Rightarrow> domain_event \<Rightarrow> bool" where
  "settled rnd st e \<longleftrightarrow> actor_tracked st e \<and> pii_tracked st e \<and> stored_event rnd (ev_global_id e) e = e"

lemma scan_rows_of:
  "list_all (settled rnd st) es \<Longrightarrow>
   scan_events st (map (\<lambda>r. map r (pg_columns st)) (rows_of rnd st es)) = Inr es"
  by (induction es) (simp_all add: scan_stored settled_def)

lemma sorted_rows_unique:
  assumes "mset rs = mset (rows_of rnd st es)" "sorted (map (col_u64 c) rs)"
    and "sorted_wrt (<) (map (col_u64 c) (rows_of rnd st es))"
  shows "rs = rows_of rnd st es"
proof -
  have "distinct (map (col_u64 c) (rows_of rnd st es))"
    using assms(3) by (simp add: strict_sorted_iff)
  then have "inj_on (col_u64 c) (set (rows_of rnd st es))" by (simp add: distinct_map)
  moreover have "sorted (map (col_u64 c) (rows_of rnd st es))"
    using assms(3) by (simp add: strict_sorted_iff)
  ultimately have "sort_key (col_u64 c) (rows_of rnd st es) = rs"
    "sort_key (col_u64 c) (rows_of rnd st es) = rows_of rnd st es"
    using assms(1,2) by (auto intro!: sort_key_inj_key_eq simp del: sort_key_simps)
  then show ?thesis by simp
qed

text \<open>A read that the database answers, of rows that one column orders.\<close>

lemma pg_select_log:
  assumes "select_ok db view" "mset (pv_events (view d)) = mset (rows_of rnd st log)" "list_all (settled rnd st) log"
    and "db_query db (SelectEvents q) args d = Inr (vals, None)" "sl_columns q = pg_columns st"
    and "es = filter (\<lambda>e. list_all (row_holds args (event_row rnd st (ev_global_id e) e)) (sl_conds q)) log"
    and "sorted_wrt (<) (map (col_u64 (sl_order q)) (rows_of rnd st es))"
  shows "pg_select st db msg (SelectEvents q, args) d = Inr (case sl_limit q of None \<Rightarrow> es
      | Some n \<Rightarrow> take (case as_int (args ! (n - 1)) of None \<Rightarrow> 0 | Some l \<Rightarrow> nat l) es)"
proof -
  let ?page = "\<lambda>xs. case sl_limit q of None \<Rightarrow> xs
      | Some n \<Rightarrow> take (case as_int (args ! (n - 1)) of None \<Rightarrow> 0 | Some l \<Rightarrow> nat l) xs"
  from assms(1,4) obtain rs where rs: "mset rs = mset (matching (sl_conds q) args (pv_events (view d)))"
    "sorted (map (col_u64 (sl_order q)) rs)"
    "vals = map (\<lambda>r. map r (sl_columns q)) (case sl_limit q of None \<Rightarrow> rs
        | Some n \<Rightarrow> take (case as_int (args ! (n - 1)) of None \<Rightarrow> 0 | Some l \<Rightarrow> nat l) rs)"
    unfolding select_ok_def by blast
  have m: "mset (matching (sl_conds q) args (pv_events (view d))) = mset (rows_of rnd st es)"
    unfolding assms(6) matching_rows_of [symmetric] by (simp add: matching_def assms(2))
  have "rs = rows_of rnd st es" using sorted_rows_unique [OF rs(1) [unfolded m] rs(2) assms(7)] .
  then have "vals = map (\<lambda>r. map r (pg_columns st)) (rows_of rnd st (?page es))"
    using rs(3) assms(5) by (cases "sl_limit q") (simp_all add: rows_of_def take_map)
  moreover have "list_all (settled rnd st) (?page es)"
    using assms(3,6) by (cases "sl_limit q") (auto simp: list_all_iff dest: in_set_takeD)
  ultimately show ?thesis
    using scan_rows_of [of rnd st "?page es"] assms(4) by (simp add: pg_select_def)
qed

lemma rows_of_ids: "map (col_u64 ''global_id'') (rows_of rnd st es) = map ev_global_id es"
  by (induction es) (simp_all add: col_u64_def)

lemma rows_of_versions: "map (col_u64 ''aggregate_version'') (rows_of rnd st es) = map ev_aggregate_version es"
  by (induction es) (simp_all add: col_u64_def)

section \<open>The three reads\<close>

text \<open>
  The table holds the rows of a log, in whatever order they became visible; the log has them in the order
  of their ids. And the database answers.
\<close>

definition pg_holds :: "'d pg_db \<Rightarrow> ('d \<Rightarrow> pg_view) \<Rightarrow> (time \<Rightarrow> time) \<Rightarrow> pg_store \<Rightarrow> 'd \<Rightarrow> domain_event list \<Rightarrow> bool" where
  "pg_holds db view rnd st d log \<longleftrightarrow> mset (pv_events (view d)) = mset (rows_of rnd st log) \<and> list_all (settled rnd st) log
     \<and> by_global_id log \<and> (\<forall>q args. \<exists>vals. db_query db (SelectEvents q) args d = Inr (vals, None))"

lemma pg_holdsD:
  assumes "pg_holds db view rnd st d log"
  shows "mset (pv_events (view d)) = mset (rows_of rnd st log)" "list_all (settled rnd st) log" "by_global_id log"
    "\<exists>vals. db_query db (SelectEvents q) args d = Inr (vals, None)"
  using assms by (simp_all add: pg_holds_def)

lemma by_global_id_map: "by_global_id es \<longleftrightarrow> sorted_wrt (<) (map ev_global_id es)"
  by (simp add: by_global_id_def sorted_wrt_map)

lemma scope_visible:
  "(case cfg_tenant_id cfg of None \<Rightarrow> True | Some t \<Rightarrow> ev_tenant_id e = t \<or> ev_tenant_id e = global_tenant_id)
   \<longleftrightarrow> visible cfg e"
  by (auto simp: visible_def split: option.split)

lemma pg_fetch_of_log:
  assumes ok: "select_ok db view"
    and log: "mset (pv_events (view d)) = mset (rows_of rnd st log)" "list_all (settled rnd st) log" "by_global_id log"
    and q: "pg_fetch_query st g limit opts = (SelectEvents q, args)" and v: "db_query db (SelectEvents q) args d = Inr (vals, None)"
  shows "pg_fetch_after st db g limit opts d =
    Inr (take (nat limit) (after g (filter (visible (resolve_store_config opts)) log)))"
proof -
  let ?cfg = "resolve_store_config opts"
  let ?es = "after g (filter (visible ?cfg) log)"
  have es: "?es = filter (\<lambda>e. list_all (row_holds args (event_row rnd st (ev_global_id e) e)) (sl_conds q)) log"
    using q by (auto simp: pg_fetch_query_def scope_reads_def after_def scope_visible [symmetric] conj_commute
        split: option.splits intro!: filter_cong)
  have "by_global_id ?es" unfolding after_def by (intro by_global_id_filter log(3))
  then have srt: "sorted_wrt (<) (map (col_u64 (sl_order q)) (rows_of rnd st ?es))"
    using q by (auto simp: pg_fetch_query_def by_global_id_map rows_of_ids split: prod.splits)
  have cols: "sl_columns q = pg_columns st" and lim: "sl_limit q = Some (length args)" "args ! (length args - Suc 0) = VInt limit"
    using q by (auto simp: pg_fetch_query_def split: prod.splits)
  show ?thesis
    using pg_select_log [OF ok log(1,2) v cols es srt] by (simp add: pg_fetch_after_def q lim)
qed

lemma pg_fetch_query_select: "\<exists>q args. pg_fetch_query st g limit opts = (SelectEvents q, args)"
  by (simp add: pg_fetch_query_def split: prod.split)

lemma pg_fetch_log:
  assumes ok: "select_ok db view" and h: "pg_holds db view rnd st d log"
  shows "pg_fetch_after st db g limit opts d =
    Inr (take (nat limit) (after g (filter (visible (resolve_store_config opts)) log)))"
proof -
  obtain q args where q: "pg_fetch_query st g limit opts = (SelectEvents q, args)" using pg_fetch_query_select by blast
  obtain vals where "db_query db (SelectEvents q) args d = Inr (vals, None)" using pg_holdsD(4) [OF h] by blast
  from pg_fetch_of_log [OF ok pg_holdsD(1-3) [OF h] q this] show ?thesis .
qed

text \<open>The same of a page that was answered, when the next query may fail.\<close>

lemma pg_fetch_answered:
  assumes ok: "select_ok db view"
    and log: "mset (pv_events (view d)) = mset (rows_of rnd st log)" "list_all (settled rnd st) log" "by_global_id log"
    and page: "pg_fetch_after st db g limit opts d = Inr es"
  shows "es = take (nat limit) (after g (filter (visible (resolve_store_config opts)) log))"
proof -
  obtain q args where q: "pg_fetch_query st g limit opts = (SelectEvents q, args)" using pg_fetch_query_select by blast
  obtain vals where "db_query db (SelectEvents q) args d = Inr (vals, None)"
    using page by (auto simp: pg_fetch_after_def pg_select_def q split: sum.splits prod.splits option.splits)
  from pg_fetch_of_log [OF ok log q this] page show ?thesis by simp
qed

lemma pg_pii_log:
  assumes ok: "select_ok db view" and h: "pg_holds db view rnd st d log" and "pg_pii_tracking st"
  shows "pg_fetch_by_pii_id st db p opts d =
    (let es = filter (visible (resolve_store_config opts)) (filter (\<lambda>e. ev_pii_id e = Some p) log)
     in if es = [] then Inl ErrSubjectNotFound else Inr es)"
proof -
  let ?cfg = "resolve_store_config opts"
  obtain conds args where "scope_reads ?cfg ([CEq ''pii_id'' 1], [VUuid p]) = (conds, args)" by force
  then obtain q where q: "pg_pii_query st p opts = (SelectEvents q, args)" by (simp add: pg_pii_query_def)
  obtain vals where v: "db_query db (SelectEvents q) args d = Inr (vals, None)" using pg_holdsD(4) [OF h] by blast
  let ?es = "filter (visible ?cfg) (filter (\<lambda>e. ev_pii_id e = Some p) log)"
  have pid: "event_row rnd st g e ''pii_id'' = VUuid p \<longleftrightarrow> ev_pii_id e = Some p" for g e
    using event_row_pii [OF assms(3)] by (auto simp: null_uuid_def split: option.splits)
  have "list_all (row_holds args (event_row rnd st (ev_global_id e) e)) (sl_conds q)
      \<longleftrightarrow> ev_pii_id e = Some p \<and> visible ?cfg e" for e
    using q by (cases "cfg_tenant_id ?cfg") (auto simp: pg_pii_query_def scope_reads_def visible_def pid)
  then have es: "?es = filter (\<lambda>e. list_all (row_holds args (event_row rnd st (ev_global_id e) e)) (sl_conds q)) log"
    by (simp add: conj_commute)
  have "by_global_id ?es" by (intro by_global_id_filter pg_holdsD(3) [OF h])
  then have srt: "sorted_wrt (<) (map (col_u64 (sl_order q)) (rows_of rnd st ?es))"
    using q by (auto simp: pg_pii_query_def by_global_id_map rows_of_ids split: prod.splits)
  have cols: "sl_columns q = pg_columns st" "sl_limit q = None"
    using q by (auto simp: pg_pii_query_def split: prod.splits)
  show ?thesis
    using pg_select_log [OF ok pg_holdsD(1,2) [OF h] v cols(1) es srt] assms(3)
    by (simp add: pg_fetch_by_pii_id_def q cols(2) Let_def)
qed

text \<open>
  The events of an aggregate in the order of their versions, if no two of those the scope sees have the
  same version.
\<close>

lemma pg_load_log:
  assumes ok: "select_ok db view" and h: "pg_holds db view rnd st d log"
    and "es = filter (\<lambda>e. ev_aggregate_id e = i \<and> visible (resolve_store_config opts) e) log"
    and "sorted_wrt (<) (map ev_aggregate_version es)"
  shows "pg_load st db i opts d = (if es = [] then Inl ErrAggregateNotFound else Inr es)"
proof -
  let ?cfg = "resolve_store_config opts"
  obtain conds args where "scope_reads ?cfg ([CEq ''aggregate_id'' 1], [VUuid i]) = (conds, args)" by force
  then obtain q where q: "pg_load_query st i opts = (SelectEvents q, args)" by (simp add: pg_load_query_def)
  obtain vals where v: "db_query db (SelectEvents q) args d = Inr (vals, None)" using pg_holdsD(4) [OF h] by blast
  have es: "es = filter (\<lambda>e. list_all (row_holds args (event_row rnd st (ev_global_id e) e)) (sl_conds q)) log"
    unfolding assms(3) using q
    by (auto simp: pg_load_query_def scope_reads_def scope_visible [symmetric] split: option.splits intro!: filter_cong)
  have srt: "sorted_wrt (<) (map (col_u64 (sl_order q)) (rows_of rnd st es))"
    using q assms(4) by (auto simp: pg_load_query_def rows_of_versions split: prod.splits)
  have cols: "sl_columns q = pg_columns st" "sl_limit q = None"
    using q by (auto simp: pg_load_query_def split: prod.splits)
  show ?thesis
    using pg_select_log [OF ok pg_holdsD(1,2) [OF h] v cols(1) es srt]
    by (simp add: pg_load_def q cols(2))
qed

lemma versions_listed:
  "versions_from v es \<Longrightarrow> map ev_aggregate_version es = map (\<lambda>k. v + of_nat k) [1..<Suc (length es)]"
proof (induction es arbitrary: v)
  case (Cons e es)
  have "map (\<lambda>k. v + of_nat k) [1..<Suc (length (e # es))]
      = (v + 1) # map (\<lambda>k. (v + 1) + of_nat k) [1..<Suc (length es)]"
    by (simp add: upt_conv_Cons map_Suc_upt [symmetric] comp_def algebra_simps del: upt_Suc)
  with Cons show ?case by simp
qed simp

lemma versions_from_sorted:
  "versions_from 0 es \<Longrightarrow> length es < 2 ^ 64 \<Longrightarrow> sorted_wrt (<) (map ev_aggregate_version es)"
  using versions_listed [of 0 es] strict_sorted_map_of_nat [of "length es"] by simp

text \<open>What the scope sees of an aggregate is one stream: then memory loads that stream.\<close>

lemma one_stream:
  assumes "mem_keyed s" "t = global_tenant_id \<or> scope_of opts = Some t"
    and "\<forall>e \<in> set (ms_all s). ev_aggregate_id e = i \<longrightarrow> visible (resolve_store_config opts) e \<longrightarrow> ev_tenant_id e = t"
  shows "filter (\<lambda>e. ev_aggregate_id e = i \<and> visible (resolve_store_config opts) e) (ms_all s) = ms_by_aggregate s (t, i)"
    and "mem_load i opts s = (if ms_by_aggregate s (t, i) = [] then Inl ErrAggregateNotFound else Inr (ms_by_aggregate s (t, i)))"
proof -
  let ?cfg = "resolve_store_config opts"
  have stream: "ms_by_aggregate s k = filter (\<lambda>e. aggregate_key e = k) (ms_all s)" for k
    using assms(1) unfolding mem_keyed_def by blast
  have vis: "visible ?cfg e" if "ev_tenant_id e = u" "u = global_tenant_id \<or> scope_of opts = Some u" for e u
    using that by (auto simp: visible_def split: option.split)
  show seen: "filter (\<lambda>e. ev_aggregate_id e = i \<and> visible ?cfg e) (ms_all s) = ms_by_aggregate s (t, i)"
    unfolding stream using assms(2,3) vis by (intro filter_cong) (auto simp: aggregate_key_def)
  have none: "ms_by_aggregate s (u, i) = []" if "u \<noteq> t" "u = global_tenant_id \<or> scope_of opts = Some u" for u
    using that assms(3) vis unfolding stream filter_empty_conv aggregate_key_def by blast
  show "mem_load i opts s = (if ms_by_aggregate s (t, i) = [] then Inl ErrAggregateNotFound else Inr (ms_by_aggregate s (t, i)))"
  proof (cases "scope_of opts")
    case None
    with assms(2) show ?thesis by (simp add: mem_load_def global_tenant_id_def Let_def)
  next
    case (Some u)
    with assms(2) none [of u] none [of global_tenant_id] show ?thesis
      by (cases "u = t") (auto simp: mem_load_def Let_def)
  qed
qed

text \<open>
  C22. Postgres reads like memory: over the log of an in-memory store, and while the database answers, the
  cursor read and the subject read of \<^verbatim>\<open>pgstore\<close> return what those of \<^verbatim>\<open>memstore\<close> return, whatever the
  scope; so does the aggregate read when what the scope sees of the aggregate is one stream. (A
  cursor read with no positive limit is the exception: memory takes it as no limit.)
\<close>

theorem pg_reads_refine_memory:
  assumes "select_ok db view" "mem_inv s" "pg_holds db view rnd st d (ms_all s)" "0 < limit" "pg_pii_tracking st"
    and "t = global_tenant_id \<or> scope_of opts = Some t"
    and "\<forall>e \<in> set (ms_all s). ev_aggregate_id e = i \<longrightarrow> visible (resolve_store_config opts) e \<longrightarrow> ev_tenant_id e = t"
    and "versions_from 0 (ms_by_aggregate s (t, i))" "length (ms_all s) < 2 ^ 64"
  shows "pg_fetch_after st db g limit opts d = mem_fetch_after g limit opts s
    \<and> pg_fetch_by_pii_id st db p opts d = mem_fetch_by_pii_id p opts s
    \<and> pg_load st db i opts d = mem_load i opts s"
proof -
  have inv: "mem_log_inv s" "mem_keyed s" using assms(2) by (simp_all add: mem_inv_def)
  note one = one_stream [OF inv(2) assms(6,7)]
  have "pg_fetch_after st db g limit opts d = mem_fetch_after g limit opts s"
    using pg_fetch_log [OF assms(1,3)] assms(4) by (simp add: mem_fetch_after_eq)
  moreover have "pg_fetch_by_pii_id st db p opts d = mem_fetch_by_pii_id p opts s"
    using pg_pii_log [OF assms(1,3,5)] inv by (simp add: mem_fetch_by_pii_id_def mem_log_inv_def)
  moreover have "length (ms_by_aggregate s (t, i)) < 2 ^ 64"
    using assms(9) length_filter_le unfolding one(1) [symmetric] by (rule order.strict_trans1 [rotated])
  ultimately show ?thesis
    using pg_load_log [OF assms(1,3) one(1) [symmetric]] versions_from_sorted [OF assms(8)] one(2) by simp
qed

theorem pg_reads_refine_memory_witness:
  "\<exists>s e. ms_all s = [e]
    \<and> pg_load (pg_new [WithPiiTracking]) sample_pg 7 [WithTenant 5]
        \<lparr>pv_events = rows_of (\<lambda>t. t) (pg_new [WithPiiTracking]) [e], pv_pending = None\<rparr> = mem_load 7 [WithTenant 5] s"
proof -
  let ?st = "pg_new [WithPiiTracking]" and ?e = "(sample_event 5 7 1)\<lparr>ev_global_id := 1\<rparr>"
  let ?d = "\<lparr>pv_events = rows_of (\<lambda>t. t) ?st [?e], pv_pending = None\<rparr>"
  obtain es s where c: "mem_commit [sample_event 0 7 1] 0 [WithTenant 5] mem_new = (None, es, s)"
    by (simp add: mem_commit_eq mem_new_def current_version_def Let_def)
  have "fresh_batch 7 [sample_event 0 7 1]" by (simp add: fresh_batch_def)
  from mem_inv_commit [OF mem_inv_new this c] have inv: "mem_inv s" .
  have key: "commit_key [WithTenant 5] [sample_event 0 7 1] = (5, 7)"
    by (simp add: commit_key_def aggregate_key_def stamp_tenant_def)
  from mem_commit_ok [OF c] have "es = [?e]"
    by (simp add: mem_new_def stamp_tenant_def sample_event_def zero_event_def)
  with mem_commit_ok [OF c] key have s: "ms_all s = [?e]" "ms_by_aggregate s (5, 7) = [?e]"
    by (simp_all add: mem_new_def)
  have "pg_holds sample_pg (\<lambda>d. d) (\<lambda>t. t) ?st ?d (ms_all s)"
    by (simp add: pg_holds_def s settled_def actor_tracked_def pii_tracked_def stored_event_def sample_event_def
        zero_event_def by_global_id_def)
  from pg_reads_refine_memory [OF sample_select_ok inv this, of 1 5 "[WithTenant 5]" 7 0 0]
  have "pg_load ?st sample_pg 7 [WithTenant 5] ?d = mem_load 7 [WithTenant 5] s"
    by (simp add: s pg_new_def)
  with s(1) show ?thesis by blast
qed

section \<open>StreamAll\<close>

text \<open>
  The rounds of \<^verbatim>\<open>StreamAll\<close>: the backfill and then one drain per wake-up, whether by a notification or by
  the poll interval. The list holds the database as each round finds it; \<open>fuel\<close> bounds the pages of
  one round and \<open>budget\<close> the sends the receiver accepts in it.
\<close>

fun pg_stream :: "pg_store \<Rightarrow> 'd pg_db \<Rightarrow> store_option list \<Rightarrow> nat \<Rightarrow> nat \<Rightarrow> 'd list \<Rightarrow> u64 \<Rightarrow> domain_event list \<Rightarrow>
    drain_result \<times> u64 \<times> domain_event list" where
  "pg_stream st db opts fuel budget [] last_id out = (Drained, last_id, out)"
| "pg_stream st db opts fuel budget (d # ds) last_id out =
     (case drain (\<lambda>c. pg_fetch_after st db c 500 opts d) fuel budget last_id out of
        (Drained, last_id', out') \<Rightarrow> pg_stream st db opts fuel budget ds last_id' out'
      | (r, last_id', out') \<Rightarrow> (r, last_id', out'))"

lemma pg_stream_append:
  "pg_stream st db opts fuel budget (ds @ ds') g out =
     (case pg_stream st db opts fuel budget ds g out of
        (Drained, g', out') \<Rightarrow> pg_stream st db opts fuel budget ds' g' out'
      | (r, g', out') \<Rightarrow> (r, g', out'))"
  by (induction st db opts fuel budget ds g out rule: pg_stream.induct)
    (auto split: prod.split drain_result.split)

text \<open>What a page holds lies beyond the cursor, in any database that selects as Postgres does.\<close>

lemma scan_events_ids:
  "scan_events st (map (\<lambda>r. map r (pg_columns st)) rs) = Inr es \<Longrightarrow>
   map ev_global_id es = map (col_u64 ''global_id'') rs"
proof (induction rs arbitrary: es)
  case (Cons r rs)
  have "ev_global_id e = col_u64 ''global_id'' r" if "scan_event st (map r (pg_columns st)) = Inr e" for e
  proof -
    have "scan_row st (map r (pg_columns st)) = Some e"
      using that by (simp add: scan_event_def split: option.splits)
    then obtain g where "as_u64 (map r (pg_columns st) ! 0) = Some g" "ev_global_id e = g"
      unfolding scan_row_def Let_def by (auto simp: bind_eq_Some_conv split: if_splits)
    then show ?thesis by (simp add: col_u64_def pg_columns_insert)
  qed
  with Cons show ?case
    by (cases "scan_events st (map (\<lambda>r. map r (pg_columns st)) rs)") (auto split: sum.splits)
qed simp

lemma pg_fetch_beyond:
  assumes "select_ok db view" "pg_fetch_after st db g limit opts d = Inr es"
  shows "\<forall>e \<in> set es. g < ev_global_id e" and "sorted (map ev_global_id es)"
proof -
  obtain conds args0 where sr: "scope_reads (resolve_store_config opts) ([CGt ''global_id'' 1], [VU64 g]) = (conds, args0)" by force
  obtain args q where qd: "args = args0 @ [VInt limit]"
    "q = \<lparr>sl_columns = pg_columns st, sl_conds = conds, sl_order = ''global_id'', sl_limit = Some (length args)\<rparr>" by simp
  then have q: "pg_fetch_query st g limit opts = (SelectEvents q, args)"
    and qa: "sl_columns q = pg_columns st" "sl_conds q = conds" "sl_order q = ''global_id''"
      "sl_limit q = Some (length args)" "args = args0 @ [VInt limit]"
    using sr by (simp_all add: pg_fetch_query_def)
  from assms(2) obtain vals where vals: "db_query db (SelectEvents q) args d = Inr (vals, None)" "scan_events st vals = Inr es"
    by (auto simp: pg_fetch_after_def pg_select_def q split: sum.splits prod.splits option.splits)
  from assms(1) vals(1) obtain rs where rs: "mset rs = mset (matching (sl_conds q) args (pv_events (view d)))"
    "sorted (map (col_u64 (sl_order q)) rs)"
    "vals = map (\<lambda>r. map r (sl_columns q)) (case sl_limit q of None \<Rightarrow> rs
        | Some n \<Rightarrow> take (case as_int (args ! (n - 1)) of None \<Rightarrow> 0 | Some l \<Rightarrow> nat l) rs)"
    unfolding select_ok_def by blast
  obtain k where page: "vals = map (\<lambda>r. map r (pg_columns st)) (take k rs)"
    using rs(3) by (simp add: qa)
  have ids: "map ev_global_id es = map (col_u64 ''global_id'') (take k rs)"
    using scan_events_ids vals(2) unfolding page by blast
  from rs(2) ids show "sorted (map ev_global_id es)" by (simp add: qa(3) sorted_wrt_take take_map [symmetric])
  have head: "args ! 0 = VU64 g" "CGt ''global_id'' 1 \<in> set (sl_conds q)"
    using sr unfolding qa by (auto simp: scope_reads_def nth_append split: option.splits)
  have "g < col_u64 ''global_id'' r" if "r \<in> set (take k rs)" for r
  proof -
    from that have "r \<in> set rs" by (rule in_set_takeD)
    then have "r \<in> set (matching (sl_conds q) args (pv_events (view d)))" using rs(1) by (metis set_mset_mset)
    then have "row_holds args r (CGt ''global_id'' 1)" using head(2) by (auto simp: matching_def list_all_iff)
    then show ?thesis using head(1) by (auto simp: col_u64_def split: option.splits)
  qed
  then have "\<forall>x \<in> set (map ev_global_id es). g < x" unfolding ids by simp
  then show "\<forall>e \<in> set es. g < ev_global_id e" by simp
qed

end
