(* ===== verification/Pg_Stream.thy ===== *)
theory Pg_Stream
  imports Pg_Reads "HOL-Library.Sublist"
begin

text \<open>
  What \<^verbatim>\<open>pgstore.Store.StreamAll\<close> delivers over its rounds: all of the visible log when rows become
  visible in the order of their global ids; and, since the cursor only moves forward, never a row
  that becomes visible behind it.
\<close>

section \<open>The cursor moves forward\<close>

lemma drain_forward:
  assumes ok: "select_ok db view"
    and "drain (\<lambda>c. pg_fetch_after st db c limit opts d) fuel budget g out = (r, g', out')"
  shows "g \<le> g' \<and> (\<exists>new. out' = out @ new \<and> (\<forall>e \<in> set new. g < ev_global_id e) \<and> (g' = g \<or> g' \<in> ev_global_id ` set new))"
  using assms(2)
proof (induction fuel arbitrary: budget g out)
  case (Suc fuel)
  show ?case
  proof (cases "pg_fetch_after st db g limit opts d")
    case (Inl err)
    with Suc.prems show ?thesis by simp
  next
    case (Inr page)
    note beyond = pg_fetch_beyond(1) [OF ok Inr]
    show ?thesis
    proof (cases "page = [] \<or> length page \<le> budget")
      case True
      show ?thesis
      proof (cases "page = []")
        case False
        let ?g = "ev_global_id (last page)"
        from True False Inr Suc.prems have
          "drain (\<lambda>c. pg_fetch_after st db c limit opts d) fuel (budget - length page) ?g (out @ page) = (r, g', out')"
          by simp
        from Suc.IH [OF this] obtain new where new: "?g \<le> g'" "out' = (out @ page) @ new"
          "\<forall>e \<in> set new. ?g < ev_global_id e" "g' = ?g \<or> g' \<in> ev_global_id ` set new" by blast
        have "g < ?g" using beyond False by simp
        then have "g \<le> g'" "\<forall>e \<in> set new. g < ev_global_id e"
          using new(1,3) by (meson order.strict_implies_order order.trans, meson order.strict_trans)
        with new beyond False show ?thesis
          by (intro conjI exI [of _ "page @ new"]) auto
      qed (use Inr Suc.prems in simp)
    next
      case False
      with Inr Suc.prems have r: "out' = out @ take budget page"
        "g' = (if budget = 0 then g else ev_global_id (last (take budget page)))" by auto
      have "last (take budget page) \<in> set (take budget page)" if "budget \<noteq> 0"
        using that False by (intro last_in_set) auto
      with beyond r show ?thesis
        by (intro conjI exI [of _ "take budget page"]) (auto dest: in_set_takeD intro: less_imp_le)
    qed
  qed
qed simp

lemma pg_stream_forward:
  assumes ok: "select_ok db view"
  shows "pg_stream st db opts fuel budget ds g out = (r, g', out') \<Longrightarrow>
    g \<le> g' \<and> (\<exists>new. out' = out @ new \<and> (\<forall>e \<in> set new. g < ev_global_id e))"
proof (induction ds arbitrary: g out)
  case (Cons d ds)
  obtain r1 g1 out1 where one: "drain (\<lambda>c. pg_fetch_after st db c 500 opts d) fuel budget g out = (r1, g1, out1)"
    by (metis prod_cases3)
  from drain_forward [OF ok one] obtain new where new: "g \<le> g1" "out1 = out @ new" "\<forall>e \<in> set new. g < ev_global_id e"
    by blast
  show ?case
  proof (cases "r1 = Drained")
    case True
    with Cons.prems one have "pg_stream st db opts fuel budget ds g1 out1 = (r, g', out')" by simp
    from Cons.IH [OF this] obtain more where "g1 \<le> g'" "out' = out1 @ more" "\<forall>e \<in> set more. g1 < ev_global_id e"
      by blast
    with new show ?thesis by (intro conjI exI [of _ "new @ more"]) (auto intro: order.trans order.strict_trans1)
  next
    case False
    with Cons.prems one have "g' = g1" "out' = out1" by (cases r1; simp)+
    with new show ?thesis by auto
  qed
qed simp

text \<open>
  C25. A row that becomes visible behind the cursor is lost: once a round of \<^verbatim>\<open>StreamAll\<close> ended at global id
  \<open>g\<close> without an event whose id is not beyond \<open>g\<close> -- the transaction that drew the lower id was
  still open -- no later round delivers it, whatever the database then holds. (Global ids are drawn
  when a row is inserted and seen when its transaction commits, and commits of different aggregates
  do not wait for each other.)
\<close>

theorem late_row_never_streamed:
  assumes "select_ok db view"
    and "pg_stream st db opts fuel budget ds 0 [] = (Drained, g, out)"
    and "e \<notin> set out" "ev_global_id e \<le> g"
    and "pg_stream st db opts fuel budget (ds @ later) 0 [] = (r, g', out')"
  shows "e \<notin> set out'"
proof -
  have "pg_stream st db opts fuel budget later g out = (r, g', out')"
    using assms(5) by (simp add: pg_stream_append assms(2))
  from pg_stream_forward [OF assms(1) this] assms(3,4) show ?thesis by (auto simp: not_less [symmetric])
qed

section \<open>Delivery\<close>

text \<open>The contract of \<^verbatim>\<open>FetchAfter\<close> holds where the table holds a log of positive ids.\<close>

lemma pg_event_feed:
  assumes "select_ok db view"
  shows "event_feed (\<lambda>(d, log). pg_holds db view rnd st d log \<and> (\<forall>e \<in> set log. 0 < ev_global_id e))
    (\<lambda>(d, log) g limit. pg_fetch_after st db g limit opts d)
    (\<lambda>(d, log). filter (visible (resolve_store_config opts)) log)"
  using pg_fetch_log [OF assms] by unfold_locales (auto intro: by_global_id_filter dest: pg_holdsD(3))

text \<open>Where a stream stands when it has delivered what its scope sees of a log.\<close>

definition stream_at :: "domain_event list \<Rightarrow> u64 \<Rightarrow> domain_event list \<Rightarrow> bool" where
  "stream_at es g out \<longleftrightarrow> out = es \<and> (\<forall>e \<in> set es. ev_global_id e \<le> g) \<and> (g = 0 \<or> g \<in> ev_global_id ` set es)"

lemma stream_at_upto:
  assumes "stream_at es g out" "prefix es es'" "by_global_id es'" "\<forall>e \<in> set es'. 0 < ev_global_id e"
  shows "upto_id g es' = out"
proof -
  obtain rest where es': "es' = es @ rest" using assms(2) by (auto simp: prefix_def)
  have "\<forall>e \<in> set rest. g < ev_global_id e"
    using assms(1,3,4) unfolding es' stream_at_def by (auto simp: by_global_id_def sorted_wrt_append)
  then have "upto_id g rest = []" by (auto simp: upto_id_def filter_empty_conv not_le)
  moreover have "upto_id g es = es" using assms(1) by (simp add: stream_at_def upto_id_def filter_id_conv)
  ultimately show ?thesis using assms(1) by (simp add: es' stream_at_def upto_id_def)
qed

lemma stream_round:
  assumes ok: "select_ok db view" and h: "pg_holds db view rnd st d log" "\<forall>e \<in> set log. 0 < ev_global_id e"
    and es: "es' = filter (visible (resolve_store_config opts)) log"
    and at: "stream_at es g out" "prefix es es'" and size: "length es' < fuel" "length es' \<le> budget"
  shows "\<exists>g'. drain (\<lambda>c. pg_fetch_after st db c 500 opts d) fuel budget g out = (Drained, g', es')
    \<and> stream_at es' g' es'"
proof -
  note feed = pg_event_feed [OF ok, of rnd st opts]
  have inv: "(\<lambda>(d, log). pg_holds db view rnd st d log \<and> (\<forall>e \<in> set log. 0 < ev_global_id e)) (d, log)" using h by simp
  have pos: "by_global_id es'" "\<forall>e \<in> set es'. 0 < ev_global_id e"
    using h pg_holdsD(3) [OF h(1)] by (auto simp: es intro: by_global_id_filter)
  note upto = stream_at_upto [OF at pos]
  obtain r g' out' where d: "drain (\<lambda>c. pg_fetch_after st db c 500 opts d) fuel budget g out = (r, g', out')"
    by (metis prod_cases3)
  have "length (after g es') \<le> length es'" by (simp add: after_def)
  with event_feed.drain_completes [OF feed inv, of 500 g fuel budget out] d size
  have r: "r = Drained" by (simp add: es [symmetric])
  have "drain (\<lambda>c. (\<lambda>(d, log) g limit. pg_fetch_after st db g limit opts d) (d, log) c 500) fuel budget g out = (r, g', out')"
    using d by simp
  from event_feed.drain_invariant [OF feed inv _ _ this] upto
  have "out' = upto_id g' es'" "r = Drained \<longrightarrow> out' = es'" unfolding es by (simp_all, blast+)
  with r have out': "out' = upto_id g' es'" "out' = es'" by blast+
  from drain_forward [OF ok d] obtain new where new: "out' = out @ new" "g' = g \<or> g' \<in> ev_global_id ` set new" by blast
  have "\<forall>e \<in> set es'. ev_global_id e \<le> g'" by (subst out'(2) [symmetric], subst out'(1)) (simp add: upto_id_def)
  moreover have "g' = 0 \<or> g' \<in> ev_global_id ` set es'" using new at(1) out'(2) by (auto simp: stream_at_def)
  ultimately show ?thesis using d r out'(2) by (simp add: stream_at_def)
qed

lemma stream_rounds:
  assumes ok: "select_ok db view"
  shows "(\<forall>(d, log) \<in> set rounds. pg_holds db view rnd st d log \<and> (\<forall>e \<in> set log. 0 < ev_global_id e)
      \<and> length log < fuel \<and> length log \<le> budget) \<Longrightarrow>
    stream_at es g out \<Longrightarrow>
    sorted_wrt prefix (es # map (\<lambda>(d, log). filter (visible (resolve_store_config opts)) log) rounds) \<Longrightarrow>
    \<exists>g'. pg_stream st db opts fuel budget (map fst rounds) g out =
      (Drained, g', last (out # map (\<lambda>(d, log). filter (visible (resolve_store_config opts)) log) rounds))"
proof (induction rounds arbitrary: es g out)
  case (Cons round rounds)
  let ?vis = "\<lambda>log. filter (visible (resolve_store_config opts)) log"
  obtain d log where round: "round = (d, log)" by force
  have len: "length (?vis log) \<le> length log" by simp
  from Cons.prems(1) have h: "pg_holds db view rnd st d log" "\<forall>e \<in> set log. 0 < ev_global_id e"
    and "length log < fuel" "length log \<le> budget" by (auto simp: round)
  with len have size: "length (?vis log) < fuel" "length (?vis log) \<le> budget" by linarith+
  have pre: "prefix es (?vis log)" using Cons.prems(3) by (simp add: round)
  from stream_round [OF ok h refl Cons.prems(2) pre size] obtain g1
    where one: "drain (\<lambda>c. pg_fetch_after st db c 500 opts d) fuel budget g out = (Drained, g1, ?vis log)"
      "stream_at (?vis log) g1 (?vis log)" by blast
  have "\<exists>g'. pg_stream st db opts fuel budget (map fst rounds) g1 (?vis log) =
      (Drained, g', last (?vis log # map (\<lambda>(d, log). ?vis log) rounds))"
    using Cons.prems(1,3) by (intro Cons.IH [OF _ one(2)]) (auto simp: round)
  with one(1) show ?case by (simp add: round)
qed (simp add: stream_at_def)

text \<open>
  Nothing is lost while rows become visible in the order of their ids: if every round of
  \<^verbatim>\<open>StreamAll\<close> finds in the table a log of which the scope sees an extension of what it saw the round
  before, the rounds deliver, each event once and in order, exactly what the scope sees of the last
  log. (\<open>fuel\<close> above the length of the log is enough pages, since no page but the last is empty.)
\<close>

lemma pg_stream_delivers:
  assumes "select_ok db view" "rounds \<noteq> []"
    and "\<forall>(d, log) \<in> set rounds. pg_holds db view rnd st d log \<and> (\<forall>e \<in> set log. 0 < ev_global_id e)
      \<and> length log < fuel \<and> length log \<le> budget"
    and "sorted_wrt prefix (map (\<lambda>(d, log). filter (visible (resolve_store_config opts)) log) rounds)"
  shows "\<exists>g. pg_stream st db opts fuel budget (map fst rounds) 0 [] =
    (Drained, g, filter (visible (resolve_store_config opts)) (snd (last rounds)))"
proof -
  have "stream_at [] 0 []" by (simp add: stream_at_def)
  from stream_rounds [OF assms(1,3) this, of opts] assms(2,4) show ?thesis
    by (simp add: last_map split: prod.splits)
qed

section \<open>Examples\<close>

definition sample_log :: "u64 list \<Rightarrow> domain_event list" where
  "sample_log ids = map (\<lambda>g. (sample_event 5 (ucast g) 1)\<lparr>ev_global_id := g\<rparr>) ids"

definition sample_table :: "u64 list \<Rightarrow> pg_view" where
  "sample_table ids = \<lparr>pv_events = rows_of (\<lambda>t. t) (pg_new []) (sample_log ids), pv_pending = None\<rparr>"

lemma sample_table_holds:
  assumes "sorted_wrt (<) ids"
  shows "pg_holds sample_pg (\<lambda>d. d) (\<lambda>t. t) (pg_new []) (sample_table ids) (sample_log ids)"
  using assms by (simp add: pg_holds_def sample_table_def sample_log_def list_all_iff settled_def actor_tracked_def
    pii_tracked_def stored_event_def sample_event_def zero_event_def by_global_id_def sorted_wrt_map)

lemma sample_fetch:
  assumes "sorted_wrt (<) ids"
  shows "pg_fetch_after (pg_new []) sample_pg g 500 [WithTenant 5] (sample_table ids) =
     Inr (take 500 (sample_log (filter (\<lambda>i. g < i) ids)))"
  using pg_fetch_log [OF sample_select_ok sample_table_holds [OF assms], of g 500 "[WithTenant 5]"]
  by (simp add: sample_log_def after_def filter_map comp_def visible_def filter_filter
      cong: filter_cong)

theorem late_row_never_streamed_witness:
  "\<exists>r g' out'. pg_stream (pg_new []) sample_pg [WithTenant 5] 3 3 ([sample_table [2]] @ [sample_table [1, 2]]) 0 [] = (r, g', out')
     \<and> hd (sample_log [1, 2]) \<notin> set out'"
proof -
  have first: "pg_stream (pg_new []) sample_pg [WithTenant 5] 3 3 [sample_table [2]] 0 [] = (Drained, 2, sample_log [2])"
    by (simp add: sample_fetch eval_nat_numeral sample_log_def)
  obtain r g' out' where
    all: "pg_stream (pg_new []) sample_pg [WithTenant 5] 3 3 ([sample_table [2]] @ [sample_table [1, 2]]) 0 [] = (r, g', out')"
    by (metis prod_cases3)
  from late_row_never_streamed [OF sample_select_ok first _ _ all, of "hd (sample_log [1, 2])"]
  have "hd (sample_log [1, 2]) \<notin> set out'" by (simp add: sample_log_def sample_event_def zero_event_def)
  with all show ?thesis by blast
qed

theorem pg_stream_delivers_witness:
  "\<exists>g. pg_stream (pg_new []) sample_pg [WithTenant 5] 3 3 [sample_table [2], sample_table [2, 3]] 0 [] =
     (Drained, g, sample_log [2, 3])"
proof -
  let ?rounds = "[(sample_table [2], sample_log [2]), (sample_table [2, 3], sample_log [2, 3])]"
  have vis: "filter (visible \<lparr>cfg_tenant_id = Some 5, cfg_all_tenants = False\<rparr>) (sample_log ids) = sample_log ids" for ids
    by (simp add: sample_log_def visible_def filter_id_conv)
  have grow: "prefix (sample_log [2]) (sample_log [2, 3])" by (simp add: sample_log_def)
  have "pg_holds sample_pg (\<lambda>d. d) (\<lambda>t. t) (pg_new []) (sample_table [2]) (sample_log [2])"
    "pg_holds sample_pg (\<lambda>d. d) (\<lambda>t. t) (pg_new []) (sample_table [2, 3]) (sample_log [2, 3])"
    by (rule sample_table_holds, simp)+
  then have "\<forall>(d, log) \<in> set ?rounds. pg_holds sample_pg (\<lambda>d. d) (\<lambda>t. t) (pg_new []) d log
      \<and> (\<forall>e \<in> set log. 0 < ev_global_id e) \<and> length log < 3 \<and> length log \<le> 3"
    by (simp add: sample_log_def)
  from pg_stream_delivers [OF sample_select_ok _ this, of "[WithTenant 5]"] show ?thesis
    by (simp add: vis grow del: pg_stream.simps)
qed

end
