(* ===== verification/Pg_Listen.thy ===== *)
theory Pg_Listen
  imports Pg_Stream
begin

text \<open>
  The goroutine of \<^verbatim>\<open>pgstore.Store.StreamAll\<close>, statement by statement, with its receiver, its two channels,
  the context and the listener connection, over a database that changes meanwhile. \<open>Pg_Stream\<close> has its
  rounds; here they are interleaved with all that can happen between two statements. Of the listener
  only this is modelled: that it is there, when and how \<^verbatim>\<open>Listen\<close> returns, whether \<^verbatim>\<open>Close\<close> fails, and that
  it may wake the loop at any time, as the poll interval does anyway.
\<close>

section \<open>Steps\<close>

datatype pl_phase = PlStarting | PlListening | PlFetching | PlOffering "domain_event list" | PlWaiting | PlClosing | PlClosed

record 'd pg_listen =
  pl_db :: 'd
  pl_phase :: pl_phase
  pl_last_id :: u64
  pl_out :: "domain_event list"
  pl_errc :: "error list"
  pl_errs :: "error list"
  pl_listener :: bool
  pl_cancelled :: bool

definition pl_start :: "'d \<Rightarrow> 'd pg_listen" where
  "pl_start d = \<lparr>pl_db = d, pl_phase = PlStarting, pl_last_id = 0, pl_out = [], pl_errc = [], pl_errs = [],
     pl_listener = False, pl_cancelled = False\<rparr>"

text \<open>Whose step it is: the goroutine's, a receiver's who takes what is offered, or the world's -- the
  database, the holder of the context, and the listener's library, for \<^verbatim>\<open>Listen\<close> takes no context.\<close>

datatype pl_actor = Goroutine | Receiver | World

text \<open>
  The channel of errors has room for one; the send of an error of \<^verbatim>\<open>drain\<close> waits for it, that of an error of
  \<^verbatim>\<open>Close\<close> gives up. A query may fail once the context is cancelled, with whatever error. \<open>grow\<close> is
  what others do to the database.
\<close>

inductive pl_step :: "pg_store \<Rightarrow> 'd pg_db \<Rightarrow> store_option list \<Rightarrow> ('d \<Rightarrow> 'd \<Rightarrow> bool) \<Rightarrow> pl_actor \<Rightarrow>
    'd pg_listen \<Rightarrow> 'd pg_listen \<Rightarrow> bool"
  for st :: pg_store and db :: "'d pg_db" and opts :: "store_option list" and grow :: "'d \<Rightarrow> 'd \<Rightarrow> bool" where
  not_started: "pl_phase s = PlStarting \<Longrightarrow> pl_cancelled s \<Longrightarrow>
    pl_step st db opts grow Goroutine s (s\<lparr>pl_phase := PlClosed\<rparr>)"
| started: "pl_phase s = PlStarting \<Longrightarrow> \<not> pl_cancelled s \<Longrightarrow>
    pl_step st db opts grow Goroutine s (s\<lparr>pl_listener := True, pl_phase := PlListening\<rparr>)"
| listen_failed: "pl_phase s = PlListening \<Longrightarrow>
    pl_step st db opts grow World s (s\<lparr>pl_errc := pl_errc s @ [ErrWrap ''pgstore: listen'' err], pl_phase := PlClosed\<rparr>)"
| listening: "pl_phase s = PlListening \<Longrightarrow>
    pl_step st db opts grow World s (s\<lparr>pl_phase := PlFetching\<rparr>)"
| fetch_failed: "pl_phase s = PlFetching \<Longrightarrow>
    pg_fetch_after st db (pl_last_id s) 500 opts (pl_db s) = Inl err \<or> pl_cancelled s \<Longrightarrow> pl_errc s = [] \<Longrightarrow>
    pl_step st db opts grow Goroutine s (s\<lparr>pl_errc := [err], pl_phase := PlClosing\<rparr>)"
| fetched: "pl_phase s = PlFetching \<Longrightarrow> pg_fetch_after st db (pl_last_id s) 500 opts (pl_db s) = Inr (e # es) \<Longrightarrow>
    pl_step st db opts grow Goroutine s (s\<lparr>pl_phase := PlOffering (e # es)\<rparr>)"
| drained: "pl_phase s = PlFetching \<Longrightarrow> pg_fetch_after st db (pl_last_id s) 500 opts (pl_db s) = Inr [] \<Longrightarrow>
    pl_step st db opts grow Goroutine s (s\<lparr>pl_phase := PlWaiting\<rparr>)"
| received: "pl_phase s = PlOffering (e # es) \<Longrightarrow>
    pl_step st db opts grow Receiver s (s\<lparr>pl_out := pl_out s @ [e], pl_last_id := ev_global_id e,
      pl_phase := (if es = [] then PlFetching else PlOffering es)\<rparr>)"
| offer_cancelled: "pl_phase s = PlOffering es \<Longrightarrow> pl_cancelled s \<Longrightarrow>
    pl_step st db opts grow Goroutine s (s\<lparr>pl_phase := PlClosing\<rparr>)"
| woken: "pl_phase s = PlWaiting \<Longrightarrow>
    pl_step st db opts grow Goroutine s (s\<lparr>pl_phase := PlFetching\<rparr>)"
| wait_cancelled: "pl_phase s = PlWaiting \<Longrightarrow> pl_cancelled s \<Longrightarrow>
    pl_step st db opts grow Goroutine s (s\<lparr>pl_phase := PlClosing\<rparr>)"
| closed: "pl_phase s = PlClosing \<Longrightarrow>
    pl_step st db opts grow Goroutine s (s\<lparr>pl_listener := False, pl_phase := PlClosed\<rparr>)"
| close_failed: "pl_phase s = PlClosing \<Longrightarrow>
    pl_step st db opts grow Goroutine s (s\<lparr>pl_listener := False, pl_phase := PlClosed,
      pl_errc := (if pl_errc s = [] then [ErrWrap ''pgstore: close listener'' err] else pl_errc s)\<rparr>)"
| error_received: "pl_errc s = err # errs \<Longrightarrow>
    pl_step st db opts grow Receiver s (s\<lparr>pl_errc := errs, pl_errs := pl_errs s @ [err]\<rparr>)"
| database: "grow (pl_db s) d \<Longrightarrow> pl_step st db opts grow World s (s\<lparr>pl_db := d\<rparr>)"
| cancel: "pl_step st db opts grow World s (s\<lparr>pl_cancelled := True\<rparr>)"

abbreviation pl_any :: "pg_store \<Rightarrow> 'd pg_db \<Rightarrow> store_option list \<Rightarrow> ('d \<Rightarrow> 'd \<Rightarrow> bool) \<Rightarrow>
    'd pg_listen \<Rightarrow> 'd pg_listen \<Rightarrow> bool" where
  "pl_any st db opts grow s s' \<equiv> \<exists>a. pl_step st db opts grow a s s'"

section \<open>Delivery\<close>

text \<open>
  What is relied on of the table: at all times it holds the rows of a log, the log in the order of the
  ids, which start at 1; and other sessions only add rows, in any number, with any ids that are not taken,
  also below the ones that are there.
\<close>

definition table_holds :: "('d \<Rightarrow> pg_view) \<Rightarrow> (time \<Rightarrow> time) \<Rightarrow> pg_store \<Rightarrow> 'd \<Rightarrow> domain_event list \<Rightarrow> bool" where
  "table_holds view rnd st d log \<longleftrightarrow> mset (pv_events (view d)) = mset (rows_of rnd st log) \<and> list_all (settled rnd st) log
     \<and> by_global_id log \<and> (\<forall>e \<in> set log. 0 < ev_global_id e)"

definition pg_grows :: "('d \<Rightarrow> pg_view) \<Rightarrow> (time \<Rightarrow> time) \<Rightarrow> pg_store \<Rightarrow> 'd \<Rightarrow> 'd \<Rightarrow> bool" where
  "pg_grows view rnd st d d' \<longleftrightarrow> (\<forall>log. table_holds view rnd st d log \<longrightarrow>
     (\<exists>log'. table_holds view rnd st d' log' \<and> set log \<subseteq> set log'))"

lemma table_holds_unique:
  assumes "table_holds view rnd st d log" "table_holds view rnd st d log'"
  shows "log = log'"
proof -
  from assms have h: "mset (rows_of rnd st log) = mset (rows_of rnd st log')" "by_global_id log" "by_global_id log'"
    "list_all (settled rnd st) log" "list_all (settled rnd st) log'" by (simp_all add: table_holds_def)
  have srt: "sorted_wrt (<) (map (col_u64 ''global_id'') (rows_of rnd st es))" if "by_global_id es" for es
    unfolding rows_of_ids by_global_id_map [symmetric] by (rule that)
  have "rows_of rnd st log = rows_of rnd st log'"
    by (rule sorted_rows_unique [OF h(1) strict_sorted_imp_sorted [OF srt [OF h(2)]] srt [OF h(3)]])
  from scan_rows_of [OF h(4), unfolded this scan_rows_of [OF h(5)]] show ?thesis by simp
qed

text \<open>What is offered, and how far the goroutine has fetched.\<close>

fun pl_offered :: "pl_phase \<Rightarrow> domain_event list" where
  "pl_offered (PlOffering es) = es"
| "pl_offered _ = []"

definition pl_reach :: "'d pg_listen \<Rightarrow> u64" where
  "pl_reach s = (if pl_offered (pl_phase s) = [] then pl_last_id s else ev_global_id (last (pl_offered (pl_phase s))))"

text \<open>What was received and what is offered are events of the log, in the strict order of their ids.\<close>

definition pl_orderly :: "('d \<Rightarrow> pg_view) \<Rightarrow> (time \<Rightarrow> time) \<Rightarrow> pg_store \<Rightarrow> store_option list \<Rightarrow> 'd pg_listen \<Rightarrow> domain_event list \<Rightarrow> bool" where
  "pl_orderly view rnd st opts s log \<longleftrightarrow> table_holds view rnd st (pl_db s) log
     \<and> by_global_id (pl_out s @ pl_offered (pl_phase s))
     \<and> set (pl_out s @ pl_offered (pl_phase s)) \<subseteq> set (filter (visible (resolve_store_config opts)) log)
     \<and> (\<forall>e \<in> set (pl_out s). ev_global_id e \<le> pl_last_id s) \<and> pl_phase s \<noteq> PlOffering []"

text \<open>An event that was visible before the goroutine fetched beyond it is not lost until it closes.\<close>

definition pl_keeps :: "'d pg_listen \<Rightarrow> domain_event \<Rightarrow> bool" where
  "pl_keeps s e \<longleftrightarrow> e \<in> set (pl_out s @ pl_offered (pl_phase s)) \<or> pl_reach s < ev_global_id e
     \<or> pl_phase s \<in> {PlClosing, PlClosed}"

lemma by_global_id_append:
  "by_global_id (xs @ ys) \<longleftrightarrow> by_global_id xs \<and> by_global_id ys \<and> (\<forall>x \<in> set xs. \<forall>y \<in> set ys. ev_global_id x < ev_global_id y)"
  by (simp add: by_global_id_def sorted_wrt_append)

lemma table_holds_fetch:
  assumes "select_ok db view" "table_holds view rnd st d log" "pg_fetch_after st db g 500 opts d = Inr es"
  shows "es = take 500 (after g (filter (visible (resolve_store_config opts)) log))"
  using pg_fetch_answered [OF assms(1) _ _ _ assms(3), of rnd log] assms(2) by (simp add: table_holds_def)

lemma fetched_page:
  assumes "by_global_id vis" "es = take n (after g vis)"
  shows "by_global_id es" "set es \<subseteq> set vis" "\<forall>e \<in> set es. g < ev_global_id e"
    "e \<in> set vis \<Longrightarrow> g < ev_global_id e \<Longrightarrow> e \<notin> set es \<Longrightarrow> es \<noteq> [] \<Longrightarrow> ev_global_id (last es) < ev_global_id e"
proof -
  have sorted: "by_global_id (es @ drop n (after g vis))"
    unfolding assms(2) append_take_drop_id unfolding after_def by (intro by_global_id_filter assms(1))
  then show "by_global_id es" by (simp add: by_global_id_append)
  show "set es \<subseteq> set vis" "\<forall>e \<in> set es. g < ev_global_id e"
    unfolding assms(2) after_def by (auto dest!: in_set_takeD)
  assume e: "e \<in> set vis" "g < ev_global_id e" "e \<notin> set es" "es \<noteq> []"
  have "set (after g vis) = set es \<union> set (drop n (after g vis))"
    unfolding assms(2) by (metis append_take_drop_id set_append)
  then have "e \<in> set (drop n (after g vis))" using e(1-3) by (auto simp: after_def)
  with sorted e(4) show "ev_global_id (last es) < ev_global_id e" by (simp add: by_global_id_append)
qed

lemma pl_orderly_step:
  assumes ok: "select_ok db view" and grow: "\<And>d d'. grow d d' \<Longrightarrow> pg_grows view rnd st d d'"
    and step: "pl_step st db opts grow a s s'" and inv: "pl_orderly view rnd st opts s log"
  shows "\<exists>log'. pl_orderly view rnd st opts s' log' \<and> set log \<subseteq> set log'"
  using step
proof cases
  case (fetched e es)
  let ?vis = "filter (visible (resolve_store_config opts)) log"
  have h: "table_holds view rnd st (pl_db s) log" and vis: "by_global_id ?vis"
    using inv by (simp_all add: pl_orderly_def table_holds_def by_global_id_filter)
  have page: "e # es = take 500 (after (pl_last_id s) ?vis)" by (rule table_holds_fetch [OF ok h fetched(4)])
  note pg = fetched_page [OF vis page]
  have "\<forall>x \<in> set (pl_out s). \<forall>y \<in> set (e # es). ev_global_id x < ev_global_id y"
    using inv pg(3) unfolding pl_orderly_def by (meson le_less_trans)
  with inv pg(1,2) fetched(2,3) show ?thesis
    by (intro exI [of _ log]) (auto simp: pl_orderly_def by_global_id_append)
next
  case (received e es)
  then have "by_global_id (pl_out s @ e # es)" using inv by (simp add: pl_orderly_def)
  then have "\<forall>x \<in> set (pl_out s). ev_global_id x \<le> ev_global_id e" by (auto simp: by_global_id_append intro: less_imp_le)
  with inv received(2,3) show ?thesis by (intro exI [of _ log]) (auto simp: pl_orderly_def)
next
  case (database d)
  have "table_holds view rnd st (pl_db s) log" using inv by (simp add: pl_orderly_def)
  with grow [OF database(3)] obtain log' where "table_holds view rnd st d log'" "set log \<subseteq> set log'"
    unfolding pg_grows_def by blast
  with inv database(2) show ?thesis by (intro exI [of _ log']) (auto simp: pl_orderly_def)
qed (use inv in \<open>auto simp: pl_orderly_def by_global_id_append intro!: exI [of _ log]\<close>)

lemma pl_orderly_steps:
  assumes ok: "select_ok db view" and grow: "\<And>d d'. grow d d' \<Longrightarrow> pg_grows view rnd st d d'"
    and run: "(pl_any st db opts grow)\<^sup>*\<^sup>* s s'" and inv: "pl_orderly view rnd st opts s log"
  shows "\<exists>log'. pl_orderly view rnd st opts s' log' \<and> set log \<subseteq> set log'"
  using run
proof (induction rule: rtranclp_induct)
  case (step t t')
  then obtain log1 where l1: "pl_orderly view rnd st opts t log1" "set log \<subseteq> set log1" by blast
  from step(2) obtain a where "pl_step st db opts grow a t t'" by blast
  from pl_orderly_step [OF ok grow this l1(1)] l1(2) show ?case by blast
qed (use inv in blast)

lemma pl_keeps_step:
  assumes ok: "select_ok db view" and step: "pl_step st db opts grow a s s'"
    and inv: "pl_orderly view rnd st opts s log" "pl_keeps s e" "e \<in> set (filter (visible (resolve_store_config opts)) log)"
  shows "pl_keeps s' e"
  using step
proof cases
  case (fetched x es)
  let ?vis = "filter (visible (resolve_store_config opts)) log"
  have h: "table_holds view rnd st (pl_db s) log" and vis: "by_global_id ?vis"
    using inv(1) by (simp_all add: pl_orderly_def table_holds_def by_global_id_filter)
  have page: "x # es = take 500 (after (pl_last_id s) ?vis)" by (rule table_holds_fetch [OF ok h fetched(4)])
  have "ev_global_id (last (x # es)) < ev_global_id e" if "e \<notin> set (pl_out s)" "e \<notin> set (x # es)"
    using fetched_page(4) [OF vis page inv(3) _ that(2)] inv(2) that(1) fetched(3) by (simp add: pl_keeps_def pl_reach_def)
  then have "e \<in> set (pl_out s) \<or> e \<in> set (x # es) \<or> ev_global_id (last (x # es)) < ev_global_id e" by blast
  with fetched(2) show ?thesis by (auto simp: pl_keeps_def pl_reach_def)
qed (use inv in \<open>auto simp: pl_keeps_def pl_reach_def pl_orderly_def\<close>)

lemma pl_keeps_steps:
  assumes ok: "select_ok db view" and grow: "\<And>d d'. grow d d' \<Longrightarrow> pg_grows view rnd st d d'"
    and run: "(pl_any st db opts grow)\<^sup>*\<^sup>* s s'" and inv: "pl_orderly view rnd st opts s log"
    and e: "pl_keeps s e" "e \<in> set (filter (visible (resolve_store_config opts)) log)"
  shows "pl_keeps s' e"
  using run
proof (induction rule: rtranclp_induct)
  case (step t t')
  from pl_orderly_steps [OF ok grow step(1) inv] obtain log1
    where l1: "pl_orderly view rnd st opts t log1" "set log \<subseteq> set log1" by blast
  from step(2) obtain a where "pl_step st db opts grow a t t'" by blast
  from pl_keeps_step [OF ok this l1(1) step(3)] e(2) l1(2) show ?case by auto
qed (rule e(1))

lemma waits_with_everything:
  assumes ok: "select_ok db view" and inv: "pl_orderly view rnd st opts s log" "pl_keeps s e"
    and e: "e \<in> set (filter (visible (resolve_store_config opts)) log)"
    and step: "pl_step st db opts grow Goroutine s s'" "pl_phase s' = PlWaiting"
  shows "e \<in> set (pl_out s')"
  using step(1)
proof cases
  case drained
  let ?vis = "filter (visible (resolve_store_config opts)) log"
  have "table_holds view rnd st (pl_db s) log" using inv(1) by (simp add: pl_orderly_def)
  from table_holds_fetch [OF ok this drained(3)] have "after (pl_last_id s) ?vis = []" by simp
  then have "\<not> pl_last_id s < ev_global_id e" using e by (auto simp: after_def filter_empty_conv)
  with inv(2) drained show ?thesis by (simp add: pl_keeps_def pl_reach_def)
qed (use step(2) in auto)

text \<open>
  C23. \<^verbatim>\<open>StreamAll\<close> of the Postgres store, under every interleaving of its goroutine with its receiver, with
  other sessions that add rows in whatever order of their ids, and with the cancellation of its
  context. What was received are at all times events of the log that the scope sees, in the strict
  order of their ids: nothing is repeated and nothing comes out of order. And an event that is visible
  while the goroutine has not yet fetched beyond its id is not lost: whenever the goroutine, later,
  goes to wait, it has been received. (An event that becomes visible after the goroutine has fetched
  beyond its id is the case of C25.)
\<close>

theorem pg_streaming_in_order:
  assumes ok: "select_ok db view" and grow: "\<And>d d'. grow d d' \<Longrightarrow> pg_grows view rnd st d d'"
    and start: "table_holds view rnd st d0 log0" and run: "(pl_any st db opts grow)\<^sup>*\<^sup>* (pl_start d0) s"
  shows "\<exists>log. table_holds view rnd st (pl_db s) log \<and> set log0 \<subseteq> set log
    \<and> by_global_id (pl_out s) \<and> set (pl_out s) \<subseteq> set (filter (visible (resolve_store_config opts)) log)
    \<and> (\<forall>e s' s''. e \<in> set (filter (visible (resolve_store_config opts)) log) \<longrightarrow> pl_reach s < ev_global_id e \<longrightarrow>
         (pl_any st db opts grow)\<^sup>*\<^sup>* s s' \<longrightarrow> pl_step st db opts grow Goroutine s' s'' \<longrightarrow> pl_phase s'' = PlWaiting \<longrightarrow>
         e \<in> set (pl_out s''))"
proof -
  have "pl_orderly view rnd st opts (pl_start d0) log0"
    using start by (simp add: pl_orderly_def pl_start_def by_global_id_def)
  from pl_orderly_steps [OF ok grow run this] obtain log
    where inv: "pl_orderly view rnd st opts s log" "set log0 \<subseteq> set log" by blast
  have "e \<in> set (pl_out s'')"
    if e: "e \<in> set (filter (visible (resolve_store_config opts)) log)" "pl_reach s < ev_global_id e"
      and later: "(pl_any st db opts grow)\<^sup>*\<^sup>* s s'" "pl_step st db opts grow Goroutine s' s''" "pl_phase s'' = PlWaiting" for e s' s''
  proof -
    from e(2) have "pl_keeps s e" by (simp add: pl_keeps_def)
    from pl_keeps_steps [OF ok grow later(1) inv(1) this e(1)] have k: "pl_keeps s' e" .
    from pl_orderly_steps [OF ok grow later(1) inv(1)] obtain log1
      where l1: "pl_orderly view rnd st opts s' log1" "set log \<subseteq> set log1" by blast
    with e(1) have "e \<in> set (filter (visible (resolve_store_config opts)) log1)" by auto
    from waits_with_everything [OF ok l1(1) k this later(2,3)] show ?thesis .
  qed
  with inv show ?thesis by (auto simp: pl_orderly_def by_global_id_append)
qed

section \<open>Shutting down\<close>

text \<open>Nothing is on the channel of errors while the goroutine may still send to it.\<close>

definition listen_failed :: "'d pg_listen \<Rightarrow> bool" where
  "listen_failed s \<longleftrightarrow> (\<exists>err. ErrWrap ''pgstore: listen'' err \<in> set (pl_errs s @ pl_errc s))"

definition pl_sound :: "'d pg_listen \<Rightarrow> bool" where
  "pl_sound s \<longleftrightarrow> length (pl_errs s @ pl_errc s) \<le> 2 \<and> length (pl_errc s) \<le> 1
     \<and> (case pl_phase s of
          PlStarting \<Rightarrow> pl_errs s @ pl_errc s = [] \<and> \<not> pl_listener s
        | PlListening \<Rightarrow> pl_errs s @ pl_errc s = [] \<and> pl_listener s
        | PlClosing \<Rightarrow> length (pl_errs s @ pl_errc s) \<le> 1 \<and> pl_listener s
        | PlClosed \<Rightarrow> pl_listener s \<longrightarrow> listen_failed s
        | _ \<Rightarrow> pl_errs s @ pl_errc s = [] \<and> pl_listener s)"

lemma pl_sound_step: "pl_step st db opts grow a s s' \<Longrightarrow> pl_sound s \<Longrightarrow> pl_sound s'"
  by (induction rule: pl_step.induct) (auto simp: pl_sound_def listen_failed_def split: pl_phase.splits)

lemma pl_sound_steps: "(pl_any st db opts grow)\<^sup>*\<^sup>* (pl_start d) s \<Longrightarrow> pl_sound s"
proof (induction rule: rtranclp_induct)
  case base
  then show ?case by (simp add: pl_sound_def pl_start_def)
qed (use pl_sound_step in blast)

lemma pl_closes:
  assumes "pl_phase s = PlClosing"
  shows "\<exists>s'. (pl_step st db opts grow Goroutine)\<^sup>*\<^sup>* s s' \<and> pl_phase s' = PlClosed \<and> pl_out s' = pl_out s"
  using pl_step.closed [OF assms, of st db opts grow] by (intro exI conjI, rule r_into_rtranclp) auto

text \<open>
  C24. A \<^verbatim>\<open>StreamAll\<close> of the Postgres store whose context is cancelled can end without a receiver,
  wherever it is, unless it is still in \<^verbatim>\<open>Listen\<close>: it needs nobody to take the event it offers or an error it has sent. When it has ended,
  at most one error is on its channel, and its listener connection is closed, unless \<^verbatim>\<open>Listen\<close> failed.
\<close>

theorem pg_stream_shuts_down:
  assumes "(pl_any st db opts grow)\<^sup>*\<^sup>* (pl_start d) s" "pl_cancelled s" "pl_phase s \<noteq> PlListening"
  shows "\<exists>s'. (pl_step st db opts grow Goroutine)\<^sup>*\<^sup>* s s' \<and> pl_phase s' = PlClosed \<and> pl_out s' = pl_out s
    \<and> length (pl_errc s') \<le> 1 \<and> (pl_listener s' \<longrightarrow> listen_failed s')"
proof -
  let ?go = "pl_step st db opts grow Goroutine"
  note sound = pl_sound_steps [OF assms(1)]
  have via: "\<exists>s'. ?go\<^sup>*\<^sup>* s s' \<and> pl_phase s' = PlClosed \<and> pl_out s' = pl_out s"
    if "?go s (s\<lparr>pl_errc := es, pl_phase := PlClosing\<rparr>)" for es
  proof -
    obtain s' where "?go\<^sup>*\<^sup>* (s\<lparr>pl_errc := es, pl_phase := PlClosing\<rparr>) s'" "pl_phase s' = PlClosed" "pl_out s' = pl_out s"
      using pl_closes [of "s\<lparr>pl_errc := es, pl_phase := PlClosing\<rparr>" st db opts grow] by auto
    with that show ?thesis by (meson converse_rtranclp_into_rtranclp)
  qed
  have "\<exists>s'. ?go\<^sup>*\<^sup>* s s' \<and> pl_phase s' = PlClosed \<and> pl_out s' = pl_out s"
  proof (cases "pl_phase s")
    case PlStarting
    from pl_step.not_started [OF this assms(2), of st db opts grow] show ?thesis
      by (intro exI conjI, rule r_into_rtranclp) auto
  next
    case PlFetching
    then have "pl_errc s = []" using sound by (simp add: pl_sound_def)
    from via pl_step.fetch_failed [OF PlFetching disjI2 [OF assms(2)] this] show ?thesis by blast
  next
    case (PlOffering es)
    from via [of "pl_errc s"] pl_step.offer_cancelled [OF PlOffering assms(2), of st db opts grow] show ?thesis by simp
  next
    case PlWaiting
    from via [of "pl_errc s"] pl_step.wait_cancelled [OF PlWaiting assms(2), of st db opts grow] show ?thesis by simp
  next
    case PlClosing
    then show ?thesis by (rule pl_closes)
  qed (use assms(3) in auto)
  then obtain s' where s': "?go\<^sup>*\<^sup>* s s'" "pl_phase s' = PlClosed" "pl_out s' = pl_out s" by blast
  have "pl_sound s'" using s'(1) sound by (induction rule: rtranclp_induct) (auto intro: pl_sound_step)
  with s' show ?thesis by (auto simp: pl_sound_def)
qed

text \<open>When \<^verbatim>\<open>Listen\<close> fails, the goroutine returns before it defers the \<^verbatim>\<open>Close\<close> of the listener it made.\<close>

lemma listen_failure_leaks:
  "\<exists>s. (pl_any st db opts grow)\<^sup>*\<^sup>* (pl_start d) s \<and> pl_phase s = PlClosed
    \<and> (\<forall>s'. (pl_any st db opts grow)\<^sup>*\<^sup>* s s' \<longrightarrow> pl_listener s')"
proof -
  let ?s = "(pl_start d)\<lparr>pl_listener := True, pl_errc := [ErrWrap ''pgstore: listen'' ErrJson], pl_phase := PlClosed\<rparr>"
  let ?l = "(pl_start d)\<lparr>pl_listener := True, pl_phase := PlListening\<rparr>"
  have "pl_any st db opts grow (pl_start d) ?l" "pl_any st db opts grow ?l ?s"
    using pl_step.started [of "pl_start d" st db opts grow] pl_step.listen_failed [of ?l st db opts grow ErrJson]
    by (auto simp: pl_start_def)
  then have "(pl_any st db opts grow)\<^sup>*\<^sup>* (pl_start d) ?s" by (rule rtranclp_trans [OF r_into_rtranclp r_into_rtranclp])
  moreover have "pl_phase s' = PlClosed \<and> pl_listener s'" if "(pl_any st db opts grow)\<^sup>*\<^sup>* ?s s'" for s'
    using that by (induction rule: rtranclp_induct) (auto elim: pl_step.cases)
  ultimately show ?thesis by (intro exI [of _ ?s]) auto
qed

section \<open>Examples\<close>

text \<open>
  The table holds the event 2; a slower transaction adds the event 1 before the first page is fetched. Both
  are delivered in the order of their ids, and then the goroutine waits.
\<close>

lemma sample_table_log:
  "sorted_wrt (<) ids \<Longrightarrow> 0 \<notin> set ids \<Longrightarrow> table_holds (\<lambda>d. d) (\<lambda>t. t) (pg_new []) (sample_table ids) (sample_log ids)"
  using sample_table_holds [of ids] by (auto simp: pg_holds_def table_holds_def) (auto simp: sample_log_def word_gt_0)

lemma sample_grows: "pg_grows (\<lambda>d. d) (\<lambda>t. t) (pg_new []) (sample_table [2]) (sample_table [1, 2])"
proof -
  have "\<exists>log'. table_holds (\<lambda>d. d) (\<lambda>t. t) (pg_new []) (sample_table [1, 2]) log' \<and> set log \<subseteq> set log'"
    if "table_holds (\<lambda>d. d) (\<lambda>t. t) (pg_new []) (sample_table [2]) log" for log
  proof -
    have "log = sample_log [2]" by (rule table_holds_unique [OF that sample_table_log]) simp_all
    then have "set log \<subseteq> set (sample_log [1, 2])" by (simp add: sample_log_def)
    with sample_table_log [of "[1, 2]"] show ?thesis by auto
  qed
  then show ?thesis unfolding pg_grows_def by blast
qed

abbreviation sample_slow :: "pg_view \<Rightarrow> pg_view \<Rightarrow> bool" where
  "sample_slow d d' \<equiv> d = sample_table [2] \<and> d' = sample_table [1, 2]"

abbreviation sample_any :: "pg_view pg_listen \<Rightarrow> pg_view pg_listen \<Rightarrow> bool" where
  "sample_any \<equiv> pl_any (pg_new []) sample_pg [WithTenant 5] sample_slow"

definition sample_state :: "pl_phase \<Rightarrow> u64 \<Rightarrow> domain_event list \<Rightarrow> u64 list \<Rightarrow> pg_view pg_listen" where
  "sample_state p g out ids = (pl_start (sample_table ids))\<lparr>pl_phase := p, pl_last_id := g, pl_out := out, pl_listener := True\<rparr>"

lemma sample_state_sel [simp]:
  "pl_phase (sample_state p g out ids) = p" "pl_last_id (sample_state p g out ids) = g" "pl_out (sample_state p g out ids) = out"
  "pl_db (sample_state p g out ids) = sample_table ids"
  "(sample_state p g out ids)\<lparr>pl_phase := q\<rparr> = sample_state q g out ids"
  "(sample_state p g out ids)\<lparr>pl_db := sample_table ids'\<rparr> = sample_state p g out ids'"
  "(sample_state p g out ids)\<lparr>pl_out := out', pl_last_id := g', pl_phase := q\<rparr> = sample_state q g' out' ids"
  by (simp_all add: sample_state_def pl_start_def)

lemma sample_run_first:
  "sample_any\<^sup>*\<^sup>* (pl_start (sample_table [2])) (sample_state PlFetching 0 [] [1, 2])"
proof -
  have s1: "sample_any (pl_start (sample_table [2])) (sample_state PlListening 0 [] [2])"
    using pl_step.started [of "pl_start (sample_table [2])"] by (fastforce simp: pl_start_def sample_state_def)
  have s2: "sample_any (sample_state PlListening 0 [] [2]) (sample_state PlFetching 0 [] [2])"
    using pl_step.listening [of "sample_state PlListening 0 [] [2]"] by fastforce
  have s3: "sample_any (sample_state PlFetching 0 [] [2]) (sample_state PlFetching 0 [] [1, 2])"
    using pl_step.database [of sample_slow "sample_state PlFetching 0 [] [2]" "sample_table [1, 2]"] by fastforce
  show ?thesis
    by (rule converse_rtranclp_into_rtranclp [where r = sample_any, OF s1],
      rule converse_rtranclp_into_rtranclp [where r = sample_any, OF s2], rule r_into_rtranclp [where r = sample_any, OF s3])
qed

lemma sample_run_second:
  "sample_any\<^sup>*\<^sup>* (sample_state PlFetching 0 [] [1, 2]) (sample_state PlFetching 2 (sample_log [1, 2]) [1, 2])"
  "pl_step (pg_new []) sample_pg [WithTenant 5] sample_slow Goroutine
     (sample_state PlFetching 2 (sample_log [1, 2]) [1, 2]) (sample_state PlWaiting 2 (sample_log [1, 2]) [1, 2])"
proof -
  let ?e = "hd (sample_log [1])" and ?f = "hd (sample_log [2])"
  have s4: "sample_any (sample_state PlFetching 0 [] [1, 2]) (sample_state (PlOffering [?e, ?f]) 0 [] [1, 2])"
    using pl_step.fetched [of "sample_state PlFetching 0 [] [1, 2]" "pg_new []" sample_pg "[WithTenant 5]" ?e "[?f]" sample_slow]
      sample_fetch [of "[1, 2]" 0]
    by (fastforce simp: sample_log_def)
  have s5: "sample_any (sample_state (PlOffering [?e, ?f]) 0 [] [1, 2]) (sample_state (PlOffering [?f]) 1 [?e] [1, 2])"
    using pl_step.received [of "sample_state (PlOffering [?e, ?f]) 0 [] [1, 2]" ?e "[?f]"]
    by (fastforce simp: sample_log_def)
  have s6: "sample_any (sample_state (PlOffering [?f]) 1 [?e] [1, 2]) (sample_state PlFetching 2 (sample_log [1, 2]) [1, 2])"
    using pl_step.received [of "sample_state (PlOffering [?f]) 1 [?e] [1, 2]" ?f "[]"]
    by (fastforce simp: sample_log_def)
  show "sample_any\<^sup>*\<^sup>* (sample_state PlFetching 0 [] [1, 2]) (sample_state PlFetching 2 (sample_log [1, 2]) [1, 2])"
    by (rule converse_rtranclp_into_rtranclp [where r = sample_any, OF s4],
      rule converse_rtranclp_into_rtranclp [where r = sample_any, OF s5], rule r_into_rtranclp [where r = sample_any, OF s6])
  show "pl_step (pg_new []) sample_pg [WithTenant 5] sample_slow Goroutine
     (sample_state PlFetching 2 (sample_log [1, 2]) [1, 2]) (sample_state PlWaiting 2 (sample_log [1, 2]) [1, 2])"
    using pl_step.drained [of "sample_state PlFetching 2 (sample_log [1, 2]) [1, 2]" "pg_new []" sample_pg "[WithTenant 5]" sample_slow]
      sample_fetch [of "[1, 2]" 2]
    by (simp add: sample_log_def)
qed

theorem pg_streaming_in_order_witness:
  "\<exists>s s' s''. sample_any\<^sup>*\<^sup>* (pl_start (sample_table [2])) s \<and> sample_any\<^sup>*\<^sup>* s s'
    \<and> pl_step (pg_new []) sample_pg [WithTenant 5] sample_slow Goroutine s' s'' \<and> pl_phase s'' = PlWaiting
    \<and> set (sample_log [1, 2]) \<subseteq> set (pl_out s'')"
proof -
  let ?s = "sample_state PlFetching 0 [] [1, 2]" and ?s' = "sample_state PlFetching 2 (sample_log [1, 2]) [1, 2]"
    and ?s'' = "sample_state PlWaiting 2 (sample_log [1, 2]) [1, 2]"
  have grow: "\<And>d d'. sample_slow d d' \<Longrightarrow> pg_grows (\<lambda>d. d) (\<lambda>t. t) (pg_new []) d d'" using sample_grows by simp
  have start: "table_holds (\<lambda>d. d) (\<lambda>t. t) (pg_new []) (sample_table [2]) (sample_log [2])" by (rule sample_table_log) simp_all
  from pg_streaming_in_order [OF sample_select_ok grow start sample_run_first] obtain log
    where log: "table_holds (\<lambda>d. d) (\<lambda>t. t) (pg_new []) (pl_db ?s) log"
      "\<And>e. e \<in> set (filter (visible (resolve_store_config [WithTenant 5])) log) \<Longrightarrow> pl_reach ?s < ev_global_id e \<Longrightarrow>
         e \<in> set (pl_out ?s'')"
    using sample_run_second by (smt (verit) sample_state_sel(1))
  have "log = sample_log [1, 2]" using table_holds_unique [OF log(1)] sample_table_log [of "[1, 2]"] by simp
  then have "set (sample_log [1, 2]) \<subseteq> set (pl_out ?s'')"
    using log(2) by (auto simp: sample_log_def visible_def pl_reach_def)
  with sample_run_first sample_run_second show ?thesis by (intro exI [of _ ?s] exI [of _ ?s'] exI [of _ ?s'']) simp
qed

theorem pg_stream_shuts_down_witness:
  "\<exists>s'. (pl_step (pg_new []) sample_pg [] (\<lambda>_ _. False) Goroutine)\<^sup>*\<^sup>* ((pl_start (sample_table [2]))\<lparr>pl_cancelled := True\<rparr>) s'
    \<and> pl_phase s' = PlClosed"
proof -
  have "pl_any (pg_new []) sample_pg [] (\<lambda>_ _. False) (pl_start (sample_table [2])) ((pl_start (sample_table [2]))\<lparr>pl_cancelled := True\<rparr>)"
    using pl_step.cancel by blast
  from pg_stream_shuts_down [OF r_into_rtranclp [where r = "pl_any (pg_new []) sample_pg [] (\<lambda>_ _. False)", OF this]]
  show ?thesis by (auto simp: pl_start_def)
qed

end
