(* ===== verification/Pg_Concurrent.thy ===== *)
theory Pg_Concurrent
  imports Pg_Commit
begin

text \<open>
  Many \<^verbatim>\<open>pgstore.Store.Commit\<close> calls at once. One step of the relation \<open>commit_step\<close> is one statement of
  one transaction, in the order of the code; between its statements any other transaction may run.
  Of the server the relation has what the code relies on: a transaction-scoped advisory lock per
  \<^verbatim>\<open>hashtext\<close> of the aggregate id, statements that see what is committed when they run (the default
  isolation level) and what their own transaction inserted, a sequence that never goes back, and the
  unique index, which makes an insert wait for an open transaction that inserted the same key.
\<close>

section \<open>State and steps\<close>

text \<open>
  Where a call of \<^verbatim>\<open>Commit\<close> is: about to take the lock, about to read the version, inserting (with the
  aggregate, the expected version, what it inserted and the events that are left), or returned.
\<close>

datatype tx_phase =
    TxIdle
  | TxBegun store_config "domain_event list" u64
  | TxLocked store_config "domain_event list" u64
  | TxInserting store_config uuid u64 "pg_row list" "domain_event list"
  | TxEnded "error option"

record pg_world =
  pw_rows :: "pg_row list"
  pw_seq :: u64
  pw_locks :: "int \<Rightarrow> nat option"
  pw_tx :: "nat \<Rightarrow> tx_phase"

definition pw_init :: pg_world where
  "pw_init = \<lparr>pw_rows = [], pw_seq = 0, pw_locks = Map.empty, pw_tx = (\<lambda>_. TxIdle)\<rparr>"

fun phase_pending :: "tx_phase \<Rightarrow> pg_row list" where
  "phase_pending (TxInserting cfg i v p es) = p"
| "phase_pending _ = []"

fun in_transaction :: "tx_phase \<Rightarrow> bool" where
  "in_transaction TxIdle = False"
| "in_transaction (TxEnded r) = False"
| "in_transaction _ = True"

text \<open>The transaction is over, however it ends, and its lock with it.\<close>

definition end_tx :: "nat \<Rightarrow> error option \<Rightarrow> pg_world \<Rightarrow> pg_world" where
  "end_tx c r w = w\<lparr>pw_locks := (\<lambda>k. if pw_locks w k = Some c then None else pw_locks w k),
     pw_tx := (pw_tx w)(c := TxEnded r)\<rparr>"

definition set_tx :: "nat \<Rightarrow> tx_phase \<Rightarrow> pg_world \<Rightarrow> pg_world" where
  "set_tx c ph w = w\<lparr>pw_tx := (pw_tx w)(c := ph)\<rparr>"

text \<open>What the code's version query, with the arguments it passes, yields over the rows it sees.\<close>

definition queried_version :: "store_config \<Rightarrow> uuid \<Rightarrow> pg_row list \<Rightarrow> u64" where
  "queried_version cfg i rows =
     (case pg_version_query cfg i of
        (SelectVersion conds, args) \<Rightarrow> max_version (matching conds args rows)
      | _ \<Rightarrow> 0)"

lemma queried_version_eq: "queried_version cfg i rows = table_version cfg i rows"
  by (cases "cfg_tenant_id cfg")
    (simp_all add: queried_version_def pg_version_query_def table_version_def matching_def Let_def)

text \<open>
  The callers, up to the relation \<open>calls opts es v\<close>: with which options, events and expected versions
  \<^verbatim>\<open>Commit\<close> may be called. \<open>Statement c\<close> is a step of call \<open>c\<close> in which the database does what it is asked;
  in \<open>Fault c\<close> a call to it fails, and of a failed \<^verbatim>\<open>COMMIT\<close> it is open whether it happened. \<^verbatim>\<open>BeginTx\<close>
  and the statement that sets the session variable, which touch no row, are one step with the checks
  before them.
\<close>

datatype pg_label = Statement nat | Fault nat

inductive commit_step :: "(time \<Rightarrow> time) \<Rightarrow> pg_store \<Rightarrow> (uuid \<Rightarrow> int) \<Rightarrow>
    (store_option list \<Rightarrow> domain_event list \<Rightarrow> u64 \<Rightarrow> bool) \<Rightarrow> pg_label \<Rightarrow> pg_world \<Rightarrow> pg_world \<Rightarrow> bool"
  for rnd st key calls where
  no_events: "\<not> in_transaction (pw_tx w c) \<Longrightarrow> calls opts [] v \<Longrightarrow>
    commit_step rnd st key calls (Statement c) w (end_tx c None w)"
| not_tracked: "\<not> in_transaction (pw_tx w c) \<Longrightarrow> calls opts es v \<Longrightarrow> es \<noteq> [] \<Longrightarrow> cfg = resolve_store_config opts \<Longrightarrow>
    err = (if \<not> list_all (actor_tracked st) (map (stamp_tenant cfg) es)
      then ErrText ''pgstore: event carries an actor but this Store was not built with WithActorTracking''
      else ErrText ''pgstore: event carries a PiiID but this Store was not built with WithPiiTracking'') \<Longrightarrow>
    \<not> (list_all (actor_tracked st) (map (stamp_tenant cfg) es) \<and> list_all (pii_tracked st) (map (stamp_tenant cfg) es)) \<Longrightarrow>
    commit_step rnd st key calls (Statement c) w (end_tx c (Some err) w)"
| begin_tx: "\<not> in_transaction (pw_tx w c) \<Longrightarrow> calls opts es v \<Longrightarrow> es \<noteq> [] \<Longrightarrow> cfg = resolve_store_config opts \<Longrightarrow>
    list_all (actor_tracked st) (map (stamp_tenant cfg) es) \<Longrightarrow> list_all (pii_tracked st) (map (stamp_tenant cfg) es) \<Longrightarrow>
    commit_step rnd st key calls (Statement c) w (set_tx c (TxBegun cfg (map (stamp_tenant cfg) es) v) w)"
| take_lock: "pw_tx w c = TxBegun cfg es v \<Longrightarrow> pw_locks w (key (ev_aggregate_id (hd es))) = None \<Longrightarrow>
    commit_step rnd st key calls (Statement c) w (set_tx c (TxLocked cfg es v)
      (w\<lparr>pw_locks := (pw_locks w)(key (ev_aggregate_id (hd es)) \<mapsto> c)\<rparr>))"
| version_ok: "pw_tx w c = TxLocked cfg es v \<Longrightarrow> queried_version cfg (ev_aggregate_id (hd es)) (pw_rows w) = v \<Longrightarrow>
    commit_step rnd st key calls (Statement c) w (set_tx c (TxInserting cfg (ev_aggregate_id (hd es)) v [] es) w)"
| version_differs: "pw_tx w c = TxLocked cfg es v \<Longrightarrow> queried_version cfg (ev_aggregate_id (hd es)) (pw_rows w) \<noteq> v \<Longrightarrow>
    commit_step rnd st key calls (Statement c) w (end_tx c (Some ErrConcurrencyConflict) w)"
| insert_row: "pw_tx w c = TxInserting cfg i v p (e # es) \<Longrightarrow> pw_seq w < g \<Longrightarrow>
    \<forall>q \<in> set (pw_rows w @ p). \<not> same_version q (event_row rnd st g e) \<Longrightarrow>
    \<forall>b. b \<noteq> c \<longrightarrow> (\<forall>q \<in> set (phase_pending (pw_tx w b)). \<not> same_version q (event_row rnd st g e)) \<Longrightarrow>
    commit_step rnd st key calls (Statement c) w
      (set_tx c (TxInserting cfg i v (p @ [event_row rnd st g e]) es) (w\<lparr>pw_seq := g\<rparr>))"
| insert_duplicate: "pw_tx w c = TxInserting cfg i v p (e # es) \<Longrightarrow>
    \<exists>q \<in> set (pw_rows w @ p). same_version q (event_row rnd st g e) \<Longrightarrow>
    commit_step rnd st key calls (Statement c) w (end_tx c (Some (ErrWrap ''pgstore: insert event'' err)) w)"
| commit_tx: "pw_tx w c = TxInserting cfg i v p [] \<Longrightarrow>
    commit_step rnd st key calls (Statement c) w (end_tx c None (w\<lparr>pw_rows := pw_rows w @ p\<rparr>))"
| begin_fails: "\<not> in_transaction (pw_tx w c) \<Longrightarrow> calls opts es v \<Longrightarrow>
    commit_step rnd st key calls (Fault c) w (end_tx c (Some err) w)"
| tx_fails: "in_transaction (pw_tx w c) \<Longrightarrow> commit_step rnd st key calls (Fault c) w (end_tx c (Some err) w)"
| commit_unconfirmed: "pw_tx w c = TxInserting cfg i v p [] \<Longrightarrow>
    commit_step rnd st key calls (Fault c) w (end_tx c (Some err) (w\<lparr>pw_rows := pw_rows w @ p\<rparr>))"

inductive commit_reach :: "(time \<Rightarrow> time) \<Rightarrow> pg_store \<Rightarrow> (uuid \<Rightarrow> int) \<Rightarrow>
    (store_option list \<Rightarrow> domain_event list \<Rightarrow> u64 \<Rightarrow> bool) \<Rightarrow> pg_world \<Rightarrow> bool"
  for rnd st key calls where
  init: "commit_reach rnd st key calls pw_init"
| step: "commit_reach rnd st key calls w \<Longrightarrow> commit_step rnd st key calls l w w' \<Longrightarrow> commit_reach rnd st key calls w'"

inductive_cases commit_stepE: "commit_step rnd st key calls l w w'"

lemma set_tx_sel [simp]:
  "pw_rows (set_tx c ph w) = pw_rows w" "pw_seq (set_tx c ph w) = pw_seq w" "pw_locks (set_tx c ph w) = pw_locks w"
  "pw_tx (set_tx c ph w) = (pw_tx w)(c := ph)"
  by (simp_all add: set_tx_def)

lemma end_tx_sel [simp]:
  "pw_rows (end_tx c r w) = pw_rows w" "pw_seq (end_tx c r w) = pw_seq w"
  "pw_locks (end_tx c r w) k = (if pw_locks w k = Some c then None else pw_locks w k)"
  "pw_tx (end_tx c r w) = (pw_tx w)(c := TxEnded r)"
  by (simp_all add: end_tx_def)

section \<open>The callers\<close>

text \<open>
  A batch as the aggregates of the library make it: of one aggregate and one tenant, numbered on from
  the version it was built on.
\<close>

definition batch_on :: "uuid \<Rightarrow> uuid \<Rightarrow> u64 \<Rightarrow> domain_event list \<Rightarrow> bool" where
  "batch_on t i v es \<longleftrightarrow> list_all (\<lambda>e. ev_aggregate_id e = i \<and> ev_tenant_id e = t) es \<and> versions_from v es
     \<and> unat v + length es < 2 ^ 64"

text \<open>
  \<open>owner i = Some t\<close>: the aggregate id \<open>i\<close> is used by the tenant \<open>t\<close> alone (the nil tenant, in an
  application without tenants). The scope of a commit has the tenant of its events; it may leave the
  tenant out, as the default does, for an id with an owner, but not for an id that several tenants
  use: there the query without a tenant reads the highest version of all of them.
\<close>

definition scope_ok :: "(uuid \<Rightarrow> uuid option) \<Rightarrow> store_config \<Rightarrow> uuid \<Rightarrow> uuid \<Rightarrow> bool" where
  "scope_ok owner cfg i t \<longleftrightarrow> (cfg_tenant_id cfg = Some t \<or> cfg_tenant_id cfg = None \<and> owner i = Some t)
     \<and> (\<forall>u. owner i = Some u \<longrightarrow> t = u)"

definition call_ok :: "(uuid \<Rightarrow> uuid option) \<Rightarrow> store_config \<Rightarrow> domain_event list \<Rightarrow> u64 \<Rightarrow> bool" where
  "call_ok owner cfg es v \<longleftrightarrow> es \<noteq> [] \<and> (\<exists>t. scope_ok owner cfg (ev_aggregate_id (hd es)) t
     \<and> batch_on t (ev_aggregate_id (hd es)) v es)"

definition aggregate_call :: "(uuid \<Rightarrow> uuid option) \<Rightarrow> store_option list \<Rightarrow> domain_event list \<Rightarrow> u64 \<Rightarrow> bool" where
  "aggregate_call owner opts es v \<longleftrightarrow> es = []
     \<or> call_ok owner (resolve_store_config opts) (map (stamp_tenant (resolve_store_config opts)) es) v"

definition owners_hold :: "(uuid \<Rightarrow> uuid option) \<Rightarrow> pg_row list \<Rightarrow> bool" where
  "owners_hold owner rows \<longleftrightarrow> (\<forall>q \<in> set rows. \<forall>i t. q ''aggregate_id'' = VUuid i \<longrightarrow> owner i = Some t \<longrightarrow>
     q ''tenant_id'' = VUuid t)"

section \<open>The invariant\<close>

text \<open>The rows of one stream, and what it is for them to be numbered without gap or repetition.\<close>

definition stream_rows :: "uuid \<Rightarrow> uuid \<Rightarrow> pg_row list \<Rightarrow> pg_row list" where
  "stream_rows t i rows = filter (\<lambda>r. r ''aggregate_id'' = VUuid i \<and> r ''tenant_id'' = VUuid t) rows"

definition numbered :: "pg_row list \<Rightarrow> bool" where
  "numbered rs \<longleftrightarrow> map (\<lambda>r. r ''aggregate_version'') rs = map (\<lambda>k. VU64 (of_nat k)) [1..<Suc (length rs)]
     \<and> length rs < 2 ^ 64"

lemma stream_rows_append [simp]: "stream_rows t i (xs @ ys) = stream_rows t i xs @ stream_rows t i ys"
  by (simp add: stream_rows_def)

lemma numbered_snoc:
  assumes "numbered rs" "r ''aggregate_version'' = VU64 (of_nat (length rs) + 1)" "Suc (length rs) < 2 ^ 64"
  shows "numbered (rs @ [r])"
  using assms by (simp add: numbered_def add.commute)

lemma max_numbered:
  assumes "n < 2 ^ 64"
  shows "fold max (map (of_nat :: nat \<Rightarrow> u64) [1..<Suc n]) 0 = of_nat n"
  using assms
proof (induction n)
  case (Suc n)
  have "(of_nat n :: u64) \<le> of_nat (Suc n)"
    using Suc.prems by (simp add: word_le_nat_alt unat_of_nat del: of_nat_Suc)
  with Suc show ?case by (simp add: max_def del: of_nat_Suc)
qed simp

lemma numbered_max_version:
  assumes "numbered rs"
  shows "max_version rs = of_nat (length rs)"
proof -
  have "map (col_u64 ''aggregate_version'') rs = map (\<lambda>v. case as_u64 v of None \<Rightarrow> 0 | Some n \<Rightarrow> n) (map (\<lambda>r. r ''aggregate_version'') rs)"
    by (simp add: col_u64_def comp_def)
  also have "\<dots> = map of_nat [1..<Suc (length rs)]"
    using assms by (simp add: numbered_def comp_def del: upt_Suc)
  finally show ?thesis using assms max_numbered by (simp add: max_version_def numbered_def del: upt_Suc)
qed

lemma scope_okD:
  assumes "scope_ok owner cfg i t"
  shows "cfg_tenant_id cfg = Some u \<Longrightarrow> u = t" "cfg_tenant_id cfg = None \<Longrightarrow> owner i = Some t"
    "owner i = Some u \<Longrightarrow> t = u"
  using assms unfolding scope_ok_def by force+

lemma numbered_queried_version:
  assumes "numbered (stream_rows t i rows)" "scope_ok owner cfg i t" "owners_hold owner rows"
  shows "queried_version cfg i rows = of_nat (length (stream_rows t i rows))"
proof (cases "cfg_tenant_id cfg")
  case (Some u)
  then have "u = t" by (rule scope_okD(1) [OF assms(2)])
  with Some have "queried_version cfg i rows = max_version (stream_rows t i rows)"
    by (simp add: queried_version_eq table_version_def stream_rows_def)
  with numbered_max_version [OF assms(1)] show ?thesis by simp
next
  case None
  then have "owner i = Some t" by (rule scope_okD(2) [OF assms(2)])
  then have "filter (\<lambda>r. r ''aggregate_id'' = VUuid i) rows = stream_rows t i rows"
    unfolding stream_rows_def using assms(3) by (intro filter_cong) (auto simp: owners_hold_def)
  with None assms(1) show ?thesis
    by (simp add: queried_version_eq table_version_def numbered_max_version)
qed

definition inserting_ok :: "pg_row list \<Rightarrow> uuid \<Rightarrow> uuid \<Rightarrow> u64 \<Rightarrow> pg_row list \<Rightarrow> domain_event list \<Rightarrow> bool" where
  "inserting_ok rows t i v p es \<longleftrightarrow> stream_rows t i p = p \<and> numbered (stream_rows t i rows @ p)
     \<and> length (stream_rows t i rows @ p) + length es < 2 ^ 64
     \<and> v = of_nat (length (stream_rows t i rows))
     \<and> batch_on t i (of_nat (length (stream_rows t i rows @ p))) es"

fun phase_ok :: "(uuid \<Rightarrow> uuid option) \<Rightarrow> pg_row list \<Rightarrow> tx_phase \<Rightarrow> bool" where
  "phase_ok owner rows (TxBegun cfg es v) = call_ok owner cfg es v"
| "phase_ok owner rows (TxLocked cfg es v) = call_ok owner cfg es v"
| "phase_ok owner rows (TxInserting cfg i v p es) = (\<exists>t. scope_ok owner cfg i t \<and> inserting_ok rows t i v p es)"
| "phase_ok owner rows _ = True"

text \<open>The aggregate whose lock a transaction holds.\<close>

fun phase_aggregate :: "tx_phase \<Rightarrow> uuid option" where
  "phase_aggregate (TxLocked cfg es v) = Some (ev_aggregate_id (hd es))"
| "phase_aggregate (TxInserting cfg i v p es) = Some i"
| "phase_aggregate _ = None"

definition world_inv :: "(uuid \<Rightarrow> uuid option) \<Rightarrow> (uuid \<Rightarrow> int) \<Rightarrow> pg_world \<Rightarrow> bool" where
  "world_inv owner key w \<longleftrightarrow> (\<forall>t i. numbered (stream_rows t i (pw_rows w))) \<and> owners_hold owner (pw_rows w)
     \<and> (\<forall>c i. phase_aggregate (pw_tx w c) = Some i \<longrightarrow> pw_locks w (key i) = Some c)
     \<and> (\<forall>c. phase_ok owner (pw_rows w) (pw_tx w c))"

lemma world_invD:
  assumes "world_inv owner key w"
  shows "numbered (stream_rows t i (pw_rows w))" "owners_hold owner (pw_rows w)"
    "phase_aggregate (pw_tx w c) = Some i \<Longrightarrow> pw_locks w (key i) = Some c"
    "phase_ok owner (pw_rows w) (pw_tx w c)"
    "phase_aggregate (pw_tx w c) = Some i \<Longrightarrow> phase_aggregate (pw_tx w b) = Some i \<Longrightarrow> b = c"
proof -
  show a: "phase_aggregate (pw_tx w c) = Some i \<Longrightarrow> pw_locks w (key i) = Some c" for c i
    using assms by (simp add: world_inv_def)
  show "phase_aggregate (pw_tx w c) = Some i \<Longrightarrow> phase_aggregate (pw_tx w b) = Some i \<Longrightarrow> b = c"
    using a [of c i] a [of b i] by simp
qed (use assms in \<open>simp_all add: world_inv_def\<close>)

text \<open>What a transaction on another aggregate commits does not concern a transaction.\<close>

lemma stream_rows_other:
  "stream_rows t i p = p \<Longrightarrow> (t, i) \<noteq> (u, j) \<Longrightarrow> stream_rows u j p = []"
  unfolding stream_rows_def filter_id_conv filter_empty_conv by auto

lemma phase_ok_frame:
  assumes "phase_ok owner rows ph" "stream_rows t i p = p" "phase_aggregate ph \<noteq> Some i"
  shows "phase_ok owner (rows @ p) ph"
proof (cases ph)
  case (TxInserting cfg j v q es)
  with assms(3) have "j \<noteq> i" by simp
  then have "stream_rows u j p = []" for u by (intro stream_rows_other [OF assms(2)]) simp
  with assms(1) TxInserting show ?thesis by (simp add: inserting_ok_def)
qed (use assms in auto)

lemma world_inv_set:
  assumes "world_inv owner key w" "phase_ok owner (pw_rows w) ph"
    and "\<And>i. phase_aggregate ph = Some i \<Longrightarrow> phase_aggregate (pw_tx w c) = Some i"
  shows "world_inv owner key (set_tx c ph w)"
  using assms world_invD(3) [OF assms(1)] unfolding world_inv_def by auto

lemma world_inv_end:
  assumes "world_inv owner key w"
  shows "world_inv owner key (end_tx c r w)"
  using assms world_invD(3) [OF assms] unfolding world_inv_def by (auto split: if_splits)

lemma inserting_next:
  assumes "inserting_ok rows t i v p (e # es)"
  shows "inserting_ok rows t i v (p @ [event_row rnd st g e]) es"
proof -
  let ?n = "length (stream_rows t i rows @ p)"
  from assms have e: "ev_aggregate_id e = i" "ev_tenant_id e = t" "ev_aggregate_version e = of_nat ?n + 1"
    and n: "numbered (stream_rows t i rows @ p)" "?n + length (e # es) < 2 ^ 64" "stream_rows t i p = p"
      "v = of_nat (length (stream_rows t i rows))"
    and rest: "list_all (\<lambda>e. ev_aggregate_id e = i \<and> ev_tenant_id e = t) es" "versions_from (of_nat ?n + 1) es"
    by (simp_all add: inserting_ok_def batch_on_def)
  have "stream_rows t i [event_row rnd st g e] = [event_row rnd st g e]" by (simp add: stream_rows_def e)
  moreover have "numbered ((stream_rows t i rows @ p) @ [event_row rnd st g e])"
    using n(2) by (intro numbered_snoc [OF n(1)]) (simp_all add: e)
  moreover have "unat (of_nat (Suc ?n) :: u64) = Suc ?n" using n(2) by (simp add: unat_of_nat del: of_nat_Suc)
  ultimately show ?thesis
    using n rest by (simp add: inserting_ok_def batch_on_def add.commute add.left_commute)
qed

lemma inserting_start:
  assumes "world_inv owner key w" "call_ok owner cfg es v" "queried_version cfg (ev_aggregate_id (hd es)) (pw_rows w) = v"
  shows "phase_ok owner (pw_rows w) (TxInserting cfg (ev_aggregate_id (hd es)) v [] es)"
proof -
  let ?i = "ev_aggregate_id (hd es)"
  from assms(2) obtain t where t: "scope_ok owner cfg ?i t" "batch_on t ?i v es" by (auto simp: call_ok_def)
  let ?rs = "stream_rows t ?i (pw_rows w)"
  have n: "numbered ?rs" by (rule world_invD(1) [OF assms(1)])
  then have v: "v = of_nat (length ?rs)" "length ?rs < 2 ^ 64"
    using numbered_queried_version [OF n t(1) world_invD(2) [OF assms(1)]] assms(3) by (simp_all add: numbered_def)
  then have "length ?rs + length es < 2 ^ 64" using t(2) by (simp add: batch_on_def unat_of_nat)
  moreover have "stream_rows t ?i [] = []" by (simp add: stream_rows_def)
  ultimately have "inserting_ok (pw_rows w) t ?i v [] es" using t n v by (simp add: inserting_ok_def)
  with t(1) show ?thesis by auto
qed

lemma owners_hold_append:
  assumes "owners_hold owner rows" "stream_rows t i p = p" "scope_ok owner cfg i t"
  shows "owners_hold owner (rows @ p)"
proof -
  have "\<forall>q \<in> set p. q ''aggregate_id'' = VUuid i \<and> q ''tenant_id'' = VUuid t"
    using assms(2) by (simp add: stream_rows_def filter_id_conv)
  then show ?thesis using assms(1) scope_okD(3) [OF assms(3)] by (auto simp: owners_hold_def)
qed

lemma world_inv_commit:
  assumes inv: "world_inv owner key w" and tx: "pw_tx w c = TxInserting cfg i v p []"
  shows "world_inv owner key (end_tx c r (w\<lparr>pw_rows := pw_rows w @ p\<rparr>))"
proof -
  from world_invD(4) [OF inv, of c] tx obtain t where
    t: "stream_rows t i p = p" "numbered (stream_rows t i (pw_rows w) @ p)" "scope_ok owner cfg i t"
    by (auto simp: inserting_ok_def)
  have num: "numbered (stream_rows u j (pw_rows w @ p))" for u j
    using t world_invD(1) [OF inv] stream_rows_other [OF t(1), of u j] by (cases "(t, i) = (u, j)") auto
  have mine: "phase_aggregate (pw_tx w c) = Some i" using tx by simp
  have "phase_ok owner (pw_rows w @ p) (pw_tx w b)" if "b \<noteq> c" for b
    using phase_ok_frame [OF world_invD(4) [OF inv] t(1)] world_invD(5) [OF inv mine] that by blast
  with num world_invD(3) [OF inv] owners_hold_append [OF world_invD(2) [OF inv] t(1,3)] show ?thesis
    unfolding world_inv_def by (auto split: if_splits)
qed

lemma world_inv_step:
  assumes "commit_step rnd st key calls l w w'" "world_inv owner key w"
    and "\<forall>opts es v. calls opts es v \<longrightarrow> aggregate_call owner opts es v"
  shows "world_inv owner key w'"
  using assms(1)
proof (cases rule: commit_step.cases)
  case (begin_tx c opts es v cfg)
  then have "call_ok owner cfg (map (stamp_tenant cfg) es) v" using assms(3) by (auto simp: aggregate_call_def)
  with begin_tx show ?thesis by (auto intro: world_inv_set [OF assms(2)])
next
  case (take_lock c cfg es v)
  let ?i = "ev_aggregate_id (hd es)"
  have "phase_ok owner (pw_rows w) (TxLocked cfg es v)" using world_invD(4) [OF assms(2), of c] take_lock by simp
  moreover have "key j \<noteq> key ?i" if "phase_aggregate (pw_tx w b) = Some j" for b j
    using world_invD(3) [OF assms(2) that] take_lock by auto
  ultimately show ?thesis using assms(2) world_invD(3) [OF assms(2)] take_lock unfolding world_inv_def by auto
next
  case (version_ok c cfg es v)
  then have "call_ok owner cfg es v" using world_invD(4) [OF assms(2), of c] by simp
  from world_inv_set [OF assms(2) inserting_start [OF assms(2) this version_ok(4)]] version_ok show ?thesis by simp
next
  case (insert_row c cfg i v p e es g)
  from world_invD(4) [OF assms(2), of c] insert_row obtain t where
    "scope_ok owner cfg i t" "inserting_ok (pw_rows w) t i v p (e # es)" by auto
  with inserting_next have ok: "phase_ok owner (pw_rows w) (TxInserting cfg i v (p @ [event_row rnd st g e]) es)" by auto
  have "world_inv owner key (w\<lparr>pw_seq := g\<rparr>)" using assms(2) by (simp add: world_inv_def)
  from world_inv_set [OF this, of "TxInserting cfg i v (p @ [event_row rnd st g e]) es" c] ok insert_row
  show ?thesis by simp
next
  case (commit_tx c cfg i v p)
  show ?thesis unfolding commit_tx by (rule world_inv_commit [OF assms(2) commit_tx(3)])
next
  case (commit_unconfirmed c cfg i v p err)
  show ?thesis unfolding commit_unconfirmed by (rule world_inv_commit [OF assms(2) commit_unconfirmed(3)])
qed (use world_inv_end [OF assms(2)] in \<open>simp_all\<close>)

lemma reach_inv:
  assumes "commit_reach rnd st key calls w" "\<forall>opts es v. calls opts es v \<longrightarrow> aggregate_call owner opts es v"
  shows "world_inv owner key w"
  using assms(1)
proof (induction rule: commit_reach.induct)
  case init
  show ?case by (simp add: world_inv_def pw_init_def stream_rows_def numbered_def owners_hold_def)
next
  case (step w l w')
  then show ?case using world_inv_step [OF _ _ assms(2)] by blast
qed

lemma inserting_no_duplicate:
  assumes "inserting_ok rows t i v p (e # es)" "\<forall>q \<in> set rows. q ''aggregate_id'' = VUuid i \<longrightarrow> q ''tenant_id'' = VUuid t"
    and "q \<in> set (rows @ p)"
  shows "\<not> same_version q (event_row rnd st g e)"
proof
  assume same: "same_version q (event_row rnd st g e)"
  let ?rs = "stream_rows t i rows @ p"
  from assms(1) have e: "ev_aggregate_id e = i" "ev_aggregate_version e = of_nat (length ?rs) + 1"
    and n: "numbered ?rs" "Suc (length ?rs) < 2 ^ 64"
    by (simp_all add: inserting_ok_def batch_on_def)
  have "q \<in> set ?rs" using assms(2,3) same e(1) by (auto simp: same_version_def stream_rows_def)
  then have "q ''aggregate_version'' \<in> set (map (\<lambda>r. r ''aggregate_version'') ?rs)"
    unfolding set_map by (rule imageI)
  then obtain k where k: "q ''aggregate_version'' = VU64 (of_nat k)" "k \<le> length ?rs"
    using n(1) unfolding numbered_def by (auto simp del: upt_Suc map_append)
  with same e(2) have "(of_nat k :: u64) = of_nat (Suc (length ?rs))" by (simp add: same_version_def add.commute)
  then have "unat (of_nat k :: u64) = unat (of_nat (Suc (length ?rs)) :: u64)" by simp
  then show False using k(2) n(2) by (simp add: unat_of_nat del: of_nat_Suc)
qed

lemma committing_version:
  assumes "world_inv owner key w" "pw_tx w c = TxInserting cfg i v p []"
  shows "queried_version cfg i (pw_rows w) = v \<and> queried_version cfg i (pw_rows w @ p) = v + of_nat (length p)"
proof -
  from world_invD(4) [OF assms(1), of c] assms(2) obtain t where
    t: "scope_ok owner cfg i t" "inserting_ok (pw_rows w) t i v p []" by auto
  note own = world_invD(2) [OF assms(1)]
  from t(2) have p: "stream_rows t i p = p" and n: "numbered (stream_rows t i (pw_rows w @ p))"
    and v: "v = of_nat (length (stream_rows t i (pw_rows w)))" by (simp_all add: inserting_ok_def)
  from numbered_queried_version [OF world_invD(1) [OF assms(1)] t(1) own]
    numbered_queried_version [OF n t(1) owners_hold_append [OF own p t(1)]]
  show ?thesis by (simp add: v p)
qed

lemma loser_step:
  assumes "pw_tx w c = TxLocked cfg es v" "queried_version cfg (ev_aggregate_id (hd es)) (pw_rows w) \<noteq> v"
  shows "commit_step rnd st key calls (Statement c) w w' \<longleftrightarrow> w' = end_tx c (Some ErrConcurrencyConflict) w"
proof
  assume "commit_step rnd st key calls (Statement c) w w'"
  then show "w' = end_tx c (Some ErrConcurrencyConflict) w"
    by (cases rule: commit_step.cases) (use assms in auto)
next
  assume "w' = end_tx c (Some ErrConcurrencyConflict) w"
  then show "commit_step rnd st key calls (Statement c) w w'" using version_differs [OF assms] by simp
qed

lemma owned_error:
  assumes "world_inv owner key w" "phase_aggregate (pw_tx w c) = Some i" "owner i = Some u"
    and "commit_step rnd st key calls (Statement c) w w'" "pw_tx w' c = TxEnded (Some err)"
  shows "err = ErrConcurrencyConflict"
proof -
  have open_tx: "in_transaction (pw_tx w c)" using assms(2) by (cases "pw_tx w c") simp_all
  show ?thesis
    using assms(4)
  proof (cases rule: commit_step.cases)
    case (insert_duplicate cfg j v p e es g err')
    then have tx: "pw_tx w c = TxInserting cfg j v p (e # es)" by simp
    then have "j = i" using assms(2) by simp
    from world_invD(4) [OF assms(1), of c] tx obtain t where
      t: "scope_ok owner cfg j t" "inserting_ok (pw_rows w) t j v p (e # es)" by auto
    have "\<forall>q \<in> set (pw_rows w). q ''aggregate_id'' = VUuid j \<longrightarrow> q ''tenant_id'' = VUuid t"
    proof -
      have "t = u" using scope_okD(3) [OF t(1)] assms(3) \<open>j = i\<close> by blast
      then have "owner j = Some t" using assms(3) \<open>j = i\<close> by simp
      with world_invD(2) [OF assms(1)] show ?thesis unfolding owners_hold_def by blast
    qed
    from inserting_no_duplicate [OF t(2) this] insert_duplicate show ?thesis by blast
  qed (use open_tx assms(5) in auto)
qed

text \<open>
  C21. Concurrent commits are serialized per aggregate. Any number of callers commit batches as the
  aggregates make them, with or without a tenant in the options -- without one only under aggregate
  ids that a single tenant uses; their statements interleave in any way and any call to the database
  may fail. Then (1) the committed rows of every stream are numbered 1, 2, 3, ... without gap or
  repetition; (2) whenever a transaction commits, the version it expected is still the one the
  version query reads, and the commit moves it on by the number of its events: no update is lost;
  (3) a transaction that holds the lock and finds another version than it expected ends with
  \<^verbatim>\<open>ErrConcurrencyConflict\<close>, and changes nothing; (4) under an id that a single tenant uses that is the
  only error there is as long as no call to the database fails: the unique index is never met, so
  the loser of a race is told by the error that the callers retry on.
\<close>

theorem pg_commits_serialized:
  assumes "commit_reach rnd st key calls w" "\<forall>opts es v. calls opts es v \<longrightarrow> aggregate_call owner opts es v"
  shows "map (\<lambda>r. r ''aggregate_version'') (stream_rows t i (pw_rows w))
      = map (\<lambda>k. VU64 (of_nat k)) [1..<Suc (length (stream_rows t i (pw_rows w)))]
    \<and> (\<forall>c cfg j v p. pw_tx w c = TxInserting cfg j v p [] \<longrightarrow>
         queried_version cfg j (pw_rows w) = v \<and> queried_version cfg j (pw_rows w @ p) = v + of_nat (length p))
    \<and> (\<forall>c cfg es v w'. pw_tx w c = TxLocked cfg es v \<longrightarrow>
         queried_version cfg (ev_aggregate_id (hd es)) (pw_rows w) \<noteq> v \<longrightarrow>
         (commit_step rnd st key calls (Statement c) w w' \<longleftrightarrow> w' = end_tx c (Some ErrConcurrencyConflict) w))
    \<and> (\<forall>c j u w' err. phase_aggregate (pw_tx w c) = Some j \<longrightarrow> owner j = Some u \<longrightarrow>
         commit_step rnd st key calls (Statement c) w w' \<longrightarrow> pw_tx w' c = TxEnded (Some err) \<longrightarrow>
         err = ErrConcurrencyConflict)"
proof -
  note inv = reach_inv [OF assms]
  have "numbered (stream_rows t i (pw_rows w))" by (rule world_invD(1) [OF inv])
  then have n: "map (\<lambda>r. r ''aggregate_version'') (stream_rows t i (pw_rows w))
      = map (\<lambda>k. VU64 (of_nat k)) [1..<Suc (length (stream_rows t i (pw_rows w)))]"
    unfolding numbered_def by (rule conjunct1)
  show ?thesis
  proof (intro conjI allI impI)
    show "map (\<lambda>r. r ''aggregate_version'') (stream_rows t i (pw_rows w))
      = map (\<lambda>k. VU64 (of_nat k)) [1..<Suc (length (stream_rows t i (pw_rows w)))]" by (rule n)
  next
    fix c cfg j v p assume "pw_tx w c = TxInserting cfg j v p []"
    from committing_version [OF inv this]
    show "queried_version cfg j (pw_rows w) = v" "queried_version cfg j (pw_rows w @ p) = v + of_nat (length p)" by simp_all
  next
    fix c cfg es v w'
    assume "pw_tx w c = TxLocked cfg es v" "queried_version cfg (ev_aggregate_id (hd es)) (pw_rows w) \<noteq> v"
    then show "commit_step rnd st key calls (Statement c) w w' \<longleftrightarrow> w' = end_tx c (Some ErrConcurrencyConflict) w"
      by (rule loser_step)
  next
    fix c j u w' err
    assume "phase_aggregate (pw_tx w c) = Some j" "owner j = Some u" "commit_step rnd st key calls (Statement c) w w'"
      "pw_tx w' c = TxEnded (Some err)"
    then show "err = ErrConcurrencyConflict" by (rule owned_error [OF inv])
  qed
qed

section \<open>Ids and commits\<close>

text \<open>A writer of one event gets as far as its commit.\<close>

lemma reach_inserted:
  assumes "commit_reach rnd st key calls w" "pw_tx w c = TxIdle" "pw_locks w (key i) = None"
    and cfg: "cfg = resolve_store_config opts"
    and "calls opts [sample_event t i 1] 0" "stamp_tenant cfg (sample_event t i 1) = sample_event t i 1"
    and "queried_version cfg i (pw_rows w) = 0" "pw_seq w < g"
    and fresh: "\<forall>q \<in> set (pw_rows w). \<not> same_version q (event_row rnd st g (sample_event t i 1))"
      "\<forall>b. b \<noteq> c \<longrightarrow> (\<forall>q \<in> set (phase_pending (pw_tx w b)). \<not> same_version q (event_row rnd st g (sample_event t i 1)))"
  shows "commit_reach rnd st key calls (set_tx c (TxInserting cfg i 0 [event_row rnd st g (sample_event t i 1)] [])
      (w\<lparr>pw_locks := (pw_locks w)(key i \<mapsto> c), pw_seq := g\<rparr>))"
proof -
  let ?e = "sample_event t i 1"
  let ?w1 = "set_tx c (TxBegun cfg [?e] 0) w"
  let ?w2 = "set_tx c (TxLocked cfg [?e] 0) (?w1\<lparr>pw_locks := (pw_locks ?w1)(key i \<mapsto> c)\<rparr>)"
  let ?w3 = "set_tx c (TxInserting cfg i 0 [] [?e]) ?w2"
  let ?w4 = "set_tx c (TxInserting cfg i 0 ([] @ [event_row rnd st g ?e]) []) (?w3\<lparr>pw_seq := g\<rparr>)"
  have "list_all (actor_tracked st) [?e]" "list_all (pii_tracked st) [?e]"
    by (simp_all add: actor_tracked_def pii_tracked_def sample_event_def zero_event_def)
  then have "commit_step rnd st key calls (Statement c) w ?w1"
    using begin_tx [of w c calls opts "[?e]" 0 cfg st rnd key] assms(2,5,6) cfg by simp
  with assms(1) have r1: "commit_reach rnd st key calls ?w1" by (rule commit_reach.step)
  have "commit_step rnd st key calls (Statement c) ?w1 ?w2"
    using take_lock [of ?w1 c cfg "[?e]" 0 key rnd st calls] assms(3) by simp
  with r1 have r2: "commit_reach rnd st key calls ?w2" by (rule commit_reach.step)
  have "commit_step rnd st key calls (Statement c) ?w2 ?w3"
    using commit_step.version_ok [of ?w2 c cfg "[?e]" 0 rnd st key calls] assms(7) by simp
  with r2 have r3: "commit_reach rnd st key calls ?w3" by (rule commit_reach.step)
  have "commit_step rnd st key calls (Statement c) ?w3 ?w4"
    by (rule insert_row) (use assms(8) fresh in simp_all)
  with r3 have "commit_reach rnd st key calls ?w4" by (rule commit_reach.step)
  then show ?thesis by (simp add: set_tx_def)
qed

lemma queried_version_empty [simp]: "queried_version cfg i [] = 0"
  by (simp add: queried_version_eq table_version_def max_version_def)

text \<open>
  Global ids do not become visible in their order: a transaction can draw a lower id than one that
  commits before it. So the order in which \<^verbatim>\<open>StreamAll\<close> loses a row is one that
  concurrent commits of two aggregates reach.
\<close>

lemma commits_not_in_id_order:
  assumes "key i \<noteq> key j" "calls [WithTenant 5] [sample_event 5 i 1] 0" "calls [WithTenant 5] [sample_event 5 j 1] 0"
  shows "\<exists>w w' r. commit_reach rnd st key calls w \<and> commit_step rnd st key calls (Statement 0) w w' \<and> pw_rows w' = pw_rows w @ [r]
    \<and> (\<exists>q \<in> set (pw_rows w). col_u64 ''global_id'' r < col_u64 ''global_id'' q)"
proof -
  let ?cfg = "resolve_store_config [WithTenant 5]"
  let ?r = "event_row rnd st 1 (sample_event 5 i 1)" and ?q = "event_row rnd st 2 (sample_event 5 j 1)"
  have ij: "i \<noteq> j" using assms(1) by auto
  let ?w1 = "set_tx 0 (TxInserting ?cfg i 0 [?r] []) (pw_init\<lparr>pw_locks := (pw_locks pw_init)(key i \<mapsto> 0), pw_seq := 1\<rparr>)"
  have r1: "commit_reach rnd st key calls ?w1"
    by (rule reach_inserted [OF commit_reach.init, where c = 0 and cfg = ?cfg and opts = "[WithTenant 5]"])
      (use assms in \<open>simp_all add: pw_init_def stamp_tenant_def\<close>)
  let ?w2 = "set_tx 1 (TxInserting ?cfg j 0 [?q] []) (?w1\<lparr>pw_locks := (pw_locks ?w1)(key j \<mapsto> 1), pw_seq := 2\<rparr>)"
  have r2: "commit_reach rnd st key calls ?w2"
    by (rule reach_inserted [OF r1, where c = 1 and cfg = ?cfg and opts = "[WithTenant 5]"])
      (use assms ij in \<open>simp_all add: pw_init_def same_version_def stamp_tenant_def\<close>)
  let ?w3 = "end_tx 1 None (?w2\<lparr>pw_rows := pw_rows ?w2 @ [?q]\<rparr>)"
  have "commit_step rnd st key calls (Statement 1) ?w2 ?w3" by (rule commit_tx) simp
  with r2 have r3: "commit_reach rnd st key calls ?w3" by (rule commit_reach.step)
  let ?w4 = "end_tx 0 None (?w3\<lparr>pw_rows := pw_rows ?w3 @ [?r]\<rparr>)"
  have "commit_step rnd st key calls (Statement 0) ?w3 ?w4" by (rule commit_tx) simp
  moreover have "pw_rows ?w4 = pw_rows ?w3 @ [?r]" "?q \<in> set (pw_rows ?w3)" by simp_all
  moreover have "col_u64 ''global_id'' ?r < col_u64 ''global_id'' ?q" by (simp add: col_u64_def)
  ultimately show ?thesis using r3 by blast
qed

text \<open>
  Two callers in an application without tenants, both building version 1 of the aggregate 7 with no
  options at all: the first commits, the second has the lock after it and finds version 1.
\<close>

definition one_writer_calls :: "store_option list \<Rightarrow> domain_event list \<Rightarrow> u64 \<Rightarrow> bool" where
  "one_writer_calls opts es v \<longleftrightarrow> opts = [] \<and> es = [sample_event 0 7 1] \<and> v = 0"

lemma one_writer_calls_ok: "\<forall>opts es v. one_writer_calls opts es v \<longrightarrow> aggregate_call (\<lambda>_. Some 0) opts es v"
  by (auto simp: one_writer_calls_def aggregate_call_def call_ok_def scope_ok_def batch_on_def stamp_tenant_def)

theorem pg_commits_serialized_witness:
  "\<exists>w. commit_reach (\<lambda>t. t) (pg_new []) uint one_writer_calls w \<and> length (pw_rows w) = 1
    \<and> map (\<lambda>r. r ''aggregate_version'') (stream_rows 0 7 (pw_rows w)) = [VU64 1]
    \<and> (\<exists>w'. commit_step (\<lambda>t. t) (pg_new []) uint one_writer_calls (Statement 1) w w'
         \<and> pw_tx w' 1 = TxEnded (Some ErrConcurrencyConflict))"
proof -
  let ?e = "sample_event 0 7 1" and ?cfg = "resolve_store_config []" and ?st = "pg_new []"
  let ?r = "event_row (\<lambda>t. t) ?st 1 ?e"
  let ?w = "set_tx 0 (TxInserting ?cfg 7 0 [?r] []) (pw_init\<lparr>pw_locks := (pw_locks pw_init)(uint (7 :: uuid) \<mapsto> 0), pw_seq := 1\<rparr>)"
  let ?v = "end_tx 0 None (?w\<lparr>pw_rows := pw_rows ?w @ [?r]\<rparr>)"
  let ?x = "set_tx 1 (TxBegun ?cfg [?e] 0) ?v"
  let ?y = "set_tx 1 (TxLocked ?cfg [?e] 0) (?x\<lparr>pw_locks := (pw_locks ?x)(uint (7 :: uuid) \<mapsto> 1)\<rparr>)"
  have stamp: "stamp_tenant ?cfg ?e = ?e" by (simp add: stamp_tenant_def)
  have r0: "commit_reach (\<lambda>t. t) ?st uint one_writer_calls ?w"
    by (rule reach_inserted [OF commit_reach.init, where c = 0 and opts = "[]"])
      (simp_all add: pw_init_def one_writer_calls_def stamp_tenant_def)
  have "commit_step (\<lambda>t. t) ?st uint one_writer_calls (Statement 0) ?w ?v" by (rule commit_tx) simp
  with r0 have r1: "commit_reach (\<lambda>t. t) ?st uint one_writer_calls ?v" by (rule commit_reach.step)
  have "commit_step (\<lambda>t. t) ?st uint one_writer_calls (Statement 1) ?v ?x"
    using begin_tx [of ?v 1 one_writer_calls "[]" "[?e]" 0 ?cfg ?st "\<lambda>t. t" uint] stamp
    by (simp add: one_writer_calls_def pw_init_def actor_tracked_def pii_tracked_def sample_event_def zero_event_def)
  with r1 have r2: "commit_reach (\<lambda>t. t) ?st uint one_writer_calls ?x" by (rule commit_reach.step)
  have "commit_step (\<lambda>t. t) ?st uint one_writer_calls (Statement 1) ?x ?y"
    using take_lock [of ?x 1 ?cfg "[?e]" 0 uint "\<lambda>t. t" ?st one_writer_calls] by (simp add: pw_init_def)
  with r2 have r3: "commit_reach (\<lambda>t. t) ?st uint one_writer_calls ?y" by (rule commit_reach.step)
  have rows: "pw_rows ?y = [?r]" "pw_tx ?y 1 = TxLocked ?cfg [?e] 0" by (simp_all add: pw_init_def)
  have "queried_version ?cfg 7 [?r] \<noteq> 0" by (simp add: queried_version_eq table_version_def max_version_def col_u64_def)
  then have "queried_version ?cfg 7 (pw_rows ?y) \<noteq> 0" unfolding rows(1) .
  with pg_commits_serialized [OF r3 one_writer_calls_ok, of 0 7] rows
  have "map (\<lambda>r. r ''aggregate_version'') (stream_rows 0 7 (pw_rows ?y)) = [VU64 1]"
    and step: "commit_step (\<lambda>t. t) ?st uint one_writer_calls (Statement 1) ?y (end_tx 1 (Some ErrConcurrencyConflict) ?y)"
    by (simp_all add: stream_rows_def)
  with r3 rows(1) step show ?thesis
    by (intro exI [of _ ?y]) (auto intro!: exI [of _ "end_tx 1 (Some ErrConcurrencyConflict) ?y"])
qed

theorem commits_not_in_id_order_witness:
  "\<exists>w w' r. commit_reach (\<lambda>t. t) (pg_new []) uint (aggregate_call (\<lambda>_. Some 5)) w
    \<and> commit_step (\<lambda>t. t) (pg_new []) uint (aggregate_call (\<lambda>_. Some 5)) (Statement 0) w w'
    \<and> pw_rows w' = pw_rows w @ [r] \<and> (\<exists>q \<in> set (pw_rows w). col_u64 ''global_id'' r < col_u64 ''global_id'' q)"
proof (rule commits_not_in_id_order [of uint "1 :: uuid" "2 :: uuid"])
  show "aggregate_call (\<lambda>_. Some 5) [WithTenant 5] [sample_event 5 1 1] 0"
    "aggregate_call (\<lambda>_. Some 5) [WithTenant 5] [sample_event 5 2 1] 0"
    by (simp_all add: aggregate_call_def call_ok_def scope_ok_def batch_on_def stamp_tenant_def)
qed simp

end
