(* ===== verification/Pg_Repository.thy ===== *)
theory Pg_Repository
  imports Pg_Reads Pg_Concurrent User_Domain Ledger_Domain
begin

text \<open>
  \<^verbatim>\<open>pgstore.Store\<close> as a provider of the interface \<^verbatim>\<open>EventStore\<close>: it interprets the locale \<open>event_store\<close>
  that the in-memory store interprets, so what was proved of \<^verbatim>\<open>Repository\<close> over that contract holds over
  Postgres. What is relied on of the database is part of the invariant \<open>pg_inv\<close>, and so is the
  one thing the two stores differ in: the events a scope sees belong to the tenant it writes for.
\<close>

section \<open>The interface\<close>

definition pg_ops :: "pg_store \<Rightarrow> 'd pg_db \<Rightarrow> 'd event_store_ops" where
  "pg_ops st db = \<lparr> st_commit = pg_commit st db, st_load = pg_load st db, st_fetch_after = pg_fetch_after st db,
     st_fetch_by_pii = Some (pg_fetch_by_pii_id st db) \<rparr>"

lemma pg_ops_sel [simp, store_simps]:
  "st_commit (pg_ops st db) = pg_commit st db"
  "st_load (pg_ops st db) = pg_load st db"
  "st_fetch_after (pg_ops st db) = pg_fetch_after st db"
  "st_fetch_by_pii (pg_ops st db) = Some (pg_fetch_by_pii_id st db)"
  by (simp_all add: pg_ops_def)

section \<open>The log in the table\<close>

text \<open>The events that the rows scan to, and those that a scope sees of an aggregate.\<close>

definition table_log :: "pg_store \<Rightarrow> pg_row list \<Rightarrow> domain_event list" where
  "table_log st rows =
     (case scan_events st (map (\<lambda>r. map r (pg_columns st)) rows) of Inl err \<Rightarrow> [] | Inr es \<Rightarrow> es)"

lemma table_log_rows: "list_all (settled rnd st) log \<Longrightarrow> table_log st (rows_of rnd st log) = log"
  by (simp add: table_log_def scan_rows_of)

definition seen :: "store_option list \<Rightarrow> uuid \<Rightarrow> domain_event list \<Rightarrow> domain_event list" where
  "seen opts i = filter (\<lambda>e. ev_aggregate_id e = i \<and> visible (resolve_store_config opts) e)"

lemma seen_append [simp]: "seen opts i (xs @ ys) = seen opts i xs @ seen opts i ys"
  by (simp add: seen_def)

definition pg_contents :: "('d \<Rightarrow> pg_view) \<Rightarrow> pg_store \<Rightarrow> store_option list \<Rightarrow> 'd \<Rightarrow> uuid \<Rightarrow> domain_event list" where
  "pg_contents view st opts d i = seen opts i (table_log st (pv_events (view d)))"

text \<open>The tenant that an event with none is stored under.\<close>

definition home_tenant :: "store_option list \<Rightarrow> uuid" where
  "home_tenant opts = (case scope_of opts of None \<Rightarrow> uuid_nil | Some t \<Rightarrow> t)"

text \<open>
  The log of a table that this scope has to itself: every stream it sees is numbered from 1 without gap,
  and an event it sees is its own.
\<close>

definition own_log :: "(time \<Rightarrow> time) \<Rightarrow> pg_store \<Rightarrow> store_option list \<Rightarrow> domain_event list \<Rightarrow> bool" where
  "own_log rnd st opts log \<longleftrightarrow> list_all (settled rnd st) log \<and> by_global_id log
     \<and> (\<forall>e \<in> set log. visible (resolve_store_config opts) e \<longrightarrow> ev_tenant_id e = home_tenant opts)
     \<and> (\<forall>i. versions_from 0 (seen opts i log) \<and> length (seen opts i log) < 2 ^ 64)"

definition pg_reads_answer :: "'d pg_db \<Rightarrow> bool" where
  "pg_reads_answer db \<longleftrightarrow> (\<forall>q args d. \<exists>vals. db_query db (SelectEvents q) args d = Inr (vals, None))"

definition pg_inv :: "'d pg_db \<Rightarrow> ('d \<Rightarrow> pg_view) \<Rightarrow> (time \<Rightarrow> time) \<Rightarrow> pg_store \<Rightarrow> store_option list \<Rightarrow> 'd \<Rightarrow> bool" where
  "pg_inv db view rnd st opts d \<longleftrightarrow> pg_behaves db view rnd \<and> pg_reads_answer db \<and> (\<forall>t. rnd (rnd t) = rnd t)
     \<and> (\<exists>log. own_log rnd st opts log \<and> pv_events (view d) = rows_of rnd st log)"

text \<open>
  Fresh events of one aggregate, numbered from a version that its stream is at or has passed: the
  buffer of an aggregate that was loaded, lately or long ago.
\<close>

definition pg_batch :: "('d \<Rightarrow> pg_view) \<Rightarrow> pg_store \<Rightarrow> store_option list \<Rightarrow> 'd \<Rightarrow> uuid \<Rightarrow> domain_event list \<Rightarrow> bool" where
  "pg_batch view st opts d i es \<longleftrightarrow> fresh_batch i es
     \<and> (\<exists>k \<le> length (pg_contents view st opts d i). versions_from (of_nat k) es)
     \<and> length (pg_contents view st opts d i) + length es < 2 ^ 64"

lemma pg_invE:
  assumes "pg_inv db view rnd st opts d"
  obtains log where "pg_behaves db view rnd" "pg_reads_answer db" "\<And>t. rnd (rnd t) = rnd t"
    "own_log rnd st opts log" "pv_events (view d) = rows_of rnd st log"
    "\<And>i. pg_contents view st opts d i = seen opts i log"
proof -
  from assms obtain log where log: "own_log rnd st opts log" "pv_events (view d) = rows_of rnd st log"
    unfolding pg_inv_def by blast
  have "pg_contents view st opts d i = seen opts i log" for i
    using log by (simp add: pg_contents_def table_log_rows own_log_def)
  with that log assms show thesis by (simp add: pg_inv_def)
qed

lemma own_log_holds:
  "own_log rnd st opts log \<Longrightarrow> pg_reads_answer db \<Longrightarrow> pv_events (view d) = rows_of rnd st log \<Longrightarrow>
   pg_holds db view rnd st d log"
  by (simp add: pg_holds_def own_log_def pg_reads_answer_def)

text \<open>The version that the commit checks is the one of the stream that the scope sees.\<close>

lemma own_table_version:
  assumes "own_log rnd st opts log"
  shows "table_version (resolve_store_config opts) i (rows_of rnd st log) = current_version (seen opts i log)"
proof -
  let ?cfg = "resolve_store_config opts" and ?es = "seen opts i log"
  have home: "visible ?cfg e \<longleftrightarrow> (case cfg_tenant_id ?cfg of None \<Rightarrow> True | Some t \<Rightarrow> ev_tenant_id e = t)"
    if "e \<in> set log" for e
    using assms that by (auto simp: own_log_def home_tenant_def visible_def split: option.splits)
  have "filter (\<lambda>r. r ''aggregate_id'' = VUuid i
      \<and> (case cfg_tenant_id ?cfg of None \<Rightarrow> True | Some t \<Rightarrow> r ''tenant_id'' = VUuid t)) (rows_of rnd st es) = rows_of rnd st
      (filter (\<lambda>e. ev_aggregate_id e = i \<and> (case cfg_tenant_id ?cfg of None \<Rightarrow> True | Some t \<Rightarrow> ev_tenant_id e = t)) es)" for es
    by (induction es) (auto split: option.splits)
  also have "filter (\<lambda>e. ev_aggregate_id e = i \<and> (case cfg_tenant_id ?cfg of None \<Rightarrow> True | Some t \<Rightarrow> ev_tenant_id e = t)) log
      = ?es"
    unfolding seen_def using home by (intro filter_cong) auto
  finally have t: "table_version ?cfg i (rows_of rnd st log) = max_version (rows_of rnd st ?es)"
    by (simp add: table_version_def)
  from assms have v: "versions_from 0 ?es" and len: "length ?es < 2 ^ 64" by (auto simp: own_log_def)
  have "map (\<lambda>r. r ''aggregate_version'') (rows_of rnd st ?es) = map VU64 (map ev_aggregate_version ?es)"
    by (simp add: rows_of_def)
  with versions_listed [OF v] len have "numbered (rows_of rnd st ?es)"
    by (simp add: numbered_def rows_of_def comp_def del: upt_Suc)
  then show ?thesis
    using current_version_from [OF v] numbered_max_version t by (simp add: rows_of_def current_version_def)
qed


section \<open>A commit\<close>

text \<open>An event with no tenant is stored under the scope's own, where the scope sees it.\<close>

lemma stamp_home: "ev_tenant_id e = uuid_nil \<Longrightarrow> stamp_tenant (resolve_store_config opts) e = e\<lparr>ev_tenant_id := home_tenant opts\<rparr>"
  by (simp add: stamp_tenant_def home_tenant_def split: option.split)

lemma home_visible: "ev_tenant_id e = home_tenant opts \<Longrightarrow> visible (resolve_store_config opts) e"
  by (auto simp: visible_def home_tenant_def split: option.split)

lemma pg_commit_tracked:
  "pg_commit st db es v opts d = (None, es', d') \<Longrightarrow>
   list_all (\<lambda>e. actor_tracked st e \<and> pii_tracked st e) (map (stamp_tenant (resolve_store_config opts)) es)"
  by (auto simp: pg_commit_def Let_def list_all_iff split: if_splits)

text \<open>The events as the table then keeps them.\<close>

definition as_stored :: "(time \<Rightarrow> time) \<Rightarrow> domain_event list \<Rightarrow> domain_event list" where
  "as_stored rnd es = map (\<lambda>e. stored_event rnd (ev_global_id e) e) es"

lemma stored_event_sel [simp]:
  "ev_global_id (stored_event rnd g e) = g" "ev_aggregate_id (stored_event rnd g e) = ev_aggregate_id e"
  "ev_tenant_id (stored_event rnd g e) = ev_tenant_id e"
  "ev_aggregate_version (stored_event rnd g e) = ev_aggregate_version e"
  "replay_view (stored_event rnd g e) = replay_view e"
  by (simp_all add: stored_event_def replay_view_def)

lemma event_row_stored:
  assumes "\<And>t. rnd (rnd t) = rnd t"
  shows "event_row rnd st g (stored_event rnd h e) = event_row rnd st g e"
  by (simp add: event_row_def inserted_row_def pg_insert_columns_def pg_insert_values_def stored_event_def assms fun_eq_iff)

lemma as_stored_simps:
  "map replay_view (as_stored rnd es) = map replay_view es"
  "map ev_global_id (as_stored rnd es) = map ev_global_id es"
  "length (as_stored rnd es) = length es"
  by (simp_all add: as_stored_def comp_def)

lemma rows_of_stored: "(\<And>t. rnd (rnd t) = rnd t) \<Longrightarrow> rows_of rnd st (as_stored rnd es) = rows_of rnd st es"
  by (simp add: rows_of_def as_stored_def event_row_stored)

lemma renumbered_fresh:
  assumes "renumbered (map (stamp_tenant (resolve_store_config opts)) es) es'" "fresh_batch i es"
  shows "list_all (\<lambda>e. ev_aggregate_id e = i \<and> ev_tenant_id e = home_tenant opts) es'"
    "map replay_view es' = map replay_view es" "map stored_view es' = map stored_view es"
proof -
  note m = assms(1) [unfolded renumbered_def]
  from arg_cong [OF m, of "map stored_view"] show "map stored_view es' = map stored_view es"
    by (simp add: comp_def)
  from arg_cong [OF m, of "map replay_view"] show "map replay_view es' = map replay_view es"
    by (simp add: comp_def)
  show "list_all (\<lambda>e. ev_aggregate_id e = i \<and> ev_tenant_id e = home_tenant opts) es'"
    unfolding list_all_iff
  proof
    fix f assume "f \<in> set es'"
    with renumbered_in [of es' "map (stamp_tenant (resolve_store_config opts)) es" f] m
    obtain e where e: "e \<in> set es"
      "(stamp_tenant (resolve_store_config opts) e)\<lparr>ev_global_id := 0\<rparr> = f\<lparr>ev_global_id := 0\<rparr>"
      by (auto simp: renumbered_def)
    have "stamp_tenant (resolve_store_config opts) e = e\<lparr>ev_tenant_id := home_tenant opts\<rparr>" "ev_aggregate_id e = i"
      using assms(2) e(1) by (auto simp: fresh_batch_def list_all_iff stamp_home)
    with arg_cong [OF e(2), of ev_aggregate_id] arg_cong [OF e(2), of ev_tenant_id]
    show "ev_aggregate_id f = i \<and> ev_tenant_id f = home_tenant opts" by simp
  qed
qed

lemma renumbered_tracked:
  assumes "renumbered es fs" "list_all (\<lambda>e. actor_tracked st e \<and> pii_tracked st e) es"
  shows "list_all (\<lambda>e. actor_tracked st e \<and> pii_tracked st e) fs"
proof -
  let ?P = "\<lambda>e. actor_tracked st e \<and> pii_tracked st e"
  have z: "?P (e\<lparr>ev_global_id := 0\<rparr>) = ?P e" for e by (simp add: actor_tracked_def pii_tracked_def)
  have "list_all ?P xs = list_all ?P (map (\<lambda>e. e\<lparr>ev_global_id := 0\<rparr>) xs)" for xs
    by (simp add: list.pred_map comp_def z)
  with assms show ?thesis unfolding renumbered_def by metis
qed

text \<open>A batch that the table takes continues the stream: an older number is in use.\<close>

lemma appended_continues:
  assumes own: "own_log rnd st opts log" and b: "fresh_batch i es" "k \<le> length (seen opts i log)" "versions_from (of_nat k) es"
    and len: "length (seen opts i log) + length es < 2 ^ 64" and "es \<noteq> []"
    and app: "appended rnd st cfg i v es' (rows_of rnd st log) rows'"
    and r: "list_all (\<lambda>e. ev_aggregate_id e = i \<and> ev_tenant_id e = t) es'" "map replay_view es' = map replay_view es"
  shows "k = length (seen opts i log)"
proof (rule ccontr)
  let ?old = "seen opts i log"
  assume "k \<noteq> length ?old"
  with b(2) have k: "k < length ?old" by simp
  from r(2) \<open>es \<noteq> []\<close> obtain f fs where f: "es' = f # fs" by (cases es') auto
  have "ev_aggregate_version f = of_nat k + 1"
    using b(3) f by (simp add: versions_from_cong [OF r(2), symmetric])
  moreover from own have "versions_from 0 ?old" by (simp add: own_log_def)
  from arg_cong [OF versions_listed [OF this], of "\<lambda>xs. xs ! k"] k
  have "ev_aggregate_version (?old ! k) = of_nat k + 1" by (simp add: nth_append del: upt_Suc)
  moreover have "?old ! k \<in> set ?old" using k by simp
  then have "?old ! k \<in> set log" "ev_aggregate_id (?old ! k) = i" by (auto simp: seen_def)
  moreover have "ev_aggregate_id f = i" using r(1) f by simp
  moreover have "\<not> same_version (event_row rnd st (ev_global_id (?old ! k)) (?old ! k)) (event_row rnd st (ev_global_id f) f)"
    using app f \<open>?old ! k \<in> set log\<close> by (auto simp: appended_def rows_of_def)
  ultimately show False by (simp add: same_version_def)
qed

lemma seen_mine:
  "list_all (\<lambda>e. ev_aggregate_id e = i \<and> ev_tenant_id e = home_tenant opts) es \<Longrightarrow>
   seen opts j (as_stored rnd es) = (if j = i then as_stored rnd es else [])"
  by (induction es) (auto simp: seen_def as_stored_def intro: home_visible)

text \<open>What a commit appends keeps the log the scope's own.\<close>

lemma own_log_appended:
  assumes own: "own_log rnd st opts log" and app: "appended rnd st cfg i v es (rows_of rnd st log) rows'"
    and rnd: "\<And>t. rnd (rnd t) = rnd t" and tracked: "list_all (\<lambda>e. actor_tracked st e \<and> pii_tracked st e) es"
    and mine: "list_all (\<lambda>e. ev_aggregate_id e = i \<and> ev_tenant_id e = home_tenant opts) es"
    and vs: "versions_from (of_nat (length (seen opts i log))) es" "length (seen opts i log) + length es < 2 ^ 64"
  shows "own_log rnd st opts (log @ as_stored rnd es)" "rows' = rows_of rnd st (log @ as_stored rnd es)"
proof -
  let ?new = "as_stored rnd es"
  show "rows' = rows_of rnd st (log @ ?new)"
    using app by (simp add: appended_def rows_of_stored rnd)
  have "list_all (settled rnd st) ?new"
    using tracked by (auto simp: list_all_iff as_stored_def settled_def actor_tracked_def pii_tracked_def stored_event_def rnd)
  moreover have "by_global_id (log @ ?new)"
    using app own by (auto simp: appended_def own_log_def by_global_id_map sorted_wrt_append as_stored_simps rows_of_def
        col_u64_def as_stored_def comp_def)
  moreover have "\<forall>e \<in> set ?new. ev_tenant_id e = home_tenant opts"
    using mine by (auto simp: as_stored_def list_all_iff)
  moreover have "versions_from (of_nat (length (seen opts i log))) ?new"
    using versions_from_cong [of ?new es] vs(1) by (simp add: as_stored_simps)
  then have "versions_from 0 (seen opts j (log @ ?new)) \<and> length (seen opts j (log @ ?new)) < 2 ^ 64" for j
    using own vs(2) by (simp add: own_log_def seen_mine [OF mine] versions_from_append as_stored_simps)
  ultimately show "own_log rnd st opts (log @ ?new)" using own by (auto simp: own_log_def)
qed

lemma pg_commit_log:
  assumes inv: "pg_inv db view rnd st opts d" and b: "pg_batch view st opts d i es" "es \<noteq> []"
    and c: "pg_commit st db es v opts d = (None, es', d')"
  shows "current_version (pg_contents view st opts d i) = v \<and> pg_inv db view rnd st opts d'
    \<and> map replay_view es' = map replay_view es \<and> map stored_view es' = map stored_view es
    \<and> list_all (\<lambda>e. ev_aggregate_id e = i \<and> ev_tenant_id e = home_tenant opts) es'
    \<and> table_log st (pv_events (view d')) = table_log st (pv_events (view d)) @ as_stored rnd es'"
proof -
  let ?cfg = "resolve_store_config opts"
  from inv obtain log where ok: "pg_behaves db view rnd" "pg_reads_answer db" "\<And>t. rnd (rnd t) = rnd t"
    and own: "own_log rnd st opts log" and rows: "pv_events (view d) = rows_of rnd st log"
    and cont: "\<And>i. pg_contents view st opts d i = seen opts i log" by (rule pg_invE) blast
  from b(1) obtain k where fb: "fresh_batch i es" and k: "k \<le> length (seen opts i log)" "versions_from (of_nat k) es"
    and len: "length (seen opts i log) + length es < 2 ^ 64" by (auto simp: pg_batch_def cont)
  have "ev_aggregate_id (hd es) = i" using fb b(2) by (cases es) (simp_all add: fresh_batch_def)
  with pg_commit_view [OF ok(1) b(2) c] rows
  have app: "appended rnd st ?cfg i v es' (rows_of rnd st log) (pv_events (view d'))"
    and ren: "renumbered (map (stamp_tenant ?cfg) es) es'" by simp_all
  note fr = renumbered_fresh [OF ren fb]
  have ver: "current_version (seen opts i log) = v" using app own_table_version [OF own, of i] by (simp add: appended_def)
  have "k = length (seen opts i log)" by (rule appended_continues [OF own fb k len b(2) app fr(1,2)])
  with k(2) have vs: "versions_from (of_nat (length (seen opts i log))) es'"
    by (simp add: versions_from_cong [OF fr(2)])
  have "length es' = length es" using fr(2) by (metis length_map)
  with len have len': "length (seen opts i log) + length es' < 2 ^ 64" by simp
  note ext = own_log_appended [OF own app ok(3) renumbered_tracked [OF ren pg_commit_tracked [OF c]] fr(1) vs len']
  then have "pg_inv db view rnd st opts d'" using ok unfolding pg_inv_def by blast
  moreover have "table_log st (pv_events (view d')) = table_log st (pv_events (view d)) @ as_stored rnd es'"
    using own ext(1) table_log_rows [of rnd st log] table_log_rows [of rnd st "log @ as_stored rnd es'"]
    by (simp add: rows ext(2) own_log_def del: rows_of_simps)
  ultimately show ?thesis using ver fr by (simp add: cont)
qed

lemma pg_commit_contents:
  assumes "pg_inv db view rnd st opts d" "pg_batch view st opts d i es" "es \<noteq> []"
    and "pg_commit st db es v opts d = (None, es', d')"
  shows "pg_contents view st opts d' j = pg_contents view st opts d j @ (if j = i then as_stored rnd es' else [])"
  using pg_commit_log [OF assms] seen_mine by (simp add: pg_contents_def)

lemma pg_commit_refused:
  assumes inv: "pg_inv db view rnd st opts d" and b: "pg_batch view st opts d i es" "es \<noteq> []"
    and c: "pg_commit st db es v opts d = (r, es', d')" and stale: "current_version (pg_contents view st opts d i) \<noteq> v"
  shows "r \<noteq> None \<and> pv_events (view d') = pv_events (view d)"
proof -
  from inv obtain log where ok: "pg_behaves db view rnd" and own: "own_log rnd st opts log"
    and rows: "pv_events (view d) = rows_of rnd st log" and cont: "\<And>i. pg_contents view st opts d i = seen opts i log"
    by (rule pg_invE) blast
  have "ev_aggregate_id (hd es) = i" using b by (cases es) (simp_all add: pg_batch_def fresh_batch_def)
  with pg_commit_view [OF ok b(2) c] own_table_version [OF own, of i] stale
  show ?thesis by (auto simp: rows cont appended_def)
qed

section \<open>The contract\<close>

interpretation pg: event_store "pg_ops st db" opts "pg_inv db view rnd st opts" "pg_contents view st opts" "pg_batch view st opts"
  for st db view rnd opts
proof unfold_locales
  fix d i assume inv: "pg_inv db view rnd st opts d" and ne: "pg_contents view st opts d i \<noteq> []"
  from inv obtain log where ok: "pg_behaves db view rnd" "pg_reads_answer db"
    and own: "own_log rnd st opts log" and rows: "pv_events (view d) = rows_of rnd st log"
    and cont: "\<And>i. pg_contents view st opts d i = seen opts i log" by (rule pg_invE) blast
  have "select_ok db view" using ok(1) by (simp add: pg_behaves_def)
  moreover have "sorted_wrt (<) (map ev_aggregate_version (seen opts i log))"
    using own versions_from_sorted by (auto simp: own_log_def)
  ultimately show "st_load (pg_ops st db) i opts d = Inr (pg_contents view st opts d i)"
    using pg_load_log [OF _ own_log_holds [where view = view, OF own ok(2) rows] seen_def [THEN fun_cong]] ne
    by (simp add: cont)
next
  fix d i es v r es' d'
  assume a: "pg_inv db view rnd st opts d" "pg_batch view st opts d i es" "es \<noteq> []"
    "st_commit (pg_ops st db) es v opts d = (r, es', d')" "current_version (pg_contents view st opts d i) \<noteq> v"
  from pg_commit_refused [OF a(1-3) _ a(5)] a(4) have "r \<noteq> None" "pv_events (view d') = pv_events (view d)" by auto
  with a(1) show "r \<noteq> None \<and> pg_inv db view rnd st opts d' \<and> pg_contents view st opts d' = pg_contents view st opts d"
    by (simp add: pg_inv_def pg_contents_def fun_eq_iff)
next
  fix d i es v es' d'
  assume a: "pg_inv db view rnd st opts d" "pg_batch view st opts d i es" "es \<noteq> []"
    "st_commit (pg_ops st db) es v opts d = (None, es', d')"
  note c = a(1-3) a(4) [unfolded pg_ops_sel]
  from pg_commit_log [OF c] pg_commit_contents [OF c, of i]
  show "pg_inv db view rnd st opts d' \<and> current_version (pg_contents view st opts d i) = v
      \<and> (\<exists>fs. pg_contents view st opts d' i = pg_contents view st opts d i @ fs \<and> map replay_view fs = map replay_view es)"
    by (auto simp: as_stored_simps)
  show "pg_contents view st opts d' j = pg_contents view st opts d j" if "j \<noteq> i" for j
    using pg_commit_contents [OF c, of j] that by simp
qed

lemma kept_stored_event: "kept_view (stored_event rnd g e) = kept_view e"
  by (simp add: kept_view_def stored_view_def stored_event_def)

lemma pg_batch_cong:
  assumes "map batch_view es = map batch_view fs"
  shows "pg_batch view st opts d i es = pg_batch view st opts d i fs"
proof -
  have "versions_from v xs = versions_from v ys" if "map batch_view xs = map batch_view ys" for v xs ys
    using that
  proof (induction xs arbitrary: ys v)
    case (Cons x xs)
    then obtain y zs where ys: "ys = y # zs" "batch_view x = batch_view y" "map batch_view xs = map batch_view zs"
      by (cases ys) auto
    from Cons.IH [OF ys(3)] ys(1,2) show ?case by (simp add: batch_view_def)
  qed simp
  from this [OF assms] fresh_batch_cong [OF assms] map_eq_imp_length_eq [OF assms]
  show ?thesis by (simp add: pg_batch_def)
qed

interpretation pg_faithful: faithful_store "pg_ops st db" opts "pg_inv db view rnd st opts" "pg_contents view st opts"
  "pg_batch view st opts" for st db view rnd opts
proof unfold_locales
  fix d i es v es' d'
  assume a: "pg_inv db view rnd st opts d" "pg_batch view st opts d i es" "es \<noteq> []"
    "st_commit (pg_ops st db) es v opts d = (None, es', d')"
  note c = a(1-3) a(4) [unfolded pg_ops_sel]
  from pg_commit_log [OF c] have stored: "map stored_view es' = map stored_view es" by blast
  have "pg_contents view st opts d' i = pg_contents view st opts d i @ as_stored rnd es'"
    using pg_commit_contents [OF c, of i] by simp
  moreover have "map kept_view (as_stored rnd es') = map kept_view es"
    using stored_kept_all [OF stored] by (simp add: as_stored_def comp_def kept_stored_event)
  ultimately show "map stored_view es' = map stored_view es
      \<and> (\<exists>fs. pg_contents view st opts d' i = pg_contents view st opts d i @ fs \<and> map kept_view fs = map kept_view es)"
    using stored by blast
qed (rule pg_batch_cong)

text \<open>Bound to a tenant, and below a repository.\<close>

interpretation pg_tenant: scoped_store "pg_ops st db" t opts "pg_inv db view rnd st (with_tenant t opts)"
  "pg_contents view st (with_tenant t opts)" "pg_batch view st (with_tenant t opts)" for st db view rnd t opts
  by unfold_locales

interpretation user_pg_repo: repository user_ops user_apply user_events
  "pg_ops st db" opts "pg_inv db view rnd st opts" "pg_contents view st opts" "pg_batch view st opts" for st db view rnd opts
  by unfold_locales

interpretation user_pg_tenant_repo: repository user_ops user_apply user_events "tenant_scoped t (pg_ops st db)" opts
  "pg_inv db view rnd st (with_tenant t opts)" "pg_contents view st (with_tenant t opts)" "pg_batch view st (with_tenant t opts)"
  for st db view rnd t opts
  by unfold_locales

interpretation account_pg_repo: repository account_ops account_apply account_events
  "pg_ops st db" opts "pg_inv db view rnd st opts" "pg_contents view st opts" "pg_batch view st opts" for st db view rnd opts
  by unfold_locales

end
