(* ===== verification/Pg_Keys.thy ===== *)
theory Pg_Keys
  imports Pg_Store Es_Erasure Es_Wrapped_Keyring "HOL-Library.Monad_Syntax"
begin

text \<open>
  \<^verbatim>\<open>es/pgstore/keyring.go\<close> and \<^verbatim>\<open>es/pgstore/erasure_ledger.go\<close>: the key ring and the erasure ledger in
  tables of their own, over the database of \<open>Pg_Store\<close>. The key ring interprets the contracts that the
  in-memory one interprets: \<open>keyring\<close> from what is relied on of its table, and \<open>listing_keyring\<close> and,
  below the wrapper, \<open>wrapped_ring\<close> while every statement is answered.
\<close>

section \<open>Scanning\<close>

fun as_bytes :: "pg_value \<Rightarrow> bytes option" where
  "as_bytes (VBytes b) = Some b"
| "as_bytes _ = None"

definition scan_error :: error where
  "scan_error = ErrText ''sql: Scan error''"

text \<open>A query for one row of one column.\<close>

definition scan1 :: "(pg_value \<Rightarrow> 'a option) \<Rightarrow> error + pg_value list \<Rightarrow> error + 'a" where
  "scan1 as r =
     (case r of
        Inl err \<Rightarrow> Inl err
      | Inr vals \<Rightarrow>
          (case (if length vals = 1 then as (vals ! 0) else None) of
             None \<Rightarrow> Inl scan_error
           | Some x \<Rightarrow> Inr x))"

lemma scan_error_no_rows [simp]: "\<not> errors_is scan_error ErrNoRows"
  by (simp add: scan_error_def)

section \<open>The key ring\<close>

definition pg_kr_get :: "'d pg_db \<Rightarrow> uuid \<Rightarrow> 'd \<Rightarrow> error + slice" where
  "pg_kr_get db p d =
     (case scan1 as_bytes (db_query_row db SelectKey [VUuid p] d) of
        Inl err \<Rightarrow> if errors_is err ErrNoRows then Inr None else Inl (ErrWrap ''pgstore: keyring get'' err)
      | Inr key \<Rightarrow> Inr (Some key))"

definition pg_kr_put :: "'d pg_db \<Rightarrow> uuid \<Rightarrow> bytes \<Rightarrow> rng \<times> 'd \<Rightarrow> error option \<times> rng \<times> 'd" where
  "pg_kr_put db p key rd =
     (case rd of (r, d) \<Rightarrow>
      case db_exec db UpsertKey [VUuid p, VBytes key] d of
        (Some err, d') \<Rightarrow> (Some (ErrWrap ''pgstore: keyring put'' err), r, d')
      | (None, d') \<Rightarrow> (None, r, d'))"

definition pg_kr_forget :: "'d pg_db \<Rightarrow> uuid \<Rightarrow> 'd \<Rightarrow> error option \<times> 'd" where
  "pg_kr_forget db p d =
     (case db_exec db DeleteKey [VUuid p] d of
        (Some err, d') \<Rightarrow> (Some (ErrWrap ''pgstore: keyring forget'' err), d')
      | (None, d') \<Rightarrow> (None, d'))"

fun scan_subjects :: "pg_value list list \<Rightarrow> error + uuid list" where
  "scan_subjects [] = Inr []"
| "scan_subjects (vals # rows) =
     (case scan1 as_uuid (Inr vals) of
        Inl err \<Rightarrow> Inl (ErrWrap ''pgstore: keyring scan subject'' err)
      | Inr p \<Rightarrow> map_sum id (\<lambda>ps. p # ps) (scan_subjects rows))"

definition pg_kr_subjects :: "'d pg_db \<Rightarrow> 'd \<Rightarrow> error + uuid list" where
  "pg_kr_subjects db d =
     (case db_query db ListKeys [] d of
        Inl err \<Rightarrow> Inl (ErrWrap ''pgstore: keyring list subjects'' err)
      | Inr (rows, rows_err) \<Rightarrow>
          (case scan_subjects rows of
             Inl err \<Rightarrow> Inl err
           | Inr ps \<Rightarrow>
               (case rows_err of
                  Some err \<Rightarrow> Inl (ErrWrap ''pgstore: keyring list subjects'' err)
                | None \<Rightarrow> Inr ps)))"

definition pg_keyring_ops :: "'d pg_db \<Rightarrow> 'd keyring_ops" where
  "pg_keyring_ops db = \<lparr> kr_get = pg_kr_get db, kr_put = pg_kr_put db, kr_forget = pg_kr_forget db,
     kr_subjects = Some (pg_kr_subjects db) \<rparr>"

lemma pg_keyring_ops_sel [simp, store_simps]:
  "kr_get (pg_keyring_ops db) = pg_kr_get db"
  "kr_put (pg_keyring_ops db) = pg_kr_put db"
  "kr_forget (pg_keyring_ops db) = pg_kr_forget db"
  "kr_subjects (pg_keyring_ops db) = Some (pg_kr_subjects db)"
  by (simp_all add: pg_keyring_ops_def)

text \<open>
  What is relied on of the table \<^verbatim>\<open>pii_keys\<close>, with \<open>keys\<close> the rows it holds: \<^verbatim>\<open>pii_id\<close> is its primary key,
  and a statement that succeeds did what it says.
\<close>

definition keys_behave :: "'d pg_db \<Rightarrow> ('d \<Rightarrow> uuid \<Rightarrow> bytes option) \<Rightarrow> bool" where
  "keys_behave db keys \<longleftrightarrow>
     (\<forall>p d. case db_query_row db SelectKey [VUuid p] d of
        Inl err \<Rightarrow> errors_is err ErrNoRows \<longrightarrow> keys d p = None
      | Inr vals \<Rightarrow> \<exists>b. vals = [VBytes b] \<and> keys d p = Some b)
     \<and> (\<forall>p b d d'. db_exec db UpsertKey [VUuid p, VBytes b] d = (None, d') \<longrightarrow> keys d' = (keys d)(p \<mapsto> b))
     \<and> (\<forall>p d d'. db_exec db DeleteKey [VUuid p] d = (None, d') \<longrightarrow> keys d' = (keys d)(p := None))
     \<and> (\<forall>d rows. db_query db ListKeys [] d = Inr (rows, None) \<longrightarrow>
          (\<exists>ps. distinct ps \<and> set ps = dom (keys d) \<and> rows = map (\<lambda>p. [VUuid p]) ps))"

interpretation pg_ring: keyring "pg_keyring_ops db" "\<lambda>_. keys_behave db keys" keys for db keys
proof unfold_locales
  fix d p v assume ok: "keys_behave db keys" and "kr_get (pg_keyring_ops db) p d = Inr v"
  moreover from ok have "case db_query_row db SelectKey [VUuid p] d of
        Inl err \<Rightarrow> errors_is err ErrNoRows \<longrightarrow> keys d p = None
      | Inr vals \<Rightarrow> \<exists>b. vals = [VBytes b] \<and> keys d p = Some b" by (simp add: keys_behave_def)
  ultimately show "v = keys d p"
    by (auto simp: pg_kr_get_def scan1_def split: sum.splits if_splits)
next
  fix d p b r r' d' assume "keys_behave db keys" "kr_put (pg_keyring_ops db) p b (r, d) = (None, r', d')"
  then show "keys_behave db keys \<and> keys d' = (keys d)(p \<mapsto> b)"
    by (auto simp: pg_kr_put_def keys_behave_def split: prod.splits option.splits)
next
  fix d p d' assume "keys_behave db keys" "kr_forget (pg_keyring_ops db) p d = (None, d')"
  then show "keys_behave db keys \<and> keys d' = (keys d)(p := None)"
    by (auto simp: pg_kr_forget_def keys_behave_def split: prod.splits option.splits)
qed

lemma scan_subjects_uuids: "scan_subjects (map (\<lambda>p. [VUuid p]) ps) = Inr ps"
  by (induction ps) (simp_all add: scan1_def)

text \<open>
  C29. The Postgres ring keeps the contract of a key ring: calls that report success are those of a map.
  After a put and a forget, a get that answers gives nothing for the subject that was forgotten, the
  new key for the one that was put, and for any other the key it had; and the subjects listed are
  those that have a key, each once.
\<close>

theorem pg_keyring_contract:
  assumes ok: "keys_behave db keys"
    and "pg_kr_put db p b (r, d) = (None, r', d1)" "pg_kr_forget db q d1 = (None, d2)"
    and "pg_kr_get db s d2 = Inr v" "pg_kr_subjects db d2 = Inr ps"
  shows "v = (if s = q then None else if s = p then Some b else keys d s)
    \<and> distinct ps \<and> set ps = {s. s \<noteq> q \<and> (s = p \<or> keys d s \<noteq> None)}"
proof -
  have ops: "kr_put (pg_keyring_ops db) p b (r, d) = (None, r', d1)" "kr_forget (pg_keyring_ops db) q d1 = (None, d2)"
    "kr_get (pg_keyring_ops db) s d2 = Inr v" using assms(2-4) by simp_all
  have k1: "keys d1 = (keys d)(p \<mapsto> b)" using pg_ring.put_key [OF ok ops(1)] by simp
  have k2: "keys d2 = (keys d1)(q := None)" using pg_ring.forget_key [OF ok ops(2)] by simp
  have v: "v = keys d2 s" using pg_ring.get_key [OF ok ops(3)] by simp
  obtain rows where rows: "db_query db ListKeys [] d2 = Inr (rows, None)" "scan_subjects rows = Inr ps"
    using assms(5) by (auto simp: pg_kr_subjects_def split: sum.splits prod.splits option.splits)
  with ok obtain qs where "distinct qs" "set qs = dom (keys d2)" "rows = map (\<lambda>p. [VUuid p]) qs"
    unfolding keys_behave_def by blast
  with rows(2) have "distinct ps" "set ps = dom (keys d2)" by (simp_all add: scan_subjects_uuids)
  with v show ?thesis by (auto simp: k1 k2)
qed

text \<open>While every statement on the table is answered, the ring is a reliable one, and it lists its subjects.\<close>

definition keys_answer :: "'d pg_db \<Rightarrow> bool" where
  "keys_answer db \<longleftrightarrow>
     (\<forall>p d err. db_query_row db SelectKey [VUuid p] d = Inl err \<longrightarrow> errors_is err ErrNoRows)
     \<and> (\<forall>p b d. fst (db_exec db UpsertKey [VUuid p, VBytes b] d) = None)
     \<and> (\<forall>p d. fst (db_exec db DeleteKey [VUuid p] d) = None)
     \<and> (\<forall>d. \<exists>rows. db_query db ListKeys [] d = Inr (rows, None))"

definition pg_keys_inv :: "'d pg_db \<Rightarrow> ('d \<Rightarrow> uuid \<Rightarrow> bytes option) \<Rightarrow> 'd \<Rightarrow> bool" where
  "pg_keys_inv db keys d \<longleftrightarrow> keys_behave db keys \<and> keys_answer db"

interpretation pg_listing: listing_keyring "pg_keyring_ops db" "pg_keys_inv db keys" keys "pg_kr_subjects db" for db keys
proof unfold_locales
  fix d p v assume "pg_keys_inv db keys d" "kr_get (pg_keyring_ops db) p d = Inr v"
  then show "v = keys d p" using pg_ring.get_key [where db = db and keys = keys and k = d and p = p and v = v] by (simp add: pg_keys_inv_def)
next
  fix d p b r r' d' assume "pg_keys_inv db keys d" "kr_put (pg_keyring_ops db) p b (r, d) = (None, r', d')"
  then show "pg_keys_inv db keys d' \<and> keys d' = (keys d)(p \<mapsto> b)"
    using pg_ring.put_key [where db = db and keys = keys and k = d and k' = d'] by (simp add: pg_keys_inv_def)
next
  fix d p d' assume "pg_keys_inv db keys d" "kr_forget (pg_keyring_ops db) p d = (None, d')"
  then show "pg_keys_inv db keys d' \<and> keys d' = (keys d)(p := None)"
    using pg_ring.forget_key [where db = db and keys = keys and k = d and k' = d'] by (simp add: pg_keys_inv_def)
next
  fix d p and b :: bytes and r :: rng
  assume d: "pg_keys_inv db keys d"
  from d have row: "case db_query_row db SelectKey [VUuid p] d of
        Inl err \<Rightarrow> errors_is err ErrNoRows | Inr vals \<Rightarrow> \<exists>b. vals = [VBytes b]"
    by (fastforce simp: pg_keys_inv_def keys_behave_def keys_answer_def split: sum.splits)
  then show "\<exists>v. kr_get (pg_keyring_ops db) p d = Inr v"
    by (auto simp: pg_kr_get_def scan1_def split: sum.splits)
  from d have "fst (db_exec db UpsertKey [VUuid p, VBytes b] d) = None" "fst (db_exec db DeleteKey [VUuid p] d) = None"
    by (simp_all add: pg_keys_inv_def keys_answer_def)
  then show "fst (kr_put (pg_keyring_ops db) p b (r, d)) = None" "fst (kr_forget (pg_keyring_ops db) p d) = None"
    by (auto simp: pg_kr_put_def pg_kr_forget_def split: prod.splits option.splits)
next
  fix d assume d: "pg_keys_inv db keys d"
  then obtain rows where rows: "db_query db ListKeys [] d = Inr (rows, None)"
    unfolding pg_keys_inv_def keys_answer_def by blast
  with d obtain ps where "distinct ps" "set ps = dom (keys d)" "rows = map (\<lambda>p. [VUuid p]) ps"
    unfolding pg_keys_inv_def keys_behave_def by blast
  with rows show "\<exists>ps. pg_kr_subjects db d = Inr ps \<and> distinct ps \<and> set ps = dom (keys d)"
    by (simp add: pg_kr_subjects_def scan_subjects_uuids)
qed simp

interpretation pg_wrapped: wrapped_ring "pg_keyring_ops db" "pg_keys_inv db keys" keys for db keys
  by unfold_locales

text \<open>So the keys survive a rotation of the wrapper over the table as well.\<close>

lemma pg_rotate_preserves_keys:
  assumes "wr_inv (pg_keys_inv db keys) keys w" "wrapper_ok new"
  shows "\<exists>r' w'. wr_rotate (pg_keyring_ops db) new (r, w) = (None, r', w') \<and> wr_inv (pg_keys_inv db keys) keys w'
    \<and> wr_abs keys w' = wr_abs keys w \<and> wr_wrapper w' = new"
  by (rule pg_listing.rotate_ok [OF assms])

text \<open>A table that satisfies what is relied on: an association list.\<close>

definition sample_keys :: "(uuid \<times> bytes) list pg_db" where
  "sample_keys = \<lparr>
     db_exec = (\<lambda>s args d. case (s, args) of
         (UpsertKey, [VUuid p, VBytes b]) \<Rightarrow> (None, AList.update p b d)
       | (DeleteKey, [VUuid p]) \<Rightarrow> (None, AList.delete p d)
       | _ \<Rightarrow> (None, d)),
     db_query = (\<lambda>s args d. Inr (map (\<lambda>p. [VUuid p]) (remdups (map fst d)), None)),
     db_query_row = (\<lambda>s args d. case args of
         [VUuid p] \<Rightarrow> (case map_of d p of None \<Rightarrow> Inl ErrNoRows | Some b \<Rightarrow> Inr [VBytes b])
       | _ \<Rightarrow> Inl ErrNoRows),
     db_begin = (\<lambda>d. (None, d)), tx_exec = (\<lambda>s args d. (None, d)),
     tx_query_row = (\<lambda>s args d. (Inl ErrNoRows, d)), tx_commit = (\<lambda>d. (None, d)), tx_rollback = (\<lambda>d. (None, d))\<rparr>"

lemma sample_keys_behave: "keys_behave sample_keys map_of"
  unfolding keys_behave_def
proof (intro conjI allI impI)
  fix d :: "(uuid \<times> bytes) list" and rows
  assume "db_query sample_keys ListKeys [] d = Inr (rows, None)"
  then show "\<exists>ps. distinct ps \<and> set ps = dom (map_of d) \<and> rows = map (\<lambda>p. [VUuid p]) ps"
    by (intro exI [of _ "remdups (map fst d)"]) (simp add: sample_keys_def dom_map_of_conv_image_fst)
qed (auto simp: sample_keys_def update_conv' delete_conv' split: option.split)

lemma sample_keys_inv: "pg_keys_inv sample_keys map_of d"
  using sample_keys_behave
  by (auto simp: pg_keys_inv_def keys_answer_def sample_keys_def split: option.splits)

theorem pg_keyring_contract_witness:
  "\<exists>d1 d2 ps. pg_kr_put sample_keys 1 [9] (\<lambda>_. 0, [(2, [8])]) = (None, \<lambda>_. 0, d1)
    \<and> pg_kr_forget sample_keys 2 d1 = (None, d2) \<and> pg_kr_subjects sample_keys d2 = Inr ps \<and> set ps = {1}"
proof -
  let ?d1 = "[(2, [8]), (1, [9])]" and ?d2 = "[(1, [9])] :: (uuid \<times> bytes) list"
  have c: "pg_kr_put sample_keys 1 [9] (\<lambda>_. 0, [(2, [8])]) = (None, \<lambda>_. 0, ?d1)"
    "pg_kr_forget sample_keys 2 ?d1 = (None, ?d2)" "pg_kr_get sample_keys 1 ?d2 = Inr (Some [9])"
    "pg_kr_subjects sample_keys ?d2 = Inr [1]"
    by (simp_all add: pg_kr_put_def pg_kr_forget_def pg_kr_get_def pg_kr_subjects_def sample_keys_def scan1_def)
  from pg_keyring_contract [OF sample_keys_behave c] c show ?thesis by auto
qed

section \<open>The erasure ledger\<close>

text \<open>\<^verbatim>\<open>copy(h[:], b)\<close> into a zeroed \<^verbatim>\<open>[32]byte\<close>.\<close>

definition copy32 :: "bytes \<Rightarrow> bytes" where
  "copy32 b = take 32 (b @ replicate 32 0)"

text \<open>What runs between \<^verbatim>\<open>BeginTx\<close> and the deferred rollback, which is \<open>close_tx\<close>.\<close>

definition pg_ledger_body :: "crypto \<Rightarrow> 'd pg_db \<Rightarrow> uuid \<Rightarrow> time \<Rightarrow> u64 \<Rightarrow> 'd \<Rightarrow> error option \<times> 'd" where
  "pg_ledger_body c db p t g d =
     (case tx_exec db LockShreds [] d of
        (Some err, d1) \<Rightarrow> (Some (ErrWrap ''pgstore: erasure ledger: lock'' err), d1)
      | (None, d1) \<Rightarrow>
     (case tx_query_row db SelectLastShred [] d1 of
        (row, d2) \<Rightarrow>
     (case (case scan1 as_bytes row of
              Inr prev \<Rightarrow> Inr prev
            | Inl err \<Rightarrow>
                if \<not> errors_is err ErrNoRows then Inl (ErrWrap ''pgstore: erasure ledger: read tail'' err)
                else Inr []) of
        Inl err \<Rightarrow> (Some err, d2)
      | Inr prev \<Rightarrow>
          let prev_hash = copy32 prev; hash = shred_record_hash c prev_hash p t g
          in case tx_exec db InsertShred [VUuid p, VTime t, VU64 g, VBytes prev_hash, VBytes hash] d2 of
               (Some err, d3) \<Rightarrow> (Some (ErrWrap ''pgstore: erasure ledger: append'' err), d3)
             | (None, d3) \<Rightarrow>
                 (case tx_commit db d3 of
                    (Some err, d4) \<Rightarrow> (Some (ErrWrap ''pgstore: erasure ledger: commit'' err), d4)
                  | (None, d4) \<Rightarrow> (None, d4)))))"

definition pg_ledger_append :: "crypto \<Rightarrow> 'd pg_db \<Rightarrow> uuid \<Rightarrow> time \<Rightarrow> u64 \<Rightarrow> 'd \<Rightarrow> error option \<times> 'd" where
  "pg_ledger_append c db p t g d =
     (case db_begin db d of
        (Some err, d1) \<Rightarrow> (Some (ErrWrap ''pgstore: erasure ledger: begin tx'' err), d1)
      | (None, d1) \<Rightarrow>
          (case pg_ledger_body c db p t g d1 of
             (r, d2) \<Rightarrow> close_tx db ''pgstore: erasure ledger: rollback'' r d2))"

definition scan_shred :: "pg_value list \<Rightarrow> shred_record option" where
  "scan_shred vals =
     (if length vals \<noteq> 5 then None
      else do {
        p \<leftarrow> as_uuid (vals ! 0);
        t \<leftarrow> as_time (vals ! 1);
        g \<leftarrow> as_u64 (vals ! 2);
        prev \<leftarrow> as_bytes (vals ! 3);
        hash \<leftarrow> as_bytes (vals ! 4);
        Some \<lparr>sr_pii_id = p, sr_erased_at = t, sr_origin_global_id = g, sr_prev_hash = copy32 prev,
          sr_hash = copy32 hash\<rparr>
      })"

fun scan_shreds :: "pg_value list list \<Rightarrow> error + shred_record list" where
  "scan_shreds [] = Inr []"
| "scan_shreds (vals # rows) =
     (case scan_shred vals of
        None \<Rightarrow> Inl (ErrWrap ''pgstore: erasure ledger: scan'' scan_error)
      | Some r \<Rightarrow> map_sum id (\<lambda>rs. r # rs) (scan_shreds rows))"

definition pg_ledger_entries :: "'d pg_db \<Rightarrow> 'd \<Rightarrow> error + shred_record list" where
  "pg_ledger_entries db d =
     (case db_query db ListShreds [] d of
        Inl err \<Rightarrow> Inl (ErrWrap ''pgstore: erasure ledger: list'' err)
      | Inr (rows, rows_err) \<Rightarrow>
          (case scan_shreds rows of
             Inl err \<Rightarrow> Inl err
           | Inr rs \<Rightarrow>
               (case rows_err of
                  Some err \<Rightarrow> Inl (ErrWrap ''pgstore: erasure ledger: list'' err)
                | None \<Rightarrow> Inr rs)))"

definition pg_ledger_ops :: "crypto \<Rightarrow> 'd pg_db \<Rightarrow> 'd ledger_ops" where
  "pg_ledger_ops c db = \<lparr>lg_append = pg_ledger_append c db, lg_entries = pg_ledger_entries db\<rparr>"

lemma pg_ledger_ops_sel [simp, store_simps]:
  "lg_append (pg_ledger_ops c db) = pg_ledger_append c db"
  "lg_entries (pg_ledger_ops c db) = pg_ledger_entries db"
  by (simp_all add: pg_ledger_ops_def)

end
