(* ===== verification/Pg_Ledger.thy ===== *)
theory Pg_Ledger
  imports Pg_Keys
begin

text \<open>
  The Postgres erasure ledger against its contract, the locale \<open>erasure_ledger\<close>: it interprets it for the
  times that the database stores within their second. Postgres rounds to microseconds, and a record
  whose time is rounded into the next second makes the ledger fail its check from then on.
\<close>

section \<open>What is relied on of the table\<close>

text \<open>The rows of \<^verbatim>\<open>pii_shreds\<close> in the order of their ids, without the ids.\<close>

record ledger_view =
  lv_rows :: "pg_value list list"
  lv_pending :: "pg_value list list option"

definition tail_ok :: "'d pg_db \<Rightarrow> ('d \<Rightarrow> ledger_view) \<Rightarrow> bool" where
  "tail_ok db view \<longleftrightarrow> (\<forall>d p r d'. lv_pending (view d) = Some p \<longrightarrow> tx_query_row db SelectLastShred [] d = (r, d') \<longrightarrow>
     view d' = view d
     \<and> (\<forall>err. r = Inl err \<longrightarrow> errors_is err ErrNoRows \<longrightarrow> lv_rows (view d) @ p = [])
     \<and> (\<forall>vals. r = Inr vals \<longrightarrow> lv_rows (view d) @ p \<noteq> [] \<and> vals = [last (lv_rows (view d) @ p) ! 4]))"

definition shreds_behave :: "'d pg_db \<Rightarrow> ('d \<Rightarrow> ledger_view) \<Rightarrow> (time \<Rightarrow> time) \<Rightarrow> bool" where
  "shreds_behave db view rnd \<longleftrightarrow>
     (\<forall>d r d'. db_begin db d = (r, d') \<longrightarrow>
        view d' = \<lparr>lv_rows = lv_rows (view d), lv_pending = (if r = None then Some [] else None)\<rparr>)
     \<and> (\<forall>d. view (snd (tx_exec db LockShreds [] d)) = view d)
     \<and> tail_ok db view
     \<and> (\<forall>args d p r d'. lv_pending (view d) = Some p \<longrightarrow> tx_exec db InsertShred args d = (r, d') \<longrightarrow>
          view d' = (if r = None then (view d)\<lparr>lv_pending := Some (p @ [map (stored_value rnd) args])\<rparr> else view d))
     \<and> (\<forall>d p r d'. lv_pending (view d) = Some p \<longrightarrow> tx_commit db d = (r, d') \<longrightarrow>
          lv_pending (view d') = None
          \<and> (lv_rows (view d') = lv_rows (view d) @ p \<or> r \<noteq> None \<and> lv_rows (view d') = lv_rows (view d)))
     \<and> (\<forall>d r d'. tx_rollback db d = (r, d') \<longrightarrow> view d' = \<lparr>lv_rows = lv_rows (view d), lv_pending = None\<rparr>)
     \<and> (\<forall>d rows. db_query db ListShreds [] d = Inr (rows, None) \<longrightarrow> rows = lv_rows (view d))"

lemma shreds_behaveD:
  assumes "shreds_behave db view rnd"
  shows "db_begin db d = (r, d') \<Longrightarrow>
      view d' = \<lparr>lv_rows = lv_rows (view d), lv_pending = (if r = None then Some [] else None)\<rparr>"
    "tx_exec db LockShreds [] d = (r, d') \<Longrightarrow> view d' = view d"
    "tail_ok db view"
    "lv_pending (view d) = Some p \<Longrightarrow> tx_exec db InsertShred args d = (r, d') \<Longrightarrow>
      view d' = (if r = None then (view d)\<lparr>lv_pending := Some (p @ [map (stored_value rnd) args])\<rparr> else view d)"
    "lv_pending (view d) = Some p \<Longrightarrow> tx_commit db d = (r, d') \<Longrightarrow> lv_pending (view d') = None
      \<and> (lv_rows (view d') = lv_rows (view d) @ p \<or> r \<noteq> None \<and> lv_rows (view d') = lv_rows (view d))"
    "tx_rollback db d = (r, d') \<Longrightarrow> view d' = \<lparr>lv_rows = lv_rows (view d), lv_pending = None\<rparr>"
    "db_query db ListShreds [] d = Inr (rows, None) \<Longrightarrow> rows = lv_rows (view d)"
  using assms unfolding shreds_behave_def by (metis snd_conv)+

section \<open>One append\<close>

definition shred_row :: "shred_record \<Rightarrow> pg_value list" where
  "shred_row r = [VUuid (sr_pii_id r), VTime (sr_erased_at r), VU64 (sr_origin_global_id r),
     VBytes (sr_prev_hash r), VBytes (sr_hash r)]"

lemma copy32_id: "length b = 32 \<Longrightarrow> copy32 b = b"
  by (simp add: copy32_def)

definition hashes_sized :: "shred_record list \<Rightarrow> bool" where
  "hashes_sized rs \<longleftrightarrow> list_all (\<lambda>r. length (sr_prev_hash r) = 32 \<and> length (sr_hash r) = 32) rs"

lemma scan_shred_rows: "hashes_sized rs \<Longrightarrow> scan_shreds (map shred_row rs) = Inr rs"
  by (induction rs) (simp_all add: hashes_sized_def scan_shred_def shred_row_def copy32_id)

text \<open>The record an append builds behind \<open>rs\<close>, as the table then keeps it.\<close>

definition next_shred :: "crypto \<Rightarrow> (time \<Rightarrow> time) \<Rightarrow> uuid \<Rightarrow> time \<Rightarrow> u64 \<Rightarrow> shred_record list \<Rightarrow> shred_record" where
  "next_shred c rnd p t g rs =
     (let prev = (if rs = [] then zero_hash else sr_hash (last rs))
      in \<lparr>sr_pii_id = p, sr_erased_at = rnd t, sr_origin_global_id = g, sr_prev_hash = prev,
          sr_hash = shred_record_hash c prev p t g\<rparr>)"

lemma pg_ledger_body_view:
  assumes ok: "shreds_behave db view rnd" and "lv_pending (view d) = Some []"
    and rows: "lv_rows (view d) = map shred_row rs" "hashes_sized rs"
    and run: "pg_ledger_body c db p t g d = (r, d')"
  shows "(lv_rows (view d') = lv_rows (view d)
      \<or> lv_rows (view d') = map shred_row (rs @ [next_shred c rnd p t g rs]))
    \<and> (r = None \<longrightarrow> lv_rows (view d') = map shred_row (rs @ [next_shred c rnd p t g rs]))"
proof -
  note D = shreds_behaveD [OF ok]
  obtain r1 d1 where s1: "tx_exec db LockShreds [] d = (r1, d1)" by force
  have v1: "view d1 = view d" using D(2) [OF s1] .
  show ?thesis
  proof (cases r1)
    case (Some err)
    with run s1 v1 show ?thesis by (auto simp: pg_ledger_body_def)
  next
    case None
    obtain row d2 where s2: "tx_query_row db SelectLastShred [] d1 = (row, d2)" by force
    have pend: "lv_pending (view d1) = Some []" using assms(2) v1 by simp
    from D(3) pend s2 have v2: "view d2 = view d"
      and empty: "\<And>err. row = Inl err \<Longrightarrow> errors_is err ErrNoRows \<Longrightarrow> rs = []"
      and tail: "\<And>vals. row = Inr vals \<Longrightarrow> rs \<noteq> [] \<and> vals = [VBytes (sr_hash (last rs))]"
      unfolding tail_ok_def v1 [symmetric] by (fastforce simp: v1 rows(1) last_map shred_row_def)+
    have p2: "lv_pending (view d2) = Some []" using assms(2) v2 by simp
    let ?prev = "if rs = [] then zero_hash else sr_hash (last rs)"
    let ?args = "[VUuid p, VTime t, VU64 g, VBytes ?prev, VBytes (shred_record_hash c ?prev p t g)]"
    obtain r3 d3 where s3: "tx_exec db InsertShred ?args d2 = (r3, d3)" by force
    from D(4) [OF p2 s3] have v3: "view d3 = (if r3 = None
        then (view d)\<lparr>lv_pending := Some [shred_row (next_shred c rnd p t g rs)]\<rparr> else view d)"
      by (simp add: v2 shred_row_def next_shred_def Let_def)
    obtain r4 d4 where s4: "tx_commit db d3 = (r4, d4)" by force
    have v4: "lv_rows (view d4) = map shred_row (rs @ [next_shred c rnd p t g rs])
        \<or> r4 \<noteq> None \<and> lv_rows (view d4) = lv_rows (view d)" if "r3 = None"
      using D(5) [OF _ s4, of "[shred_row (next_shred c rnd p t g rs)]"] that by (simp add: v3 rows(1))
    have size: "rs \<noteq> [] \<Longrightarrow> length (sr_hash (last rs)) = 32" using rows(2) by (simp add: hashes_sized_def list_all_iff)
    have zero: "copy32 [] = zero_hash" by (simp add: copy32_def zero_hash_def)
    have prev: "copy32 b = ?prev" if "scan1 as_bytes row = Inr b" for b
      using that tail size by (auto simp: scan1_def copy32_id split: sum.splits if_splits)
    have none: "rs = []" if "scan1 as_bytes row = Inl err" "errors_is err ErrNoRows" for err
      using that tail empty by (cases row) (auto simp: scan1_def)
    consider (fail) "d' = d2" "r \<noteq> None" | (go) "(case tx_exec db InsertShred ?args d2 of
               (Some err, d3) \<Rightarrow> (Some (ErrWrap ''pgstore: erasure ledger: append'' err), d3)
             | (None, d3) \<Rightarrow>
                 (case tx_commit db d3 of
                    (Some err, d4) \<Rightarrow> (Some (ErrWrap ''pgstore: erasure ledger: commit'' err), d4)
                  | (None, d4) \<Rightarrow> (None, d4))) = (r, d')"
    proof (cases "scan1 as_bytes row")
      case (Inr b)
      with run s1 None s2 prev [OF Inr] go show ?thesis by (simp add: pg_ledger_body_def Let_def)
    next
      case (Inl err)
      show ?thesis
      proof (cases "errors_is err ErrNoRows")
        case True
        with run s1 None s2 Inl none [OF Inl True] go show ?thesis
          by (simp add: pg_ledger_body_def Let_def zero)
      qed (use run s1 None s2 Inl fail in \<open>auto simp: pg_ledger_body_def\<close>)
    qed
    then show ?thesis
    proof cases
      case fail
      then show ?thesis by (auto simp: v2)
    next
      case go
      with s3 s4 v3 v4 show ?thesis by (cases r3; cases r4) auto
    qed
  qed
qed

lemma close_tx_rows:
  assumes "shreds_behave db view rnd" "close_tx db msg r d = (r', d')"
  shows "lv_rows (view d') = lv_rows (view d) \<and> (r' = None \<longrightarrow> r = None)"
proof -
  obtain rb d1 where rb: "tx_rollback db d = (rb, d1)" by force
  with assms(2) have "d' = d1" "r' = None \<longrightarrow> r = None"
    by (auto simp: close_tx_def split: option.splits if_splits)
  with shreds_behaveD(6) [OF assms(1) rb] show ?thesis by simp
qed

lemma pg_ledger_append_view:
  assumes ok: "shreds_behave db view rnd" and rows: "lv_rows (view d) = map shred_row rs" "hashes_sized rs"
    and run: "pg_ledger_append c db p t g d = (r, d')"
  shows "(lv_rows (view d') = map shred_row rs \<or> lv_rows (view d') = map shred_row (rs @ [next_shred c rnd p t g rs]))
    \<and> (r = None \<longrightarrow> lv_rows (view d') = map shred_row (rs @ [next_shred c rnd p t g rs]))"
proof -
  obtain r0 d0 where b: "db_begin db d = (r0, d0)" by force
  note v0 = shreds_behaveD(1) [OF ok b]
  show ?thesis
  proof (cases r0)
    case (Some err)
    with run b v0 rows show ?thesis by (auto simp: pg_ledger_append_def)
  next
    case None
    obtain r1 d1 where body: "pg_ledger_body c db p t g d0 = (r1, d1)" by force
    with run b None have close: "close_tx db ''pgstore: erasure ledger: rollback'' r1 d1 = (r, d')"
      by (simp add: pg_ledger_append_def)
    from v0 None rows have "lv_pending (view d0) = Some []" "lv_rows (view d0) = map shred_row rs" by simp_all
    from pg_ledger_body_view [OF ok this rows(2) body] close_tx_rows [OF ok close] this(2)
    show ?thesis by auto
  qed
qed

section \<open>The contract\<close>

text \<open>The table holds a ledger that passes its check.\<close>

definition pg_ledger_holds :: "crypto \<Rightarrow> ('d \<Rightarrow> ledger_view) \<Rightarrow> 'd \<Rightarrow> shred_record list \<Rightarrow> bool" where
  "pg_ledger_holds c view d rs \<longleftrightarrow>
     lv_rows (view d) = map shred_row rs \<and> hashes_sized rs \<and> check_shred_chain c rs = None"

lemma length_shred_hash: "(\<And>x. length (cr_sha256 c x) = 32) \<Longrightarrow> length (shred_record_hash c prev p t g) = 32"
  by (simp add: shred_record_hash_def)

lemma next_shred_sized:
  assumes "\<And>x. length (cr_sha256 c x) = 32" "hashes_sized rs"
  shows "hashes_sized (rs @ [next_shred c rnd p t g rs])"
  using assms by (auto simp: hashes_sized_def next_shred_def Let_def length_shred_hash zero_hash_def list_all_iff)

lemma pg_ledger_entries_rows:
  assumes "shreds_behave db view rnd" "lv_rows (view d) = map shred_row rs" "hashes_sized rs"
    and "pg_ledger_entries db d = Inr qs"
  shows "qs = rs"
proof -
  obtain rows where "db_query db ListShreds [] d = Inr (rows, None)" "scan_shreds rows = Inr qs"
    using assms(4) by (auto simp: pg_ledger_entries_def split: sum.splits prod.splits option.splits)
  with shreds_behaveD(7) [OF assms(1)] assms(2) scan_shred_rows [OF assms(3)] show ?thesis by simp
qed

lemma check_next_shred:
  assumes "check_shred_chain c rs = None"
  shows "check_shred_chain c (rs @ [next_shred c rnd p t g rs]) = None \<longleftrightarrow>
    (let prev = (if rs = [] then zero_hash else sr_hash (last rs))
     in shred_record_hash c prev p t g = shred_record_hash c prev p (rnd t) g)"
  using assms by (auto simp: check_shred_snoc next_shred_def Let_def)

text \<open>
  C27. \<^verbatim>\<open>Append\<close> keeps the Postgres ledger a valid chain when the database keeps the second of the time:
  afterwards the table holds what it held, or that and one record of the call's subject and origin
  event, linked to the one before; it holds the record if the call reported success; and whatever
  \<^verbatim>\<open>Entries\<close> then returns passes \<^verbatim>\<open>CheckShredChain\<close>.
\<close>

theorem pg_ledger_append_chain:
  assumes ok: "shreds_behave db view rnd" "\<forall>x. length (cr_sha256 c x) = 32" "pg_ledger_holds c view d rs"
    and "pg_ledger_append c db p t g d = (r, d')" "unix_seconds (rnd t) = unix_seconds t"
  shows "(pg_ledger_holds c view d' rs \<or> pg_ledger_holds c view d' (rs @ [next_shred c rnd p t g rs]))
    \<and> (r = None \<longrightarrow> pg_ledger_holds c view d' (rs @ [next_shred c rnd p t g rs]))
    \<and> (\<forall>qs. pg_ledger_entries db d' = Inr qs \<longrightarrow> check_shred_chain c qs = None)"
proof -
  let ?rs = "rs @ [next_shred c rnd p t g rs]"
  from ok(3) have rows: "lv_rows (view d) = map shred_row rs" "hashes_sized rs" "check_shred_chain c rs = None"
    by (simp_all add: pg_ledger_holds_def)
  have sized: "hashes_sized ?rs" using next_shred_sized [OF _ rows(2)] ok(2) by blast
  have "check_shred_chain c ?rs = None"
    using check_next_shred [OF rows(3)] assms(5) by (simp add: shred_record_hash_def shred_hash_input_def Let_def)
  with pg_ledger_append_view [OF ok(1) rows(1,2) assms(4)] rows sized
  have held: "pg_ledger_holds c view d' rs \<or> pg_ledger_holds c view d' ?rs" "r = None \<longrightarrow> pg_ledger_holds c view d' ?rs"
    by (auto simp: pg_ledger_holds_def)
  then obtain qs where "pg_ledger_holds c view d' qs" by blast
  then have "\<forall>es. pg_ledger_entries db d' = Inr es \<longrightarrow> check_shred_chain c es = None"
    using pg_ledger_entries_rows [OF ok(1)] by (auto simp: pg_ledger_holds_def)
  with held show ?thesis by blast
qed

lemma pg_ledger_append_held:
  assumes ok: "shreds_behave db view rnd" "\<forall>x. length (cr_sha256 c x) = 32" "pg_ledger_holds c view d rs"
    and "pg_ledger_append c db p t g d = (None, d')" "unix_seconds (rnd t) = unix_seconds t"
  shows "pg_ledger_holds c view d' (rs @ [next_shred c rnd p t g rs])"
proof -
  from ok(3) have rows: "lv_rows (view d) = map shred_row rs" "hashes_sized rs" "check_shred_chain c rs = None"
    by (simp_all add: pg_ledger_holds_def)
  have "hashes_sized (rs @ [next_shred c rnd p t g rs])" using next_shred_sized [OF _ rows(2)] ok(2) by blast
  moreover have "check_shred_chain c (rs @ [next_shred c rnd p t g rs]) = None"
    using check_next_shred [OF rows(3)] assms(5) by (simp add: shred_record_hash_def shred_hash_input_def Let_def)
  ultimately show ?thesis
    using pg_ledger_append_view [OF ok(1) rows(1,2) assms(4)] by (simp add: pg_ledger_holds_def)
qed

text \<open>What is relied on, as part of the invariant: the table, and the length of a hash.\<close>

definition pg_ledger_inv :: "crypto \<Rightarrow> 'd pg_db \<Rightarrow> ('d \<Rightarrow> ledger_view) \<Rightarrow> (time \<Rightarrow> time) \<Rightarrow> 'd \<Rightarrow> bool" where
  "pg_ledger_inv c db view rnd d \<longleftrightarrow> shreds_behave db view rnd \<and> (\<forall>x. length (cr_sha256 c x) = 32)
     \<and> (\<exists>rs. pg_ledger_holds c view d rs)"

text \<open>The contract, for the times that the rounding of the column does not carry into another second.\<close>

interpretation pg_ledger: erasure_ledger c "pg_ledger_ops c db" "pg_ledger_inv c db view rnd"
  "\<lambda>t. unix_seconds (rnd t) = unix_seconds t" for c db view rnd
proof unfold_locales
  fix d qs assume "pg_ledger_inv c db view rnd d" "lg_entries (pg_ledger_ops c db) d = Inr qs"
  then show "check_shred_chain c qs = None"
    using pg_ledger_entries_rows [of db view rnd d _ qs] by (auto simp: pg_ledger_inv_def pg_ledger_holds_def)
next
  fix d p t g d' qs
  assume inv: "pg_ledger_inv c db view rnd d" and sec: "unix_seconds (rnd t) = unix_seconds t" and ap: "lg_append (pg_ledger_ops c db) p t g d = (None, d')"
    and qs: "lg_entries (pg_ledger_ops c db) d = Inr qs"
  then obtain rs where ok: "shreds_behave db view rnd" "\<forall>x. length (cr_sha256 c x) = 32"
    and h: "pg_ledger_holds c view d rs"
    by (auto simp: pg_ledger_inv_def)
  with qs have "qs = rs" using pg_ledger_entries_rows [OF ok(1)] by (auto simp: pg_ledger_holds_def)
  have h': "pg_ledger_holds c view d' (rs @ [next_shred c rnd p t g rs])"
    using pg_ledger_append_held [OF ok h] ap sec by simp
  then have "qs' = rs @ [next_shred c rnd p t g rs]" if "pg_ledger_entries db d' = Inr qs'" for qs'
    using pg_ledger_entries_rows [OF ok(1) _ _ that] by (simp only: pg_ledger_holds_def)
  with h' \<open>qs = rs\<close> ok sec
  show "pg_ledger_inv c db view rnd d' \<and> (\<forall>qs'. lg_entries (pg_ledger_ops c db) d' = Inr qs' \<longrightarrow>
      (\<exists>r. qs' = qs @ [r] \<and> shred_facts r = (p, unix_seconds t, g)))"
    by (auto simp: pg_ledger_inv_def shred_facts_def next_shred_def Let_def)
qed

text \<open>
  C28. The hash covers the time as the caller gave it, the table the time as the database rounds it. When
  the two lie in different seconds, so that their hashes differ, an append that succeeds breaks the
  ledger for good: what is read back fails \<^verbatim>\<open>CheckShredChain\<close>, and so does every extension of it, so
  that no erasure of any subject verifies again. The caller passes \<^verbatim>\<open>time.Now()\<close>, with nanoseconds.
\<close>

theorem ledger_rounding_breaks_chain:
  assumes ok: "shreds_behave db view rnd" "\<forall>x. length (cr_sha256 c x) = 32" "pg_ledger_holds c view d rs"
    and "pg_ledger_append c db p t g d = (None, d')" "pg_ledger_entries db d' = Inr qs"
    and diff: "shred_record_hash c (if rs = [] then zero_hash else sr_hash (last rs)) p t g
      \<noteq> shred_record_hash c (if rs = [] then zero_hash else sr_hash (last rs)) p (rnd t) g"
  shows "check_shred_chain c (qs @ later) \<noteq> None"
proof -
  let ?rs = "rs @ [next_shred c rnd p t g rs]"
  from ok(3) have rows: "lv_rows (view d) = map shred_row rs" "hashes_sized rs" "check_shred_chain c rs = None"
    by (simp_all add: pg_ledger_holds_def)
  have sized: "hashes_sized ?rs" using next_shred_sized [OF _ rows(2)] ok(2) by blast
  have "lv_rows (view d') = map shred_row ?rs" using pg_ledger_append_view [OF ok(1) rows(1,2) assms(4)] by blast
  from pg_ledger_entries_rows [OF ok(1) this sized assms(5)] have qs: "qs = ?rs" .
  have "check_shred_chain c ?rs \<noteq> None" using check_next_shred [OF rows(3)] diff by (simp add: Let_def)
  then show ?thesis unfolding qs check_shred_chain_def check_shred_loop_append [of c zero_hash ?rs later]
    by (auto simp del: check_shred_loop.simps)
qed

section \<open>Examples\<close>

text \<open>A timestamp of Postgres has microseconds; the input is rounded to the nearest.\<close>

definition to_microseconds :: "time \<Rightarrow> time" where
  "to_microseconds t = (t + 500) div 1000 * 1000"

definition sample_shreds :: "(time \<Rightarrow> time) \<Rightarrow> ledger_view pg_db" where
  "sample_shreds rnd = \<lparr>
     db_exec = (\<lambda>s args d. (None, d)),
     db_query = (\<lambda>s args d. Inr (lv_rows d, None)),
     db_query_row = (\<lambda>s args d. Inl ErrNoRows),
     db_begin = (\<lambda>d. (None, d\<lparr>lv_pending := Some []\<rparr>)),
     tx_exec = (\<lambda>s args d. case (s, lv_pending d) of
         (InsertShred, Some p) \<Rightarrow> (None, d\<lparr>lv_pending := Some (p @ [map (stored_value rnd) args])\<rparr>)
       | _ \<Rightarrow> (None, d)),
     tx_query_row = (\<lambda>s args d. (case lv_rows d @ (case lv_pending d of None \<Rightarrow> [] | Some p \<Rightarrow> p) of
         [] \<Rightarrow> Inl ErrNoRows | rows \<Rightarrow> Inr [last rows ! 4], d)),
     tx_commit = (\<lambda>d. case lv_pending d of None \<Rightarrow> (Some ErrTxDone, d)
       | Some p \<Rightarrow> (None, \<lparr>lv_rows = lv_rows d @ p, lv_pending = None\<rparr>)),
     tx_rollback = (\<lambda>d. (if lv_pending d = None then Some ErrTxDone else None, d\<lparr>lv_pending := None\<rparr>))\<rparr>"

lemma sample_shreds_behave: "shreds_behave (sample_shreds rnd) (\<lambda>d. d) rnd"
  by (auto simp: shreds_behave_def tail_ok_def sample_shreds_def split: list.splits option.splits)

lemma toy_hash_length: "\<forall>x. length (cr_sha256 toy_crypto x) = 32"
  by (simp add: toy_crypto_def min_def)

lemma toy_hash_seconds:
  assumes "unix_seconds t \<noteq> unix_seconds u"
  shows "shred_record_hash toy_crypto prev p t g \<noteq> shred_record_hash toy_crypto prev p u g"
proof -
  have "be_bytes 8 (unix_seconds t) \<noteq> be_bytes 8 (unix_seconds u)"
    using assms be_bytes_inj [of 8 "unix_seconds t" "unix_seconds u"] by auto
  then show ?thesis by (simp add: shred_record_hash_def shred_hash_input_def toy_crypto_def)
qed

abbreviation empty_ledger :: ledger_view where
  "empty_ledger \<equiv> \<lparr>lv_rows = [], lv_pending = None\<rparr>"

lemma empty_ledger_holds: "pg_ledger_holds c (\<lambda>d. d) empty_ledger []"
  by (simp add: pg_ledger_holds_def hashes_sized_def check_shred_chain_def)

lemma sample_append:
  "\<exists>d'. pg_ledger_append toy_crypto (sample_shreds rnd) 3 t g empty_ledger = (None, d')
    \<and> (\<exists>qs. pg_ledger_entries (sample_shreds rnd) d' = Inr qs)"
proof -
  obtain r d' where ap: "pg_ledger_append toy_crypto (sample_shreds rnd) 3 t g empty_ledger = (r, d')" by force
  then have "r = None"
    by (simp add: pg_ledger_append_def pg_ledger_body_def close_tx_def sample_shreds_def scan1_def Let_def)
  moreover from pg_ledger_append_view [OF sample_shreds_behave _ _ ap, of "[]"] this
  have "lv_rows d' = map shred_row [next_shred toy_crypto rnd 3 t g []]" by (simp add: hashes_sized_def)
  moreover have "hashes_sized [next_shred toy_crypto rnd 3 t g []]"
    using next_shred_sized [of toy_crypto "[]" rnd 3 t g] toy_hash_length by (simp add: hashes_sized_def)
  then have "scan_shreds (map shred_row [next_shred toy_crypto rnd 3 t g []]) = Inr [next_shred toy_crypto rnd 3 t g []]"
    by (rule scan_shred_rows)
  ultimately show ?thesis using ap by (simp add: pg_ledger_entries_def sample_shreds_def)
qed

theorem pg_ledger_append_chain_witness:
  "\<exists>r d' qs. pg_ledger_append toy_crypto (sample_shreds to_microseconds) 3 1600000000123456789 1 empty_ledger = (r, d')
    \<and> pg_ledger_entries (sample_shreds to_microseconds) d' = Inr qs \<and> check_shred_chain toy_crypto qs = None"
proof -
  obtain d' qs where ap: "pg_ledger_append toy_crypto (sample_shreds to_microseconds) 3 1600000000123456789 1 empty_ledger = (None, d')"
    "pg_ledger_entries (sample_shreds to_microseconds) d' = Inr qs" using sample_append by blast
  have "unix_seconds (to_microseconds 1600000000123456789) = unix_seconds 1600000000123456789"
    by (simp add: unix_seconds_def to_microseconds_def)
  from pg_ledger_append_chain [OF sample_shreds_behave toy_hash_length empty_ledger_holds ap(1) this] ap
  show ?thesis by blast
qed

theorem ledger_rounding_breaks_chain_witness:
  "\<exists>d' qs. pg_ledger_append toy_crypto (sample_shreds to_microseconds) 3 1600000000999999600 1 empty_ledger = (None, d')
    \<and> pg_ledger_entries (sample_shreds to_microseconds) d' = Inr qs \<and> check_shred_chain toy_crypto (qs @ []) \<noteq> None"
proof -
  obtain d' qs where ap: "pg_ledger_append toy_crypto (sample_shreds to_microseconds) 3 1600000000999999600 1 empty_ledger = (None, d')"
    "pg_ledger_entries (sample_shreds to_microseconds) d' = Inr qs" using sample_append by blast
  have sec: "unix_seconds (to_microseconds 1600000000999999600) = 1600000001" "unix_seconds 1600000000999999600 = 1600000000"
    by (simp_all add: unix_seconds_def to_microseconds_def)
  have "shred_record_hash toy_crypto prev 3 1600000000999999600 1
      \<noteq> shred_record_hash toy_crypto prev 3 (to_microseconds 1600000000999999600) 1" for prev
    by (intro toy_hash_seconds) (simp add: sec)
  from ledger_rounding_breaks_chain [OF sample_shreds_behave toy_hash_length empty_ledger_holds ap this, of "[]"] ap
  show ?thesis by blast
qed

end
