(* ===== verification/Pg_Stack.thy ===== *)
theory Pg_Stack
  imports Pg_Repository Pg_Ledger Mem_Pii
begin

text \<open>
  The program as it is deployed: \<^verbatim>\<open>Repository\<close> over \<^verbatim>\<open>PiiEventStore\<close> over \<^verbatim>\<open>pgstore.Store\<close>, with
  \<^verbatim>\<open>WrappedKeyRing\<close> over \<^verbatim>\<open>pgstore.KeyRing\<close> and \<^verbatim>\<open>pgstore.ErasureLedger\<close>. Each part interprets the
  locale of its interface, so the contracts compose: what is saved is what is loaded, with only
  ciphertext in the table, and an erasure request is carried out and certified.
\<close>

section \<open>The whole stack\<close>

text \<open>
  The PII store over Postgres, its key ring in a table as well, under a wrapper. The two tables are two
  states: no operation on one touches the other.
\<close>

definition pg_stack :: "pg_store \<Rightarrow> 'd pg_db \<Rightarrow> 'k pg_db \<Rightarrow> 'p payload_ops \<Rightarrow> 'p registry \<Rightarrow> crypto \<Rightarrow> 'l ledger_ops option \<Rightarrow>
    ('p, 'd, 'k wrapped_keyring, 'l) pii_config" where
  "pg_stack st db kdb ops reg c lg =
     (new_pii_event_store (pg_ops st db) ops reg c (wrapped_ops (pg_keyring_ops kdb)))\<lparr>pc_ledger := lg\<rparr>"

lemma pg_stack_sel [simp, store_simps]:
  "pc_store (pg_stack st db kdb ops reg c lg) = pg_ops st db"
  "pc_keys (pg_stack st db kdb ops reg c lg) = wrapped_ops (pg_keyring_ops kdb)"
  "pc_ops (pg_stack st db kdb ops reg c lg) = ops" "pc_registry (pg_stack st db kdb ops reg c lg) = reg"
  "pc_crypto (pg_stack st db kdb ops reg c lg) = c" "pc_ledger (pg_stack st db kdb ops reg c lg) = lg"
  by (simp_all add: pg_stack_def new_pii_event_store_def)

interpretation pii_pg: pii_store "pg_ops st db" opts "pg_inv db view rnd st opts" "pg_contents view st opts"
  "pg_batch view st opts" "wrapped_ops (pg_keyring_ops kdb)" "wr_inv (pg_keys_inv kdb keys) keys" "wr_abs keys"
  "pg_stack st db kdb ops reg c lg" for st db view rnd opts kdb keys ops reg c lg
  by unfold_locales simp_all

abbreviation stack_inv :: "pg_store \<Rightarrow> 'd pg_db \<Rightarrow> ('d \<Rightarrow> pg_view) \<Rightarrow> (time \<Rightarrow> time) \<Rightarrow> 'k pg_db \<Rightarrow>
    ('k \<Rightarrow> uuid \<Rightarrow> bytes option) \<Rightarrow> store_option list \<Rightarrow> ('p, 'd, 'k wrapped_keyring, 'l) pii_config \<Rightarrow>
    ('d, 'k wrapped_keyring, 'l) pii_world \<Rightarrow> bool" where
  "stack_inv st db view rnd kdb keys opts cf \<equiv>
     pii_inv cf (pg_inv db view rnd st opts) (pg_contents view st opts) (wr_inv (pg_keys_inv kdb keys) keys)"

abbreviation stack_batch :: "pg_store \<Rightarrow> ('d \<Rightarrow> pg_view) \<Rightarrow> ('k \<Rightarrow> uuid \<Rightarrow> bytes option) \<Rightarrow> store_option list \<Rightarrow>
    ('p, 'd, 'k wrapped_keyring, 'l) pii_config \<Rightarrow> ('d, 'k wrapped_keyring, 'l) pii_world \<Rightarrow> uuid \<Rightarrow> domain_event list \<Rightarrow> bool" where
  "stack_batch st view keys opts cf \<equiv> pii_batch cf (pg_contents view st opts) (pg_batch view st opts) (wr_abs keys)"

interpretation user_stack: repository user_ops user_apply user_events
  "pii_store_ops (pg_stack st db kdb user_ops user_events c lg)" opts
  "stack_inv st db view rnd kdb keys opts (pg_stack st db kdb user_ops user_events c lg)"
  "pii_stream (pg_stack st db kdb user_ops user_events c lg) (pg_contents view st opts)"
  "stack_batch st view keys opts (pg_stack st db kdb user_ops user_events c lg)"
  for st db view rnd kdb keys c lg opts
  by (intro repository.intro user.event_sourced_axioms pii_pg.pii.event_store_axioms)

text \<open>
  C8. A user saved through the whole stack -- \<^verbatim>\<open>Repository\<close>, \<^verbatim>\<open>PiiEventStore\<close>, \<^verbatim>\<open>WrappedKeyRing\<close> and the
  Postgres store and key ring -- is the user that is loaded. What the table has gained is the
  recorded events, in order, each with its declared fields sealed under the subject's key, up to its
  global id and tenant and the rounding of its time.
\<close>

theorem stack_save_load:
  assumes cf: "cf = pg_stack st db kdb user_ops user_events c lg"
    and inv: "stack_inv st db view rnd kdb keys opts cf w"
    and src: "sourced user_ops user_apply user_events new_user (pii_stream cf (pg_contents view st opts) w (agg_id u)) u"
    and batch: "stack_batch st view keys opts cf w (agg_id u) (agg_uncommitted u)" "agg_uncommitted u \<noteq> []"
    and save: "repo_save (pii_store_ops cf) u opts w = (None, u', w')"
  shows "stack_inv st db view rnd kdb keys opts cf w'
    \<and> repo_load (pii_store_ops cf) user_ops user_apply user_events new_user (agg_id u) opts w' = Inr u'
    \<and> (\<exists>es1 fs. pg_contents view st opts (pw_store w') (agg_id u) = pg_contents view st opts (pw_store w) (agg_id u) @ fs
         \<and> list_all2 (seal_of cf (wr_abs keys (pw_keys w'))) (agg_uncommitted u) es1 \<and> map kept_view fs = map kept_view es1)"
proof -
  note inv' = inv [unfolded cf] and b = batch(1) [unfolded cf]
  have "stack_inv st db view rnd kdb keys opts cf w'
    \<and> repo_load (pii_store_ops cf) user_ops user_apply user_events new_user (agg_id u) opts w' = Inr u'"
    using user_stack.save_then_load [OF inv' src [unfolded cf] b batch(2) save [unfolded cf]] by (simp add: cf)
  moreover from repo_save_ok [OF save batch(2)] obtain es' where
    "st_commit (pii_store_ops cf) (agg_uncommitted u) (agg_version u - of_nat (length (agg_uncommitted u))) opts w = (None, es', w')"
    by blast
  then have "pii_commit (pg_stack st db kdb user_ops user_events c lg) (agg_uncommitted u)
      (agg_version u - of_nat (length (agg_uncommitted u))) opts w = (None, es', w')" by (simp add: cf)
  from pii_pg.pii_commit_ok [OF inv' b batch(2) this] cf have
    "\<exists>es1 fs. pg_contents view st opts (pw_store w') (agg_id u) = pg_contents view st opts (pw_store w) (agg_id u) @ fs
         \<and> list_all2 (seal_of cf (wr_abs keys (pw_keys w'))) (agg_uncommitted u) es1 \<and> map kept_view fs = map kept_view es1"
    by metis
  ultimately show ?thesis by blast
qed

text \<open>
  A save that lost the race through the stack fails, and no stream of the table changes: what it has
  sealed is thrown away, and the user keeps its version for the retry.
\<close>

lemma stack_lost_race:
  assumes cf: "cf = pg_stack st db kdb user_ops user_events c lg"
    and inv: "stack_inv st db view rnd kdb keys opts cf w"
    and batch: "stack_batch st view keys opts cf w (agg_id u) (agg_uncommitted u)" "agg_uncommitted u \<noteq> []"
    and stale: "current_version (pii_stream cf (pg_contents view st opts) w (agg_id u)) \<noteq> agg_version u - of_nat (length (agg_uncommitted u))"
    and save: "repo_save (pii_store_ops cf) u opts w = (r, u', w')"
  shows "r \<noteq> None \<and> stack_inv st db view rnd kdb keys opts cf w'
    \<and> pii_stream cf (pg_contents view st opts) w' = pii_stream cf (pg_contents view st opts) w
    \<and> agg_id u' = agg_id u \<and> agg_version u' = agg_version u"
  using user_stack.save_lost_race [OF inv [unfolded cf] batch(1) [unfolded cf] batch(2) stale [unfolded cf] save [unfolded cf]]
  by (auto simp: cf)

section \<open>Erasure\<close>

text \<open>The events of a subject in the table of the log, read under no tenant, through the key ring.\<close>

lemma stack_lookup:
  assumes "pg_inv db view rnd st opts d" "pg_pii_tracking st"
  shows "pg_fetch_by_pii_id st db p [] d =
    (let es = filter (\<lambda>e. ev_pii_id e = Some p) (table_log st (pv_events (view d)))
     in if es = [] then Inl ErrSubjectNotFound else Inr es)"
proof -
  from assms(1) obtain log where ok: "pg_behaves db view rnd" "pg_reads_answer db" and own: "own_log rnd st opts log"
    and rows: "pv_events (view d) = rows_of rnd st log" by (rule pg_invE) blast
  have "select_ok db view" using ok(1) by (simp add: pg_behaves_def)
  from pg_pii_log [OF this own_log_holds [where view = view, OF own ok(2) rows] assms(2), of p "[]"]
  have "pg_fetch_by_pii_id st db p [] d =
    (let es = filter (visible (resolve_store_config [])) (filter (\<lambda>e. ev_pii_id e = Some p) log)
     in if es = [] then Inl ErrSubjectNotFound else Inr es)" .
  moreover have "table_log st (pv_events (view d)) = log"
    using own by (simp add: rows table_log_rows own_log_def)
  ultimately show ?thesis by (simp add: visible_def resolve_store_config_def)
qed

text \<open>What the commit of one erasure request did, step by step.\<close>

lemma stack_erasure_steps:
  assumes cf: "cf = pg_stack st db kdb ops reg c (Some lg)"
    and inv: "pg_inv db view rnd st opts (pw_store w)" "wr_inv (pg_keys_inv kdb keys) keys (pw_keys w)"
    and e: "ev_pii_id e = Some p"
    and pl: "payload_for cf e = Some pl" "po_requests_erasure ops pl" "po_pii_fields ops pl = None"
    and b: "pg_batch view st opts (pw_store w) i [e]"
    and commit: "pii_commit cf [e] v opts w = (None, es', w')"
  obtains e' where "es' = [e']" "stored_view e' = stored_view e" "pg_inv db view rnd st opts (pw_store w')"
    "table_log st (pv_events (view (pw_store w'))) = table_log st (pv_events (view (pw_store w))) @ as_stored rnd [e']"
    "wr_inv (pg_keys_inv kdb keys) keys (pw_keys w')" "wr_abs keys (pw_keys w') = (wr_abs keys (pw_keys w))(p := None)"
    "lg_append lg p (pw_clock w 0) (ev_global_id e') (pw_ledger w) = (None, pw_ledger w')"
proof -
  have seal: "seal_all cf [e] (pw_rng w, pw_keys w) = (None, [e], pw_rng w, pw_keys w)"
    using pl cf by simp
  obtain x es2 s where c: "pg_commit st db [e] v opts (pw_store w) = (x, es2, s)" by (metis prod_cases3)
  have x: "x = None" using commit seal c by (cases x) (simp_all add: pii_commit_def cf)
  note log = pg_commit_log [OF inv(1) b _ c [unfolded x]]
  from log obtain e' where e': "es2 = [e']" "stored_view e' = stored_view e" by (cases es2) auto
  have sel: "ev_pii_id e' = Some p" "payload_for cf e' = Some pl"
    using e pl(1) payload_for_stored [OF e'(2), of cf] by (simp_all add: stored_viewD [OF e'(2)])
  obtain k' where k': "kr_forget (wrapped_ops (pg_keyring_ops kdb)) p (pw_keys w) = (None, k')"
    "wr_inv (pg_keys_inv kdb keys) keys k'" "wr_abs keys k' = (wr_abs keys (pw_keys w))(p := None)"
    by (rule pg_wrapped.wrapped.forget_total [OF inv(2)])
  obtain y l where l: "lg_append lg p (pw_clock w 0) (ev_global_id e') (pw_ledger w) = (y, l)" by force
  have "y = None \<and> es' = [e'] \<and> pw_store w' = s \<and> pw_keys w' = k' \<and> pw_ledger w' = l"
    using commit c x e'(1) sel k'(1) l pl(2) unfolding pii_commit_def seal
    by (cases y) (auto simp: cf pii_forget_def)
  with that [of e'] e' log k' l show thesis by simp
qed

text \<open>
  C9. Over Postgres an erasure request is carried out and can be proved, if the column stores the time
  of the erasure within its second (C28 is the case where it does not): when the commit of an event
  that asks for erasure reports success, the subject's row is gone from the key table and no other
  has changed, one record naming the subject and the event was appended to the ledger table, and
  \<^verbatim>\<open>ErasureVerifier.Verify\<close>, reading the three tables, certifies the erasure.
\<close>

theorem stack_erasure:
  assumes cf: "cf = pg_stack st db kdb ops reg c (Some (pg_ledger_ops c ldb))" and "pg_pii_tracking st"
    and inv: "pg_inv db view rnd st opts (pw_store w)" "wr_inv (pg_keys_inv kdb keys) keys (pw_keys w)"
      "pg_ledger_inv c ldb lview lrnd (pw_ledger w)"
    and sec: "unix_seconds (lrnd (pw_clock w 0)) = unix_seconds (pw_clock w 0)"
    and ws: "\<forall>x \<in> set (table_log st (pv_events (view (pw_store w)))). ev_pii_id x = Some p \<longrightarrow> well_sealed x"
    and e: "ev_pii_id e = Some p" "ev_pii_fields e = RawNil"
    and pl: "payload_for cf e = Some pl" "po_requests_erasure ops pl" "po_pii_fields ops pl = None"
    and b: "pg_batch view st opts (pw_store w) i [e]"
    and commit: "pii_commit cf [e] v opts w = (None, es', w')"
    and entries: "pg_ledger_entries ldb (pw_ledger w) = Inr rs" "pg_ledger_entries ldb (pw_ledger w') = Inr rs'"
  shows "wr_abs keys (pw_keys w') = (wr_abs keys (pw_keys w))(p := None)
    \<and> (\<exists>e' r pr. es' = [e'] \<and> rs' = rs @ [r] \<and> shred_facts r = (p, unix_seconds (pw_clock w 0), ev_global_id e')
         \<and> erasure_verify c (pg_ledger_entries ldb (pw_ledger w')) (\<lambda>q. wr_get (pg_keyring_ops kdb) q (pw_keys w'))
             (\<lambda>q. pii_fetch_by_pii_id cf q [] w') p = (Some pr, None)
         \<and> r \<in> set (ep_erasures pr))"
proof -
  obtain e' where es': "es' = [e']" "stored_view e' = stored_view e" and inv': "pg_inv db view rnd st opts (pw_store w')"
    and log: "table_log st (pv_events (view (pw_store w'))) = table_log st (pv_events (view (pw_store w))) @ as_stored rnd [e']"
    and keys: "wr_inv (pg_keys_inv kdb keys) keys (pw_keys w')" "wr_abs keys (pw_keys w') = (wr_abs keys (pw_keys w))(p := None)"
    and app: "lg_append (pg_ledger_ops c ldb) p (pw_clock w 0) (ev_global_id e') (pw_ledger w) = (None, pw_ledger w')"
    by (rule stack_erasure_steps [OF cf inv(1,2) e(1) pl b commit])
  have sel: "ev_pii_id e' = Some p" "ev_pii_fields e' = RawNil" using e by (simp_all add: stored_viewD [OF es'(2)])
  from pg_ledger.append_record [OF inv(3) sec app] entries obtain r where r: "rs' = rs @ [r]"
    "shred_facts r = (p, unix_seconds (pw_clock w 0), ev_global_id e')" and linv: "pg_ledger_inv c ldb lview lrnd (pw_ledger w')"
    by auto
  have chain: "check_shred_chain c rs' = None" using pg_ledger.entries_valid [OF linv] entries(2) by simp
  have get: "wr_get (pg_keyring_ops kdb) p (pw_keys w') = Inr None"
    using pg_wrapped.wr_get_eq [OF keys(1), of p] keys(2) by simp
  let ?es = "filter (\<lambda>x. ev_pii_id x = Some p) (table_log st (pv_events (view (pw_store w'))))"
  have "\<forall>x \<in> set ?es. well_sealed x \<and> ev_pii_id x = Some p"
    using ws sel(2) unfolding log by (auto simp: as_stored_def stored_event_def well_sealed_def)
  from open_all_without_key [OF this, of cf "pw_keys w'"] get obtain qs where
    "open_all cf ?es (pw_keys w') = Inr qs" "list_all (\<lambda>e. \<not> (raw_present (ev_pii_fields e) \<and> \<not> ev_pii_unrecoverable e)) qs"
    by (auto simp: cf)
  with stack_lookup [OF inv' assms(2), of p] have lookup: "case pii_fetch_by_pii_id cf p [] w' of
      Inl err \<Rightarrow> errors_is err ErrSubjectNotFound
    | Inr es \<Rightarrow> list_all (\<lambda>e. \<not> (raw_present (ev_pii_fields e) \<and> \<not> ev_pii_unrecoverable e)) es"
    by (simp add: pii_fetch_by_pii_id_def cf Let_def)
  have mine: "r \<in> set (filter (\<lambda>r. sr_pii_id r = p) rs')" using r by (simp add: shred_facts_def)
  then have "filter (\<lambda>r. sr_pii_id r = p) rs' \<noteq> []" by force
  from erasure_verify_success [OF entries(2) chain refl this, of "\<lambda>q. wr_get (pg_keyring_ops kdb) q (pw_keys w')",
      OF get, of "\<lambda>q. pii_fetch_by_pii_id cf q [] w'", OF lookup] r mine es'(1) keys(2)
  show ?thesis by auto
qed

section \<open>An example\<close>

abbreviation both_tracked :: pg_store where
  "both_tracked \<equiv> pg_new [WithActorTracking, WithPiiTracking]"

abbreviation empty_table :: pg_view where
  "empty_table \<equiv> \<lparr>pv_events = [], pv_pending = None\<rparr>"

lemma empty_table_inv: "pg_inv sample_pg (\<lambda>d. d) (\<lambda>t. t) both_tracked opts empty_table"
  by (simp add: pg_inv_def sample_pg_behaves pg_reads_answer_def own_log_def by_global_id_def seen_def rows_of_def)

lemma empty_table_contents: "pg_contents (\<lambda>d. d) st opts empty_table i = []"
  by (simp add: pg_contents_def table_log_def seen_def)

lemma empty_table_takes:
  "fst (pg_commit both_tracked sample_pg [e] 0 [WithTenant 5] empty_table) = None"
  by (simp add: pg_commit_def pg_commit_body_def pg_set_tenant_def pg_read_version_def pg_version_query_def
      pg_insert_query_def sample_insert_def close_tx_def actor_tracked_def pii_tracked_def pg_new_def
      max_version_def matching_def Let_def)

definition sample_user :: user where
  "sample_user = \<lparr>agg_id = 7, agg_version = 1, agg_uncommitted = [sample_registered 3],
     u_email = ''a@b'', u_name = ''Ann'', u_registered = True\<rparr>"

definition stack_world :: "(pg_view, (uuid \<times> bytes) list wrapped_keyring, unit) pii_world" where
  "stack_world = \<lparr>pw_store = empty_table, pw_keys = \<lparr>wr_keys = [], wr_wrapper = sample_wrapper 1\<rparr>,
     pw_ledger = (), pw_rng = (\<lambda>_. 0), pw_clock = (\<lambda>_. 0)\<rparr>"

abbreviation sample_stack :: "(user_payload, pg_view, (uuid \<times> bytes) list wrapped_keyring, unit) pii_config" where
  "sample_stack \<equiv> pg_stack both_tracked sample_pg sample_keys user_ops user_events toy_crypto None"

lemma stack_world_inv:
  "stack_inv both_tracked sample_pg (\<lambda>d. d) (\<lambda>t. t) sample_keys map_of [WithTenant 5] sample_stack stack_world"
  by (simp add: pii_inv_def stack_world_def empty_table_inv empty_table_contents toy_crypto_ok wr_inv_def
      sample_keys_inv sample_wrapper_ok)

lemma sample_user_sourced: "sourced user_ops user_apply user_events new_user [] sample_user"
  by (simp add: sourced_def sample_user_def)
    (simp add: sample_registered_def new_user_def set_id_def set_version_def clear_events_def)

lemma sample_user_batch:
  "stack_batch both_tracked (\<lambda>d. d) map_of [WithTenant 5] sample_stack stack_world 7 [sample_registered 3]"
proof -
  have "pg_batch (\<lambda>d. d) both_tracked [WithTenant 5] empty_table 7 [sample_registered 3]"
    by (simp add: pg_batch_def fresh_batch_def empty_table_contents) (simp add: sample_registered_def)
  moreover have "pii_fresh sample_stack (sample_registered 3)"
    using sample_registered_fresh [OF toy_crypto_ok, of None id 3] by (simp add: pii_fresh_def)
  ultimately show ?thesis
    by (simp add: pii_batch_def stack_world_def no_old_seals_def empty_table_contents)
qed

theorem stack_save_load_witness:
  "\<exists>u' w' es. repo_save (pii_store_ops sample_stack) sample_user [WithTenant 5] stack_world = (None, u', w')
    \<and> repo_load (pii_store_ops sample_stack) user_ops user_apply user_events new_user 7 [WithTenant 5] w' = Inr u'
    \<and> pg_contents (\<lambda>d. d) both_tracked [WithTenant 5] (pw_store w') 7 = es \<and> length es = 1"
proof -
  let ?u = sample_user and ?opts = "[WithTenant 5]"
  have u: "agg_id ?u = 7" "agg_uncommitted ?u = [sample_registered 3]" "agg_version ?u = 1" by (simp_all add: sample_user_def)
  have w: "pw_store stack_world = empty_table" by (simp add: stack_world_def)
  have "\<exists>es' w'. pii_commit sample_stack [sample_registered 3] 0 ?opts stack_world = (None, es', w')"
  proof (rule pii_pg.pii_commit_total [OF stack_world_inv sample_user_batch])
    show "\<forall>p key. wr_abs map_of (pw_keys stack_world) p = Some key \<longrightarrow> aes_key_ok key"
      by (simp add: wr_abs_def stack_world_def)
    fix es1 assume "pg_batch (\<lambda>d. d) both_tracked ?opts (pw_store stack_world) 7 es1"
      "length es1 = length [sample_registered 3]"
    then obtain e where "es1 = [e]" by (cases es1) auto
    then show "fst (st_commit (pg_ops both_tracked sample_pg) es1 0 ?opts (pw_store stack_world)) = None"
      by (simp add: w empty_table_takes)
  qed simp
  then obtain u' w' where save: "repo_save (pii_store_ops sample_stack) ?u ?opts stack_world = (None, u', w')"
    by (auto simp: repo_save_def u)
  have "pii_stream sample_stack (pg_contents (\<lambda>d. d) both_tracked ?opts) stack_world (agg_id ?u) = []"
    by (simp add: pii_stream_def w empty_table_contents)
  with sample_user_sourced have src: "sourced user_ops user_apply user_events new_user
      (pii_stream sample_stack (pg_contents (\<lambda>d. d) both_tracked ?opts) stack_world (agg_id ?u)) ?u" by simp
  from stack_save_load [OF refl stack_world_inv src _ _ save] sample_user_batch obtain es1 fs where
    r: "repo_load (pii_store_ops sample_stack) user_ops user_apply user_events new_user 7 ?opts w' = Inr u'"
      "pg_contents (\<lambda>d. d) both_tracked ?opts (pw_store w') 7 = fs"
      "list_all2 (seal_of sample_stack (wr_abs map_of (pw_keys w'))) [sample_registered 3] es1"
      "map kept_view fs = map kept_view es1"
    by (auto simp: u w empty_table_contents)
  have "length fs = 1" using list_all2_lengthD [OF r(3)] map_eq_imp_length_eq [OF r(4)] by simp
  with save r(1,2) show ?thesis by blast
qed

text \<open>The same stack with a ledger, over a table that rounds its times to microseconds.\<close>

abbreviation rounded_shreds :: "ledger_view pg_db" where
  "rounded_shreds \<equiv> sample_shreds to_microseconds"

abbreviation erasing_stack :: "(user_payload, pg_view, (uuid \<times> bytes) list wrapped_keyring, ledger_view) pii_config" where
  "erasing_stack \<equiv> pg_stack both_tracked sample_pg sample_keys user_ops user_events toy_crypto
     (Some (pg_ledger_ops toy_crypto rounded_shreds))"

definition erasing_world :: "(pg_view, (uuid \<times> bytes) list wrapped_keyring, ledger_view) pii_world" where
  "erasing_world = \<lparr>pw_store = empty_table, pw_keys = \<lparr>wr_keys = [(3, encode_wrapped [1] (replicate 12 0 @ replicate 32 1 @ [9]))],
       wr_wrapper = sample_wrapper 1\<rparr>,
     pw_ledger = empty_ledger, pw_rng = (\<lambda>_. 0), pw_clock = (\<lambda>_. 1600000000123456789)\<rparr>"

lemma erasing_world_inv:
  "pg_inv sample_pg (\<lambda>d. d) (\<lambda>t. t) both_tracked [WithTenant 5] (pw_store erasing_world)"
  "wr_inv (pg_keys_inv sample_keys map_of) map_of (pw_keys erasing_world)"
  "pg_ledger_inv toy_crypto rounded_shreds (\<lambda>d. d) to_microseconds (pw_ledger erasing_world)"
proof -
  have "kw_unwrap (sample_wrapper 1) (replicate 12 0 @ replicate 32 1 @ [9]) = Inr [9]"
    by (simp add: sample_wrapper_def aes_unwrap_def nonce_size_def toy_crypto_def)
  from unwrapped_encode [OF sample_wrapper_ok this]
  have "unwrapped (sample_wrapper 1) (encode_wrapped [1] (replicate 12 0 @ replicate 32 1 @ [9])) = Some [9]"
    by (simp add: sample_wrapper_def)
  then show "wr_inv (pg_keys_inv sample_keys map_of) map_of (pw_keys erasing_world)"
    by (simp add: wr_inv_def erasing_world_def sample_keys_inv sample_wrapper_ok)
  show "pg_ledger_inv toy_crypto rounded_shreds (\<lambda>d. d) to_microseconds (pw_ledger erasing_world)"
    using empty_ledger_holds by (auto simp: pg_ledger_inv_def erasing_world_def sample_shreds_behave toy_hash_length)
qed (simp add: erasing_world_def empty_table_inv)

lemma sample_erasure_batch: "pg_batch (\<lambda>d. d) both_tracked [WithTenant 5] (pw_store erasing_world) 7 [sample_erasure 3 1]"
  by (simp add: pg_batch_def fresh_batch_def empty_table_contents erasing_world_def) (simp add: sample_erasure_def)

lemma sample_erasure_payload:
  "payload_for erasing_stack (sample_erasure 3 1) = Some UserErasureRequestedEvent"
  "ev_pii_id (sample_erasure 3 1) = Some 3" "ev_pii_fields (sample_erasure 3 1) = RawNil"
  by (simp_all add: payload_for_def sample_erasure_def)

lemma sample_erasure_commits:
  "\<exists>es' w'. pii_commit erasing_stack [sample_erasure 3 1] 0 [WithTenant 5] erasing_world = (None, es', w')
    \<and> (\<exists>rs. pg_ledger_entries rounded_shreds (pw_ledger w') = Inr rs)"
proof -
  let ?e = "sample_erasure 3 1" and ?w = erasing_world and ?cf = erasing_stack
  have seal: "seal_all ?cf [?e] (pw_rng ?w, pw_keys ?w) = (None, [?e], pw_rng ?w, pw_keys ?w)"
    by (simp add: sample_erasure_payload)
  obtain es2 s where c: "pg_commit both_tracked sample_pg [?e] 0 [WithTenant 5] (pw_store ?w) = (None, es2, s)"
    using empty_table_takes [of ?e] by (metis erasing_world_def pii_world.select_convs(1) prod.collapse)
  from pg_commit_log [OF erasing_world_inv(1) sample_erasure_batch _ c] obtain e' where e': "es2 = [e']"
    "stored_view e' = stored_view ?e" by (cases es2) auto
  have sel: "ev_pii_id e' = Some 3" "payload_for ?cf e' = Some UserErasureRequestedEvent"
    using sample_erasure_payload(1,2) payload_for_stored [OF e'(2), of ?cf] by (simp_all add: stored_viewD [OF e'(2)])
  obtain k' where k': "kr_forget (wrapped_ops (pg_keyring_ops sample_keys)) 3 (pw_keys ?w) = (None, k')"
    by (rule pg_wrapped.wrapped.forget_total [OF erasing_world_inv(2)])
  obtain l where l: "pg_ledger_append toy_crypto rounded_shreds 3 1600000000123456789 (ev_global_id e') empty_ledger = (None, l)"
    "\<exists>rs. pg_ledger_entries rounded_shreds l = Inr rs" using sample_append by blast
  have "pii_commit ?cf [?e] 0 [WithTenant 5] ?w =
      (None, [e'], ?w\<lparr>pw_store := s, pw_keys := k', pw_ledger := l, pw_clock := \<lambda>n. pw_clock ?w (Suc n)\<rparr>)"
    unfolding pii_commit_def seal using c e'(1) sel k' l(1) by (simp add: pii_forget_def erasing_world_def)
  with l(2) show ?thesis by simp
qed

theorem stack_erasure_witness:
  "\<exists>e' w' r. pii_commit erasing_stack [sample_erasure 3 1] 0 [WithTenant 5] erasing_world = (None, [e'], w')
    \<and> pg_ledger_entries rounded_shreds (pw_ledger w') = Inr [r] \<and> sr_pii_id r = 3
    \<and> wr_abs map_of (pw_keys erasing_world) 3 \<noteq> None \<and> wr_abs map_of (pw_keys w') 3 = None"
proof -
  obtain es' w' rs where c: "pii_commit erasing_stack [sample_erasure 3 1] 0 [WithTenant 5] erasing_world = (None, es', w')"
    "pg_ledger_entries rounded_shreds (pw_ledger w') = Inr rs" using sample_erasure_commits by blast
  have "pg_ledger_entries rounded_shreds (pw_ledger erasing_world) = Inr []"
    by (simp add: erasing_world_def pg_ledger_entries_def sample_shreds_def)
  moreover have "table_log both_tracked (pv_events (pw_store erasing_world)) = []"
    by (simp add: erasing_world_def table_log_def)
  moreover have "pg_pii_tracking both_tracked" by (simp add: pg_new_def)
  moreover have "unix_seconds (to_microseconds (pw_clock erasing_world 0)) = unix_seconds (pw_clock erasing_world 0)"
    by (simp add: erasing_world_def unix_seconds_def to_microseconds_def)
  moreover have "wr_abs map_of (pw_keys erasing_world) 3 \<noteq> None"
    using erasing_world_inv(2) by (simp add: wr_abs_def wr_inv_def erasing_world_def)
  ultimately show ?thesis
    using stack_erasure [OF refl _ erasing_world_inv _ _ sample_erasure_payload(2,3) sample_erasure_payload(1) _ _
        sample_erasure_batch c(1) _ c(2)] c
    by (auto simp: shred_facts_def)
qed

end
