(* ===== verification/Pg_Lock.thy ===== *)
theory Pg_Lock
  imports Pg_Sql
begin

text \<open>
  \<^verbatim>\<open>es/pgstore/advisory_lock.go\<close>: leader election by a session-level advisory lock, on a connection
  pinned from the pool. The pool and the server are parameters (\<open>pg_pool\<close>); \<open>pool_behaves\<close> is what is
  relied on of them. Any number of lock objects, in one process or several, are the components of a
  \<open>lock_world\<close>; the invariant is that each object that holds a connection holds the server's lock.
\<close>

section \<open>The lock\<close>

text \<open>A connection is a number: the session it stands for. Each call may fail.\<close>

record 'd pg_pool =
  pl_conn :: "'d \<Rightarrow> (error + nat) \<times> 'd"
  cn_query_row :: "nat \<Rightarrow> pg_stmt \<Rightarrow> pg_value list \<Rightarrow> 'd \<Rightarrow> (error + pg_value list) \<times> 'd"
  cn_exec :: "nat \<Rightarrow> pg_stmt \<Rightarrow> pg_value list \<Rightarrow> 'd \<Rightarrow> error option \<times> 'd"
  cn_close :: "nat \<Rightarrow> 'd \<Rightarrow> error option \<times> 'd"

record advisory_lock =
  al_name :: string
  al_conn :: "nat option"

definition new_advisory_lock :: "string \<Rightarrow> advisory_lock" where
  "new_advisory_lock name = \<lparr>al_name = name, al_conn = None\<rparr>"

fun as_bool :: "pg_value \<Rightarrow> bool option" where
  "as_bool (VBool b) = Some b"
| "as_bool _ = None"

definition pg_try_acquire :: "'d pg_pool \<Rightarrow> advisory_lock \<Rightarrow> 'd \<Rightarrow> (error + bool) \<times> advisory_lock \<times> 'd" where
  "pg_try_acquire pl l d =
     (case pl_conn pl d of
        (Inl err, d1) \<Rightarrow> (Inl (ErrWrap ''pgstore: acquire conn'' err), l, d1)
      | (Inr k, d1) \<Rightarrow>
     (case cn_query_row pl k TryAdvisoryLock [VText (al_name l)] d1 of
        (row, d2) \<Rightarrow>
     (case (case row of
              Inl err \<Rightarrow> Inl err
            | Inr vals \<Rightarrow>
                (case (if length vals = 1 then as_bool (vals ! 0) else None) of
                   None \<Rightarrow> Inl (ErrText ''sql: Scan error'')
                 | Some b \<Rightarrow> Inr b)) of
        Inl err \<Rightarrow>
          (case cn_close pl k d2 of
             (Some _, d3) \<Rightarrow>
               (Inl (ErrWrap ''pgstore: try advisory lock (additionally, close conn failed)'' err), l, d3)
           | (None, d3) \<Rightarrow> (Inl (ErrWrap ''pgstore: try advisory lock'' err), l, d3))
      | Inr acquired \<Rightarrow>
          if \<not> acquired
          then (case cn_close pl k d2 of
                  (Some err, d3) \<Rightarrow> (Inl (ErrWrap ''pgstore: close conn after failed acquire'' err), l, d3)
                | (None, d3) \<Rightarrow> (Inr False, l, d3))
          else (Inr True, l\<lparr>al_conn := Some k\<rparr>, d2))))"

definition pg_release :: "'d pg_pool \<Rightarrow> advisory_lock \<Rightarrow> 'd \<Rightarrow> error option \<times> advisory_lock \<times> 'd" where
  "pg_release pl l d =
     (case al_conn l of
        None \<Rightarrow> (None, l, d)
      | Some k \<Rightarrow>
          let l' = l\<lparr>al_conn := None\<rparr>
          in case cn_exec pl k AdvisoryUnlock [VText (al_name l)] d of
               (r, d1) \<Rightarrow>
                 let err = map_option (ErrWrap ''pgstore: advisory unlock'') r
                 in case cn_close pl k d1 of
                      (None, d2) \<Rightarrow> (err, l', d2)
                    | (Some close_err, d2) \<Rightarrow>
                        (case err of
                           Some e \<Rightarrow> (Some (ErrWrap ''additionally, close conn failed'' e), l', d2)
                         | None \<Rightarrow> (Some (ErrWrap ''pgstore: close conn'' close_err), l', d2)))"

section \<open>What is relied on\<close>

text \<open>
  \<open>pinned\<close> is the set of sessions that were handed out and not given back; the pool hands out no other.
  \<open>held\<close> is the holder of each lock of the server, by the key that \<^verbatim>\<open>hashtext\<close> makes of a name: a try
  succeeds only on a lock that is free or already the session's own, a session changes no lock that
  another one holds, and a session keeps its locks while it is pinned and does not unlock them.
  (A call that fails may have taken or dropped the caller's lock.)
\<close>

definition only_mine :: "nat \<Rightarrow> int \<Rightarrow> (int \<Rightarrow> nat option) \<Rightarrow> (int \<Rightarrow> nat option) \<Rightarrow> bool" where
  "only_mine k x h h' \<longleftrightarrow> (\<forall>y. h' y = h y \<or> y = x \<and> h y \<in> {None, Some k} \<and> h' y \<in> {None, Some k})"

definition conn_ok :: "'d pg_pool \<Rightarrow> ('d \<Rightarrow> nat set) \<Rightarrow> ('d \<Rightarrow> int \<Rightarrow> nat option) \<Rightarrow> bool" where
  "conn_ok pl pinned held \<longleftrightarrow> (\<forall>d r d'. pl_conn pl d = (r, d') \<longrightarrow> held d' = held d
     \<and> (\<forall>err. r = Inl err \<longrightarrow> pinned d' = pinned d)
     \<and> (\<forall>k. r = Inr k \<longrightarrow> k \<notin> pinned d \<and> pinned d' = insert k (pinned d)))"

definition try_ok :: "'d pg_pool \<Rightarrow> ('d \<Rightarrow> nat set) \<Rightarrow> ('d \<Rightarrow> int \<Rightarrow> nat option) \<Rightarrow> (string \<Rightarrow> int) \<Rightarrow> bool" where
  "try_ok pl pinned held hash \<longleftrightarrow> (\<forall>k name d r d'. k \<in> pinned d \<longrightarrow>
     cn_query_row pl k TryAdvisoryLock [VText name] d = (r, d') \<longrightarrow>
     pinned d' = pinned d \<and> only_mine k (hash name) (held d) (held d')
     \<and> (r = Inr [VBool True] \<longrightarrow> held d' (hash name) = Some k))"

definition unlock_ok :: "'d pg_pool \<Rightarrow> ('d \<Rightarrow> nat set) \<Rightarrow> ('d \<Rightarrow> int \<Rightarrow> nat option) \<Rightarrow> (string \<Rightarrow> int) \<Rightarrow> bool" where
  "unlock_ok pl pinned held hash \<longleftrightarrow> (\<forall>k name d r d'. k \<in> pinned d \<longrightarrow>
     cn_exec pl k AdvisoryUnlock [VText name] d = (r, d') \<longrightarrow>
     pinned d' = pinned d \<and> only_mine k (hash name) (held d) (held d'))"

text \<open>Giving a connection back keeps its session and what that still holds, or ends both.\<close>

definition close_ok :: "'d pg_pool \<Rightarrow> ('d \<Rightarrow> nat set) \<Rightarrow> ('d \<Rightarrow> int \<Rightarrow> nat option) \<Rightarrow> bool" where
  "close_ok pl pinned held \<longleftrightarrow> (\<forall>k d r d'. cn_close pl k d = (r, d') \<longrightarrow> pinned d' = pinned d - {k}
     \<and> (\<forall>y. held d' y = held d y \<or> held d y = Some k \<and> held d' y = None))"

definition pool_behaves :: "'d pg_pool \<Rightarrow> ('d \<Rightarrow> nat set) \<Rightarrow> ('d \<Rightarrow> int \<Rightarrow> nat option) \<Rightarrow> (string \<Rightarrow> int) \<Rightarrow> bool" where
  "pool_behaves pl pinned held hash \<longleftrightarrow> conn_ok pl pinned held \<and> try_ok pl pinned held hash
     \<and> unlock_ok pl pinned held hash \<and> close_ok pl pinned held"

lemma pool_behavesD:
  assumes "pool_behaves pl pinned held hash"
  shows "pl_conn pl d = (Inl err, d') \<Longrightarrow> held d' = held d \<and> pinned d' = pinned d"
    "pl_conn pl d = (Inr k, d') \<Longrightarrow> held d' = held d \<and> k \<notin> pinned d \<and> pinned d' = insert k (pinned d)"
    "k \<in> pinned d \<Longrightarrow> cn_query_row pl k TryAdvisoryLock [VText name] d = (row, d') \<Longrightarrow>
      pinned d' = pinned d \<and> only_mine k (hash name) (held d) (held d')
      \<and> (row = Inr [VBool True] \<longrightarrow> held d' (hash name) = Some k)"
    "k \<in> pinned d \<Longrightarrow> cn_exec pl k AdvisoryUnlock [VText name] d = (x, d') \<Longrightarrow>
      pinned d' = pinned d \<and> only_mine k (hash name) (held d) (held d')"
    "cn_close pl k d = (x, d') \<Longrightarrow> pinned d' = pinned d - {k}
      \<and> (\<forall>y. held d' y = held d y \<or> held d y = Some k \<and> held d' y = None)"
proof -
  from assms have ok: "conn_ok pl pinned held" "try_ok pl pinned held hash" "unlock_ok pl pinned held hash"
    "close_ok pl pinned held" by (simp_all only: pool_behaves_def)
  show "pl_conn pl d = (Inl err, d') \<Longrightarrow> held d' = held d \<and> pinned d' = pinned d"
    and "pl_conn pl d = (Inr k, d') \<Longrightarrow> held d' = held d \<and> k \<notin> pinned d \<and> pinned d' = insert k (pinned d)"
    using ok(1) unfolding conn_ok_def by blast+
  show "k \<in> pinned d \<Longrightarrow> cn_query_row pl k TryAdvisoryLock [VText name] d = (row, d') \<Longrightarrow>
      pinned d' = pinned d \<and> only_mine k (hash name) (held d) (held d')
      \<and> (row = Inr [VBool True] \<longrightarrow> held d' (hash name) = Some k)"
    using ok(2) unfolding try_ok_def by blast
  show "k \<in> pinned d \<Longrightarrow> cn_exec pl k AdvisoryUnlock [VText name] d = (x, d') \<Longrightarrow>
      pinned d' = pinned d \<and> only_mine k (hash name) (held d) (held d')"
    using ok(3) unfolding unlock_ok_def by blast
  show "cn_close pl k d = (x, d') \<Longrightarrow> pinned d' = pinned d - {k}
      \<and> (\<forall>y. held d' y = held d y \<or> held d y = Some k \<and> held d' y = None)"
    using ok(4) unfolding close_ok_def by blast
qed

section \<open>Replicas\<close>

text \<open>The lock objects there are, and the calls they make, in any order.\<close>

datatype lock_call = TryAcquire nat | Release nat

fun lock_step :: "'d pg_pool \<Rightarrow> lock_call \<Rightarrow> (nat \<Rightarrow> advisory_lock) \<times> 'd \<Rightarrow> (nat \<Rightarrow> advisory_lock) \<times> 'd" where
  "lock_step pl (TryAcquire i) (ls, d) = (case pg_try_acquire pl (ls i) d of (_, l, d') \<Rightarrow> (ls(i := l), d'))"
| "lock_step pl (Release i) (ls, d) = (case pg_release pl (ls i) d of (_, l, d') \<Rightarrow> (ls(i := l), d'))"

definition lock_inv :: "('d \<Rightarrow> nat set) \<Rightarrow> ('d \<Rightarrow> int \<Rightarrow> nat option) \<Rightarrow> (string \<Rightarrow> int) \<Rightarrow>
    (nat \<Rightarrow> advisory_lock) \<times> 'd \<Rightarrow> bool" where
  "lock_inv pinned held hash w \<longleftrightarrow>
     (\<forall>i k. al_conn (fst w i) = Some k \<longrightarrow> k \<in> pinned (snd w) \<and> held (snd w) (hash (al_name (fst w i))) = Some k)
     \<and> (\<forall>i j k. al_conn (fst w i) = Some k \<longrightarrow> al_conn (fst w j) = Some k \<longrightarrow> i = j)"

lemma only_mine_other: "only_mine k x h h' \<Longrightarrow> h y = Some k' \<Longrightarrow> k' \<noteq> k \<Longrightarrow> h' y = Some k'"
  unfolding only_mine_def by (metis insertE option.inject option.simps(3) singletonD)

text \<open>
  One call: what the other objects hold they keep. (A call on object \<open>i\<close> touches the sessions of
  \<open>mine\<close> only: its own, and one that no object holds.)
\<close>

lemma try_acquire_effect:
  assumes ok: "pool_behaves pl pinned held hash" and run: "pg_try_acquire pl l d = (r, l', d')"
  shows "al_name l' = al_name l
    \<and> (\<forall>k y. k \<in> pinned d \<longrightarrow> k \<in> pinned d' \<and> (held d y = Some k \<longrightarrow> held d' y = Some k))
    \<and> (l' = l \<and> r \<noteq> Inr True \<or>
       r = Inr True \<and> (\<exists>k. al_conn l' = Some k \<and> k \<notin> pinned d \<and> k \<in> pinned d' \<and> held d' (hash (al_name l)) = Some k))"
proof -
  note D = pool_behavesD [OF ok]
  obtain c d1 where c: "pl_conn pl d = (c, d1)" by force
  show ?thesis
  proof (cases c)
    case (Inl err)
    with run c D(1) [of d err d1] show ?thesis by (auto simp: pg_try_acquire_def)
  next
    case (Inr k)
    from D(2) [of d k d1] c Inr have k: "held d1 = held d" "k \<notin> pinned d" "pinned d1 = insert k (pinned d)" by simp_all
    obtain row d2 where q: "cn_query_row pl k TryAdvisoryLock [VText (al_name l)] d1 = (row, d2)" by force
    from D(3) [OF _ q] k have q2: "pinned d2 = insert k (pinned d)" "only_mine k (hash (al_name l)) (held d) (held d2)"
      "row = Inr [VBool True] \<longrightarrow> held d2 (hash (al_name l)) = Some k" by simp_all
    have keep2: "held d2 y = Some k'" if "k' \<in> pinned d" "held d y = Some k'" for k' y
      using only_mine_other [OF q2(2) that(2)] that(1) k(2) by blast
    obtain x d3 where cl: "cn_close pl k d2 = (x, d3)" by force
    from D(5) [OF cl] q2(1) k(2) keep2 have keep3: "k' \<in> pinned d3" "held d y = Some k' \<Longrightarrow> held d3 y = Some k'"
      if "k' \<in> pinned d" for k' y
      using that by (force, metis option.inject option.simps(3))
    consider (yes) "row = Inr [VBool True]" "r = Inr True" "l' = l\<lparr>al_conn := Some k\<rparr>" "d' = d2"
      | (no) "r \<noteq> Inr True" "l' = l" "d' = d3"
    proof (cases "row = Inr [VBool True]")
      case True
      with run c Inr q yes show ?thesis by (simp add: pg_try_acquire_def)
    next
      case False
      have "as_bool (vals ! 0) = Some True \<Longrightarrow> length vals = 1 \<Longrightarrow> vals = [VBool True]" for vals
        by (cases vals; cases "vals ! 0") auto
      with False run c Inr q cl no show ?thesis
        by (auto simp: pg_try_acquire_def split: sum.splits option.splits if_splits)
    qed
    then show ?thesis
    proof cases
      case yes
      with q2 k keep2 show ?thesis by auto
    next
      case no
      with keep3 show ?thesis by auto
    qed
  qed
qed

lemma release_effect:
  assumes ok: "pool_behaves pl pinned held hash" and run: "pg_release pl l d = (r, l', d')"
    and mine: "\<forall>k. al_conn l = Some k \<longrightarrow> k \<in> pinned d"
  shows "al_name l' = al_name l \<and> al_conn l' = None
    \<and> (\<forall>k y. k \<in> pinned d \<longrightarrow> al_conn l \<noteq> Some k \<longrightarrow> k \<in> pinned d' \<and> (held d y = Some k \<longrightarrow> held d' y = Some k))"
proof (cases "al_conn l")
  case None
  with run show ?thesis by (auto simp: pg_release_def)
next
  case (Some k)
  note D = pool_behavesD [OF ok]
  obtain x d1 where u: "cn_exec pl k AdvisoryUnlock [VText (al_name l)] d = (x, d1)" by force
  obtain z d2 where cl: "cn_close pl k d1 = (z, d2)" by force
  from run Some u cl have l': "l' = l\<lparr>al_conn := None\<rparr>" "d' = d2"
    by (auto simp: pg_release_def Let_def split: option.splits)
  from D(4) [OF _ u] mine Some have u1: "pinned d1 = pinned d" "only_mine k (hash (al_name l)) (held d) (held d1)"
    by simp_all
  have "k' \<in> pinned d'" "held d y = Some k' \<Longrightarrow> held d' y = Some k'" if "k' \<in> pinned d" "k' \<noteq> k" for k' y
    using that D(5) [OF cl] u1(1) only_mine_other [OF u1(2), of y k'] unfolding l'(2)
    by (force, metis option.inject option.simps(3))
  with l' Some show ?thesis by auto
qed

lemma lock_inv_update:
  assumes inv: "lock_inv pinned held hash (ls, d)"
    and keep: "\<And>j k y. j \<noteq> i \<Longrightarrow> al_conn (ls j) = Some k \<Longrightarrow> k \<in> pinned d' \<and> (held d y = Some k \<longrightarrow> held d' y = Some k)"
    and mine: "\<And>k. al_conn l = Some k \<Longrightarrow> k \<in> pinned d' \<and> held d' (hash (al_name l)) = Some k
      \<and> (\<forall>j. j \<noteq> i \<longrightarrow> al_conn (ls j) \<noteq> Some k)"
  shows "lock_inv pinned held hash (ls(i := l), d')"
proof -
  have a: "k \<in> pinned d' \<and> held d' (hash (al_name ((ls(i := l)) j))) = Some k" if "al_conn ((ls(i := l)) j) = Some k" for j k
    using that inv keep [of j k] mine [of k] by (cases "j = i") (auto simp: lock_inv_def)
  have b: "j = m" if "al_conn ((ls(i := l)) j) = Some k" "al_conn ((ls(i := l)) m) = Some k" for j m k
    using that inv mine [of k] by (cases "j = i"; cases "m = i") (auto simp: lock_inv_def)
  show ?thesis unfolding lock_inv_def fst_conv snd_conv
    using a b by (intro conjI allI impI; assumption?) (meson a, meson a, meson b)
qed

lemma lock_inv_step:
  assumes ok: "pool_behaves pl pinned held hash" and inv: "lock_inv pinned held hash (ls, d)"
  shows "lock_inv pinned held hash (lock_step pl c (ls, d))"
proof (cases c)
  case (TryAcquire i)
  obtain r l d' where t: "pg_try_acquire pl (ls i) d = (r, l, d')" by (metis prod_cases3)
  from try_acquire_effect [OF ok t] have e:
    "\<And>k y. k \<in> pinned d \<Longrightarrow> k \<in> pinned d' \<and> (held d y = Some k \<longrightarrow> held d' y = Some k)" "al_name l = al_name (ls i)"
    "l \<noteq> ls i \<Longrightarrow> \<exists>k. al_conn l = Some k \<and> k \<notin> pinned d \<and> k \<in> pinned d' \<and> held d' (hash (al_name (ls i))) = Some k"
    by blast+
  have pin: "k \<in> pinned d" "held d (hash (al_name (ls j))) = Some k" if "al_conn (ls j) = Some k" for j k
    using inv that by (simp_all add: lock_inv_def)
  have sep: "j = m" if "al_conn (ls j) = Some k" "al_conn (ls m) = Some k" for j m k
    using inv that unfolding lock_inv_def fst_conv by blast
  have "k \<in> pinned d' \<and> held d' (hash (al_name l)) = Some k \<and> (\<forall>j. j \<noteq> i \<longrightarrow> al_conn (ls j) \<noteq> Some k)"
    if k: "al_conn l = Some k" for k
  proof (cases "l = ls i")
    case True
    with k have k': "al_conn (ls i) = Some k" by simp
    with e(1) [OF pin(1), OF k'] pin(2) [OF k'] sep [OF _ k'] True show ?thesis by blast
  next
    case False
    from e(3) [OF False] k e(2) have "k \<notin> pinned d" "k \<in> pinned d'" "held d' (hash (al_name l)) = Some k" by simp_all
    with pin(1) show ?thesis by blast
  qed
  note mine = this
  have "lock_inv pinned held hash (ls(i := l), d')"
  proof (rule lock_inv_update [OF inv])
    fix j k y assume "al_conn (ls j) = Some k"
    with e(1) pin(1) show "k \<in> pinned d' \<and> (held d y = Some k \<longrightarrow> held d' y = Some k)" by blast
  qed (rule mine)
  then show ?thesis by (simp add: TryAcquire t)
next
  case (Release i)
  obtain r l d' where t: "pg_release pl (ls i) d = (r, l, d')" by (metis prod_cases3)
  have pin: "k \<in> pinned d" if "al_conn (ls j) = Some k" for j k
    using inv that by (simp add: lock_inv_def)
  have sep: "j = m" if "al_conn (ls j) = Some k" "al_conn (ls m) = Some k" for j m k
    using inv that unfolding lock_inv_def fst_conv by blast
  from release_effect [OF ok t] pin have e: "al_conn l = None"
    "\<And>k y. k \<in> pinned d \<Longrightarrow> al_conn (ls i) \<noteq> Some k \<Longrightarrow> k \<in> pinned d' \<and> (held d y = Some k \<longrightarrow> held d' y = Some k)"
    by blast+
  have "lock_inv pinned held hash (ls(i := l), d')"
  proof (rule lock_inv_update [OF inv])
    fix j k y assume "j \<noteq> i" "al_conn (ls j) = Some k"
    with sep [of j k i] pin e(2) show "k \<in> pinned d' \<and> (held d y = Some k \<longrightarrow> held d' y = Some k)" by blast
  qed (simp add: e(1))
  then show ?thesis by (simp add: Release t)
qed

text \<open>
  C26. One leader: whatever calls the replicas make, in whatever order and whichever of them fail, two
  different lock objects whose names have the same hash -- in particular the same name -- never both
  hold a connection, and a holder's connection is the one the server's lock belongs to. (A server
  that drops a pinned session takes the lock away without the object's notice; \<open>pool_behaves\<close>
  leaves that out.)
\<close>

theorem one_leader:
  assumes "pool_behaves pl pinned held hash"
    and "fold (lock_step pl) calls (\<lambda>i. new_advisory_lock (names i), d) = (ls, d')"
  shows "(al_conn (ls i) = Some k \<longrightarrow> held d' (hash (al_name (ls i))) = Some k)
    \<and> (al_conn (ls i) \<noteq> None \<and> al_conn (ls j) \<noteq> None \<and> hash (al_name (ls i)) = hash (al_name (ls j)) \<longrightarrow> i = j)"
proof -
  have "lock_inv pinned held hash (fold (lock_step pl) calls w)" if "lock_inv pinned held hash w" for w
    using that
  proof (induction calls arbitrary: w)
    case (Cons c calls)
    with lock_inv_step [OF assms(1), of "fst w" "snd w" c] show ?case by simp
  qed simp
  moreover have "lock_inv pinned held hash (\<lambda>i. new_advisory_lock (names i), d)"
    by (simp add: lock_inv_def new_advisory_lock_def)
  ultimately have inv: "lock_inv pinned held hash (ls, d')" using assms(2) by metis
  then have held: "al_conn (ls i) = Some k \<Longrightarrow> held d' (hash (al_name (ls i))) = Some k" for i k
    by (simp add: lock_inv_def)
  have "i = j" if "al_conn (ls i) = Some k" "al_conn (ls j) = Some k'" "hash (al_name (ls i)) = hash (al_name (ls j))" for k k'
  proof -
    have "k = k'" using held [OF that(1)] held [OF that(2)] that(3) by simp
    with inv that(1,2) show ?thesis unfolding lock_inv_def fst_conv by blast
  qed
  with held show ?thesis by blast
qed

text \<open>A server whose sessions are numbered as they are handed out.\<close>

definition sample_pool :: "(string \<Rightarrow> int) \<Rightarrow> (nat list \<times> (int \<Rightarrow> nat option)) pg_pool" where
  "sample_pool hash = \<lparr>
     pl_conn = (\<lambda>(ps, h). let k = Suc (sum_list ps) in (Inr k, (k # ps, h))),
     cn_query_row = (\<lambda>k s args (ps, h). case args of
         [VText name] \<Rightarrow>
           if h (hash name) \<in> {None, Some k} then (Inr [VBool True], (ps, h(hash name \<mapsto> k)))
           else (Inr [VBool False], (ps, h))
       | _ \<Rightarrow> (Inl ErrNoRows, (ps, h))),
     cn_exec = (\<lambda>k s args (ps, h). case args of
         [VText name] \<Rightarrow> (None, (ps, if h (hash name) = Some k then h(hash name := None) else h))
       | _ \<Rightarrow> (None, (ps, h))),
     cn_close = (\<lambda>k (ps, h). (None, (filter (\<lambda>x. x \<noteq> k) ps, h)))\<rparr>"

lemma fresh_session: "Suc (sum_list ps) \<notin> set (ps :: nat list)"
  using member_le_sum_list [of "Suc (sum_list ps)" ps] by auto

lemma sample_pool_behaves: "pool_behaves (sample_pool hash) (\<lambda>(ps, h). set ps) snd hash"
proof -
  have "conn_ok (sample_pool hash) (\<lambda>(ps, h). set ps) snd"
    using fresh_session by (auto simp: conn_ok_def sample_pool_def Let_def)
  moreover have "try_ok (sample_pool hash) (\<lambda>(ps, h). set ps) snd hash"
    by (auto simp: try_ok_def sample_pool_def only_mine_def)
  moreover have "unlock_ok (sample_pool hash) (\<lambda>(ps, h). set ps) snd hash"
    by (auto simp: unlock_ok_def sample_pool_def only_mine_def)
  moreover have "close_ok (sample_pool hash) (\<lambda>(ps, h). set ps) snd"
    by (auto simp: close_ok_def sample_pool_def)
  ultimately show ?thesis by (simp add: pool_behaves_def)
qed

theorem one_leader_witness:
  "\<exists>ls d'. fold (lock_step (sample_pool (\<lambda>_. 0))) [TryAcquire 0, TryAcquire 1] (\<lambda>i. new_advisory_lock ''p'', ([], Map.empty)) = (ls, d')
    \<and> al_conn (ls 0) = Some 1 \<and> al_conn (ls 1) = None"
proof -
  obtain ls d' where run: "fold (lock_step (sample_pool (\<lambda>_. 0))) [TryAcquire 0, TryAcquire 1]
      (\<lambda>i. new_advisory_lock ''p'', ([], Map.empty)) = (ls, d')" by (metis surj_pair)
  then have first: "al_conn (ls 0) = Some 1" "al_name (ls 0) = ''p''" "al_name (ls 1) = ''p''"
    by (auto simp: pg_try_acquire_def sample_pool_def new_advisory_lock_def)
  from one_leader [OF sample_pool_behaves run, of 0 1 1] first have "al_conn (ls 1) = None" by auto
  with run first show ?thesis by blast
qed

end
