(* ===== verification/Pg_Migrate.thy ===== *)
theory Pg_Migrate
  imports Pg_Store
begin

text \<open>
  The schema: \<^verbatim>\<open>Store.Migrate\<close> of \<^verbatim>\<open>es/pgstore/eventstore.go\<close>, \<^verbatim>\<open>KeyRing.Migrate\<close>,
  \<^verbatim>\<open>ErasureLedger.Migrate\<close>, and the role statements of \<^verbatim>\<open>es/pgstore/tenant_bypass.go\<close>. A statement that
  makes a table or adds a column is kept in its parts, any other as its text; runs of white space in
  the texts are one space.
\<close>

section \<open>Statements\<close>

text \<open>A column has a name and a type; a table has columns and constraints.\<close>

datatype ddl =
    CreateTable string "(string \<times> string) list" "string list"
  | AddColumn string string string
  | OtherDdl string

fun ddl_text :: "ddl \<Rightarrow> string" where
  "ddl_text (CreateTable t cols cons) =
     ''CREATE TABLE IF NOT EXISTS '' @ t @ '' ('' @ join_strings '', '' (map (\<lambda>(c, ty). c @ '' '' @ ty) cols @ cons) @ '')''"
| "ddl_text (AddColumn t c ty) = ''ALTER TABLE '' @ t @ '' ADD COLUMN IF NOT EXISTS '' @ c @ '' '' @ ty"
| "ddl_text (OtherDdl s) = s"

text \<open>The columns that the statements give a table, and its constraints.\<close>

fun ddl_columns :: "string \<Rightarrow> ddl \<Rightarrow> string list" where
  "ddl_columns t (CreateTable u cols cons) = (if u = t then map fst cols else [])"
| "ddl_columns t (AddColumn u c ty) = (if u = t then [c] else [])"
| "ddl_columns t (OtherDdl s) = []"

definition quote_mark :: string where
  "quote_mark = [CHR 0x27]"

definition nil_uuid_text :: string where
  "nil_uuid_text = quote_mark @ ''00000000-0000-0000-0000-000000000000'' @ quote_mark"

section \<open>Migrate\<close>

text \<open>The only option is \<^verbatim>\<open>WithTenantIsolation\<close>.\<close>

datatype migrate_option = WithTenantIsolation

record migrate_config =
  mc_tenant_isolation :: bool

fun apply_migrate_option :: "migrate_option \<Rightarrow> migrate_config \<Rightarrow> migrate_config" where
  "apply_migrate_option WithTenantIsolation c = c\<lparr>mc_tenant_isolation := True\<rparr>"

definition migrate_base :: "ddl list" where
  "migrate_base =
     [CreateTable ''events''
        [(''global_id'', ''BIGSERIAL PRIMARY KEY''), (''id'', ''UUID NOT NULL''), (''aggregate_id'', ''UUID NOT NULL''),
         (''aggregate_version'', ''BIGINT NOT NULL''), (''version'', ''INT NOT NULL DEFAULT 1''), (''name'', ''TEXT NOT NULL''),
         (''payload'', ''JSONB NOT NULL''), (''occurred_at'', ''TIMESTAMPTZ NOT NULL DEFAULT now()'')]
        [''UNIQUE (aggregate_id, aggregate_version)''],
      CreateTable ''checkpoints''
        [(''name'', ''TEXT PRIMARY KEY''), (''last_global_id'', ''BIGINT NOT NULL DEFAULT 0'')] [],
      OtherDdl (''CREATE OR REPLACE FUNCTION notify_events() RETURNS trigger AS $$ BEGIN PERFORM pg_notify('' @ quote_mark @ ''events_channel'' @ quote_mark
        @ '', NEW.global_id::text); RETURN NEW; END; $$ LANGUAGE plpgsql''),
      OtherDdl ''DROP TRIGGER IF EXISTS events_notify ON events'',
      OtherDdl ''CREATE TRIGGER events_notify AFTER INSERT ON events FOR EACH ROW EXECUTE FUNCTION notify_events()'',
      AddColumn ''events'' ''tenant_id'' (''UUID NOT NULL DEFAULT '' @ nil_uuid_text),
      AddColumn ''events'' ''metadata'' ''JSONB'',
      OtherDdl (''DO $$ BEGIN IF NOT EXISTS (SELECT 1 FROM pg_constraint WHERE conname = ''
        @ quote_mark @ ''events_tenant_version_unique'' @ quote_mark
        @ '') THEN ALTER TABLE events ADD CONSTRAINT events_tenant_version_unique UNIQUE (tenant_id, aggregate_id, aggregate_version); END IF; END $$''),
      OtherDdl ''CREATE INDEX IF NOT EXISTS events_tenant_global_idx ON events (tenant_id, global_id)'',
      OtherDdl ''DROP INDEX IF EXISTS events_aggregate_id_idx'',
      OtherDdl ''DROP INDEX IF EXISTS events_tenant_aggregate_idx'']"

definition migrate_actor :: "ddl list" where
  "migrate_actor = [AddColumn ''events'' ''actor_id'' ''UUID'', AddColumn ''events'' ''actor_type'' ''TEXT'']"

definition migrate_pii :: "ddl list" where
  "migrate_pii =
     [AddColumn ''events'' ''pii_id'' ''UUID'', AddColumn ''events'' ''pii_fields'' ''JSONB'',
      OtherDdl ''CREATE INDEX IF NOT EXISTS events_pii_id_idx ON events (pii_id)'']"

definition migrate_isolation :: "ddl list" where
  "migrate_isolation =
     [OtherDdl ''ALTER TABLE events ENABLE ROW LEVEL SECURITY'',
      OtherDdl ''ALTER TABLE events FORCE ROW LEVEL SECURITY'',
      OtherDdl ''DROP POLICY IF EXISTS events_tenant_isolation ON events'',
      OtherDdl (''CREATE POLICY events_tenant_isolation ON events USING ( current_setting(''
        @ quote_mark @ ''app.tenant_id'' @ quote_mark @ '', true) IS NULL OR current_setting(''
        @ quote_mark @ ''app.tenant_id'' @ quote_mark @ '', true) = '' @ quote_mark @ quote_mark
        @ '' OR tenant_id = current_setting('' @ quote_mark @ ''app.tenant_id'' @ quote_mark
        @ '', true)::uuid OR tenant_id = '' @ nil_uuid_text @ '' )'')]"

definition migrate_stmts :: "pg_store \<Rightarrow> migrate_option list \<Rightarrow> ddl list" where
  "migrate_stmts st opts =
     (let cfg = fold apply_migrate_option opts \<lparr>mc_tenant_isolation = False\<rparr>
      in migrate_base
         @ (if pg_actor_tracking st then migrate_actor else [])
         @ (if pg_pii_tracking st then migrate_pii else [])
         @ (if mc_tenant_isolation cfg then migrate_isolation else []))"

fun migrate_loop :: "'d pg_db \<Rightarrow> ddl list \<Rightarrow> 'd \<Rightarrow> error option \<times> 'd" where
  "migrate_loop db [] d = (None, d)"
| "migrate_loop db (s # ss) d =
     (case db_exec db (Ddl (ddl_text s)) [] d of
        (Some err, d') \<Rightarrow> (Some (ErrWrap ''pgstore: migrate'' err), d')
      | (None, d') \<Rightarrow> migrate_loop db ss d')"

definition pg_migrate :: "pg_store \<Rightarrow> 'd pg_db \<Rightarrow> migrate_option list \<Rightarrow> 'd \<Rightarrow> error option \<times> 'd" where
  "pg_migrate st db opts d = migrate_loop db (migrate_stmts st opts) d"

definition keyring_ddl :: ddl where
  "keyring_ddl = CreateTable ''pii_keys'' [(''pii_id'', ''UUID PRIMARY KEY''), (''key'', ''BYTEA NOT NULL'')] []"

definition pg_kr_migrate :: "'d pg_db \<Rightarrow> 'd \<Rightarrow> error option \<times> 'd" where
  "pg_kr_migrate db d =
     (case db_exec db (Ddl (ddl_text keyring_ddl)) [] d of
        (Some err, d') \<Rightarrow> (Some (ErrWrap ''pgstore: migrate keyring'' err), d')
      | (None, d') \<Rightarrow> (None, d'))"

definition ledger_ddl :: ddl where
  "ledger_ddl = CreateTable ''pii_shreds''
     [(''id'', ''BIGSERIAL PRIMARY KEY''), (''pii_id'', ''UUID NOT NULL''), (''erased_at'', ''TIMESTAMPTZ NOT NULL''),
      (''origin_global_id'', ''BIGINT NOT NULL DEFAULT 0''), (''prev_hash'', ''BYTEA NOT NULL''), (''hash'', ''BYTEA NOT NULL'')] []"

definition pg_ledger_migrate :: "'d pg_db \<Rightarrow> 'd \<Rightarrow> error option \<times> 'd" where
  "pg_ledger_migrate db d =
     (case db_exec db (Ddl (ddl_text ledger_ddl)) [] d of
        (Some err, d') \<Rightarrow> (Some (ErrWrap ''pgstore: migrate erasure ledger'' err), d')
      | (None, d') \<Rightarrow> (None, d'))"

section \<open>The tenant bypass\<close>

text \<open>\<open>quote\<close> is \<^verbatim>\<open>pq.QuoteIdentifier\<close>.\<close>

definition grant_tenant_bypass :: "(string \<Rightarrow> string) \<Rightarrow> 'd pg_db \<Rightarrow> string \<Rightarrow> 'd \<Rightarrow> error option \<times> 'd" where
  "grant_tenant_bypass quote db role d =
     (case db_exec db (Ddl (''ALTER ROLE '' @ quote role @ '' BYPASSRLS'')) [] d of
        (Some err, d') \<Rightarrow> (Some (ErrWrap ''pgstore: grant tenant bypass'' err), d')
      | (None, d') \<Rightarrow> (None, d'))"

definition revoke_tenant_bypass :: "(string \<Rightarrow> string) \<Rightarrow> 'd pg_db \<Rightarrow> string \<Rightarrow> 'd \<Rightarrow> error option \<times> 'd" where
  "revoke_tenant_bypass quote db role d =
     (case db_exec db (Ddl (''ALTER ROLE '' @ quote role @ '' NOBYPASSRLS'')) [] d of
        (Some err, d') \<Rightarrow> (Some (ErrWrap ''pgstore: revoke tenant bypass'' err), d')
      | (None, d') \<Rightarrow> (None, d'))"

section \<open>The schema fits the queries\<close>

fun cond_column :: "pg_cond \<Rightarrow> string" where
  "cond_column (CEq c n) = c"
| "cond_column (CGt c n) = c"
| "cond_column (CIn c n m) = c"

text \<open>The columns of \<^verbatim>\<open>events\<close> that a statement names.\<close>

fun stmt_columns :: "pg_stmt \<Rightarrow> string set" where
  "stmt_columns (SelectEvents q) = set (sl_columns q) \<union> set (map cond_column (sl_conds q)) \<union> {sl_order q}"
| "stmt_columns (SelectVersion cs) = insert ''aggregate_version'' (set (map cond_column cs))"
| "stmt_columns (InsertEvent cols) = insert ''global_id'' (set cols)"
| "stmt_columns _ = {}"

definition migrated_columns :: "pg_store \<Rightarrow> migrate_option list \<Rightarrow> string list" where
  "migrated_columns st opts = concat (map (ddl_columns ''events'') (migrate_stmts st opts))"

lemma migrated_columns_eq:
  "migrated_columns st opts =
     [''global_id'', ''id'', ''aggregate_id'', ''aggregate_version'', ''version'', ''name'', ''payload'', ''occurred_at'',
      ''tenant_id'', ''metadata'']
     @ (if pg_actor_tracking st then [''actor_id'', ''actor_type''] else [])
     @ (if pg_pii_tracking st then [''pii_id'', ''pii_fields''] else [])"
  by (cases "mc_tenant_isolation (fold apply_migrate_option opts \<lparr>mc_tenant_isolation = False\<rparr>)")
    (simp_all add: migrated_columns_def migrate_stmts_def migrate_base_def migrate_actor_def migrate_pii_def
      migrate_isolation_def Let_def)

lemma scope_reads_columns:
  "set (map cond_column (fst (scope_reads cfg (conds, args)))) \<subseteq> insert ''tenant_id'' (set (map cond_column conds))"
  by (auto simp: scope_reads_def split: option.splits)

lemma pg_columns_migrated: "set (pg_columns st) = set (migrated_columns st opts)"
  by (auto simp: migrated_columns_eq pg_columns_def)

lemma read_columns:
  "stmt_columns (fst (pg_load_query st i opts)) \<subseteq> set (pg_columns st)"
  "stmt_columns (fst (pg_fetch_query st g limit opts)) \<subseteq> set (pg_columns st)"
  "pg_pii_tracking st \<Longrightarrow> stmt_columns (fst (pg_pii_query st i opts)) \<subseteq> set (pg_columns st)"
  "stmt_columns (fst (pg_version_query (resolve_store_config opts) i)) \<subseteq> set (pg_columns st)"
  by (cases "cfg_tenant_id (resolve_store_config opts)";
      simp add: pg_load_query_def pg_fetch_query_def pg_pii_query_def pg_version_query_def scope_reads_def;
      simp add: pg_columns_def)+

text \<open>
  C30. \<^verbatim>\<open>Migrate\<close> creates exactly the columns the store uses, no more and no less: for every combination of
  the tracking options, whether isolation is asked for or not, the columns it gives \<^verbatim>\<open>events\<close> are those
  of the select list, each once; every column that any other part of a statement names is one of
  them; and a store without PII tracking, whose table has no \<^verbatim>\<open>pii_id\<close>, never sends the query for it.
\<close>

theorem schema_fits_queries:
  "set (migrated_columns st mopts) = set (pg_columns st) \<and> distinct (migrated_columns st mopts)
   \<and> stmt_columns (fst (pg_load_query st i opts)) \<subseteq> set (pg_columns st)
   \<and> stmt_columns (fst (pg_fetch_query st g limit opts)) \<subseteq> set (pg_columns st)
   \<and> stmt_columns (fst (pg_version_query (resolve_store_config opts) i)) \<subseteq> set (pg_columns st)
   \<and> stmt_columns (fst (pg_insert_query st e)) = set (pg_columns st)
   \<and> (if pg_pii_tracking st then stmt_columns (fst (pg_pii_query st i opts)) \<subseteq> set (pg_columns st)
      else \<exists>err. pg_fetch_by_pii_id st db p opts d = Inl err)"
proof (intro conjI)
  show "set (migrated_columns st mopts) = set (pg_columns st)" by (rule pg_columns_migrated [symmetric])
  show "distinct (migrated_columns st mopts)" by (auto simp: migrated_columns_eq)
  show "stmt_columns (fst (pg_insert_query st e)) = set (pg_columns st)"
    by (simp add: pg_insert_query_def pg_columns_insert)
qed (use read_columns in \<open>auto simp: pg_fetch_by_pii_id_def\<close>)

text \<open>
  A migration runs its statements in order and stops at the first that fails; with a database on which
  they succeed, all are run.
\<close>

lemma migrate_loop_runs:
  "(\<And>s d. fst (db_exec db s [] d) = None) \<Longrightarrow>
   migrate_loop db ss d = (None, fold (\<lambda>s d. snd (db_exec db (Ddl (ddl_text s)) [] d)) ss d)"
proof (induction ss arbitrary: d)
  case (Cons s ss)
  obtain d' where "db_exec db (Ddl (ddl_text s)) [] d = (None, d')" using Cons.prems by (metis prod.collapse)
  with Cons show ?case by simp
qed simp

end
