(* ===== verification/Spec2Isabelle.thy ===== *)
theory Spec2Isabelle
  imports Pii_Stream Es_Aggregate Mem_Reads Es_Repository User_Domain Ledger_Domain Ledger_Workers
    Es_Dispatcher Es_Notifier Es_Pii_Store Mem_Pii Es_Export Mem_Stream User_Demo Ledger_Program
    Pg_Listen Pg_Stack Pg_Lock Pg_Migrate
begin

text \<open>
  A model of go-es-light, an event-sourcing library in Go, of its in-memory and Postgres backends and of
  its two example programs, with the theorems that make its parts correct.

  The program. An aggregate records events (\<^verbatim>\<open>es/aggregate.go\<close>); a repository commits them to an event
  store and rebuilds the aggregate from its history (\<^verbatim>\<open>es/repository.go\<close>); a store keeps one log of all
  events, numbered by a global id, and per tenant and aggregate a stream, numbered by version, on which a
  commit is refused unless the caller knew the last version (\<^verbatim>\<open>es/store.go\<close>, \<^verbatim>\<open>es/memstore\<close>,
  \<^verbatim>\<open>es/pgstore\<close>). Decorators bind a store to a tenant (\<^verbatim>\<open>es/tenant_store.go\<close>) or seal personal data in
  it (\<^verbatim>\<open>es/pii_store.go\<close>), under keys that a ring holds and that erasing a subject destroys. On the read
  side a worker follows the log (\<^verbatim>\<open>StreamAll\<close>, \<^verbatim>\<open>FetchAfter\<close>), dispatches each event to projectors and
  reactors (\<^verbatim>\<open>es/dispatcher.go\<close>) and wakes who waits for a version (\<^verbatim>\<open>es/notifier.go\<close>).

  How it is modelled. A struct is a \<open>record\<close>, an interface a record of its operations (\<open>event_store_ops\<close>,
  \<open>keyring_ops\<close>, \<open>ledger_ops\<close>, \<open>pg_db\<close>), a method a function that returns its results and the state
  updated, an error a value of \<open>error\<close> with \<^verbatim>\<open>errors.Is\<close> as \<open>errors_is\<close>. \<^verbatim>\<open>uint64\<close>, \<^verbatim>\<open>int64\<close> and UUIDs are
  words, times are nanoseconds, JSON documents are values. A method that runs under a mutex is one
  function; where the order of goroutines matters the code is a step relation, and the theorems hold for
  every interleaving. Slices of pointers that a call writes through are returned updated. What
  is not in the repository -- SHA-256, AES-GCM, the database, the connection pool, the text of JSON -- is a
  parameter, and what the code relies on of it is a named predicate (\<open>crypto_ok\<close>, \<open>pg_behaves\<close>,
  \<open>keys_behave\<close>, \<open>shreds_behave\<close>, \<open>pool_behaves\<close>), each met by a concrete instance in the witnesses. The
  contracts between parts are locales (\<open>event_feed\<close>, \<open>event_store\<close>, \<open>keyring\<close> and its extensions,
  \<open>erasure_ledger\<close>, \<open>scoped_store\<close>, \<open>pii_store\<close>, \<open>live_store\<close>, \<open>posting\<close>, \<open>read_model\<close>), interpreted on the model of the code that keeps them.

  The theories, with the code they model and what their lemmas show.

  \<^item> \<open>Es_Prelude\<close>, \<open>Es_Json\<close>, \<open>Es_Base64\<close>: types, errors, byte codecs; what is used of
    \<^verbatim>\<open>encoding/json\<close> and \<^verbatim>\<open>encoding/base64\<close>, with the round trips.
  \<^item> \<open>Es_Event\<close>, \<open>Es_Aggregate\<close>: \<^verbatim>\<open>es/event.go\<close>, the options of \<^verbatim>\<open>es/store.go\<close>, \<^verbatim>\<open>es/registry.go\<close> and
    \<^verbatim>\<open>es/aggregate.go\<close>. What is buffered continues the history (\<open>sourced\<close>), and replaying both gives the
    state.
  \<^item> \<open>Mem_Store\<close>, \<open>Mem_Reads\<close>, \<open>Mem_Stream\<close>: \<^verbatim>\<open>es/memstore/eventstore.go\<close>. The log invariant; commit is
    atomic and conflicts exactly on a version mismatch; reads see their tenant and the global one; a
    subscriber gets its visible log in order under every interleaving, at most 66 events late; and a
    commit can get stuck on a subscriber that leaves, which is the only way to get stuck.
  \<^item> \<open>Es_Store\<close>, \<open>Es_Repository\<close>: \<^verbatim>\<open>EventStore\<close>, \<^verbatim>\<open>es/tenant_store.go\<close>, \<^verbatim>\<open>es/repository.go\<close>.
  \<^item> \<open>Event_Feed\<close>: reading a log by cursor, and the contract of \<^verbatim>\<open>FetchAfter\<close> it needs.
  \<^item> \<open>Es_Keyring\<close>, \<open>Es_Pii\<close>, \<open>Es_Wrapped_Keyring\<close>: \<^verbatim>\<open>es/pii.go\<close>, \<^verbatim>\<open>es/memstore/keyring.go\<close>,
    \<^verbatim>\<open>es/wrapped_keyring.go\<close>. Sealing and opening are inverse while the key exists; a wrapped ring is a
    ring; rotating changes no key, and cannot be resumed.
  \<^item> \<open>Es_Erasure\<close>: \<^verbatim>\<open>es/erasure_ledger.go\<close> and the in-memory ledger: the hash chain, what it proves and
    what it cannot, and the verifier.
  \<^item> \<open>Es_Pii_Store\<close>, \<open>Mem_Pii\<close>: \<^verbatim>\<open>es/pii_store.go\<close> over any store, ring and ledger, and over the
    in-memory ones: round trip, erasure that is carried out and provable, and three ways to go wrong.
    \<open>Pii_Stream\<close>: its \<^verbatim>\<open>StreamAll\<close> over that of the in-memory store: a subscriber gets the opened log in
    order, and an event that fails to open can block the store.
  \<^item> \<open>Es_Export\<close>: \<^verbatim>\<open>es/pii_lookup.go\<close>, \<^verbatim>\<open>es/dsar.go\<close>: the export of a subject and its document.
  \<^item> \<open>Es_Dispatcher\<close>, \<open>Es_Notifier\<close>, \<open>Read_Worker\<close>: \<^verbatim>\<open>es/dispatcher.go\<close>, \<^verbatim>\<open>es/notifier.go\<close> and a worker
    made of both: \<^verbatim>\<open>Dispatch\<close> runs who subscribed to the event's name, in order; a projection is a fold over
    the log, and waiting for a version ends when it is there.
  \<^item> \<open>Pg_Sql\<close>, \<open>Pg_Store\<close>, \<open>Pg_Migrate\<close>: \<^verbatim>\<open>es/pgstore/eventstore.go\<close> and \<^verbatim>\<open>tenant_bypass.go\<close>: the
    statements with their arguments, the operations, the schema. \<open>Pg_Commit\<close>: a commit is all or nothing.
    \<open>Pg_Concurrent\<close>: concurrent commits, with a tenant or without one, are serialized per aggregate, but
    become visible out of the order of their ids. \<open>Pg_Reads\<close>: the reads answer as those of the in-memory store. \<open>Pg_Stream\<close>: what the
    rounds of \<^verbatim>\<open>StreamAll\<close> deliver, and what they lose; \<open>Pg_Listen\<close>: its goroutine with its channels, its
    context and its listener, while other sessions add rows in any order: nothing is repeated or reordered,
    nothing is lost that was visible in time, and outside \<^verbatim>\<open>Listen\<close> it can be ended.
  \<^item> \<open>Pg_Keys\<close>, \<open>Pg_Ledger\<close>, \<open>Pg_Lock\<close>: \<^verbatim>\<open>es/pgstore/keyring.go\<close>, \<^verbatim>\<open>erasure_ledger.go\<close>,
    \<^verbatim>\<open>advisory_lock.go\<close>: the contracts of a ring and a ledger (for times that the column stores within their
    second), where the ledger breaks, one leader.
  \<^item> \<open>Pg_Repository\<close>, \<open>Pg_Stack\<close>: the Postgres store as an \<^verbatim>\<open>EventStore\<close>, with what is relied on of the
    database in its invariant, and the deployed stack: \<^verbatim>\<open>Repository\<close> and \<^verbatim>\<open>PiiEventStore\<close> over the three
    Postgres tables. What is saved is loaded, sealed in between, and an erasure can be proved.
  \<^item> \<open>User_Domain\<close>, \<open>User_App\<close>, \<open>User_Read_Model\<close>: \<^verbatim>\<open>examples/user\<close>; \<open>User_Demo\<close>: its
    \<^verbatim>\<open>main\<close>, with what it reports, over \<open>Sealed_Log\<close>: a log described by the events recorded, through
    commits, erasures and reads. \<open>Ledger_Domain\<close>,
    \<open>Ledger_Workers\<close>, \<open>Ledger_Statements\<close>: \<^verbatim>\<open>examples/ledger\<close>, with its goroutines that post
    transactions and retry: they end, and no transaction is lost or posted twice. \<open>Pii_Live\<close>: sealing
    does not get in the way of such loops. \<open>Ledger_Sealed\<close>, \<open>Ledger_Run\<close>: the composition root of the
    ledger demo and all of its goroutines at once. \<open>Ledger_Demo\<close>: what the demo does after them, up to its
    last check. \<open>Ledger_Final\<close>, \<open>Ledger_Checks\<close>, \<open>Ledger_Reports\<close>, \<open>Ledger_Live\<close>, \<open>Ledger_Program\<close>: the
    state it has then, and that every check passes.

  Bounds and fuel. \<open>drain\<close> takes fuel, one unit per page and one for the empty page that ends it; a log of
  \<open>n\<close> visible events needs at most \<open>n + 1\<close>, and the theorems that promise a result ask for that
  much. \<open>budget\<close> is the number of events the receiver takes before it cancels. Theorems on the order of
  ids ask that fewer than \<open>2 ^ 64\<close> events were stored, since the counters wrap.

  Not modelled. Contexts and their cancellation, except where a stream or a worker stops on it; what
  happens inside the listener connection of \<^verbatim>\<open>pgstore\<close>'s \<^verbatim>\<open>StreamAll\<close>, a library's; row-level security,
  which is a matter of the database (its policy is in the migration as text); that \<^verbatim>\<open>encoding/json\<close> takes
  object keys that differ from a field's name in case only, which no code here writes; the texts that the examples
  print; the interface \<^verbatim>\<open>es/advisory_lock.go\<close>, which has no code.
\<close>

section \<open>Properties that span components\<close>

text \<open>
  C7. Query after command, from the use case to the read model: when a use case answers with a view,
  and the worker of the user's tenant has gone through the log the tenant sees then, the read model
  answers with that same view, and waiting for the view's version ends at once. The use case, the
  repository, the aggregate, the store, the dispatcher, the projector and the notifier take part.
\<close>

theorem query_after_command:
  assumes "mem_inv s" "versions_from 0 (mem_stream [WithTenant t] s i)"
    and "ms_by_aggregate s (global_tenant_id, i) = []" "ms_by_aggregate s' (global_tenant_id, i) = []"
    and "(Inr v, s') \<in> {register_user mem_ops new_id now \<lparr>ru_tenant_id = t, ru_user_id = i, ru_email = email, ru_name = name, ru_actor = actor\<rparr> s,
        change_email mem_ops new_id now \<lparr>ce_tenant_id = t, ce_user_id = i, ce_email = email, ce_actor = actor\<rparr> s,
        change_name mem_ops new_id now \<lparr>cn_tenant_id = t, cn_user_id = i, cn_name = name\<rparr> s}"
    and "\<forall>e \<in> set (ms_all s'). \<not> ev_pii_unrecoverable e"
    and "dispatch_all user_dispatcher (visible_log [WithTenant t] s') ((views_new, []), new_notifier) = ((m, sent), n)"
    and "notifier_subscribe i (uv_version v) n = (ch, n')"
  shows "m i = Some v \<and> ch \<in> nt_closed n'"
proof -
  have "use_case_ok i [WithTenant t] s (Inr v) s'"
    by (rule use_cases_ok [OF assms(1-3,5)])
  then obtain u where u: "load_user mem_ops i [WithTenant t] s' = Inr u" "to_view u = v" and inv: "mem_inv s'"
    by (auto simp: use_case_ok_def)
  let ?mine = "filter (\<lambda>e. ev_aggregate_id e = i) (visible_log [WithTenant t] s')"
  have mine: "?mine = mem_stream [WithTenant t] s' i"
    using visible_stream [of s' i t] inv assms(4) by (simp add: mem_inv_def scope_key_def)
  have ne: "?mine \<noteq> []"
  proof
    assume "?mine = []"
    with mine assms(4) have "mem_load i [WithTenant t] s' = Inl ErrAggregateNotFound"
      by (simp add: mem_load_def scope_key_def Let_def)
    with u(1) show False by (simp add: repo_load_def)
  qed
  then have "load_from_history user_ops user_apply user_events ?mine (set_id i new_user) = (None, u)"
    using u(1) mem.load_stream [OF inv, of "[WithTenant t]" i] mine
    by (auto simp: repo_load_def split: prod.splits option.splits)
  moreover have "agg_version u = uv_version v" using u(2) by (auto simp: to_view_def)
  moreover have "\<not> email_erased ?mine"
  proof -
    let ?xs = "filter (\<lambda>e. ev_name e = user_registered \<or> ev_name e = user_email_changed) ?mine"
    have "last ?xs \<in> set ?xs" if "?xs \<noteq> []" using that by (rule last_in_set)
    with assms(6) show ?thesis by (auto simp: email_erased_def Let_def)
  qed
  ultimately show ?thesis
    using user_worker_caught_up [OF _ ne assms(7)] assms(8) u(2) by (simp add: shown_view_def)
qed

text \<open>Registering a user in an empty store.\<close>

lemma register_in_new_store:
  "\<exists>v s'. register_user mem_ops 9 0 \<lparr>ru_tenant_id = 5, ru_user_id = 7, ru_email = ''a@b'', ru_name = ''Ann'',
      ru_actor = \<lparr>ua_id = 0, ua_type = []\<rparr>\<rparr> mem_new = (Inr v, s')
    \<and> ms_by_aggregate s' (global_tenant_id, 7) = [] \<and> (\<forall>e \<in> set (ms_all s'). \<not> ev_pii_unrecoverable e)"
  by (simp add: register_user_def save_command_def user_register_def record_that_def repo_load_def repo_save_def
      mem_commit_eq mem_load_def mem_new_def new_user_def set_id_def user_actor_opts_def user_actor_is_set_def
      current_version_def Let_def global_tenant_id_def with_metadata_def fresh_envelope_def zero_event_def
      decoded_metadata_def commit_key_def aggregate_key_def stamp_tenant_def)

theorem query_after_command_witness:
  "\<exists>v s' m sent n. register_user mem_ops 9 0 \<lparr>ru_tenant_id = 5, ru_user_id = 7, ru_email = ''a@b'',
      ru_name = ''Ann'', ru_actor = \<lparr>ua_id = 0, ua_type = []\<rparr>\<rparr> mem_new = (Inr v, s')
    \<and> dispatch_all user_dispatcher (visible_log [WithTenant 5] s') ((views_new, []), new_notifier) = ((m, sent), n)
    \<and> m 7 = Some v"
proof -
  obtain v s' where r: "register_user mem_ops 9 0 \<lparr>ru_tenant_id = 5, ru_user_id = 7, ru_email = ''a@b'',
      ru_name = ''Ann'', ru_actor = \<lparr>ua_id = 0, ua_type = []\<rparr>\<rparr> mem_new = (Inr v, s')"
    "ms_by_aggregate s' (global_tenant_id, 7) = []" "\<forall>e \<in> set (ms_all s'). \<not> ev_pii_unrecoverable e"
    using register_in_new_store by blast
  obtain m sent n where d: "dispatch_all user_dispatcher (visible_log [WithTenant 5] s')
      ((views_new, []), new_notifier) = ((m, sent), n)" by (metis surj_pair)
  obtain ch n' where c: "notifier_subscribe 7 (uv_version v) n = (ch, n')" by force
  have "versions_from 0 (mem_stream [WithTenant 5] mem_new 7)" "ms_by_aggregate mem_new (global_tenant_id, 7) = []"
    by (simp_all add: mem_new_def)
  from query_after_command [OF mem_inv_new this r(2) _ r(3) d c, of 9 0 "''a@b''" "''Ann''" "\<lparr>ua_id = 0, ua_type = []\<rparr>"]
  have "m 7 = Some v" by (simp add: r(1))
  with r(1) d show ?thesis by blast
qed

end
